(* ===== verification/Prelude.thy ===== *)
theory Prelude
  imports Main "HOL-Library.Word"
begin

text \<open>
  The vocabulary shared by every component of the kernel model.

  \<^item> The C integer types of \<^verbatim>\<open>kernel/types.h\<close> as machine words. A C \<^verbatim>\<open>int\<close> is kept
    at its width too (\<open>cint\<close>) and read with \<open>sint\<close> where its sign matters.
  \<^item> The outcome of running a piece of kernel code: a value, a call of \<^verbatim>\<open>panic\<close> (with its
    message), a thread that has to sleep, or an access outside the object it was meant for
    (undefined behaviour in C). \<open>bindR\<close> sequences such outcomes.
  \<^item> The scan loops \<^verbatim>\<open>for(p = tab; p < &tab[N]; p++)\<close> over a table, as \<open>first_idx\<close>.
  \<^item> Lemmas on words and lists that several components use.
\<close>

unbundle bit_operations_syntax

type_synonym uchar = "8 word"
type_synonym ushort = "16 word"
type_synonym uint = "32 word"
type_synonym uint64 = "64 word"
type_synonym cint = "32 word"

named_theorems run_simps \<open>rules that execute model operations symbolically\<close>
named_theorems frame_simps \<open>rules that say what an operation leaves unchanged\<close>

section \<open>Outcomes\<close>

datatype 'a result =
    Ok 'a
  | Panic string
  | Blocked
  | Undef

primrec bindR :: "'a result \<Rightarrow> ('a \<Rightarrow> 'b result) \<Rightarrow> 'b result" where
  "bindR (Ok x) k = k x"
| "bindR (Panic msg) k = Panic msg"
| "bindR Blocked k = Blocked"
| "bindR Undef k = Undef"

lemma bindR_eq_Ok [simp]: "bindR m k = Ok y \<longleftrightarrow> (\<exists>x. m = Ok x \<and> k x = Ok y)"
  by (cases m) auto

lemma bindR_cong [fundef_cong]:
  "m = m' \<Longrightarrow> (\<And>x. m' = Ok x \<Longrightarrow> k x = k' x) \<Longrightarrow> bindR m k = bindR m' k'"
  by (cases m') auto

lemma bindR_assoc: "bindR (bindR m f) g = bindR m (\<lambda>x. bindR (f x) g)"
  by (cases m) auto

lemma bindR_OkE:
  assumes "bindR m k = Ok y"
  obtains x where "m = Ok x" "k x = Ok y"
  using assms by auto

text \<open>\<open>okR Q m\<close>: the code ran to its end and the result satisfies \<open>Q\<close>.\<close>

definition okR :: "('a \<Rightarrow> bool) \<Rightarrow> 'a result \<Rightarrow> bool" where
  "okR Q m \<longleftrightarrow> (\<exists>x. m = Ok x \<and> Q x)"

lemma okR_simps [simp]:
  "okR Q (Ok x) = Q x" "okR Q (Panic msg) = False" "okR Q Blocked = False" "okR Q Undef = False"
  by (auto simp: okR_def)

lemma okR_bindR: "okR Q (bindR m k) = okR (\<lambda>x. okR Q (k x)) m"
  by (cases m) auto

lemma okR_mono: "okR Q m \<Longrightarrow> (\<And>x. m = Ok x \<Longrightarrow> Q x \<Longrightarrow> Q' x) \<Longrightarrow> okR Q' m"
  by (auto simp: okR_def)

section \<open>Table scans\<close>

text \<open>
  The kernel's tables (\<^verbatim>\<open>proc\<close>, \<^verbatim>\<open>ftable.file\<close>, \<^verbatim>\<open>p->ofile\<close>, \<^verbatim>\<open>disk.free\<close>) are arrays
  that are scanned from index 0 for the first entry with some property.
\<close>

fun first_idx :: "('a \<Rightarrow> bool) \<Rightarrow> 'a list \<Rightarrow> nat option" where
  "first_idx P [] = None"
| "first_idx P (x # xs) = (if P x then Some 0 else map_option Suc (first_idx P xs))"

lemma first_idx_None: "first_idx P xs = None \<longleftrightarrow> (\<forall>x \<in> set xs. \<not> P x)"
  by (induction xs) auto

lemma first_idx_Some:
  "first_idx P xs = Some i \<longleftrightarrow> i < length xs \<and> P (xs ! i) \<and> (\<forall>j < i. \<not> P (xs ! j))"
proof (induction xs arbitrary: i)
  case Nil
  then show ?case by simp
next
  case (Cons x xs)
  show ?case
  proof (cases i)
    case 0
    then show ?thesis by auto
  next
    case (Suc k)
    have "first_idx P (x # xs) = Some (Suc k) \<longleftrightarrow> \<not> P x \<and> first_idx P xs = Some k"
      by auto
    also have "\<dots> \<longleftrightarrow> \<not> P x \<and> k < length xs \<and> P (xs ! k) \<and> (\<forall>j < k. \<not> P (xs ! j))"
      by (simp add: Cons.IH)
    also have "\<dots> \<longleftrightarrow> Suc k < length (x # xs) \<and> P ((x # xs) ! Suc k) \<and> (\<forall>j < Suc k. \<not> P ((x # xs) ! j))"
      by (auto simp: less_Suc_eq_0_disj nth_Cons split: nat.splits)
    finally show ?thesis by (simp add: Suc)
  qed
qed

lemma first_idx_length: "first_idx P xs = Some i \<Longrightarrow> i < length xs"
  by (simp add: first_idx_Some)

lemma first_idx_sat: "first_idx P xs = Some i \<Longrightarrow> P (xs ! i)"
  by (simp add: first_idx_Some)

lemma first_idx_least: "first_idx P xs = Some i \<Longrightarrow> j < i \<Longrightarrow> \<not> P (xs ! j)"
  by (simp add: first_idx_Some)

lemma first_idx_exists: "i < length xs \<Longrightarrow> P (xs ! i) \<Longrightarrow> \<exists>j \<le> i. first_idx P xs = Some j"
proof (cases "first_idx P xs")
  case None
  assume "i < length xs" "P (xs ! i)"
  with None show ?thesis by (auto simp: first_idx_None)
next
  case (Some j)
  assume "i < length xs" "P (xs ! i)"
  with Some have "\<not> i < j" by (auto simp: first_idx_Some)
  with Some show ?thesis by (intro exI [of _ j]) simp
qed

section \<open>Words\<close>

lemma unat_lt2p: "unat x < 2 ^ LENGTH('a)" for x :: "'a::len word"
  by simp

lemma word_offset_iff:
  fixes x a :: "'a::len word"
  assumes "i < 2 ^ LENGTH('a)"
  shows "x = a + of_nat i \<longleftrightarrow> unat (x - a) = i"
proof
  assume "unat (x - a) = i"
  then have "of_nat i = x - a" by auto
  then show "x = a + of_nat i" by simp
qed (use assms in \<open>simp add: unat_of_nat\<close>)

lemma unat_of_nat_small: "n < 2 ^ LENGTH('a::len) \<Longrightarrow> unat (of_nat n :: 'a word) = n"
  by (simp add: unat_of_nat)

lemma word_add_of_nat_inj:
  fixes a :: "'a::len word"
  assumes "i < 2 ^ LENGTH('a)" "j < 2 ^ LENGTH('a)"
  shows "a + of_nat i = a + of_nat j \<longleftrightarrow> i = j"
  using assms by (metis add_left_cancel unat_of_nat_small)

lemma unat_add_nat:
  "unat a + i < 2 ^ LENGTH('a) \<Longrightarrow> unat (a + of_nat i) = unat a + i" for a :: "'a::len word"
proof -
  assume "unat a + i < 2 ^ LENGTH('a)"
  then have "unat (of_nat (unat a + i) :: 'a word) = unat a + i"
    by (rule unat_of_nat_small)
  then show ?thesis by simp
qed

lemma unat_sub_Suc:
  fixes x d :: "'a::len word"
  assumes "x \<noteq> d"
  shows "unat (x - d) = Suc (unat (x - (d + 1)))"
  using unat_minus_one [of "x - d"] assms by (simp add: diff_diff_add [symmetric] unat_gt_0)

lemma unat_sub_wrap: "unat (d - (d + 1)) = 2 ^ LENGTH('a) - 1" for d :: "'a::len word"
  by (simp add: unsigned_minus_1_eq_mask mask_eq_exp_minus_1)

lemma unat_diff_less_iff:
  fixes x a :: "'a::len word"
  assumes "n \<le> 2 ^ LENGTH('a)"
  shows "unat (x - a) < n \<longleftrightarrow> (\<exists>i < n. x = a + of_nat i)"
proof
  assume *: "unat (x - a) < n"
  have "x = a + of_nat (unat (x - a))" by simp
  with * show "\<exists>i < n. x = a + of_nat i" by blast
next
  assume "\<exists>i < n. x = a + of_nat i"
  then obtain i where i: "i < n" "x = a + of_nat i" by blast
  with assms have "unat (of_nat i :: 'a word) = i" by (simp add: unat_of_nat)
  with i show "unat (x - a) < n" by simp
qed

end
