(* ===== verification/CMemory.thy ===== *)
theory CMemory
  imports Prelude
begin

text \<open>
  Byte-addressed memory and the little-endian loads and stores RISC-V makes on it.
  A memory is a function from addresses to bytes; the address width is a type parameter, so
  that the same operations serve physical memory (64-bit addresses) and the 1024 bytes of a
  disk block (10-bit offsets). \<open>load_le n m a\<close> reads \<open>n\<close> bytes at \<open>a\<close>, least significant
  first, and \<open>store_le n m a v\<close> writes them.
\<close>

unbundle bit_operations_syntax

type_synonym 'a bytes = "'a word \<Rightarrow> uchar"
type_synonym memory = "64 bytes"

section \<open>Words and their bytes\<close>

definition byte_of :: "'v::len word \<Rightarrow> nat \<Rightarrow> uchar" where
  "byte_of v i = ucast (drop_bit (8 * i) v)"

primrec le_word :: "nat \<Rightarrow> (nat \<Rightarrow> uchar) \<Rightarrow> 'v::len word" where
  "le_word 0 f = 0"
| "le_word (Suc n) f = le_word n f OR push_bit (8 * n) (ucast (f n))"

lemma bit_byte_of: "bit (byte_of v i) k \<longleftrightarrow> k < 8 \<and> bit v (8 * i + k)" for v :: "'v::len word"
  unfolding byte_of_def bit_unsigned_iff bit_drop_bit_eq possible_bit_word by simp

lemma bit_le_word:
  "bit (le_word n f :: 'v::len word) k \<longleftrightarrow>
     k < LENGTH('v) \<and> k < 8 * n \<and> bit (f (k div 8)) (k mod 8)"
proof (induction n)
  case 0
  then show ?case by simp
next
  case (Suc n)
  have "bit (push_bit (8 * n) (ucast (f n)) :: 'v word) k \<longleftrightarrow>
      k < LENGTH('v) \<and> 8 * n \<le> k \<and> k < 8 * n + 8 \<and> bit (f n) (k - 8 * n)"
    by (auto simp: bit_simps dest: bit_imp_le_length)
  moreover have "k div 8 = n \<and> k mod 8 = k - 8 * n" if "8 * n \<le> k" "k < 8 * n + 8"
  proof -
    from that obtain r where "k = 8 * n + r" "r < 8" by (auto dest: le_Suc_ex)
    then show ?thesis by simp
  qed
  ultimately show ?case
    by (auto simp: Suc.IH bit_simps)
qed

lemma le_word_byte_of:
  assumes "LENGTH('v::len) \<le> 8 * n"
  shows "le_word n (byte_of (v :: 'v word)) = v"
proof (rule bit_word_eqI)
  fix k
  assume "k < LENGTH('v)"
  with assms show "bit (le_word n (byte_of v) :: 'v word) k = bit v k"
    by (simp add: bit_le_word bit_byte_of)
qed

lemma le_word_cong: "(\<And>i. i < n \<Longrightarrow> f i = g i) \<Longrightarrow> le_word n f = le_word n g"
  by (induction n) auto

lemma le_word_zero [simp]: "le_word n (\<lambda>_. 0) = 0"
  by (induction n) auto

section \<open>Loads and stores\<close>

definition load_le :: "nat \<Rightarrow> 'a::len bytes \<Rightarrow> 'a word \<Rightarrow> 'v::len word" where
  "load_le n m a = le_word n (\<lambda>i. m (a + of_nat i))"

definition store_le :: "nat \<Rightarrow> 'a::len bytes \<Rightarrow> 'a word \<Rightarrow> 'v::len word \<Rightarrow> 'a bytes" where
  "store_le n m a v = (\<lambda>x. if unat (x - a) < n then byte_of v (unat (x - a)) else m x)"

abbreviation load64 :: "memory \<Rightarrow> uint64 \<Rightarrow> uint64" where
  "load64 \<equiv> load_le 8"

abbreviation store64 :: "memory \<Rightarrow> uint64 \<Rightarrow> uint64 \<Rightarrow> memory" where
  "store64 \<equiv> store_le 8"

text \<open>Two accesses are apart when no byte of the first is a byte of the second.\<close>

definition apart :: "'a::len word \<Rightarrow> nat \<Rightarrow> 'a word \<Rightarrow> nat \<Rightarrow> bool" where
  "apart a n b k \<longleftrightarrow> (\<forall>i < n. k \<le> unat (a + of_nat i - b))"

lemma load_store_same:
  assumes "LENGTH('v::len) \<le> 8 * n" "n \<le> 2 ^ LENGTH('a::len)"
  shows "load_le n (store_le n m a (v :: 'v word)) (a :: 'a word) = v"
proof -
  have "load_le n (store_le n m a v) a = le_word n (byte_of v)"
    unfolding load_le_def store_le_def
    using assms(2) by (intro le_word_cong) (simp add: unat_of_nat)
  also have "\<dots> = v" by (rule le_word_byte_of [OF assms(1)])
  finally show ?thesis .
qed

lemma load_cong:
  "(\<And>i. i < n \<Longrightarrow> m (a + of_nat i) = m' (a + of_nat i)) \<Longrightarrow> load_le n m a = load_le n m' a"
  unfolding load_le_def by (rule le_word_cong)

lemma load_store_apart:
  "apart a n b k \<Longrightarrow> load_le n (store_le k m b v) a = load_le n m a"
  by (rule load_cong) (auto simp: store_le_def apart_def not_less)

lemma store_le_outside: "k \<le> unat (x - a) \<Longrightarrow> store_le k m a v x = m x"
  by (simp add: store_le_def)

lemma load_zero: "(\<And>i. i < n \<Longrightarrow> m (a + of_nat i) = 0) \<Longrightarrow> load_le n m a = 0"
proof -
  assume "\<And>i. i < n \<Longrightarrow> m (a + of_nat i) = 0"
  then have "load_le n m a = le_word n (\<lambda>_. 0)"
    unfolding load_le_def by (rule le_word_cong)
  then show ?thesis by simp
qed

section \<open>Pages and alignment\<close>

text \<open>
  An object of \<open>2 ^ k\<close> bytes aligned to its size: two such objects are the same or apart.
\<close>

definition aligned :: "nat \<Rightarrow> 'a::len word \<Rightarrow> bool" where
  "aligned k a \<longleftrightarrow> take_bit k a = 0"

lemma aligned_0 [simp]: "aligned k 0"
  by (simp add: aligned_def)

lemma aligned_diff: "aligned k a \<Longrightarrow> aligned k b \<Longrightarrow> aligned k (a - b)"
  unfolding aligned_def take_bit_eq_0_iff by (rule dvd_diff)

lemma aligned_add: "aligned k a \<Longrightarrow> aligned k b \<Longrightarrow> aligned k (a + b)"
  unfolding aligned_def take_bit_eq_0_iff by (rule dvd_add)

lemma aligned_dvd: "aligned k a \<longleftrightarrow> 2 ^ k dvd unat a"
  by (metis aligned_def dvd_eq_mod_eq_0 take_bit_eq_mod unat_eq_zero unsigned_take_bit_eq)

lemma aligned_mod: "k < LENGTH('a) \<Longrightarrow> aligned k a \<longleftrightarrow> a mod 2 ^ k = 0" for a :: "'a::len word"
  by (simp add: aligned_def take_bit_eq_mod)

text \<open>The offset of a byte of one aligned object from the start of another.\<close>

lemma aligned_apart_offset:
  fixes a b :: "'a::len word"
  assumes "aligned k a" "aligned k b" "a \<noteq> b" "i < 2 ^ k" "k \<le> LENGTH('a)"
  shows "2 ^ k \<le> unat (a + of_nat i - b)"
proof -
  let ?d = "a - b"
  have d: "2 ^ k dvd unat ?d" using assms(1,2) by (metis aligned_diff aligned_dvd)
  have pos: "0 < unat ?d" using assms(3) by (simp add: unat_gt_0)
  have lt: "unat ?d < 2 ^ LENGTH('a)" by simp
  have N: "(2::nat) ^ k dvd 2 ^ LENGTH('a)" using assms(5) by (rule le_imp_power_dvd)
  from d obtain q where q: "unat ?d = 2 ^ k * q" by blast
  from N obtain r where r: "(2::nat) ^ LENGTH('a) = 2 ^ k * r" by blast
  have "q < r" using lt q r by simp
  then have "2 ^ k * q + 2 ^ k \<le> (2::nat) ^ LENGTH('a)"
    using r by (metis Suc_leI mult_Suc_right add.commute mult_le_mono2)
  then have sum: "unat ?d + i < 2 ^ LENGTH('a)" using assms(4) q by linarith
  have "of_nat (unat ?d + i) = a + of_nat i - b" by simp
  then have "unat (a + of_nat i - b) = unat ?d + i"
    using sum by (metis unat_of_nat_small)
  moreover have "2 ^ k \<le> unat ?d" using q pos by (cases q) auto
  ultimately show ?thesis by simp
qed

lemma aligned_apart:
  fixes a b :: "'a::len word"
  assumes "aligned k a" "aligned k b" "a \<noteq> b" "k \<le> LENGTH('a)"
  shows "apart a (2 ^ k) b (2 ^ k)"
  unfolding apart_def using aligned_apart_offset [OF assms(1-3) _ assms(4)] by blast

lemma load64_store64_same [simp]: "load64 (store64 m a v) a = v"
  by (rule load_store_same) simp_all

lemma load64_store64_other:
  "aligned 3 a \<Longrightarrow> aligned 3 b \<Longrightarrow> a \<noteq> b \<Longrightarrow> load64 (store64 m b v) a = load64 m a"
  using aligned_apart [of 3 a b] by (intro load_store_apart) simp

end
