(* ===== verification/KString.thy ===== *)
theory KString
  imports CMemory
begin

text \<open>
  \<^verbatim>\<open>kernel/string.c\<close>: the byte-string routines of the kernel, on byte-addressed memory.
  Every loop is a recursion that makes the source's loads and stores in the source's order,
  so that overlapping arguments behave as they do in C. The lemmas give each routine a
  closed form: \<open>memset\<close> and \<open>memmove\<close> as one update of the memory, the string routines in
  terms of the bytes \<open>bs\<close> of the NUL-terminated strings they work on (\<open>is_cstr m s bs\<close>).
\<close>

section \<open>The routines\<close>

fun memset_loop :: "memory \<Rightarrow> uint64 \<Rightarrow> uchar \<Rightarrow> nat \<Rightarrow> nat \<Rightarrow> memory" where
  "memset_loop m cdst c i 0 = m"
| "memset_loop m cdst c i (Suc k) = memset_loop (m(cdst + of_nat i := c)) cdst c (Suc i) k"

definition memset :: "memory \<Rightarrow> uint64 \<Rightarrow> cint \<Rightarrow> uint \<Rightarrow> memory" where
  "memset m dst c n = memset_loop m dst (ucast c) 0 (unat n)"

fun memcmp_loop :: "memory \<Rightarrow> uint64 \<Rightarrow> uint64 \<Rightarrow> nat \<Rightarrow> int" where
  "memcmp_loop m s1 s2 0 = 0"
| "memcmp_loop m s1 s2 (Suc n) =
     (if m s1 \<noteq> m s2 then uint (m s1) - uint (m s2) else memcmp_loop m (s1 + 1) (s2 + 1) n)"

definition memcmp :: "memory \<Rightarrow> uint64 \<Rightarrow> uint64 \<Rightarrow> uint \<Rightarrow> int" where
  "memcmp m v1 v2 n = memcmp_loop m v1 v2 (unat n)"

fun copy_up :: "memory \<Rightarrow> uint64 \<Rightarrow> uint64 \<Rightarrow> nat \<Rightarrow> memory" where
  "copy_up m d s 0 = m"
| "copy_up m d s (Suc n) = copy_up (m(d := m s)) (d + 1) (s + 1) n"

fun copy_down :: "memory \<Rightarrow> uint64 \<Rightarrow> uint64 \<Rightarrow> nat \<Rightarrow> memory" where
  "copy_down m d s 0 = m"
| "copy_down m d s (Suc n) = copy_down (m(d - 1 := m (s - 1))) (d - 1) (s - 1) n"

definition memmove :: "memory \<Rightarrow> uint64 \<Rightarrow> uint64 \<Rightarrow> uint \<Rightarrow> memory" where
  "memmove m dst src n =
     (if n = 0 then m
      else if src < dst \<and> src + ucast n > dst
      then copy_down m (dst + ucast n) (src + ucast n) (unat n)
      else copy_up m dst src (unat n))"

definition memcpy :: "memory \<Rightarrow> uint64 \<Rightarrow> uint64 \<Rightarrow> uint \<Rightarrow> memory" where
  "memcpy m dst src n = memmove m dst src n"

fun strncmp_loop :: "memory \<Rightarrow> uint64 \<Rightarrow> uint64 \<Rightarrow> nat \<Rightarrow> int" where
  "strncmp_loop m p q 0 = 0"
| "strncmp_loop m p q (Suc n) =
     (if m p \<noteq> 0 \<and> m p = m q then strncmp_loop m (p + 1) (q + 1) n
      else uint (m p) - uint (m q))"

definition strncmp :: "memory \<Rightarrow> uint64 \<Rightarrow> uint64 \<Rightarrow> uint \<Rightarrow> int" where
  "strncmp m p q n = strncmp_loop m p q (unat n)"

text \<open>
  \<open>copy_until_nul\<close> is the loop \<^verbatim>\<open>while(n-- > 0 && (*s++ = *t++) != 0);\<close> on its remaining
  count; it returns the memory, the advanced \<^verbatim>\<open>s\<close> and what is left of the count.
\<close>

fun copy_until_nul :: "memory \<Rightarrow> uint64 \<Rightarrow> uint64 \<Rightarrow> nat \<Rightarrow> memory \<times> uint64 \<times> nat" where
  "copy_until_nul m s t 0 = (m, s, 0)"
| "copy_until_nul m s t (Suc n) =
     (if m t \<noteq> 0 then copy_until_nul (m(s := m t)) (s + 1) (t + 1) n
      else (m(s := m t), s + 1, n))"

fun pad_nul :: "memory \<Rightarrow> uint64 \<Rightarrow> nat \<Rightarrow> memory" where
  "pad_nul m s 0 = m"
| "pad_nul m s (Suc n) = pad_nul (m(s := 0)) (s + 1) n"

definition strncpy :: "memory \<Rightarrow> uint64 \<Rightarrow> uint64 \<Rightarrow> cint \<Rightarrow> memory" where
  "strncpy m s t n =
     (case copy_until_nul m s t (nat (sint n)) of (m', s', k) \<Rightarrow> pad_nul m' s' k)"

definition safestrcpy :: "memory \<Rightarrow> uint64 \<Rightarrow> uint64 \<Rightarrow> cint \<Rightarrow> memory" where
  "safestrcpy m s t n =
     (if sint n \<le> 0 then m
      else case copy_until_nul m s t (nat (sint n - 1)) of (m', s', _) \<Rightarrow> m'(s' := 0))"

partial_function (option) strlen_loop :: "memory \<Rightarrow> uint64 \<Rightarrow> nat \<Rightarrow> nat option" where
  "strlen_loop m s n = (if m (s + of_nat n) \<noteq> 0 then strlen_loop m s (Suc n) else Some n)"

definition strlen :: "memory \<Rightarrow> uint64 \<Rightarrow> nat option" where
  "strlen m s = strlen_loop m s 0"

section \<open>Filling and moving\<close>

definition fill :: "memory \<Rightarrow> uint64 \<Rightarrow> nat \<Rightarrow> uchar \<Rightarrow> memory" where
  "fill m a n c = (\<lambda>x. if unat (x - a) < n then c else m x)"

lemma fill_outside: "n \<le> unat (x - a) \<Longrightarrow> fill m a n c x = m x"
  by (simp add: fill_def)

lemma fill_inside: "i < n \<Longrightarrow> n \<le> 2 ^ 64 \<Longrightarrow> fill m a n c (a + of_nat i) = c"
  by (simp add: fill_def unat_of_nat)

lemma memset_loop_at:
  "i + k \<le> 2 ^ 64 \<Longrightarrow>
   memset_loop m a c i k x = (if i \<le> unat (x - a) \<and> unat (x - a) < i + k then c else m x)"
proof (induction k arbitrary: m i)
  case 0
  then show ?case by auto
next
  case (Suc k)
  then have "x = a + of_nat i \<longleftrightarrow> unat (x - a) = i"
    by (intro word_offset_iff) simp
  with Suc show ?case by auto
qed

lemma memset_fill: "memset m a c n = fill m a (unat n) (ucast c)"
proof -
  have "unat n \<le> 2 ^ 64" using unat_lt2p [of n] by simp
  then show ?thesis
    by (auto simp: memset_def fill_def memset_loop_at fun_eq_iff)
qed

text \<open>
  \<open>moved m d s n\<close> is the memory in which the \<open>n\<close> bytes at \<open>d\<close> are those \<open>m\<close> has at \<open>s\<close>:
  what a copy of \<open>n\<close> bytes should do whether or not the two ranges overlap.
\<close>

definition moved :: "memory \<Rightarrow> uint64 \<Rightarrow> uint64 \<Rightarrow> nat \<Rightarrow> memory" where
  "moved m d s n = (\<lambda>x. if unat (x - d) < n then m (s + (x - d)) else m x)"

lemma moved_0: "moved m d s 0 = m"
  by (simp add: moved_def)

lemma moved_outside: "n \<le> unat (x - d) \<Longrightarrow> moved m d s n x = m x"
  by (simp add: moved_def)

lemma moved_inside: "i < n \<Longrightarrow> n \<le> 2 ^ 64 \<Longrightarrow> moved m d s n (d + of_nat i) = m (s + of_nat i)"
  by (simp add: moved_def unat_of_nat)

lemma moved_Suc:
  assumes "n < 2 ^ 64" "\<And>j. j < n \<Longrightarrow> s + of_nat (Suc j) \<noteq> d"
  shows "moved (m(d := m s)) (d + 1) (s + 1) n = moved m d s (Suc n)"
proof
  fix x
  show "moved (m(d := m s)) (d + 1) (s + 1) n x = moved m d s (Suc n) x"
  proof (cases "x = d")
    case True
    then show ?thesis using assms(1) unat_sub_wrap [of d] by (simp add: moved_def)
  next
    case False
    then have d: "unat (x - d) = Suc (unat (x - (d + 1)))" by (rule unat_sub_Suc)
    show ?thesis
    proof (cases "unat (x - (d + 1)) < n")
      case True
      let ?j = "unat (x - (d + 1))"
      have "of_nat (Suc ?j) = x - d" unfolding d [symmetric] by simp
      then have "s + (x - d) \<noteq> d" using assms(2) [OF True] by simp
      with True False d show ?thesis by (simp add: moved_def algebra_simps)
    next
      case nl: False
      with False d show ?thesis by (simp add: moved_def)
    qed
  qed
qed

lemma copy_up_moved:
  assumes "n \<le> 2 ^ 64" "\<And>i j. i < j \<Longrightarrow> j < n \<Longrightarrow> s + of_nat j \<noteq> d + of_nat i"
  shows "copy_up m d s n = moved m d s n"
  using assms
proof (induction n arbitrary: m d s)
  case 0
  then show ?case by (simp add: moved_def)
next
  case (Suc n)
  have sep: "s + 1 + of_nat j \<noteq> d + 1 + of_nat i" if "i < j" "j < n" for i j
    using Suc.prems(2) [of "Suc i" "Suc j"] that by (simp add: ac_simps)
  have first: "s + of_nat (Suc j) \<noteq> d" if "j < n" for j
    using Suc.prems(2) [of 0 "Suc j"] that by simp
  have "copy_up (m(d := m s)) (d + 1) (s + 1) n = moved (m(d := m s)) (d + 1) (s + 1) n"
    using Suc.prems(1) sep by (intro Suc.IH) simp_all
  also have "\<dots> = moved m d s (Suc n)"
    using Suc.prems(1) first by (intro moved_Suc) simp_all
  finally show ?case by simp
qed

lemma copy_down_moved:
  assumes "n \<le> 2 ^ 64" "\<And>i j. i < j \<Longrightarrow> j < n \<Longrightarrow> s + of_nat i \<noteq> d + of_nat j"
  shows "copy_down m (d + of_nat n) (s + of_nat n) n = moved m d s n"
  using assms
proof (induction n arbitrary: m)
  case 0
  then show ?case by (simp add: moved_def)
next
  case (Suc n)
  let ?m = "m(d + of_nat n := m (s + of_nat n))"
  have IH: "copy_down ?m (d + of_nat n) (s + of_nat n) n = moved ?m d s n"
    using Suc.prems by (intro Suc.IH) simp_all
  have "moved ?m d s n x = moved m d s (Suc n) x" for x
  proof (cases "unat (x - d) < n")
    case True
    have "s + (x - d) \<noteq> d + of_nat n"
      using Suc.prems(2) [of "unat (x - d)" n] True by simp
    with True show ?thesis by (simp add: moved_def)
  next
    case False
    have "x = d + of_nat n \<longleftrightarrow> unat (x - d) = n"
      using Suc.prems(1) by (intro word_offset_iff) simp
    with False show ?thesis by (auto simp: moved_def)
  qed
  then show ?case by (simp add: IH fun_eq_iff)
qed

lemma memmove_moved:
  assumes src: "unat src + unat n < 2 ^ 64" and dst: "unat dst + unat n \<le> 2 ^ 64"
  shows "memmove m dst src n = moved m dst src (unat n)"
proof -
  have n: "unat n \<le> 2 ^ 64" and ucast: "ucast n = (of_nat (unat n) :: uint64)"
    using unat_lt2p [of n] by simp_all
  have us: "unat (src + of_nat i) = unat src + i" if "i < unat n" for i
    using that src by (intro unat_add_nat) simp
  have ud: "unat (dst + of_nat i) = unat dst + i" if "i < unat n" for i
    using that dst by (intro unat_add_nat) simp
  show ?thesis
  proof (cases "src < dst \<and> src + ucast n > dst")
    case True
    then have "src + of_nat i \<noteq> dst + of_nat j" if "i < j" "j < unat n" for i j
    proof -
      have "unat (src + of_nat i) \<noteq> unat (dst + of_nat j)"
        using that us [of i] ud [of j] True by (simp add: word_less_nat_alt)
      then show ?thesis by metis
    qed
    with n have "copy_down m (dst + of_nat (unat n)) (src + of_nat (unat n)) (unat n) = moved m dst src (unat n)"
      by (rule copy_down_moved)
    then have "copy_down m (dst + ucast n) (src + ucast n) (unat n) = moved m dst src (unat n)"
      by simp
    moreover have "n \<noteq> 0" using True by auto
    ultimately show ?thesis using True by (simp add: memmove_def)
  next
    case False
    have top: "unat (src + ucast n) = unat src + unat n"
      unfolding ucast using src by (intro unat_add_nat) simp
    have "src + of_nat j \<noteq> dst + of_nat i" if "i < j" "j < unat n" for i j
    proof -
      have "unat (src + of_nat j) \<noteq> unat (dst + of_nat i)"
        using that us [of j] ud [of i] False top by (auto simp: word_less_nat_alt)
      then show ?thesis by metis
    qed
    with n have "copy_up m dst src (unat n) = moved m dst src (unat n)"
      by (rule copy_up_moved)
    with False show ?thesis by (auto simp: memmove_def moved_0)
  qed
qed

section \<open>Strings\<close>

definition bytes_at :: "memory \<Rightarrow> uint64 \<Rightarrow> nat \<Rightarrow> uchar list" where
  "bytes_at m a n = map (\<lambda>i. m (a + of_nat i)) [0..<n]"

abbreviation nul_prefix :: "uchar list \<Rightarrow> uchar list" where
  "nul_prefix \<equiv> takeWhile (\<lambda>b. b \<noteq> 0)"

definition is_cstr :: "memory \<Rightarrow> uint64 \<Rightarrow> uchar list \<Rightarrow> bool" where
  "is_cstr m s bs \<longleftrightarrow> bytes_at m s (Suc (length bs)) = bs @ [0] \<and> 0 \<notin> set bs"

lemma length_bytes_at [simp]: "length (bytes_at m a n) = n"
  by (simp add: bytes_at_def)

lemma nth_bytes_at [simp]: "i < n \<Longrightarrow> bytes_at m a n ! i = m (a + of_nat i)"
  by (simp add: bytes_at_def)

lemma bytes_at_0 [simp]: "bytes_at m a 0 = []"
  by (simp add: bytes_at_def)

lemma bytes_at_Suc: "bytes_at m a (Suc n) = m a # bytes_at m (a + 1) n"
  by (rule nth_equalityI) (auto simp: nth_Cons ac_simps split: nat.split)

lemma bytes_at_cong:
  "(\<And>i. i < n \<Longrightarrow> m (a + of_nat i) = m' (a + of_nat i)) \<Longrightarrow> bytes_at m a n = bytes_at m' a n"
  by (simp add: bytes_at_def)

lemma is_cstr_Nil: "is_cstr m s [] \<longleftrightarrow> m s = 0"
  by (simp add: is_cstr_def bytes_at_Suc)

lemma is_cstr_Cons: "is_cstr m s (b # bs) \<longleftrightarrow> m s = b \<and> b \<noteq> 0 \<and> is_cstr m (s + 1) bs"
  by (auto simp: is_cstr_def bytes_at_Suc)

lemma strlen_loop_cstr: "is_cstr m (s + of_nat n) bs \<Longrightarrow> strlen_loop m s n = Some (n + length bs)"
proof (induction bs arbitrary: n)
  case Nil
  then show ?case by (subst strlen_loop.simps) (simp add: is_cstr_Nil)
next
  case (Cons b bs)
  then have "strlen_loop m s (Suc n) = Some (Suc n + length bs)"
    by (intro Cons.IH) (simp add: is_cstr_Cons ac_simps)
  with Cons.prems show ?case
    by (subst strlen_loop.simps) (simp add: is_cstr_Cons)
qed

lemma strlen_cstr: "is_cstr m s bs \<Longrightarrow> strlen m s = Some (length bs)"
  using strlen_loop_cstr [of m s 0 bs] by (simp add: strlen_def)

lemma strncmp_loop_zero:
  "strncmp_loop m p q n = 0 \<longleftrightarrow> nul_prefix (bytes_at m p n) = nul_prefix (bytes_at m q n)"
  by (induction m p q n rule: strncmp_loop.induct)
     (auto simp: bytes_at_Suc uint_0_iff dest: word_uint_eqI)

lemma memcmp_loop_zero: "memcmp_loop m s1 s2 n = 0 \<longleftrightarrow> bytes_at m s1 n = bytes_at m s2 n"
  by (induction m s1 s2 n rule: memcmp_loop.induct)
     (auto simp: bytes_at_Suc dest: word_uint_eqI)

lemma pad_nul_fill: "n \<le> 2 ^ 64 \<Longrightarrow> pad_nul m s n = fill m s n 0"
proof (induction n arbitrary: m s)
  case 0
  then show ?case by (simp add: fill_def)
next
  case (Suc n)
  have "fill (m(s := 0)) (s + 1) n 0 x = fill m s (Suc n) 0 x" for x
    using Suc.prems unat_sub_wrap [of s] unat_sub_Suc [of x s] by (cases "x = s") (auto simp: fill_def)
  with Suc show ?case by (simp add: fun_eq_iff)
qed

text \<open>
  The copying loop moves the bytes up to and including the first NUL, or all \<open>n\<close> of them.
\<close>

definition nul_span :: "uchar list \<Rightarrow> nat" where
  "nul_span bs = min (length bs) (Suc (length (nul_prefix bs)))"

lemma copy_until_nul_moved:
  assumes "n \<le> 2 ^ 64" "\<And>i j. i < n \<Longrightarrow> j < n \<Longrightarrow> t + of_nat j \<noteq> s + of_nat i"
  shows "copy_until_nul m s t n =
    (let k = nul_span (bytes_at m t n) in (moved m s t k, s + of_nat k, n - k))"
  using assms
proof (induction n arbitrary: m s t)
  case 0
  then show ?case by (simp add: nul_span_def moved_0)
next
  case (Suc n)
  have sep: "t + 1 + of_nat j \<noteq> s + 1 + of_nat i" if "i < n" "j < n" for i j
    using Suc.prems(2) [of "Suc i" "Suc j"] that by (simp add: ac_simps)
  have first: "t + of_nat (Suc j) \<noteq> s" if "j < n" for j
    using Suc.prems(2) [of 0 "Suc j"] that by simp
  show ?case
  proof (cases "m t = 0")
    case True
    then have "nul_span (bytes_at m t (Suc n)) = 1" by (simp add: nul_span_def bytes_at_Suc)
    moreover have "moved (m(s := m t)) (s + 1) (t + 1) 0 = moved m s t (Suc 0)"
      by (rule moved_Suc) simp_all
    ultimately show ?thesis using True by (simp add: moved_0)
  next
    case False
    let ?m = "m(s := m t)" and ?k = "nul_span (bytes_at m (t + 1) n)"
    have b: "bytes_at ?m (t + 1) n = bytes_at m (t + 1) n"
      using first by (intro bytes_at_cong) (simp add: ac_simps)
    have k: "nul_span (bytes_at m t (Suc n)) = Suc ?k"
      using False by (simp add: nul_span_def bytes_at_Suc)
    have "?k \<le> n" by (simp add: nul_span_def)
    then have "moved ?m (s + 1) (t + 1) ?k = moved m s t (Suc ?k)"
      using first Suc.prems(1) by (intro moved_Suc) simp_all
    moreover have "copy_until_nul ?m (s + 1) (t + 1) n =
        (let k = nul_span (bytes_at ?m (t + 1) n) in (moved ?m (s + 1) (t + 1) k, s + 1 + of_nat k, n - k))"
      using Suc.prems(1) sep by (intro Suc.IH) simp_all
    ultimately show ?thesis using False by (simp add: b k Let_def add.assoc)
  qed
qed

text \<open>\<open>disjoint_ranges s t n\<close>: the \<open>n\<close> bytes at \<open>s\<close> and those at \<open>t\<close> do not overlap.\<close>

definition disjoint_ranges :: "uint64 \<Rightarrow> uint64 \<Rightarrow> nat \<Rightarrow> bool" where
  "disjoint_ranges s t n \<longleftrightarrow> (\<forall>i < n. \<forall>j < n. t + of_nat j \<noteq> s + of_nat i)"

lemma disjoint_rangesI:
  assumes "unat t + n \<le> unat s" "unat s + n \<le> 2 ^ 64"
  shows "disjoint_ranges s t n"
  unfolding disjoint_ranges_def
proof (intro allI impI)
  fix i j assume "i < n" "j < n"
  with assms have "unat (t + of_nat j) < unat (s + of_nat i)"
    using unat_add_nat [of t j] unat_add_nat [of s i] by simp
  then show "t + of_nat j \<noteq> s + of_nat i" by auto
qed

lemma nul_span_bounds: "nul_span bs \<le> length bs" "length (nul_prefix bs) \<le> nul_span bs"
  by (auto simp: nul_span_def length_takeWhile_le)

lemma nth_nul_prefix: "i < length (nul_prefix bs) \<Longrightarrow> nul_prefix bs ! i = bs ! i"
  by (rule takeWhile_nth)

lemma nul_span_stop:
  assumes "length (nul_prefix bs) \<le> i" "i < nul_span bs"
  shows "bs ! i = 0"
proof -
  from assms have i: "i = length (nul_prefix bs)" and "i < length bs" by (auto simp: nul_span_def)
  then show ?thesis using nth_length_takeWhile [of "\<lambda>b. b \<noteq> 0" bs] by auto
qed

lemma strncpy_at:
  assumes "disjoint_ranges s t N" and N: "N = nat (sint (n :: cint))"
    and that: "k = nul_span (bytes_at m t N)"
  shows "strncpy m s t n = fill (moved m s t k) (s + of_nat k) (N - k) 0"
proof -
  have le: "N \<le> 2 ^ 64" using sint_lt [of n] by (simp add: N)
  have "copy_until_nul m s t N = (moved m s t k, s + of_nat k, N - k)"
    using copy_until_nul_moved [OF le, of t s m] assms(1) that
    by (simp add: disjoint_ranges_def Let_def)
  moreover have "pad_nul (moved m s t k) (s + of_nat k) (N - k) = fill (moved m s t k) (s + of_nat k) (N - k) 0"
    using le by (intro pad_nul_fill) simp
  ultimately show ?thesis by (simp add: strncpy_def N)
qed

lemma bytes_strncpy:
  assumes "disjoint_ranges s t N" and N: "N = nat (sint (n :: cint))"
  shows "bytes_at (strncpy m s t n) s N =
    nul_prefix (bytes_at m t N) @ replicate (N - length (nul_prefix (bytes_at m t N))) 0"
    (is "_ = ?p @ _")
proof (rule nth_equalityI)
  let ?k = "nul_span (bytes_at m t N)"
  have le: "N < 2 ^ 64" using sint_lt [of n] by (simp add: N)
  have kN: "?k \<le> N" and pk: "length ?p \<le> ?k"
    using nul_span_bounds [of "bytes_at m t N"] by simp_all
  then show "length (bytes_at (strncpy m s t n) s N) = length (?p @ replicate (N - length ?p) 0)"
    by simp
  fix i assume "i < length (bytes_at (strncpy m s t n) s N)"
  then have i: "i < N" by simp
  have at: "strncpy m s t n (s + of_nat i) = (if i < ?k then m (t + of_nat i) else 0)"
  proof (cases "i < ?k")
    case True
    have "s + of_nat i - (s + of_nat ?k) = of_nat i - of_nat ?k" by simp
    moreover have "unat (of_nat i - of_nat ?k :: uint64) = 2 ^ 64 - (?k - i)"
      using True kN le i by (simp add: unat_sub_if_size word_size unat_of_nat)
    ultimately show ?thesis
      using True kN le i by (auto simp: strncpy_at [OF assms refl] fill_def moved_def unat_of_nat)
  next
    case False
    have "unat (of_nat i - of_nat ?k :: uint64) = i - ?k"
      using False le i by (simp add: unat_sub_if_size word_size unat_of_nat)
    then show ?thesis
      using False le i by (auto simp: strncpy_at [OF assms refl] fill_def unat_of_nat)
  qed
  show "bytes_at (strncpy m s t n) s N ! i = (?p @ replicate (N - length ?p) 0) ! i"
  proof (cases "i < length ?p")
    case True
    then show ?thesis using i pk at by (simp add: nth_append nth_nul_prefix)
  next
    case False
    with i at nul_span_stop [of "bytes_at m t N" i] show ?thesis by (auto simp: nth_append)
  qed
qed

lemma strncpy_outside:
  assumes "disjoint_ranges s t N" and N: "N = nat (sint (n :: cint))" and x: "N \<le> unat (x - s)"
  shows "strncpy m s t n x = m x"
proof -
  let ?k = "nul_span (bytes_at m t N)"
  have le: "N < 2 ^ 64" using sint_lt [of n] by (simp add: N)
  have kN: "?k \<le> N" using nul_span_bounds [of "bytes_at m t N"] by simp
  have "unat (x - (s + of_nat ?k)) = unat (x - s) - ?k"
    using kN x le by (simp add: diff_diff_add [symmetric] unat_sub_if_size word_size unat_of_nat)
  then show ?thesis
    using kN x by (auto simp: strncpy_at [OF assms(1,2) refl] fill_def moved_def)
qed

lemma safestrcpy_at:
  assumes "disjoint_ranges s t N" and N: "0 < sint (n :: cint)" "N = nat (sint n - 1)"
    and k: "k = nul_span (bytes_at m t N)"
  shows "safestrcpy m s t n = (moved m s t k)(s + of_nat k := 0)"
proof -
  have le: "N \<le> 2 ^ 64" using sint_lt [of n] by (simp add: N)
  have "copy_until_nul m s t N = (moved m s t k, s + of_nat k, N - k)"
    using copy_until_nul_moved [OF le, of t s m] assms(1) k
    by (simp add: disjoint_ranges_def Let_def)
  with N show ?thesis by (simp add: safestrcpy_def)
qed

lemma is_cstr_safestrcpy:
  assumes "disjoint_ranges s t N" and N: "0 < sint (n :: cint)" "N = nat (sint n - 1)"
  shows "is_cstr (safestrcpy m s t n) s (nul_prefix (bytes_at m t N))"
proof -
  let ?k = "nul_span (bytes_at m t N)" and ?p = "nul_prefix (bytes_at m t N)"
  have le: "N < 2 ^ 64" using sint_lt [of n] by (simp add: N)
  have kN: "?k \<le> N" and pk: "length ?p \<le> ?k"
    using nul_span_bounds [of "bytes_at m t N"] by simp_all
  have at: "safestrcpy m s t n (s + of_nat i) = (if i < ?k then m (t + of_nat i) else 0)" if "i \<le> ?k" for i
    using that le kN word_add_of_nat_inj [of i ?k "0 :: uint64"]
    by (auto simp: safestrcpy_at [OF assms refl] moved_def unat_of_nat)
  have pre: "safestrcpy m s t n (s + of_nat i) = ?p ! i" if "i < length ?p" for i
    using that at [of i] pk kN by (simp add: nth_nul_prefix)
  have stop: "safestrcpy m s t n (s + of_nat (length ?p)) = 0"
    using at [of "length ?p"] pk kN nul_span_stop [of "bytes_at m t N" "length ?p"]
    by (cases "length ?p < ?k") auto
  have "bytes_at (safestrcpy m s t n) s (Suc (length ?p)) = ?p @ [0]"
    by (rule nth_equalityI) (auto simp: nth_append pre stop less_Suc_eq)
  moreover have "0 \<notin> set ?p" by (auto dest: set_takeWhileD)
  ultimately show ?thesis by (simp add: is_cstr_def)
qed

section \<open>Properties\<close>

lemma replicate_2: "replicate 2 x = [x, x]"
  by (simp add: numeral_2_eq_2)

text \<open>
  C28. \<^verbatim>\<open>memmove\<close> copies its source as it was before the call, also when the two ranges
  overlap in either direction, and changes nothing outside the destination.
\<close>

theorem memmove_correct:
  assumes "unat src + unat n < 2 ^ 64" "unat dst + unat n \<le> 2 ^ 64"
  shows "bytes_at (memmove m dst src n) dst (unat n) = bytes_at m src (unat n) \<and>
    (\<forall>x. unat n \<le> unat (x - dst) \<longrightarrow> memmove m dst src n x = m x)"
proof -
  have "unat n \<le> 2 ^ 64" using assms(2) by simp
  then have "bytes_at (moved m dst src (unat n)) dst (unat n) = bytes_at m src (unat n)"
    by (intro nth_equalityI) (simp_all add: moved_inside)
  then show ?thesis using memmove_moved [OF assms] by (simp add: moved_outside)
qed

theorem memmove_correct_witness:
  "bytes_at (memmove (\<lambda>x. ucast x) 12 10 5) 12 5 = [10, 11, 12, 13, 14] \<and>
   bytes_at (memmove (\<lambda>x. ucast x) 10 12 5) 10 5 = [12, 13, 14, 15, 16]"
  using memmove_correct [of 10 5 12 "\<lambda>x. ucast x"] memmove_correct [of 12 5 10 "\<lambda>x. ucast x"]
  by (simp add: bytes_at_def upt_rec)

text \<open>
  C39. \<^verbatim>\<open>safestrcpy\<close> leaves a NUL-terminated string in the destination: as much of the source
  string as fits in \<^verbatim>\<open>n - 1\<close> bytes. \<^verbatim>\<open>strncpy\<close> fills exactly \<^verbatim>\<open>n\<close> bytes: the source string,
  then NULs, with no terminator when the source is longer.
\<close>

theorem string_copies_correct:
  assumes "0 < sint (n :: cint)" "disjoint_ranges s t (nat (sint n))"
  shows "is_cstr (safestrcpy m s t n) s (nul_prefix (bytes_at m t (nat (sint n - 1)))) \<and>
    bytes_at (strncpy m s t n) s (nat (sint n)) =
      (let str = nul_prefix (bytes_at m t (nat (sint n)))
       in str @ replicate (nat (sint n) - length str) 0)"
proof -
  have "disjoint_ranges s t (nat (sint n - 1))" using assms(2) by (simp add: disjoint_ranges_def)
  then show ?thesis
    using is_cstr_safestrcpy [OF _ assms(1) refl, of s t m] bytes_strncpy [OF assms(2) refl, of m]
    by (simp add: Let_def)
qed

definition hi_mem :: memory where
  "hi_mem = (\<lambda>_. 7)(100 := 104, 101 := 105, 102 := 0)"

theorem string_copies_correct_witness:
  "is_cstr (safestrcpy hi_mem 200 100 4) 200 [104, 105] \<and>
   bytes_at (strncpy hi_mem 200 100 4) 200 4 = [104, 105, 0, 0]"
proof -
  have "disjoint_ranges 200 100 4"
    by (rule disjoint_rangesI) simp_all
  then show ?thesis
    using string_copies_correct [of 4 200 100 hi_mem]
    by (simp add: bytes_at_def upt_rec hi_mem_def Let_def replicate_2)
qed

text \<open>
  C40. \<^verbatim>\<open>strncmp\<close> returns 0 exactly when the two strings agree up to the first NUL or the
  first \<^verbatim>\<open>n\<close> bytes, and \<^verbatim>\<open>memcmp\<close> exactly when all \<^verbatim>\<open>n\<close> bytes agree.
\<close>

theorem comparisons_correct:
  "(strncmp m p q n = 0) = (nul_prefix (bytes_at m p (unat n)) = nul_prefix (bytes_at m q (unat n))) \<and>
   (memcmp m p q n = 0) = (bytes_at m p (unat n) = bytes_at m q (unat n))"
  by (simp add: strncmp_def memcmp_def strncmp_loop_zero memcmp_loop_zero)

end
