(* ===== verification/Riscv.thy ===== *)
theory Riscv
  imports CMemory
begin

text \<open>
  The machine constants and address arithmetic of \<^verbatim>\<open>kernel/riscv.h\<close>,
  \<^verbatim>\<open>kernel/memlayout.h\<close> and \<^verbatim>\<open>kernel/param.h\<close>: pages, page-table entries, the three
  9-bit indices of an Sv39 virtual address, and the layout of physical and virtual memory.
  The lemmas show that the macros do what their comments say: rounding is to page boundaries,
  packing a physical address into an entry loses nothing, and a virtual address below
  \<^verbatim>\<open>MAXVA\<close> is determined by its indices and its page offset.
\<close>

unbundle bit_operations_syntax

section \<open>Parameters\<close>

definition NPROC :: nat where "NPROC = 64"
definition NCPU :: nat where "NCPU = 8"
definition NOFILE :: nat where "NOFILE = 16"
definition NFILE :: nat where "NFILE = 100"
definition NINODE :: nat where "NINODE = 50"
definition NDEV :: nat where "NDEV = 10"
definition ROOTDEV :: uint where "ROOTDEV = 1"
definition MAXARG :: nat where "MAXARG = 32"
definition MAXOPBLOCKS :: nat where "MAXOPBLOCKS = 10"
definition LOGSIZE :: nat where "LOGSIZE = MAXOPBLOCKS * 3"
definition NBUF :: nat where "NBUF = MAXOPBLOCKS * 3"
definition FSSIZE :: nat where "FSSIZE = 2000"
definition MAXPATH :: nat where "MAXPATH = 128"

lemmas param_defs = NPROC_def NCPU_def NOFILE_def NFILE_def NINODE_def NDEV_def ROOTDEV_def
  MAXARG_def MAXOPBLOCKS_def LOGSIZE_def NBUF_def FSSIZE_def MAXPATH_def

section \<open>Pages and page-table entries\<close>

definition PGSIZE :: uint64 where "PGSIZE = 4096"
definition PGSHIFT :: nat where "PGSHIFT = 12"

definition PGROUNDUP :: "uint64 \<Rightarrow> uint64" where
  "PGROUNDUP sz = (sz + PGSIZE - 1) AND NOT (PGSIZE - 1)"

definition PGROUNDDOWN :: "uint64 \<Rightarrow> uint64" where
  "PGROUNDDOWN a = a AND NOT (PGSIZE - 1)"

definition PTE_V :: uint64 where "PTE_V = push_bit 0 1"
definition PTE_R :: uint64 where "PTE_R = push_bit 1 1"
definition PTE_W :: uint64 where "PTE_W = push_bit 2 1"
definition PTE_X :: uint64 where "PTE_X = push_bit 3 1"
definition PTE_U :: uint64 where "PTE_U = push_bit 4 1"

definition PA2PTE :: "uint64 \<Rightarrow> uint64" where
  "PA2PTE pa = push_bit 10 (drop_bit 12 pa)"

definition PTE2PA :: "uint64 \<Rightarrow> uint64" where
  "PTE2PA pte = push_bit 12 (drop_bit 10 pte)"

definition PTE_FLAGS :: "uint64 \<Rightarrow> uint64" where
  "PTE_FLAGS pte = pte AND 0x3FF"

definition PXMASK :: uint64 where "PXMASK = 0x1FF"

definition PXSHIFT :: "nat \<Rightarrow> nat" where
  "PXSHIFT level = PGSHIFT + 9 * level"

definition PX :: "nat \<Rightarrow> uint64 \<Rightarrow> uint64" where
  "PX level va = drop_bit (PXSHIFT level) va AND PXMASK"

definition MAXVA :: uint64 where
  "MAXVA = push_bit (9 + 9 + 9 + 12 - 1) 1"

section \<open>Memory layout\<close>

definition UART0 :: uint64 where "UART0 = 0x10000000"
definition VIRTIO0 :: uint64 where "VIRTIO0 = 0x10001000"
definition PLIC :: uint64 where "PLIC = 0x0c000000"
definition KERNBASE :: uint64 where "KERNBASE = 0x80000000"
definition PHYSTOP :: uint64 where "PHYSTOP = KERNBASE + 128 * 1024 * 1024"
definition TRAMPOLINE :: uint64 where "TRAMPOLINE = MAXVA - PGSIZE"
definition KSTACK :: "nat \<Rightarrow> uint64" where
  "KSTACK p = TRAMPOLINE - (of_nat p + 1) * 2 * PGSIZE"
definition TRAPFRAME :: uint64 where "TRAPFRAME = TRAMPOLINE - PGSIZE"

lemma PHYSTOP_eq: "PHYSTOP = 0x88000000"
  by (simp add: PHYSTOP_def KERNBASE_def)

lemma MAXVA_eq: "MAXVA = 2 ^ 38"
  by (simp add: MAXVA_def)

section \<open>Rounding\<close>

lemma PGSIZE_mask: "PGSIZE - 1 = mask 12"
  by (simp add: PGSIZE_def mask_eq_exp_minus_1)

lemma PGROUNDDOWN_shift: "PGROUNDDOWN a = push_bit 12 (drop_bit 12 a)"
  unfolding PGROUNDDOWN_def PGSIZE_mask
  by (rule bit_word_eqI) (auto simp: bit_and_iff bit_not_iff bit_mask_iff bit_push_bit_iff bit_drop_bit_eq)

lemma unat_PGROUNDDOWN: "unat (PGROUNDDOWN a) = unat a div 4096 * 4096"
proof -
  have "unat a div 4096 * 4096 < 2 ^ 64"
    using unat_lt2p [of a] by (simp add: le_less_trans [OF div_times_less_eq_dividend])
  moreover have "unat (PGROUNDDOWN a) = take_bit 64 (push_bit 12 (drop_bit 12 (unat a)))"
    using unat_lt2p [of a]
    by (simp add: PGROUNDDOWN_shift unsigned_push_bit_eq unsigned_drop_bit_eq take_bit_nat_eq_self)
  ultimately show ?thesis
    by (simp add: push_bit_eq_mult drop_bit_eq_div take_bit_nat_eq_self_iff)
qed

lemma aligned_PGROUNDDOWN [simp]: "aligned 12 (PGROUNDDOWN a)"
  by (simp add: aligned_dvd unat_PGROUNDDOWN)

lemma PGROUNDDOWN_aligned: "aligned 12 a \<Longrightarrow> PGROUNDDOWN a = a"
  by (simp add: aligned_dvd word_unat_eq_iff unat_PGROUNDDOWN)

lemma PGROUNDUP_DOWN: "PGROUNDUP sz = PGROUNDDOWN (sz + 4095)"
  by (simp add: PGROUNDUP_def PGROUNDDOWN_def PGSIZE_def add.commute)

lemma aligned_PGROUNDUP [simp]: "aligned 12 (PGROUNDUP a)"
  by (simp add: PGROUNDUP_DOWN)

lemma unat_PGROUNDUP:
  "unat sz < 2 ^ 64 - 4096 \<Longrightarrow> unat (PGROUNDUP sz) = (unat sz + 4095) div 4096 * 4096"
  using unat_add_nat [of sz 4095] by (simp add: PGROUNDUP_DOWN unat_PGROUNDDOWN)

lemma PGROUNDUP_bounds:
  assumes "unat sz < 2 ^ 64 - 4096"
  shows "unat sz \<le> unat (PGROUNDUP sz)" "unat (PGROUNDUP sz) < unat sz + 4096"
  using unat_PGROUNDUP [OF assms] by linarith+

lemma PGROUNDUP_aligned: "aligned 12 a \<Longrightarrow> unat a < 2 ^ 64 - 4096 \<Longrightarrow> PGROUNDUP a = a"
  by (auto simp: aligned_dvd word_unat_eq_iff unat_PGROUNDUP)

section \<open>Entries\<close>

lemma PTE2PA_PA2PTE_or:
  "drop_bit 10 flags = 0 \<Longrightarrow> PTE2PA (PA2PTE pa OR flags) = PGROUNDDOWN pa"
proof -
  assume "drop_bit 10 flags = 0"
  then have "drop_bit 10 (PA2PTE pa OR flags) = drop_bit 10 (PA2PTE pa)"
    by (simp add: drop_bit_or)
  also have "\<dots> = drop_bit 12 pa"
    unfolding PA2PTE_def
    by (rule bit_word_eqI) (auto simp: bit_push_bit_iff bit_drop_bit_eq dest: bit_imp_le_length)
  finally show ?thesis by (simp add: PTE2PA_def PGROUNDDOWN_shift)
qed

lemma PTE_FLAGS_mask: "PTE_FLAGS pte = take_bit 10 pte"
  by (simp add: PTE_FLAGS_def take_bit_eq_mask mask_eq_exp_minus_1 and.commute)

lemma PTE_FLAGS_PA2PTE_or: "drop_bit 10 flags = 0 \<Longrightarrow> PTE_FLAGS (PA2PTE pa OR flags) = flags"
proof -
  assume *: "drop_bit 10 flags = 0"
  have "take_bit 10 (PA2PTE pa) = 0"
    by (simp add: PA2PTE_def take_bit_push_bit)
  moreover have "take_bit 10 flags = flags"
    using * by (metis bits_ident push_bit_of_0 add_0)
  ultimately show ?thesis by (simp add: PTE_FLAGS_mask take_bit_or)
qed

section \<open>Indices of a virtual address\<close>

lemma unat_PX: "unat (PX level va) = unat va div 2 ^ (12 + 9 * level) mod 512"
proof -
  have "PX level va = take_bit 9 (drop_bit (12 + 9 * level) va)"
    by (simp add: PX_def PXMASK_def PXSHIFT_def PGSHIFT_def take_bit_eq_mask mask_eq_exp_minus_1)
  then have "unat (PX level va) = take_bit 9 (drop_bit (12 + 9 * level) (unat va))"
    using unat_lt2p [of va] by (simp add: unsigned_take_bit_eq unsigned_drop_bit_eq take_bit_nat_eq_self)
  then show ?thesis by (simp add: take_bit_eq_mod drop_bit_eq_div)
qed

lemma unat_PX_less: "unat (PX level va) < 512"
  by (simp add: unat_PX)

lemma PX_inj:
  assumes "va < MAXVA" "vb < MAXVA" "aligned 12 va" "aligned 12 vb"
    and "PX 0 va = PX 0 vb" "PX 1 va = PX 1 vb" "PX 2 va = PX 2 vb"
  shows "va = vb"
proof -
  have split3: "x = (x div 2 ^ 30 mod 512) * 2 ^ 30 + (x div 2 ^ 21 mod 512) * 2 ^ 21 +
      (x div 2 ^ 12 mod 512) * 2 ^ 12" if "x < 2 ^ 38" "4096 dvd x" for x :: nat
  proof -
    from that obtain p where p: "x = 4096 * p" by blast
    define q r a b where "q = p div 512" and "r = q div 512" and "a = p mod 512" and "b = q mod 512"
    then have pq: "p = 512 * q + a" "q = 512 * r + b" by simp_all
    have "x div 2 ^ 30 = r" "x div 2 ^ 21 = q" "x div 2 ^ 12 = p"
      by (simp_all add: p q_def r_def div_mult2_eq [symmetric])
    moreover have "r mod 512 = r"
      using that(1) p by (simp add: q_def r_def div_mult2_eq [symmetric])
    moreover have "x = r * 2 ^ 30 + b * 2 ^ 21 + a * 2 ^ 12"
      using p pq by simp
    ultimately show ?thesis unfolding a_def b_def by simp
  qed
  have lt: "unat va < 2 ^ 38" "unat vb < 2 ^ 38"
    using assms(1,2) by (simp_all add: MAXVA_eq word_less_nat_alt)
  have dvd: "4096 dvd unat va" "4096 dvd unat vb" using assms(3,4) by (simp_all add: aligned_dvd)
  have i0: "unat va div 2 ^ 12 mod 512 = unat vb div 2 ^ 12 mod 512"
    using assms(5) unat_PX [of 0 va] unat_PX [of 0 vb] by simp
  have i1: "unat va div 2 ^ 21 mod 512 = unat vb div 2 ^ 21 mod 512"
    using assms(6) unat_PX [of 1 va] unat_PX [of 1 vb] by simp
  have i2: "unat va div 2 ^ 30 mod 512 = unat vb div 2 ^ 30 mod 512"
    using assms(7) unat_PX [of 2 va] unat_PX [of 2 vb] by simp
  note split3 [OF lt(1) dvd(1)]
  also note i0
  also note i1
  also note i2
  also note split3 [OF lt(2) dvd(2), symmetric]
  finally have "unat va = unat vb" .
  then show ?thesis by (simp add: word_unat_eq_iff)
qed

end
