(* ===== verification/Kalloc.thy ===== *)
theory Kalloc
  imports Riscv KString
begin

text \<open>
  \<^verbatim>\<open>kernel/kalloc.c\<close>: the physical page allocator. The free list is threaded through the
  free pages themselves: the first eight bytes of a free page hold the address of the next
  one. \<open>kend\<close> is the linker symbol \<^verbatim>\<open>end\<close>, the first address after the kernel.
  The interface \<open>page_allocator\<close> says what the rest of the kernel relies on, in terms of the
  set of free pages; \<open>kmem\<close> is its interpretation on the code.
\<close>

unbundle bit_operations_syntax

section \<open>The allocator\<close>

record kmem =
  mem :: memory
  freelist :: uint64

definition kfree :: "uint64 \<Rightarrow> uint64 \<Rightarrow> ('z) kmem_scheme \<Rightarrow> 'z kmem_scheme result" where
  "kfree kend pa s =
     (if pa mod PGSIZE \<noteq> 0 \<or> pa < kend \<or> pa \<ge> PHYSTOP then Panic ''kfree''
      else
        let s = s\<lparr>mem := memset (mem s) pa 1 (ucast PGSIZE)\<rparr>;
            r = pa;
            s = s\<lparr>mem := store64 (mem s) r (freelist s)\<rparr>
        in Ok (s\<lparr>freelist := r\<rparr>))"

definition kalloc :: "'z kmem_scheme \<Rightarrow> uint64 \<times> 'z kmem_scheme" where
  "kalloc s =
     (let r = freelist s;
          s = (if r \<noteq> 0 then s\<lparr>freelist := load64 (mem s) r\<rparr> else s);
          s = (if r \<noteq> 0 then s\<lparr>mem := memset (mem s) r 5 (ucast PGSIZE)\<rparr> else s)
      in (r, s))"

text \<open>
  The loop of \<^verbatim>\<open>freerange\<close>, \<^verbatim>\<open>for(; p + PGSIZE <= pa_end; p += PGSIZE) kfree(p)\<close>.
  It ends because \<^verbatim>\<open>kfree\<close> panics outside \<^verbatim>\<open>[end, PHYSTOP)\<close>, so \<open>p\<close> never wraps.
\<close>

function freerange_loop :: "uint64 \<Rightarrow> uint64 \<Rightarrow> uint64 \<Rightarrow> 'z kmem_scheme \<Rightarrow> 'z kmem_scheme result" where
  "freerange_loop kend p pa_end s =
     (if p + PGSIZE \<le> pa_end
      then bindR (kfree kend p s) (\<lambda>s. freerange_loop kend (p + PGSIZE) pa_end s)
      else Ok s)"
  by pat_completeness auto
termination
proof (relation "measure (\<lambda>(kend, p, pa_end, s). unat PHYSTOP - unat p)")
  fix kend p pa_end :: uint64 and s x :: "'z kmem_scheme"
  assume "kfree kend p s = Ok x"
  then have "p < PHYSTOP" by (auto simp: kfree_def not_le split: if_splits)
  then have "unat p < unat PHYSTOP" "unat PHYSTOP = 0x88000000"
    by (simp_all add: word_less_nat_alt PHYSTOP_eq)
  then show "((kend, p + PGSIZE, pa_end, x), (kend, p, pa_end, s)) \<in>
      measure (\<lambda>(kend, p, pa_end, s). unat PHYSTOP - unat p)"
    using unat_add_nat [of p 4096] by (simp add: PGSIZE_def)
qed simp

declare freerange_loop.simps [simp del]

definition freerange :: "uint64 \<Rightarrow> uint64 \<Rightarrow> uint64 \<Rightarrow> 'z kmem_scheme \<Rightarrow> 'z kmem_scheme result" where
  "freerange kend pa_start pa_end s = freerange_loop kend (PGROUNDUP pa_start) pa_end s"

definition kinit :: "uint64 \<Rightarrow> 'z kmem_scheme \<Rightarrow> 'z kmem_scheme result" where
  "kinit kend s = freerange kend kend PHYSTOP s"

section \<open>The free list in memory\<close>

definition valid_page :: "uint64 \<Rightarrow> uint64 \<Rightarrow> bool" where
  "valid_page kend pa \<longleftrightarrow> aligned 12 pa \<and> kend \<le> pa \<and> pa < PHYSTOP"

fun free_path :: "memory \<Rightarrow> uint64 \<Rightarrow> uint64 list \<Rightarrow> bool" where
  "free_path m p [] \<longleftrightarrow> p = 0"
| "free_path m p (x # xs) \<longleftrightarrow> p = x \<and> x \<noteq> 0 \<and> free_path m (load64 m x) xs"

definition kmem_inv :: "uint64 \<Rightarrow> uint64 list \<Rightarrow> 'z kmem_scheme \<Rightarrow> bool" where
  "kmem_inv kend ps s \<longleftrightarrow>
     free_path (mem s) (freelist s) ps \<and> distinct ps \<and> (\<forall>p \<in> set ps. valid_page kend p)"

abbreviation page :: "uint64 \<Rightarrow> uint64 set" where
  "page p \<equiv> {x. unat (x - p) < 4096}"

lemma unat_PGSIZE [simp]: "unat (ucast PGSIZE :: uint) = 4096"
  by (simp add: PGSIZE_def)

lemma page_offset_apart:
  assumes "aligned 12 p" "aligned 12 q" "p \<noteq> q" "i < 4096"
  shows "4096 \<le> unat (p + of_nat i - (q :: uint64))"
  using aligned_apart_offset [of 12 p q i] assms by simp

lemma free_path_cong:
  assumes "free_path m p ps" "\<And>x i. x \<in> set ps \<Longrightarrow> i < 8 \<Longrightarrow> m' (x + of_nat i) = m (x + of_nat i)"
  shows "free_path m' p ps"
  using assms
proof (induction ps arbitrary: p)
  case Nil
  then show ?case by simp
next
  case (Cons x xs)
  have "load64 m' x = load64 m x" using Cons.prems(2) by (intro load_cong) simp
  with Cons show ?case by simp
qed

text \<open>Writing inside one page does not disturb a list of other pages.\<close>

lemma free_path_other_page:
  assumes "free_path m p ps" "\<forall>x \<in> set ps. aligned 12 x" "aligned 12 q" "q \<notin> set ps"
    and "\<And>x. 4096 \<le> unat (x - q) \<Longrightarrow> m' x = m x"
  shows "free_path m' p ps"
proof (rule free_path_cong [OF assms(1)])
  fix x and i :: nat
  assume "x \<in> set ps" "i < 8"
  with assms(2-4) have "4096 \<le> unat (x + of_nat i - q)"
    by (intro page_offset_apart) auto
  then show "m' (x + of_nat i) = m (x + of_nat i)" by (rule assms(5))
qed

section \<open>What the operations do\<close>

lemma kfree_guard: "valid_page kend pa \<longleftrightarrow> \<not> (pa mod PGSIZE \<noteq> 0 \<or> pa < kend \<or> pa \<ge> PHYSTOP)"
  using aligned_mod [of 12 pa] by (auto simp: valid_page_def PGSIZE_def not_le not_less)

lemma kfree_Panic: "\<not> valid_page kend pa \<Longrightarrow> kfree kend pa s = Panic ''kfree''"
  by (auto simp: kfree_def kfree_guard)

lemma kfree_Ok:
  "valid_page kend pa \<Longrightarrow> kfree kend pa s =
     Ok (s\<lparr>mem := store64 (fill (mem s) pa 4096 1) pa (freelist s), freelist := pa\<rparr>)"
  by (simp add: kfree_def kfree_guard memset_fill)

lemma kfree_mem_frame:
  assumes "kfree kend pa s = Ok s'" "x \<notin> page pa"
  shows "mem s' x = mem s x"
  using assms by (cases "valid_page kend pa")
    (auto simp: kfree_Ok kfree_Panic store_le_def fill_def)

lemma kfree_inv:
  assumes "kmem_inv kend ps s" "valid_page kend pa" "pa \<notin> set ps" "pa \<noteq> 0" "kfree kend pa s = Ok s'"
  shows "kmem_inv kend (pa # ps) s'"
proof -
  have s': "mem s' = store64 (fill (mem s) pa 4096 1) pa (freelist s)" "freelist s' = pa"
    using assms(5) by (simp_all add: kfree_Ok [OF assms(2)], auto)
  have al: "\<forall>x \<in> set ps. aligned 12 x" "aligned 12 pa"
    using assms(1,2) by (auto simp: kmem_inv_def valid_page_def)
  have "free_path (mem s') (freelist s) ps"
    by (rule free_path_other_page [OF _ al assms(3)])
      (use assms(1) kfree_mem_frame [OF assms(5)] in \<open>auto simp: kmem_inv_def\<close>)
  then show ?thesis
    using assms(1-4) by (simp add: kmem_inv_def s')
qed

lemma kalloc_Nil: "kmem_inv kend [] s \<Longrightarrow> kalloc s = (0, s)"
  by (simp add: kmem_inv_def kalloc_def)

lemma kalloc_Cons:
  assumes "kmem_inv kend (p # ps) s"
  shows "kalloc s = (p, s\<lparr>freelist := load64 (mem s) p, mem := fill (mem s) p 4096 5\<rparr>)"
  using assms by (simp add: kmem_inv_def kalloc_def memset_fill)

lemma kalloc_inv:
  assumes "kmem_inv kend (p # ps) s"
  shows "kmem_inv kend ps (snd (kalloc s))"
proof -
  have al: "\<forall>x \<in> set ps. aligned 12 x" "aligned 12 p"
    using assms by (auto simp: kmem_inv_def valid_page_def)
  have path: "free_path (mem s) (load64 (mem s) p) ps" and notin: "p \<notin> set ps"
    using assms by (auto simp: kmem_inv_def)
  have "free_path (fill (mem s) p 4096 5) (load64 (mem s) p) ps"
    by (rule free_path_other_page [OF path al notin]) (simp add: fill_outside)
  then show ?thesis using assms by (simp add: kalloc_Cons [OF assms] kmem_inv_def)
qed

lemma kalloc_mem_frame:
  assumes "kmem_inv kend ps s" "kalloc s = (r, s')" "x \<notin> page r"
  shows "mem s' x = mem s x"
  using assms by (cases ps) (auto simp: kalloc_Nil dest!: kalloc_Cons simp: fill_def)

text \<open>The junk that shows up the use of a freed page, and of a new one before it is written.\<close>

lemma kalloc_junk: "kalloc s = (r, s') \<Longrightarrow> r \<noteq> 0 \<Longrightarrow> x \<in> page r \<Longrightarrow> mem s' x = 5"
  by (auto simp: kalloc_def Let_def memset_fill fill_def)

lemma kfree_junk: "kfree kend pa s = Ok s' \<Longrightarrow> x \<in> page pa \<Longrightarrow> 8 \<le> unat (x - pa) \<Longrightarrow> mem s' x = 1"
  by (auto simp: kfree_def Let_def memset_fill fill_def store_le_def split: if_splits)

lemma kalloc_zero_iff: "kmem_inv kend ps s \<Longrightarrow> fst (kalloc s) = 0 \<longleftrightarrow> ps = []"
  by (cases ps) (auto simp: kalloc_Nil kalloc_Cons kmem_inv_def)

section \<open>Building the list at boot\<close>

lemma page_step:
  assumes "aligned 12 p" "p < PHYSTOP"
  shows "aligned 12 (p + PGSIZE)" "unat (p + PGSIZE) = unat p + 4096" "p + PGSIZE \<le> PHYSTOP"
proof -
  have lt: "unat p < 0x88000000" using assms(2) by (simp add: PHYSTOP_eq word_less_nat_alt)
  show "aligned 12 (p + PGSIZE)"
    using assms(1) by (rule aligned_add) (simp add: aligned_def PGSIZE_def)
  show u: "unat (p + PGSIZE) = unat p + 4096"
    using lt unat_add_nat [of p 4096] by (simp add: PGSIZE_def)
  have "4096 dvd unat p" using assms(1) by (simp add: aligned_dvd)
  then obtain k where "unat p = 4096 * k" by blast
  with lt have "unat p + 4096 \<le> 0x88000000" by simp
  with u show "p + PGSIZE \<le> PHYSTOP" by (simp add: PHYSTOP_eq word_le_nat_alt)
qed

lemma freerange_loop_inv:
  assumes "kmem_inv kend ps s" "\<forall>q \<in> set ps. q < p" "aligned 12 p" "kend \<le> p" "0 < kend" "p \<le> PHYSTOP"
  shows "okR (\<lambda>s'. \<exists>ps'. kmem_inv kend ps' s' \<and>
      set ps' = set ps \<union> {q. aligned 12 q \<and> p \<le> q \<and> q < PHYSTOP}) (freerange_loop kend p PHYSTOP s)"
  using assms
proof (induction kend p "PHYSTOP" s arbitrary: ps rule: freerange_loop.induct)
  case (1 kend p s)
  show ?case
  proof (cases "p < PHYSTOP")
    case False
    then have p: "p = PHYSTOP" using 1(7) by simp
    then have "\<not> p + PGSIZE \<le> PHYSTOP" by (simp add: PHYSTOP_eq PGSIZE_def)
    then have "freerange_loop kend p PHYSTOP s = Ok s"
      by (simp add: freerange_loop.simps [of kend p PHYSTOP s])
    moreover have "set ps = set ps \<union> {q. aligned 12 q \<and> p \<le> q \<and> q < PHYSTOP}"
      using p by (auto simp: not_le [symmetric])
    ultimately show ?thesis using 1(2) unfolding okR_def by blast
  next
    case True
    note st = page_step [OF 1(4) True]
    have v: "valid_page kend p" using True 1 by (simp add: valid_page_def)
    obtain s1 where s1: "kfree kend p s = Ok s1" using kfree_Ok [OF v] by blast
    have "p \<notin> set ps" using 1(3) by auto
    moreover have "p \<noteq> 0" using 1(5,6) by auto
    ultimately have inv1: "kmem_inv kend (p # ps) s1" using 1(2) v s1 by (intro kfree_inv)
    have lt: "p < p + PGSIZE" using st(2) by (simp add: word_less_nat_alt)
    have "okR (\<lambda>s'. \<exists>ps'. kmem_inv kend ps' s' \<and>
        set ps' = set (p # ps) \<union> {q. aligned 12 q \<and> p + PGSIZE \<le> q \<and> q < PHYSTOP})
        (freerange_loop kend (p + PGSIZE) PHYSTOP s1)"
    proof (rule 1(1) [OF st(3) s1 inv1])
      show "\<forall>q \<in> set (p # ps). q < p + PGSIZE" using 1(3) lt by auto
      show "aligned 12 (p + PGSIZE)" "p + PGSIZE \<le> PHYSTOP" by (fact st)+
      show "kend \<le> p + PGSIZE" using 1(5) lt by simp
    qed (fact 1(6))
    moreover have "{q. aligned 12 q \<and> p \<le> q \<and> q < PHYSTOP} =
        insert p {q. aligned 12 q \<and> p + PGSIZE \<le> q \<and> q < PHYSTOP}"
    proof -
      have "q = p \<or> p + PGSIZE \<le> q" if "aligned 12 q" "p \<le> q" for q
      proof -
        have "4096 dvd unat p" "4096 dvd unat q" using 1(4) that(1) by (simp_all add: aligned_dvd)
        then obtain a b where "unat p = 4096 * a" "unat q = 4096 * b" by (meson dvdE)
        moreover have "unat p \<le> unat q" using that(2) by (simp add: word_le_nat_alt)
        ultimately have "unat q = unat p \<or> unat p + 4096 \<le> unat q" by (cases "a = b") auto
        then show ?thesis using st(2) by (simp add: word_le_nat_alt word_unat_eq_iff)
      qed
      then show ?thesis using 1(4) True lt by (auto intro: less_imp_le order.trans)
    qed
    moreover have "freerange_loop kend p PHYSTOP s = freerange_loop kend (p + PGSIZE) PHYSTOP s1"
      using s1 st(3) by (simp add: freerange_loop.simps [of kend p PHYSTOP s])
    ultimately show ?thesis by simp
  qed
qed

section \<open>The interface\<close>

text \<open>
  What a client may rely on, with the free pages as a set: an allocation takes one page out of
  it (or returns 0 when it is empty) and touches no other byte of memory; a free puts its page
  back.
\<close>

primrec alloc_many :: "('s \<Rightarrow> uint64 \<times> 's) \<Rightarrow> nat \<Rightarrow> 's \<Rightarrow> uint64 list \<times> 's" where
  "alloc_many alloc 0 s = ([], s)"
| "alloc_many alloc (Suc n) s =
     (let (r, s) = alloc s; (rs, s) = alloc_many alloc n s in (r # rs, s))"

locale page_allocator =
  fixes alloc :: "'s \<Rightarrow> uint64 \<times> 's"
    and free :: "uint64 \<Rightarrow> 's \<Rightarrow> 's result"
    and byte :: "'s \<Rightarrow> uint64 \<Rightarrow> uchar"
    and inv :: "uint64 set \<Rightarrow> 's \<Rightarrow> bool"
    and frame :: "uint64 \<Rightarrow> bool"
  assumes alloc_none: "inv {} s \<Longrightarrow> alloc s = (0, s)"
    and alloc_page: "inv F s \<Longrightarrow> F \<noteq> {} \<Longrightarrow> alloc s = (r, s') \<Longrightarrow> r \<in> F \<and> inv (F - {r}) s'"
    and alloc_byte: "inv F s \<Longrightarrow> alloc s = (r, s') \<Longrightarrow> x \<notin> page r \<Longrightarrow> byte s' x = byte s x"
    and free_page: "inv F s \<Longrightarrow> frame r \<Longrightarrow> r \<notin> F \<Longrightarrow> \<exists>s'. free r s = Ok s' \<and> inv (insert r F) s'"
    and free_byte: "free r s = Ok s' \<Longrightarrow> x \<notin> page r \<Longrightarrow> byte s' x = byte s x"
    and free_bad: "\<not> frame r \<Longrightarrow> r \<noteq> 0 \<Longrightarrow> \<exists>msg. free r s = Panic msg"
    and inv_frame: "inv F s \<Longrightarrow> r \<in> F \<Longrightarrow> frame r \<and> r \<noteq> 0"
    and inv_finite: "inv F s \<Longrightarrow> finite F"
begin

lemma alloc_many_distinct:
  "inv F s \<Longrightarrow> n \<le> card F \<Longrightarrow> alloc_many alloc n s = (rs, s') \<Longrightarrow>
     length rs = n \<and> distinct rs \<and> set rs \<subseteq> F \<and> inv (F - set rs) s'"
proof (induction n arbitrary: F s rs s')
  case 0
  then show ?case by simp
next
  case (Suc n)
  obtain r s1 where r: "alloc s = (r, s1)" by force
  obtain rs1 s2 where rs1: "alloc_many alloc n s1 = (rs1, s2)" by force
  have "F \<noteq> {}" using Suc.prems(2) by auto
  then have a: "r \<in> F" "inv (F - {r}) s1" using alloc_page [OF Suc.prems(1) _ r] by auto
  then have "n \<le> card (F - {r})" using Suc.prems(2) inv_finite [OF Suc.prems(1)] by simp
  note Suc.IH [OF a(2) this rs1]
  moreover have "F - {r} - set rs1 = F - set (r # rs1)" by auto
  ultimately show ?case using Suc.prems(3) r rs1 a(1) by auto
qed

lemma alloc_free_cycle:
  assumes "inv F s" "F \<noteq> {}" "alloc s = (r, s1)"
  shows "\<exists>s2. free r s1 = Ok s2 \<and> inv F s2"
proof -
  from alloc_page [OF assms] have r: "r \<in> F" "inv (F - {r}) s1" by auto
  moreover have "frame r" using inv_frame [OF assms(1) r(1)] by simp
  ultimately have "\<exists>s2. free r s1 = Ok s2 \<and> inv (insert r (F - {r})) s2"
    by (intro free_page) auto
  with r(1) show ?thesis by (simp add: insert_absorb)
qed

end

definition kmem_free :: "uint64 \<Rightarrow> uint64 set \<Rightarrow> 'z kmem_scheme \<Rightarrow> bool" where
  "kmem_free kend F s \<longleftrightarrow> (\<exists>ps. kmem_inv kend ps s \<and> set ps = F)"

interpretation kmem: page_allocator kalloc "kfree kend" mem "kmem_free kend"
    "\<lambda>r. valid_page kend r \<and> r \<noteq> 0" for kend
proof unfold_locales
  fix s :: "'z kmem_scheme"
  assume "kmem_free kend {} s"
  then show "kalloc s = (0, s)" by (auto simp: kmem_free_def kalloc_Nil)
next
  fix F and s s' :: "'z kmem_scheme" and r
  assume "kmem_free kend F s" "F \<noteq> {}" "kalloc s = (r, s')"
  then obtain qs where qs: "kmem_inv kend qs s" "set qs = F" by (auto simp: kmem_free_def)
  with \<open>F \<noteq> {}\<close> obtain p ps where qs': "qs = p # ps" by (cases qs) auto
  with qs have "p \<notin> set ps" by (simp add: kmem_inv_def)
  moreover have "r = p" using kalloc_Cons qs(1) qs' \<open>kalloc s = (r, s')\<close> by fastforce
  moreover have "kmem_inv kend ps s'" using kalloc_inv [of kend p ps s] qs(1) qs' \<open>kalloc s = (r, s')\<close> by simp
  ultimately show "r \<in> F \<and> kmem_free kend (F - {r}) s'" using qs(2) qs' by (auto simp: kmem_free_def)
next
  fix F and s :: "'z kmem_scheme" and r
  assume a: "kmem_free kend F s" "valid_page kend r \<and> r \<noteq> 0" "r \<notin> F"
  then obtain ps where ps: "kmem_inv kend ps s" "set ps = F" by (auto simp: kmem_free_def)
  obtain s' where s': "kfree kend r s = Ok s'" using a(2) kfree_Ok by blast
  then have "kmem_inv kend (r # ps) s'" using a ps by (intro kfree_inv) auto
  with s' ps(2) show "\<exists>s'. kfree kend r s = Ok s' \<and> kmem_free kend (insert r F) s'"
    by (auto simp: kmem_free_def)
next
  fix F and s :: "'z kmem_scheme" and r
  assume "kmem_free kend F s" "r \<in> F"
  then obtain ps where ps: "kmem_inv kend ps s" "r \<in> set ps" by (auto simp: kmem_free_def)
  have "free_path m p ps \<Longrightarrow> r \<in> set ps \<Longrightarrow> r \<noteq> 0" for m p
    by (induction ps arbitrary: p) auto
  with ps show "(valid_page kend r \<and> r \<noteq> 0) \<and> r \<noteq> 0" by (auto simp: kmem_inv_def)
qed (auto simp: kmem_free_def kfree_mem_frame kfree_Panic intro: kalloc_mem_frame)

section \<open>Properties\<close>

text \<open>
  C26. \<^verbatim>\<open>kalloc\<close> hands out a page of the free list, which is then no longer free, fills every byte
  of it with 5, and changes no byte outside it; it returns 0 and changes nothing exactly when no
  page is free.
\<close>

theorem kalloc_takes_free_page:
  assumes "kmem_free kend F s" "kalloc s = (r, s')"
  shows "if F = {} then r = 0 \<and> s' = s
    else r \<in> F \<and> valid_page kend r \<and> kmem_free kend (F - {r}) s' \<and> (\<forall>x. mem s' x = (if x \<in> page r then 5 else mem s x))"
  using assms kalloc_junk [OF assms(2)] kmem.alloc_none [of kend s] kmem.alloc_page [of kend F s r s']
    kmem.alloc_byte [OF assms] kmem.inv_frame [OF assms(1), of r]
  by auto

definition kmem_example :: kmem where
  "kmem_example = \<lparr>mem = (\<lambda>_. 0), freelist = 0x80100000\<rparr>"

lemma kmem_example_inv: "kmem_inv 0x80024000 [0x80100000] kmem_example"
  by (simp add: kmem_example_def kmem_inv_def valid_page_def PHYSTOP_eq aligned_def
      load_le_def take_bit_eq_mod)

lemma kmem_example_free: "kmem_free 0x80024000 {0x80100000} kmem_example"
  using kmem_example_inv unfolding kmem_free_def by fastforce

theorem kalloc_takes_free_page_witness:
  "kmem_free 0x80024000 {0x80100000} kmem_example \<and> fst (kalloc kmem_example) = 0x80100000 \<and>
   kmem_free 0x80024000 {} (snd (kalloc kmem_example)) \<and> mem (snd (kalloc kmem_example)) 0x80100FFF = 5 \<and>
   mem (snd (kalloc kmem_example)) 0x80101000 = 0"
proof -
  obtain r s' where rs: "kalloc kmem_example = (r, s')" by force
  have "mem kmem_example 0x80101000 = 0" by (simp add: kmem_example_def)
  then show ?thesis
    using kalloc_takes_free_page [OF kmem_example_free rs] kmem_example_free rs by auto
qed

text \<open>
  C12. Pages that \<^verbatim>\<open>kalloc\<close> returned one after another are all different, so no two owners
  share a page, and they are exactly the pages that left the free list.
\<close>

theorem kalloc_never_repeats:
  assumes "kmem_free kend F s" "n \<le> card F" "alloc_many kalloc n s = (rs, s')"
  shows "length rs = n \<and> distinct rs \<and> set rs \<subseteq> F \<and> kmem_free kend (F - set rs) s'"
  by (rule kmem.alloc_many_distinct [OF assms])

theorem kalloc_never_repeats_witness:
  "distinct (fst (alloc_many kalloc 1 kmem_example)) \<and> length (fst (alloc_many kalloc 1 kmem_example)) = 1"
proof -
  obtain rs s' where rs: "alloc_many kalloc 1 kmem_example = (rs, s')" by force
  show ?thesis using kalloc_never_repeats [OF kmem_example_free _ rs] rs by simp
qed

text \<open>
  C27. \<^verbatim>\<open>kfree\<close> of an allocated page puts it on the free list, fills it behind the link to the
  next page with 1, and touches no other page; of any address that is not that of a page between
  the end of the kernel and \<^verbatim>\<open>PHYSTOP\<close>, 0 included, it panics.
\<close>

theorem kfree_returns_page:
  assumes "kmem_free kend F s" "0 < kend" "pa \<notin> F"
  shows "if valid_page kend pa
    then okR (\<lambda>s'. kmem_free kend (insert pa F) s' \<and> (\<forall>x. x \<notin> page pa \<longrightarrow> mem s' x = mem s x) \<and>
      (\<forall>x \<in> page pa. 8 \<le> unat (x - pa) \<longrightarrow> mem s' x = 1)) (kfree kend pa s)
    else kfree kend pa s = Panic ''kfree''"
proof (cases "valid_page kend pa")
  case True
  then have "pa \<noteq> 0" using assms(2) by (auto simp: valid_page_def)
  then obtain s' where "kfree kend pa s = Ok s'" "kmem_free kend (insert pa F) s'"
    using kmem.free_page [OF assms(1) _ assms(3)] True by blast
  with True show ?thesis using kmem.free_byte kfree_junk by (auto simp: okR_def)
qed (simp add: kfree_Panic)

theorem kfree_returns_page_witness:
  "okR (kmem_free 0x80024000 {0x80101000, 0x80100000}) (kfree 0x80024000 0x80101000 kmem_example) \<and>
   kfree 0x80024000 0x80101008 kmem_example = Panic ''kfree'' \<and> kfree 0x80024000 0 kmem_example = Panic ''kfree''"
proof -
  have v: "valid_page 0x80024000 0x80101000" "\<not> valid_page 0x80024000 0x80101008" "\<not> valid_page 0x80024000 0"
    by (simp_all add: valid_page_def PHYSTOP_eq aligned_def take_bit_eq_mod)
  show ?thesis
    using kfree_returns_page [where pa = "0x80101000", OF kmem_example_free]
      kfree_returns_page [where pa = "0x80101008", OF kmem_example_free] kfree_returns_page [where pa = 0, OF kmem_example_free] v
    by (auto elim: okR_mono)
qed

text \<open>
  C25. \<^verbatim>\<open>kinit\<close> never panics and puts every page between the end of the kernel and
  \<^verbatim>\<open>PHYSTOP\<close> on the free list, each once.
\<close>

theorem kinit_frees_all_pages:
  assumes "0 < kend" "kend \<le> PHYSTOP" "freelist s = 0"
  shows "okR (kmem_free kend {pa. valid_page kend pa}) (kinit kend s)"
proof -
  have u: "unat kend \<le> 0x88000000" using assms(2) by (simp add: PHYSTOP_eq word_le_nat_alt)
  then have up: "unat (PGROUNDUP kend) = (unat kend + 4095) div 4096 * 4096"
    by (intro unat_PGROUNDUP) simp
  have le: "PGROUNDUP kend \<le> PHYSTOP"
    using u by (simp add: word_le_nat_alt PHYSTOP_eq up)
  have ge: "kend \<le> PGROUNDUP kend"
    using u PGROUNDUP_bounds(1) [of kend] by (simp add: word_le_nat_alt)
  have "PGROUNDUP kend \<le> q \<longleftrightarrow> kend \<le> q" if "aligned 12 q" for q
  proof -
    have "4096 dvd unat q" using that by (simp add: aligned_dvd)
    then obtain k where "unat q = 4096 * k" by blast
    then show ?thesis using ge by (auto simp: word_le_nat_alt up)
  qed
  then have "{q. aligned 12 q \<and> PGROUNDUP kend \<le> q \<and> q < PHYSTOP} = {pa. valid_page kend pa}"
    by (auto simp: valid_page_def)
  moreover have "kmem_inv kend [] s" using assms(3) by (simp add: kmem_inv_def)
  ultimately show ?thesis
    using freerange_loop_inv [of kend "[]" s "PGROUNDUP kend"] assms(1) le ge
    by (auto simp: kinit_def freerange_def kmem_free_def okR_def)
qed

theorem kinit_frees_all_pages_witness:
  "okR (kmem_free 0x800235a8 {pa. valid_page 0x800235a8 pa}) (kinit 0x800235a8 \<lparr>mem = (\<lambda>_. 0), freelist = 0\<rparr>)"
  by (rule kinit_frees_all_pages) (simp_all add: PHYSTOP_eq)

end
