(* ===== verification/Vm.thy ===== *)
theory Vm
  imports Kalloc
begin

text \<open>
  \<^verbatim>\<open>kernel/vm.c\<close>: Sv39 page tables, in the same byte memory the allocator works on. A table
  page holds 512 little-endian entries; \<open>pt\<close> is the physical address of the root (the C
  \<^verbatim>\<open>pagetable_t\<close>). The abstraction \<open>pte_of m pt va\<close> is the entry that translates \<open>va\<close>, or 0,
  and \<open>table m pt p\<close> the table page reached along the index path \<open>p\<close> (deepest index first).
  \<open>vm_inv\<close> says that the tables of a set of address spaces are pages of their own: allocated,
  all different, and none of them free.
\<close>

unbundle bit_operations_syntax

section \<open>The code\<close>

text \<open>\<^verbatim>\<open>&pagetable[i]\<close>\<close>

definition pte_at :: "uint64 \<Rightarrow> uint64 \<Rightarrow> uint64" where
  "pte_at pagetable i = pagetable + 8 * i"

fun walk_levels :: "nat \<Rightarrow> uint64 \<Rightarrow> uint64 \<Rightarrow> bool \<Rightarrow> 'z kmem_scheme \<Rightarrow> uint64 \<times> 'z kmem_scheme" where
  "walk_levels 0 pagetable va alloc s = (pte_at pagetable (PX 0 va), s)"
| "walk_levels (Suc level) pagetable va alloc s =
     (let pte = pte_at pagetable (PX (Suc level) va) in
      if load64 (mem s) pte AND PTE_V \<noteq> 0
      then walk_levels level (PTE2PA (load64 (mem s) pte)) va alloc s
      else if \<not> alloc then (0, s)
      else
        let (pagetable, s) = kalloc s in
        if pagetable = 0 then (0, s)
        else
          let s = s\<lparr>mem := memset (mem s) pagetable 0 (ucast PGSIZE)\<rparr>;
              s = s\<lparr>mem := store64 (mem s) pte (PA2PTE pagetable OR PTE_V)\<rparr>
          in walk_levels level pagetable va alloc s)"

definition walk :: "uint64 \<Rightarrow> uint64 \<Rightarrow> bool \<Rightarrow> 'z kmem_scheme \<Rightarrow> (uint64 \<times> 'z kmem_scheme) result" where
  "walk pagetable va alloc s =
     (if va \<ge> MAXVA then Panic ''walk'' else Ok (walk_levels 2 pagetable va alloc s))"

definition walkaddr :: "uint64 \<Rightarrow> uint64 \<Rightarrow> 'z kmem_scheme \<Rightarrow> uint64" where
  "walkaddr pagetable va s =
     (if va \<ge> MAXVA then 0
      else case walk pagetable va False s of
          Ok (pte, _) \<Rightarrow>
            (if pte = 0 then 0
             else if load64 (mem s) pte AND PTE_V = 0 then 0
             else if load64 (mem s) pte AND PTE_U = 0 then 0
             else PTE2PA (load64 (mem s) pte))
        | _ \<Rightarrow> 0)"

text \<open>
  The \<^verbatim>\<open>for(;;)\<close> of \<^verbatim>\<open>mappages\<close>. It ends because \<^verbatim>\<open>walk\<close> panics at \<^verbatim>\<open>MAXVA\<close>.
\<close>

function mappages_loop :: "uint64 \<Rightarrow> uint64 \<Rightarrow> uint64 \<Rightarrow> uint64 \<Rightarrow> cint \<Rightarrow>
    'z kmem_scheme \<Rightarrow> (int \<times> 'z kmem_scheme) result" where
  "mappages_loop pagetable a last_a pa perm s =
     bindR (walk pagetable a True s) (\<lambda>(pte, s).
       if pte = 0 then Ok (-1, s)
       else if load64 (mem s) pte AND PTE_V \<noteq> 0 then Panic ''mappages: remap''
       else
         let s = s\<lparr>mem := store64 (mem s) pte (PA2PTE pa OR scast perm OR PTE_V)\<rparr> in
         if a = last_a then Ok (0, s)
         else mappages_loop pagetable (a + PGSIZE) last_a (pa + PGSIZE) perm s)"
  by pat_completeness auto

lemma unat_MAXVA: "unat MAXVA = 2 ^ 38"
  by (simp add: MAXVA_eq)

lemma below_MAXVA_step:
  "\<not> MAXVA \<le> a \<Longrightarrow> unat a < 2 ^ 38 \<and> unat (a + PGSIZE) = unat a + 4096"
proof -
  assume "\<not> MAXVA \<le> a"
  then have "unat a < 2 ^ 38" by (simp add: word_le_nat_alt unat_MAXVA)
  then show ?thesis using unat_add_nat [of a 4096] by (simp add: PGSIZE_def)
qed

lemma walk_Ok: "walk pagetable va alloc s = Ok r \<longleftrightarrow> \<not> MAXVA \<le> va \<and> r = walk_levels 2 pagetable va alloc s"
  by (auto simp: walk_def)

termination mappages_loop
proof (relation "measure (\<lambda>(pagetable, a, last_a, pa, perm, s). 2 ^ 39 - unat a)")
  fix pagetable a last_a pa :: uint64 and perm :: cint and s s1 s2 :: "'z kmem_scheme" and x pte
  assume "walk pagetable a True s = Ok x"
  then have "\<not> MAXVA \<le> a" by (simp add: walk_Ok)
  note below_MAXVA_step [OF this]
  then show "((pagetable, a + PGSIZE, last_a, pa + PGSIZE, perm, s2), pagetable, a, last_a, pa, perm, s) \<in>
      measure (\<lambda>(pagetable, a, last_a, pa, perm, s). 2 ^ 39 - unat a)"
    by auto
qed simp

declare mappages_loop.simps [simp del]

definition mappages :: "uint64 \<Rightarrow> uint64 \<Rightarrow> uint64 \<Rightarrow> uint64 \<Rightarrow> cint \<Rightarrow>
    'z kmem_scheme \<Rightarrow> (int \<times> 'z kmem_scheme) result" where
  "mappages pagetable va sz pa perm s =
     (if sz = 0 then Panic ''mappages: size''
      else mappages_loop pagetable (PGROUNDDOWN va) (PGROUNDDOWN (va + sz - 1)) pa perm s)"

definition kvmmap :: "uint64 \<Rightarrow> uint64 \<Rightarrow> uint64 \<Rightarrow> uint64 \<Rightarrow> cint \<Rightarrow> 'z kmem_scheme \<Rightarrow> 'z kmem_scheme result" where
  "kvmmap kpgtbl va pa sz perm s =
     bindR (mappages kpgtbl va sz pa perm s) (\<lambda>(r, s). if r \<noteq> 0 then Panic ''kvmmap'' else Ok s)"

function uvmunmap_loop :: "uint64 \<Rightarrow> uint64 \<Rightarrow> uint64 \<Rightarrow> uint64 \<Rightarrow> bool \<Rightarrow>
    'z kmem_scheme \<Rightarrow> 'z kmem_scheme result" where
  "uvmunmap_loop kend pagetable a va_end do_free s =
     (if a < va_end
      then bindR (walk pagetable a False s) (\<lambda>(pte, s).
        if pte = 0 then Panic ''uvmunmap: walk''
        else if load64 (mem s) pte AND PTE_V = 0 then Panic ''uvmunmap: not mapped''
        else if PTE_FLAGS (load64 (mem s) pte) = PTE_V then Panic ''uvmunmap: not a leaf''
        else bindR (if do_free then kfree kend (PTE2PA (load64 (mem s) pte)) s else Ok s) (\<lambda>s.
          uvmunmap_loop kend pagetable (a + PGSIZE) va_end do_free (s\<lparr>mem := store64 (mem s) pte 0\<rparr>)))
      else Ok s)"
  by pat_completeness auto
termination
proof (relation "measure (\<lambda>(kend, pagetable, a, va_end, do_free, s). 2 ^ 39 - unat a)")
  fix kend pagetable a va_end :: uint64 and do_free and s s1 s2 :: "'z kmem_scheme" and x pte
  assume "walk pagetable a False s = Ok x"
  then have "\<not> MAXVA \<le> a" by (simp add: walk_Ok)
  note below_MAXVA_step [OF this]
  then show "((kend, pagetable, a + PGSIZE, va_end, do_free, s2\<lparr>mem := store64 (mem s2) pte 0\<rparr>),
        kend, pagetable, a, va_end, do_free, s) \<in>
      measure (\<lambda>(kend, pagetable, a, va_end, do_free, s). 2 ^ 39 - unat a)"
    by auto
qed simp

declare uvmunmap_loop.simps [simp del]

definition uvmunmap :: "uint64 \<Rightarrow> uint64 \<Rightarrow> uint64 \<Rightarrow> uint64 \<Rightarrow> bool \<Rightarrow>
    'z kmem_scheme \<Rightarrow> 'z kmem_scheme result" where
  "uvmunmap kend pagetable va npages do_free s =
     (if va mod PGSIZE \<noteq> 0 then Panic ''uvmunmap: not aligned''
      else uvmunmap_loop kend pagetable va (va + npages * PGSIZE) do_free s)"

definition uvmcreate :: "'z kmem_scheme \<Rightarrow> uint64 \<times> 'z kmem_scheme" where
  "uvmcreate s =
     (let (pagetable, s) = kalloc s in
      if pagetable = 0 then (0, s)
      else (pagetable, s\<lparr>mem := memset (mem s) pagetable 0 (ucast PGSIZE)\<rparr>))"

text \<open>\<^verbatim>\<open>src\<close> is the initial program image in kernel memory (\<^verbatim>\<open>initcode\<close>).\<close>

definition uvmfirst :: "uint64 \<Rightarrow> uint64 \<Rightarrow> uint \<Rightarrow> 'z kmem_scheme \<Rightarrow> 'z kmem_scheme result" where
  "uvmfirst pagetable src sz s =
     (if ucast sz \<ge> PGSIZE then Panic ''uvmfirst: more than a page''
      else
        let (page, s) = kalloc s in
        if page = 0 then Undef
        else
          let s = s\<lparr>mem := memset (mem s) page 0 (ucast PGSIZE)\<rparr> in
          bindR (mappages pagetable 0 PGSIZE page (ucast (PTE_W OR PTE_R OR PTE_X OR PTE_U)) s) (\<lambda>(_, s).
            Ok (s\<lparr>mem := memmove (mem s) page src sz\<rparr>)))"

text \<open>
  \<^verbatim>\<open>npages\<close> is an \<^verbatim>\<open>int\<close>: the page count is truncated to 32 bits and sign-extended when it is
  passed on.
\<close>

definition uvmdealloc :: "uint64 \<Rightarrow> uint64 \<Rightarrow> uint64 \<Rightarrow> uint64 \<Rightarrow> 'z kmem_scheme \<Rightarrow> (uint64 \<times> 'z kmem_scheme) result" where
  "uvmdealloc kend pagetable oldsz newsz s =
     (if newsz \<ge> oldsz then Ok (oldsz, s)
      else if PGROUNDUP newsz < PGROUNDUP oldsz
      then
        let npages = ucast ((PGROUNDUP oldsz - PGROUNDUP newsz) div PGSIZE) :: cint in
        bindR (uvmunmap kend pagetable (PGROUNDUP newsz) (scast npages) True s) (\<lambda>s. Ok (newsz, s))
      else Ok (newsz, s))"

lemma mappages_Ok_below:
  assumes "mappages pagetable va sz pa perm s = Ok r"
  shows "\<not> MAXVA \<le> PGROUNDDOWN va"
  using assms by (auto simp: mappages_def mappages_loop.simps [of pagetable "PGROUNDDOWN va"] walk_Ok split: if_splits)

lemma PGROUNDDOWN_below_step:
  assumes "\<not> MAXVA \<le> PGROUNDDOWN a"
  shows "unat a < 2 ^ 38 \<and> unat (a + PGSIZE) = unat a + 4096"
proof -
  have "unat a div 4096 * 4096 < 2 ^ 38"
    using assms by (simp add: word_le_nat_alt unat_MAXVA unat_PGROUNDDOWN)
  then have "unat a < 2 ^ 38" by simp
  then show ?thesis using unat_add_nat [of a 4096] by (simp add: PGSIZE_def)
qed

function uvmalloc_loop :: "uint64 \<Rightarrow> uint64 \<Rightarrow> uint64 \<Rightarrow> uint64 \<Rightarrow> uint64 \<Rightarrow> cint \<Rightarrow>
    'z kmem_scheme \<Rightarrow> (uint64 \<times> 'z kmem_scheme) result" where
  "uvmalloc_loop kend pagetable a oldsz newsz xperm s =
     (if a < newsz
      then
        let (page, s) = kalloc s in
        if page = 0 then bindR (uvmdealloc kend pagetable a oldsz s) (\<lambda>(_, s). Ok (0, s))
        else
          let s = s\<lparr>mem := memset (mem s) page 0 (ucast PGSIZE)\<rparr> in
          bindR (mappages pagetable a PGSIZE page (ucast (PTE_R OR PTE_U) OR xperm) s) (\<lambda>(r, s).
            if r \<noteq> 0
            then bindR (kfree kend page s) (\<lambda>s.
              bindR (uvmdealloc kend pagetable a oldsz s) (\<lambda>(_, s). Ok (0, s)))
            else uvmalloc_loop kend pagetable (a + PGSIZE) oldsz newsz xperm s)
      else Ok (newsz, s))"
  by pat_completeness auto
termination
proof (relation "measure (\<lambda>(kend, pagetable, a, oldsz, newsz, xperm, s). 2 ^ 39 - unat a)")
  fix kend pagetable a oldsz newsz page :: uint64 and xperm :: cint and s s1 s2 s3 :: "'z kmem_scheme" and x r
  assume "mappages pagetable a PGSIZE page (ucast (PTE_R OR PTE_U) OR xperm) s2 = Ok x"
  note PGROUNDDOWN_below_step [OF mappages_Ok_below [OF this]]
  then show "((kend, pagetable, a + PGSIZE, oldsz, newsz, xperm, s3), kend, pagetable, a, oldsz, newsz, xperm, s) \<in>
      measure (\<lambda>(kend, pagetable, a, oldsz, newsz, xperm, s). 2 ^ 39 - unat a)"
    by auto
qed simp

declare uvmalloc_loop.simps [simp del]

definition uvmalloc :: "uint64 \<Rightarrow> uint64 \<Rightarrow> uint64 \<Rightarrow> uint64 \<Rightarrow> cint \<Rightarrow>
    'z kmem_scheme \<Rightarrow> (uint64 \<times> 'z kmem_scheme) result" where
  "uvmalloc kend pagetable oldsz newsz xperm s =
     (if newsz < oldsz then Ok (oldsz, s)
      else
        let oldsz = PGROUNDUP oldsz in
        uvmalloc_loop kend pagetable oldsz oldsz newsz xperm s)"

text \<open>
  \<^verbatim>\<open>freewalk\<close> with its loop index: it recurses into the tables it finds, so on a cyclic table
  it would not return, which is the value \<^const>\<open>None\<close>.
\<close>

partial_function (option) freewalk_loop ::
    "uint64 \<Rightarrow> uint64 \<Rightarrow> nat \<Rightarrow> 'z kmem_scheme \<Rightarrow> 'z kmem_scheme result option" where
  "freewalk_loop kend pagetable i s =
     (if i < 512
      then
        let pte = load64 (mem s) (pte_at pagetable (of_nat i)) in
        if pte AND PTE_V \<noteq> 0 \<and> pte AND (PTE_R OR PTE_W OR PTE_X) = 0
        then Option.bind (freewalk_loop kend (PTE2PA pte) 0 s) (\<lambda>r.
          case r of
            Ok s \<Rightarrow> freewalk_loop kend pagetable (Suc i)
                      (s\<lparr>mem := store64 (mem s) (pte_at pagetable (of_nat i)) 0\<rparr>)
          | Panic msg \<Rightarrow> Some (Panic msg)
          | Blocked \<Rightarrow> Some Blocked
          | Undef \<Rightarrow> Some Undef)
        else if pte AND PTE_V \<noteq> 0 then Some (Panic ''freewalk: leaf'')
        else freewalk_loop kend pagetable (Suc i) s
      else Some (kfree kend pagetable s))"

definition freewalk :: "uint64 \<Rightarrow> uint64 \<Rightarrow> 'z kmem_scheme \<Rightarrow> 'z kmem_scheme result option" where
  "freewalk kend pagetable s = freewalk_loop kend pagetable 0 s"

definition uvmfree :: "uint64 \<Rightarrow> uint64 \<Rightarrow> uint64 \<Rightarrow> 'z kmem_scheme \<Rightarrow> 'z kmem_scheme result option" where
  "uvmfree kend pagetable sz s =
     (case (if sz > 0 then uvmunmap kend pagetable 0 (PGROUNDUP sz div PGSIZE) True s else Ok s) of
        Ok s \<Rightarrow> freewalk kend pagetable s
      | Panic msg \<Rightarrow> Some (Panic msg)
      | Blocked \<Rightarrow> Some Blocked
      | Undef \<Rightarrow> Some Undef)"

function uvmcopy_loop :: "uint64 \<Rightarrow> uint64 \<Rightarrow> uint64 \<Rightarrow> uint64 \<Rightarrow> uint64 \<Rightarrow>
    'z kmem_scheme \<Rightarrow> (int \<times> 'z kmem_scheme) result" where
  "uvmcopy_loop kend old new i sz s =
     (if i < sz
      then bindR (walk old i False s) (\<lambda>(pte, s).
        if pte = 0 then Panic ''uvmcopy: pte should exist''
        else if load64 (mem s) pte AND PTE_V = 0 then Panic ''uvmcopy: page not present''
        else
          let pa = PTE2PA (load64 (mem s) pte);
              flags = ucast (PTE_FLAGS (load64 (mem s) pte)) :: uint;
              err = (\<lambda>s. bindR (uvmunmap kend new 0 (i div PGSIZE) True s) (\<lambda>s. Ok (-1, s)));
              (page, s) = kalloc s
          in
          if page = 0 then err s
          else
            let s = s\<lparr>mem := memmove (mem s) page pa (ucast PGSIZE)\<rparr> in
            bindR (mappages new i PGSIZE page flags s) (\<lambda>(r, s).
              if r \<noteq> 0 then bindR (kfree kend page s) err
              else uvmcopy_loop kend old new (i + PGSIZE) sz s))
      else Ok (0, s))"
  by pat_completeness auto
termination
proof (relation "measure (\<lambda>(kend, old, new, i, sz, s). 2 ^ 39 - unat i)")
  fix kend old new i sz :: uint64 and s s' :: "'z kmem_scheme" and x
  assume "walk old i False s = Ok x"
  then have "\<not> MAXVA \<le> i" by (simp add: walk_Ok)
  note below_MAXVA_step [OF this]
  then show "((kend, old, new, i + PGSIZE, sz, s'), kend, old, new, i, sz, s) \<in>
      measure (\<lambda>(kend, old, new, i, sz, s). 2 ^ 39 - unat i)"
    by auto
qed simp

declare uvmcopy_loop.simps [simp del]

definition uvmcopy :: "uint64 \<Rightarrow> uint64 \<Rightarrow> uint64 \<Rightarrow> uint64 \<Rightarrow> 'z kmem_scheme \<Rightarrow> (int \<times> 'z kmem_scheme) result" where
  "uvmcopy kend old new sz s = uvmcopy_loop kend old new 0 sz s"

definition uvmclear :: "uint64 \<Rightarrow> uint64 \<Rightarrow> 'z kmem_scheme \<Rightarrow> 'z kmem_scheme result" where
  "uvmclear pagetable va s =
     bindR (walk pagetable va False s) (\<lambda>(pte, s).
       if pte = 0 then Panic ''uvmclear''
       else Ok (s\<lparr>mem := store64 (mem s) pte (load64 (mem s) pte AND NOT PTE_U)\<rparr>))"

text \<open>The bytes left on the page of \<open>va\<close>, at most \<open>len\<close> of them: \<^verbatim>\<open>n\<close> in the copy loops.\<close>

definition page_chunk :: "uint64 \<Rightarrow> uint64 \<Rightarrow> uint64" where
  "page_chunk va len =
     (let n = PGSIZE - (va - PGROUNDDOWN va) in if n > len then len else n)"

lemma unat_page_offset: "unat (va - PGROUNDDOWN va) = unat va mod 4096"
proof -
  have "unat (PGROUNDDOWN va) \<le> unat va" by (simp add: unat_PGROUNDDOWN)
  then have "unat (va - PGROUNDDOWN va) = unat va - unat (PGROUNDDOWN va)"
    by (simp add: unat_sub_if_size)
  then show ?thesis by (simp add: unat_PGROUNDDOWN modulo_nat_def)
qed

lemma unat_page_chunk: "unat (page_chunk va len) = min (4096 - unat va mod 4096) (unat len)"
proof -
  have o: "unat (va - PGROUNDDOWN va) < 4096" by (simp add: unat_page_offset)
  then have "unat (PGSIZE - (va - PGROUNDDOWN va)) = 4096 - unat (va - PGROUNDDOWN va)"
    by (simp add: unat_sub_if_size PGSIZE_def)
  then show ?thesis
    by (simp add: page_chunk_def Let_def word_less_nat_alt unat_page_offset)
qed

function copyout :: "uint64 \<Rightarrow> uint64 \<Rightarrow> uint64 \<Rightarrow> uint64 \<Rightarrow> 'z kmem_scheme \<Rightarrow> int \<times> 'z kmem_scheme" where
  "copyout pagetable dstva src len s =
     (if len > 0
      then
        let va0 = PGROUNDDOWN dstva;
            pa0 = walkaddr pagetable va0 s
        in
        if pa0 = 0 then (-1, s)
        else
          let n = page_chunk dstva len;
              s = s\<lparr>mem := memmove (mem s) (pa0 + (dstva - va0)) src (ucast n)\<rparr>
          in copyout pagetable (va0 + PGSIZE) (src + n) (len - n) s
      else (0, s))"
  by pat_completeness auto

lemma page_chunk_decreases: "0 < len \<Longrightarrow> unat (len - page_chunk va len) < unat len"
proof -
  assume "0 < len"
  then have "0 < unat len" by (simp add: unat_gt_0)
  moreover have c: "unat (page_chunk va len) \<le> unat len" "0 < 4096 - unat va mod 4096"
    by (simp_all add: unat_page_chunk)
  ultimately show ?thesis
    by (simp add: unat_sub_if_size) (simp add: unat_page_chunk)
qed

termination copyout
  by (relation "measure (\<lambda>(pagetable, dstva, src, len, s). unat len)") (simp_all add: page_chunk_decreases)

declare copyout.simps [simp del]

function copyin :: "uint64 \<Rightarrow> uint64 \<Rightarrow> uint64 \<Rightarrow> uint64 \<Rightarrow> 'z kmem_scheme \<Rightarrow> int \<times> 'z kmem_scheme" where
  "copyin pagetable dst srcva len s =
     (if len > 0
      then
        let va0 = PGROUNDDOWN srcva;
            pa0 = walkaddr pagetable va0 s
        in
        if pa0 = 0 then (-1, s)
        else
          let n = page_chunk srcva len;
              s = s\<lparr>mem := memmove (mem s) dst (pa0 + (srcva - va0)) (ucast n)\<rparr>
          in copyin pagetable (dst + n) (va0 + PGSIZE) (len - n) s
      else (0, s))"
  by pat_completeness auto
termination
  by (relation "measure (\<lambda>(pagetable, dst, srcva, len, s). unat len)") (simp_all add: page_chunk_decreases)

declare copyin.simps [simp del]

text \<open>
  The inner loop of \<^verbatim>\<open>copyinstr\<close> on its count \<^verbatim>\<open>n\<close>: whether it met a NUL, and the bytes it
  copied before that (by which \<^verbatim>\<open>max\<close> and \<^verbatim>\<open>dst\<close> moved).
\<close>

fun copyinstr_chunk :: "memory \<Rightarrow> uint64 \<Rightarrow> uint64 \<Rightarrow> nat \<Rightarrow> bool \<times> nat \<times> memory" where
  "copyinstr_chunk m dst p 0 = (False, 0, m)"
| "copyinstr_chunk m dst p (Suc n) =
     (if m p = 0 then (True, 0, m(dst := 0))
      else case copyinstr_chunk (m(dst := m p)) (dst + 1) (p + 1) n of (got, k, m) \<Rightarrow> (got, Suc k, m))"

function copyinstr :: "uint64 \<Rightarrow> uint64 \<Rightarrow> uint64 \<Rightarrow> uint64 \<Rightarrow> 'z kmem_scheme \<Rightarrow> int \<times> 'z kmem_scheme" where
  "copyinstr pagetable dst srcva mx s =
     (if mx > 0
      then
        let va0 = PGROUNDDOWN srcva;
            pa0 = walkaddr pagetable va0 s
        in
        if pa0 = 0 then (-1, s)
        else
          let n = page_chunk srcva mx;
              (got_null, k, m) = copyinstr_chunk (mem s) dst (pa0 + (srcva - va0)) (unat n);
              s = s\<lparr>mem := m\<rparr>
          in
          if got_null then (0, s)
          else copyinstr pagetable (dst + of_nat k) (va0 + PGSIZE) (mx - of_nat k) s
      else (-1, s))"
  by pat_completeness auto

lemma copyinstr_chunk_all: "copyinstr_chunk m dst p n = (False, k, m') \<Longrightarrow> k = n"
  by (induction m dst p n arbitrary: k m' rule: copyinstr_chunk.induct) (auto split: if_splits prod.splits)

termination copyinstr
proof (relation "measure (\<lambda>(pagetable, dst, srcva, mx, s). unat mx)", goal_cases)
  case 1
  then show ?case by simp
next
  case (2 pagetable dst srcva mx s va0 pa0 n x got_null y k m s')
  then have "k = unat n" by (auto dest: copyinstr_chunk_all [OF sym])
  with 2 show ?case by (simp add: page_chunk_decreases)
qed

declare copyinstr.simps [simp del]

text \<open>
  The kernel's own page table. \<open>etext\<close> and \<open>trampoline\<close> are linker symbols. One stack page per
  process slot is allocated and mapped below the trampoline (\<^verbatim>\<open>proc_mapstacks\<close>).
\<close>

fun proc_mapstacks_loop :: "uint64 \<Rightarrow> nat list \<Rightarrow> 'z kmem_scheme \<Rightarrow> 'z kmem_scheme result" where
  "proc_mapstacks_loop kpgtbl [] s = Ok s"
| "proc_mapstacks_loop kpgtbl (p # ps) s =
     (let (pa, s) = kalloc s in
      if pa = 0 then Panic ''kalloc''
      else bindR (kvmmap kpgtbl (KSTACK p) pa PGSIZE (ucast (PTE_R OR PTE_W)) s)
             (proc_mapstacks_loop kpgtbl ps))"

definition proc_mapstacks :: "uint64 \<Rightarrow> 'z kmem_scheme \<Rightarrow> 'z kmem_scheme result" where
  "proc_mapstacks kpgtbl s = proc_mapstacks_loop kpgtbl [0..<NPROC] s"

definition kvmmake :: "uint64 \<Rightarrow> uint64 \<Rightarrow> 'z kmem_scheme \<Rightarrow> (uint64 \<times> 'z kmem_scheme) result" where
  "kvmmake etext trampoline s =
     (let (kpgtbl, s) = kalloc s in
      if kpgtbl = 0 then Undef
      else
        let s = s\<lparr>mem := memset (mem s) kpgtbl 0 (ucast PGSIZE)\<rparr>;
            rw = ucast (PTE_R OR PTE_W);
            rx = ucast (PTE_R OR PTE_X)
        in
        bindR (kvmmap kpgtbl UART0 UART0 PGSIZE rw s) (\<lambda>s.
        bindR (kvmmap kpgtbl VIRTIO0 VIRTIO0 PGSIZE rw s) (\<lambda>s.
        bindR (kvmmap kpgtbl PLIC PLIC 0x400000 rw s) (\<lambda>s.
        bindR (kvmmap kpgtbl KERNBASE KERNBASE (etext - KERNBASE) rx s) (\<lambda>s.
        bindR (kvmmap kpgtbl etext etext (PHYSTOP - etext) rw s) (\<lambda>s.
        bindR (kvmmap kpgtbl TRAMPOLINE trampoline PGSIZE rx s) (\<lambda>s.
        bindR (proc_mapstacks kpgtbl s) (\<lambda>s. Ok (kpgtbl, s)))))))))"

text \<open>\<^verbatim>\<open>either_copyout\<close> and \<^verbatim>\<open>either_copyin\<close> of \<^verbatim>\<open>proc.c\<close>; \<open>pagetable\<close> is the caller's.\<close>

definition either_copyout :: "uint64 \<Rightarrow> bool \<Rightarrow> uint64 \<Rightarrow> uint64 \<Rightarrow> uint64 \<Rightarrow> 'z kmem_scheme \<Rightarrow> int \<times> 'z kmem_scheme" where
  "either_copyout pagetable user_dst dst src len s =
     (if user_dst then copyout pagetable dst src len s
      else (0, s\<lparr>mem := memmove (mem s) dst src (ucast len)\<rparr>))"

definition either_copyin :: "uint64 \<Rightarrow> uint64 \<Rightarrow> bool \<Rightarrow> uint64 \<Rightarrow> uint64 \<Rightarrow> 'z kmem_scheme \<Rightarrow> int \<times> 'z kmem_scheme" where
  "either_copyin pagetable dst user_src src len s =
     (if user_src then copyin pagetable dst src len s
      else (0, s\<lparr>mem := memmove (mem s) dst src (ucast len)\<rparr>))"

end
