(* ===== verification/VmMap.thy ===== *)
theory VmMap
  imports Vm
begin

text \<open>
  What the routines of \<^verbatim>\<open>kernel/vm.c\<close> do to address spaces. \<open>pte_of m r va\<close> is the entry
  that translates \<open>va\<close> in the address space with root table \<open>r\<close> (0 when a table on the way is
  missing), so an address space is a function from virtual pages to entries. The invariant
  \<open>vm_inv kend F R s\<close> is for a set \<open>R\<close> of roots at once: the free list is sound with free
  pages \<open>F\<close>, every table page of every root is an allocated page, and no two (root, path)
  pairs share a table page. \<open>grows\<close> is the effect shared by all routines that only add tables.
\<close>

unbundle bit_operations_syntax

section \<open>Tables and entries\<close>

fun table :: "memory \<Rightarrow> uint64 \<Rightarrow> uint64 list \<Rightarrow> uint64 option" where
  "table m r [] = Some r"
| "table m r (i # p) = (case table m r p of
       None \<Rightarrow> None
     | Some t \<Rightarrow> (if load64 m (pte_at t i) AND PTE_V \<noteq> 0 then Some (PTE2PA (load64 m (pte_at t i))) else None))"

definition pte_of :: "memory \<Rightarrow> uint64 \<Rightarrow> uint64 \<Rightarrow> uint64" where
  "pte_of m r va = (case table m r [PX 1 va, PX 2 va] of
       None \<Rightarrow> 0
     | Some t \<Rightarrow> load64 m (pte_at t (PX 0 va)))"

definition valid_path :: "uint64 list \<Rightarrow> bool" where
  "valid_path p \<longleftrightarrow> length p \<le> 2 \<and> (\<forall>i \<in> set p. unat i < 512)"

definition tables :: "memory \<Rightarrow> uint64 set \<Rightarrow> uint64 set" where
  "tables m R = {t. \<exists>r \<in> R. \<exists>p. valid_path p \<and> table m r p = Some t}"

definition tables_inj :: "memory \<Rightarrow> uint64 set \<Rightarrow> bool" where
  "tables_inj m R \<longleftrightarrow> (\<forall>r \<in> R. \<forall>r' \<in> R. \<forall>p p' t. valid_path p \<longrightarrow> valid_path p' \<longrightarrow>
     table m r p = Some t \<longrightarrow> table m r' p' = Some t \<longrightarrow> r = r' \<and> p = p')"

definition vm_inv :: "uint64 \<Rightarrow> uint64 set \<Rightarrow> uint64 set \<Rightarrow> 'z kmem_scheme \<Rightarrow> bool" where
  "vm_inv kend F R s \<longleftrightarrow> kmem_free kend F s \<and> tables_inj (mem s) R \<and>
     (\<forall>t \<in> tables (mem s) R. valid_page kend t \<and> t \<noteq> 0 \<and> t \<notin> F)"

abbreviation pages :: "uint64 set \<Rightarrow> uint64 set" where
  "pages P \<equiv> \<Union>p \<in> P. page p"

lemma valid_path_simps [simp]:
  "valid_path []" "valid_path [PX l va]" "valid_path [PX l va, PX l' va']"
  by (auto simp: valid_path_def unat_PX_less)

lemma valid_path_Cons: "valid_path (i # p) \<longleftrightarrow> unat i < 512 \<and> valid_path p \<and> length p < 2"
  by (auto simp: valid_path_def)

lemma table_in_tables: "r \<in> R \<Longrightarrow> valid_path p \<Longrightarrow> table m r p = Some t \<Longrightarrow> t \<in> tables m R"
  by (auto simp: tables_def)

lemma walk_levels_find:
  "walk_levels 2 r va False s = (case table (mem s) r [PX 1 va, PX 2 va] of
      None \<Rightarrow> 0 | Some t \<Rightarrow> pte_at t (PX 0 va), s)"
  by (simp add: numeral_2_eq_2 Let_def)

lemmas table_Cons = table.simps(2)

declare table_Cons [simp del]

section \<open>Slots of table pages\<close>

lemma aligned_weaken: "aligned k a \<Longrightarrow> j \<le> k \<Longrightarrow> aligned j a"
  by (meson aligned_dvd dvd_trans le_imp_power_dvd)

lemma pte_at_byte: "unat i < 512 \<Longrightarrow> pte_at t i + of_nat j = t + of_nat (8 * unat i + j)"
  by (simp add: pte_at_def algebra_simps)

lemma pte_at_in_page: "unat i < 512 \<Longrightarrow> j < 8 \<Longrightarrow> pte_at t i + of_nat j \<in> page t"
proof -
  assume "unat i < 512" "j < 8"
  moreover from this have "unat (of_nat (8 * unat i + j) :: uint64) = 8 * unat i + j"
    by (intro unat_of_nat_small) simp
  ultimately show ?thesis by (simp only: pte_at_byte mem_Collect_eq add_diff_cancel_left')
qed

lemma unat_pte_offset: "unat i < 512 \<Longrightarrow> unat (pte_at t i - t) = 8 * unat i"
proof -
  assume "unat i < 512"
  then have "unat (of_nat (8 * unat i) :: uint64) = 8 * unat i"
    by (intro unat_of_nat_small) simp
  then show ?thesis by (simp add: pte_at_def)
qed

lemma pte_at_aligned: "aligned 12 t \<Longrightarrow> aligned 3 (pte_at t i)"
proof -
  assume "aligned 12 t"
  then have "aligned 3 t" by (rule aligned_weaken) simp
  moreover have "aligned 3 (8 * i)" by (simp add: aligned_def take_bit_eq_0_iff)
  ultimately show ?thesis unfolding pte_at_def by (rule aligned_add)
qed

lemma pte_at_inj:
  assumes "aligned 12 t" "aligned 12 t'" "unat i < 512" "unat i' < 512" "pte_at t i = pte_at t' i'"
  shows "t = t' \<and> i = i'"
proof -
  have "t = t'"
  proof (rule ccontr)
    assume "t \<noteq> t'"
    then have "4096 \<le> unat (t + of_nat (8 * unat i) - t')"
      using assms(1-3) by (intro page_offset_apart) auto
    moreover have "t + of_nat (8 * unat i) = pte_at t' i'"
      using pte_at_byte [OF assms(3), of t 0] assms(5) by simp
    ultimately show False using unat_pte_offset [OF assms(4), of t'] assms(4) by simp
  qed
  moreover have "8 * unat i = 8 * unat i'"
    using unat_pte_offset [OF assms(3), of t] unat_pte_offset [OF assms(4), of t'] assms(5) \<open>t = t'\<close> by simp
  ultimately show ?thesis by (simp add: word_unat_eq_iff)
qed

lemma load_pte_cong:
  assumes "\<And>x. x \<in> page t \<Longrightarrow> m' x = m x" "unat i < 512"
  shows "load64 m' (pte_at t i) = load64 m (pte_at t i)"
  by (intro load_cong assms(1) pte_at_in_page [OF assms(2)])

lemma load_store_pte:
  assumes "aligned 12 t" "aligned 12 t'" "unat i < 512" "unat i' < 512"
  shows "load64 (store64 m (pte_at t i) v) (pte_at t' i') =
    (if t = t' \<and> i = i' then v else load64 m (pte_at t' i'))"
  using pte_at_inj [OF assms] load64_store64_other [of "pte_at t' i'" "pte_at t i" m v]
    pte_at_aligned [OF assms(1)] pte_at_aligned [OF assms(2)]
  by (metis load64_store64_same)

lemma store_pte_outside:
  assumes "unat i < 512" "x \<notin> page t"
  shows "store64 m (pte_at t i) v x = m x"
proof (rule store_le_outside, rule ccontr)
  assume "\<not> 8 \<le> unat (x - pte_at t i)"
  then have "pte_at t i + of_nat (unat (x - pte_at t i)) \<in> page t"
    by (intro pte_at_in_page assms(1)) simp
  then show False using assms(2) by simp
qed

lemma pages_disjoint:
  "aligned 12 p \<Longrightarrow> aligned 12 q \<Longrightarrow> p \<noteq> q \<Longrightarrow> x \<in> page p \<Longrightarrow> x \<notin> page (q :: uint64)"
  using page_offset_apart [of p q "unat (x - p)"] by simp

section \<open>Frames\<close>

text \<open>Only the entries of tables above the last level decide which tables there are.\<close>

lemma table_frame:
  assumes "\<And>q t i. valid_path q \<Longrightarrow> length q < 2 \<Longrightarrow> table m r q = Some t \<Longrightarrow> unat i < 512 \<Longrightarrow>
      load64 m' (pte_at t i) = load64 m (pte_at t i)"
    and "valid_path p"
  shows "table m' r p = table m r p"
  using assms(2)
proof (induction p)
  case Nil
  then show ?case by simp
next
  case (Cons i p)
  then have "table m' r p = table m r p" "unat i < 512" "valid_path p" "length p < 2"
    by (simp_all add: valid_path_Cons)
  with assms(1) [of p] show ?case by (auto simp: table_Cons split: option.splits)
qed

lemma tables_cong:
  "(\<And>r p. r \<in> R \<Longrightarrow> valid_path p \<Longrightarrow> table m' r p = table m r p) \<Longrightarrow> tables m' R = tables m R"
  unfolding tables_def by (intro Collect_cong bex_cong refl ex_cong1 conj_cong) simp

lemma tables_inj_cong:
  "(\<And>r p. r \<in> R \<Longrightarrow> valid_path p \<Longrightarrow> table m' r p = table m r p) \<Longrightarrow> tables_inj m' R = tables_inj m R"
  by (simp add: tables_inj_def)

lemma tables_injD:
  "tables_inj m R \<Longrightarrow> r \<in> R \<Longrightarrow> r' \<in> R \<Longrightarrow> valid_path p \<Longrightarrow> valid_path p' \<Longrightarrow>
     table m r p = Some t \<Longrightarrow> table m r' p' = Some t \<Longrightarrow> r = r' \<and> p = p'"
  unfolding tables_inj_def by blast

lemma vm_invD:
  assumes "vm_inv kend F R s"
  shows "kmem_free kend F s" "tables_inj (mem s) R"
    "\<And>t. t \<in> tables (mem s) R \<Longrightarrow> valid_page kend t \<and> t \<noteq> 0 \<and> t \<notin> F \<and> aligned 12 t"
    "\<And>p. p \<in> F \<Longrightarrow> valid_page kend p \<and> p \<noteq> 0 \<and> aligned 12 p"
  using assms kmem.inv_frame [of kend F s] by (auto simp: vm_inv_def valid_page_def)

lemma kmem_free_cong:
  assumes "kmem_free kend F s" "freelist s' = freelist s" "\<And>x. x \<in> pages F \<Longrightarrow> mem s' x = mem s x"
  shows "kmem_free kend F s'"
proof -
  from assms(1) obtain ps where ps: "kmem_inv kend ps s" "set ps = F" by (auto simp: kmem_free_def)
  have "free_path (mem s') (freelist s) ps"
  proof (rule free_path_cong)
    show "free_path (mem s) (freelist s) ps" using ps(1) by (simp add: kmem_inv_def)
    fix x and i :: nat
    assume "x \<in> set ps" "i < 8"
    moreover from this have "x + of_nat i \<in> page x" by (simp add: unat_of_nat)
    ultimately show "mem s' (x + of_nat i) = mem s (x + of_nat i)"
      using ps(2) assms(3) by blast
  qed
  with ps assms(2) have "kmem_inv kend ps s'" by (simp add: kmem_inv_def)
  with ps(2) show ?thesis by (auto simp: kmem_free_def)
qed

text \<open>Writes that stay outside the tables and the free pages keep every address space.\<close>

lemma table_outside:
  assumes "\<And>x. x \<in> pages (tables m R) \<Longrightarrow> m' x = m x" "r \<in> R" "valid_path p"
  shows "table m' r p = table m r p"
proof (rule table_frame [OF _ assms(3)])
  fix q t and i :: uint64
  assume "valid_path q" "table m r q = Some t" and i: "unat i < 512"
  then have "t \<in> tables m R" using assms(2) by (intro table_in_tables)
  then show "load64 m' (pte_at t i) = load64 m (pte_at t i)"
    using assms(1) i by (intro load_pte_cong) auto
qed

lemma pte_of_outside:
  assumes "\<And>x. x \<in> pages (tables m R) \<Longrightarrow> m' x = m x" "r \<in> R"
  shows "pte_of m' r va = pte_of m r va"
proof -
  have "table m' r [PX 1 va, PX 2 va] = table m r [PX 1 va, PX 2 va]"
    by (rule table_outside [OF assms]) simp_all
  moreover have "load64 m' (pte_at t (PX 0 va)) = load64 m (pte_at t (PX 0 va))"
    if "table m r [PX 1 va, PX 2 va] = Some t" for t
    using table_in_tables [OF assms(2) _ that] assms(1) by (intro load_pte_cong) (auto simp: unat_PX_less)
  ultimately show ?thesis by (simp add: pte_of_def split: option.splits)
qed

lemma vm_inv_outside:
  assumes "vm_inv kend F R s" "freelist s' = freelist s"
    and "\<And>x. x \<in> pages (tables (mem s) R \<union> F) \<Longrightarrow> mem s' x = mem s x"
  shows "vm_inv kend F R s'"
proof -
  have t: "table (mem s') r p = table (mem s) r p" if "r \<in> R" "valid_path p" for r p
    using assms(3) that by (intro table_outside) auto
  have "kmem_free kend F s'"
    using assms(3) by (intro kmem_free_cong [OF vm_invD(1) [OF assms(1)] assms(2)]) auto
  then show ?thesis
    using assms(1) tables_cong [OF t] tables_inj_cong [OF t] by (simp add: vm_inv_def)
qed

section \<open>Storing an entry of the last level\<close>

lemma leaf_store_table:
  assumes "vm_inv kend F R s" "r \<in> R" "table (mem s) r [j, i] = Some t" "valid_path [j, i]" "unat k < 512"
    and "r' \<in> R" "valid_path p"
  shows "table (store64 (mem s) (pte_at t k) v) r' p = table (mem s) r' p"
proof (rule table_frame [OF _ assms(7)])
  fix q u and l :: uint64
  assume q: "valid_path q" "length q < 2" "table (mem s) r' q = Some u" and l: "unat l < 512"
  have "u \<noteq> t"
    using tables_injD [OF vm_invD(2) [OF assms(1)] assms(2,6,4) q(1) assms(3)] q(2,3) by auto
  moreover have "aligned 12 u" "aligned 12 t"
    using vm_invD(3) [OF assms(1)] table_in_tables [OF assms(6) q(1,3)] table_in_tables [OF assms(2,4,3)] by auto
  ultimately show "load64 (store64 (mem s) (pte_at t k) v) (pte_at u l) = load64 (mem s) (pte_at u l)"
    using assms(5) l by (simp add: load_store_pte)
qed

lemma leaf_store_inv:
  assumes "vm_inv kend F R s" "r \<in> R" "table (mem s) r [j, i] = Some t" "valid_path [j, i]" "unat k < 512"
  shows "vm_inv kend F R (s\<lparr>mem := store64 (mem s) (pte_at t k) v\<rparr>)"
    "tables (store64 (mem s) (pte_at t k) v) R = tables (mem s) R"
proof -
  let ?s' = "s\<lparr>mem := store64 (mem s) (pte_at t k) v\<rparr>"
  note tb = leaf_store_table [OF assms, of _ _ v]
  show tables: "tables (store64 (mem s) (pte_at t k) v) R = tables (mem s) R"
    by (rule tables_cong [OF tb])
  have t: "t \<notin> F" "aligned 12 t"
    using vm_invD(3) [OF assms(1) table_in_tables [OF assms(2,4,3)]] by auto
  have "kmem_free kend F ?s'"
  proof (rule kmem_free_cong [OF vm_invD(1) [OF assms(1)]])
    fix x
    assume "x \<in> pages F"
    then obtain q where q: "q \<in> F" "x \<in> page q" by blast
    then have "x \<notin> page t" using t vm_invD(4) [OF assms(1) q(1)] by (intro pages_disjoint [of q t]) auto
    then show "mem ?s' x = mem s x" using store_pte_outside [OF assms(5)] by simp
  qed simp
  then show "vm_inv kend F R ?s'"
    using assms(1) tables tables_inj_cong [OF tb] by (simp add: vm_inv_def)
qed

text \<open>\<open>same_page\<close>: two virtual addresses use the same entry.\<close>

definition same_page :: "uint64 \<Rightarrow> uint64 \<Rightarrow> bool" where
  "same_page va vb \<longleftrightarrow> PX 0 va = PX 0 vb \<and> PX 1 va = PX 1 vb \<and> PX 2 va = PX 2 vb"

lemma leaf_store_pte_of:
  assumes "vm_inv kend F R s" "r \<in> R" "table (mem s) r [PX 1 va, PX 2 va] = Some t" "r' \<in> R"
  shows "pte_of (store64 (mem s) (pte_at t (PX 0 va)) v) r' vb =
    (if r' = r \<and> same_page vb va then v else pte_of (mem s) r' vb)"
proof -
  let ?m = "store64 (mem s) (pte_at t (PX 0 va)) v"
  have tb: "table ?m r' [PX 1 vb, PX 2 vb] = table (mem s) r' [PX 1 vb, PX 2 vb]"
    by (rule leaf_store_table [OF assms(1-3) _ _ assms(4)]) (simp_all add: unat_PX_less)
  show ?thesis
  proof (cases "table (mem s) r' [PX 1 vb, PX 2 vb]")
    case None
    then have "\<not> (r' = r \<and> same_page vb va)" using assms(3) by (auto simp: same_page_def)
    then show ?thesis using None tb by (auto simp: pte_of_def)
  next
    case (Some u)
    have al: "aligned 12 u" "aligned 12 t"
      using vm_invD(3) [OF assms(1)] table_in_tables [OF assms(4) _ Some] table_in_tables [OF assms(2) _ assms(3)] by auto
    have "u = t \<longleftrightarrow> r' = r \<and> PX 1 vb = PX 1 va \<and> PX 2 vb = PX 2 va"
      using tables_injD [where p' = "[PX 1 va, PX 2 va]", OF vm_invD(2) [OF assms(1)] assms(4,2) _ _ Some] assms(3) Some
      by auto
    then have "load64 ?m (pte_at u (PX 0 vb)) = (if r' = r \<and> same_page vb va then v else load64 (mem s) (pte_at u (PX 0 vb)))"
      using al by (simp add: load_store_pte unat_PX_less same_page_def conj_commute) (metis)
    then show ?thesis using Some tb by (simp add: pte_of_def)
  qed
qed

section \<open>Adding a table\<close>

text \<open>
  \<^verbatim>\<open>walk\<close> fills a missing slot \<open>(t, i)\<close> with a fresh zeroed page \<open>n\<close>; \<open>m'\<close> is the memory
  after that, described by what loads from it return.
\<close>

definition new_table_at where
  "new_table_at m R r i p t n m' \<longleftrightarrow>
     tables_inj m R \<and> r \<in> R \<and> valid_path (i # p) \<and> table m r p = Some t \<and>
     load64 m (pte_at t i) AND PTE_V = 0 \<and> n \<notin> tables m R \<and>
     (\<forall>u l. u \<in> tables m R \<longrightarrow> unat l < 512 \<longrightarrow> (u, l) \<noteq> (t, i) \<longrightarrow>
        load64 m' (pte_at u l) = load64 m (pte_at u l)) \<and>
     load64 m' (pte_at t i) AND PTE_V \<noteq> 0 \<and> PTE2PA (load64 m' (pte_at t i)) = n \<and>
     (\<forall>l. unat l < 512 \<longrightarrow> load64 m' (pte_at n l) = 0)"

lemma new_table_atD:
  assumes "new_table_at m R r i p t n m'"
  shows "tables_inj m R" "r \<in> R" "valid_path (i # p)" "valid_path p" "table m r p = Some t"
    "table m r (i # p) = None" "n \<notin> tables m R"
    "\<And>u l. u \<in> tables m R \<Longrightarrow> unat l < 512 \<Longrightarrow> (u, l) \<noteq> (t, i) \<Longrightarrow>
        load64 m' (pte_at u l) = load64 m (pte_at u l)"
    "load64 m' (pte_at t i) AND PTE_V \<noteq> 0" "PTE2PA (load64 m' (pte_at t i)) = n"
    "\<And>l. unat l < 512 \<Longrightarrow> load64 m' (pte_at n l) = 0"
  using assms unfolding new_table_at_def by (auto simp: table_Cons valid_path_Cons)

lemma new_table_paths:
  assumes nt: "new_table_at m R r i p t n m'" and r': "r' \<in> R" and q: "valid_path q"
  shows "table m' r' q = (if r' = r \<and> q = i # p then Some n else table m r' q)"
  using q
proof (induction q)
  case Nil
  then show ?case by simp
next
  case (Cons l q)
  then have l: "unat l < 512" and q: "valid_path q" by (simp_all add: valid_path_Cons)
  note nt' = new_table_atD [OF nt]
  note IH = Cons.IH [OF q]
  show ?case
  proof (cases "r' = r \<and> q = i # p")
    case True
    then have "table m r' (l # q) = None" using nt'(6) by (auto simp: table_Cons [of m r l])
    moreover have "table m' r' (l # q) = None" using IH True nt'(11) [OF l] by (simp add: table_Cons)
    ultimately show ?thesis using True by auto
  next
    case False
    then have same: "table m' r' q = table m r' q" unfolding IH by (rule if_not_P)
    show ?thesis
    proof (cases "table m r' q")
      case None
      then show ?thesis using same nt'(5) by (auto simp: table_Cons)
    next
      case (Some u)
      have "u = t \<longleftrightarrow> r' = r \<and> q = p"
        using tables_injD [OF nt'(1) r' nt'(2) q nt'(4) Some] nt'(5) Some by auto
      then show ?thesis
        using same Some nt'(8) [OF table_in_tables [OF r' q Some] l] nt'(9,10) by (cases "l = i") (auto simp: table_Cons)
    qed
  qed
qed

lemma new_table_tables:
  assumes nt: "new_table_at m R r i p t n m'"
  shows "tables m' R = insert n (tables m R)"
proof (intro equalityI subsetI)
  fix u
  assume "u \<in> tables m' R"
  then show "u \<in> insert n (tables m R)"
    using new_table_paths [OF nt] by (fastforce simp: tables_def split: if_splits)
next
  fix u
  assume "u \<in> insert n (tables m R)"
  then consider "u = n" | r' q where "r' \<in> R" "valid_path q" "table m r' q = Some u"
    by (auto simp: tables_def)
  then show "u \<in> tables m' R"
  proof cases
    case 1
    then show ?thesis
      using new_table_paths [OF nt new_table_atD(2,3) [OF nt]] new_table_atD(2,3) [OF nt]
      by (intro table_in_tables) auto
  next
    case 2
    then show ?thesis
      using new_table_paths [OF nt 2(1,2)] new_table_atD(6) [OF nt]
      by (intro table_in_tables [OF 2(1,2)]) auto
  qed
qed

lemma new_table_inj:
  assumes nt: "new_table_at m R r i p t n m'"
  shows "tables_inj m' R"
  unfolding tables_inj_def
proof (intro ballI allI impI)
  fix a b q q' u
  assume ab: "a \<in> R" "b \<in> R" "valid_path q" "valid_path q'"
    and u: "table m' a q = Some u" "table m' b q' = Some u"
  have "table m c w \<noteq> Some n" if "c \<in> R" "valid_path w" for c w
    using table_in_tables [OF that] new_table_atD(7) [OF nt] by auto
  then show "a = b \<and> q = q'"
    using u ab new_table_paths [OF nt] tables_injD [OF new_table_atD(1) [OF nt] ab, of u] by (auto split: if_splits)
qed

lemma new_table_pte_of:
  assumes nt: "new_table_at m R r i p t n m'" and r': "r' \<in> R"
  shows "pte_of m' r' va = pte_of m r' va"
proof -
  note nt' = new_table_atD [OF nt]
  note paths = new_table_paths [OF nt r', of "[PX 1 va, PX 2 va]"]
  show ?thesis
  proof (cases "r' = r \<and> [PX 1 va, PX 2 va] = i # p")
    case True
    then show ?thesis using paths nt'(3,6) nt'(11) [OF unat_PX_less] by (simp add: pte_of_def)
  next
    case False
    then have same: "table m' r' [PX 1 va, PX 2 va] = table m r' [PX 1 va, PX 2 va]"
      using paths by auto
    show ?thesis
    proof (cases "table m r' [PX 1 va, PX 2 va]")
      case (Some u)
      have "u \<noteq> t"
        using tables_injD [OF nt'(1) r' nt'(2) _ nt'(4) Some] nt'(3,5) by (auto simp: valid_path_Cons unat_PX_less)
      with Some same show ?thesis
        using nt'(8) [OF table_in_tables [OF r' _ Some] unat_PX_less] by (simp add: pte_of_def)
    qed (use same in \<open>simp add: pte_of_def\<close>)
  qed
qed

lemma PA2PTE_valid: "(PA2PTE pa OR flags OR PTE_V) AND PTE_V = PTE_V" "(PA2PTE pa OR PTE_V) AND PTE_V = PTE_V"
  by (rule bit_word_eqI; auto simp: bit_simps PTE_V_def)+

lemma PTE_V_nonzero [simp]: "PTE_V \<noteq> 0"
  by (simp add: PTE_V_def)

lemma drop_bit_PTE_V [simp]: "drop_bit 10 PTE_V = 0"
  by (simp add: PTE_V_def drop_bit_eq_div)

lemma PTE2PA_table: "aligned 12 n \<Longrightarrow> PTE2PA (PA2PTE n OR PTE_V) = n"
  by (simp add: PTE2PA_PA2PTE_or PGROUNDDOWN_aligned)

text \<open>The store part of \<^verbatim>\<open>walk\<close>, after \<^verbatim>\<open>kalloc\<close> returned \<open>n\<close>.\<close>

definition put_table :: "uint64 \<Rightarrow> uint64 \<Rightarrow> 'z kmem_scheme \<Rightarrow> 'z kmem_scheme" where
  "put_table slot n s = s\<lparr>mem := store64 (memset (mem s) n 0 (ucast PGSIZE)) slot (PA2PTE n OR PTE_V)\<rparr>"

text \<open>
  What growing the tables of \<open>R\<close> from the free pages does: the new table pages come from the
  free pages, and nothing outside tables and formerly free pages changes.
\<close>

definition grows :: "uint64 \<Rightarrow> uint64 set \<Rightarrow> uint64 set \<Rightarrow> 'z kmem_scheme \<Rightarrow> uint64 set \<Rightarrow> 'z kmem_scheme \<Rightarrow> bool" where
  "grows kend R F s F' s' \<longleftrightarrow> F' \<subseteq> F \<and> vm_inv kend F' R s' \<and>
     tables (mem s') R = tables (mem s) R \<union> (F - F') \<and>
     (\<forall>x. x \<notin> pages (tables (mem s) R \<union> F) \<longrightarrow> mem s' x = mem s x)"

lemma grows_refl: "vm_inv kend F R s \<Longrightarrow> grows kend R F s F s"
  by (simp add: grows_def)

lemma grows_trans:
  assumes "grows kend R F s F1 s1" "grows kend R F1 s1 F2 s2"
  shows "grows kend R F s F2 s2"
proof -
  have t1: "tables (mem s1) R = tables (mem s) R \<union> (F - F1)" and F: "F1 \<subseteq> F" "F2 \<subseteq> F1"
    using assms by (simp_all add: grows_def)
  then have "tables (mem s2) R = tables (mem s) R \<union> (F - F2)"
    using assms(2) by (auto simp: grows_def)
  moreover have sub: "tables (mem s1) R \<union> F1 \<subseteq> tables (mem s) R \<union> F" using t1 F by auto
  have "mem s2 x = mem s x" if x: "x \<notin> pages (tables (mem s) R \<union> F)" for x
  proof -
    have "x \<notin> pages (tables (mem s1) R \<union> F1)" using x sub by blast
    then show ?thesis using assms x by (simp add: grows_def)
  qed
  ultimately show ?thesis using assms F by (simp add: grows_def)
qed

lemma put_table_new:
  assumes inv: "vm_inv kend F R s" and r: "r \<in> R" and p: "valid_path (i # p)"
    and t: "table (mem s) r p = Some t" and free: "load64 (mem s) (pte_at t i) AND PTE_V = 0"
    and n: "kalloc s = (n, s1)" "n \<in> F"
  shows "new_table_at (mem s) R r i p t n (mem (put_table (pte_at t i) n s1))"
proof -
  let ?m' = "mem (put_table (pte_at t i) n s1)"
  have i: "unat i < 512" using p by (simp add: valid_path_Cons)
  have tT: "t \<in> tables (mem s) R" using p by (intro table_in_tables [OF r _ t]) (simp add: valid_path_Cons)
  have al: "aligned 12 n" "aligned 12 t" "t \<noteq> n"
    using vm_invD(4) [OF inv n(2)] vm_invD(3) [OF inv tT] n(2) by auto
  have zero: "load64 ?m' (pte_at n l) = 0" if l: "unat l < 512" for l
  proof -
    have "load64 ?m' (pte_at n l) = load64 (fill (mem s1) n 4096 0) (pte_at n l)"
      using al i l by (simp add: put_table_def memset_fill load_store_pte)
    also have "\<dots> = 0"
      by (rule load_zero) (use pte_at_in_page [OF l] in \<open>auto simp: fill_def\<close>)
    finally show ?thesis .
  qed
  have old: "load64 ?m' (pte_at u l) = load64 (mem s) (pte_at u l)"
    if u: "u \<in> tables (mem s) R" "unat l < 512" "(u, l) \<noteq> (t, i)" for u l
  proof -
    have un: "u \<noteq> n" "aligned 12 u" using vm_invD(3) [OF inv u(1)] n(2) by auto
    then have "load64 ?m' (pte_at u l) = load64 (fill (mem s1) n 4096 0) (pte_at u l)"
      using al i u by (auto simp: put_table_def memset_fill load_store_pte)
    also have "\<dots> = load64 (mem s) (pte_at u l)"
    proof (rule load_pte_cong [OF _ u(2)])
      fix x
      assume "x \<in> page u"
      then have "x \<notin> page n" using un al(1) by (intro pages_disjoint [of u n])
      then show "fill (mem s1) n 4096 0 x = mem s x"
        using kmem.alloc_byte [OF vm_invD(1) [OF inv] n(1), of x] by (simp add: fill_def)
    qed
    finally show ?thesis .
  qed
  have "load64 ?m' (pte_at t i) = PA2PTE n OR PTE_V" by (simp add: put_table_def)
  then show ?thesis
    unfolding new_table_at_def
    using inv r p t free old zero n(2) vm_invD(2,3) [OF inv] al(1) by (auto simp: PA2PTE_valid PTE2PA_table)
qed

lemma put_table_grows:
  assumes inv: "vm_inv kend F R s" and n: "kalloc s = (n, s1)" "n \<in> F"
    and nt: "new_table_at (mem s) R r i p t n (mem (put_table (pte_at t i) n s1))"
  shows "grows kend R F s (F - {n}) (put_table (pte_at t i) n s1)"
proof -
  let ?s' = "put_table (pte_at t i) n s1"
  note nt' = new_table_atD [OF nt]
  have i: "unat i < 512" using nt'(3) by (simp add: valid_path_Cons)
  have tT: "t \<in> tables (mem s) R" by (rule table_in_tables [OF nt'(2,4,5)])
  note alloc = kmem.alloc_page [OF vm_invD(1) [OF inv] _ n(1)] kmem.alloc_byte [OF vm_invD(1) [OF inv] n(1)]
  have byte: "mem ?s' x = mem s1 x" "mem s1 x = mem s x" if "x \<notin> page n" "x \<notin> page t" for x
    using that alloc(2) [OF that(1)] store_pte_outside [OF i that(2)]
    by (simp_all add: put_table_def memset_fill fill_def)
  have "kmem_free kend (F - {n}) ?s'"
  proof (rule kmem_free_cong)
    show "kmem_free kend (F - {n}) s1" using alloc(1) n(2) by auto
    show "freelist ?s' = freelist s1" by (simp add: put_table_def)
    fix x
    assume "x \<in> pages (F - {n})"
    then obtain q where q: "q \<in> F" "q \<noteq> n" "x \<in> page q" by auto
    have "q \<noteq> t" using q(1) vm_invD(3) [OF inv tT] by auto
    then have "x \<notin> page n" "x \<notin> page t"
      using q vm_invD(3) [OF inv tT] vm_invD(4) [OF inv q(1)] vm_invD(4) [OF inv n(2)]
        pages_disjoint [of q n x] pages_disjoint [of q t x] by auto
    then show "mem ?s' x = mem s1 x" by (rule byte)
  qed
  moreover have "mem ?s' x = mem s x" if "x \<notin> pages (tables (mem s) R \<union> F)" for x
    using byte [of x] that n(2) tT by auto
  ultimately show ?thesis
    unfolding grows_def vm_inv_def
    using new_table_tables [OF nt] new_table_inj [OF nt] n(2) vm_invD(3) [OF inv] vm_invD(4) [OF inv n(2)]
    by auto
qed

section \<open>\<^verbatim>\<open>walk\<close>\<close>

text \<open>The index path of \<open>va\<close> down to the table of a level.\<close>

definition vpath :: "nat \<Rightarrow> uint64 \<Rightarrow> uint64 list" where
  "vpath l va = map (\<lambda>j. PX j va) [Suc l..<3]"

lemma vpath_simps:
  "vpath 2 va = []" "l < 2 \<Longrightarrow> vpath l va = PX (Suc l) va # vpath (Suc l) va" "vpath 0 va = [PX 1 va, PX 2 va]"
  by (simp_all add: vpath_def upt_rec numeral_2_eq_2)

lemma valid_vpath [simp]: "valid_path (vpath l va)"
  by (auto simp: valid_path_def vpath_def unat_PX_less)

lemma pte_at_nonzero:
  assumes "valid_page kend t" "t \<noteq> 0" "unat i < 512"
  shows "pte_at t i \<noteq> 0"
proof -
  have "unat t < 0x88000000" using assms(1) by (simp add: valid_page_def PHYSTOP_eq word_less_nat_alt)
  then have "unat (t + of_nat (8 * unat i)) = unat t + 8 * unat i"
    using assms(3) by (intro unat_add_nat) simp
  moreover have "pte_at t i = t + of_nat (8 * unat i)" by (simp add: pte_at_def)
  ultimately show ?thesis using assms(2) by (auto simp: unat_eq_zero)
qed

lemma walk_levels_grows:
  assumes "l \<le> 2" "vm_inv kend F R s" "r \<in> R" "table (mem s) r (vpath l va) = Some t"
    and "walk_levels l t va True s = (a, s')"
  shows "\<exists>F'. grows kend R F s F' s' \<and> (\<forall>r' \<in> R. \<forall>vb. pte_of (mem s') r' vb = pte_of (mem s) r' vb) \<and>
    (if a = 0 then F' = {} else \<exists>u. table (mem s') r (vpath 0 va) = Some u \<and> a = pte_at u (PX 0 va))"
  using assms
proof (induction l arbitrary: F s t)
  case 0
  then have "valid_page kend t \<and> t \<noteq> 0" using vm_invD(3) [OF 0(2)] table_in_tables [OF 0(3) _ 0(4)] by auto
  then have "pte_at t (PX 0 va) \<noteq> 0" by (intro pte_at_nonzero [of kend]) (auto simp: unat_PX_less)
  then show ?case using 0 grows_refl [OF 0(2)] by (intro exI [of _ F]) auto
next
  case (Suc l)
  let ?i = "PX (Suc l) va"
  let ?pte = "load64 (mem s) (pte_at t ?i)"
  have path: "vpath l va = ?i # vpath (Suc l) va" using Suc.prems(1) by (intro vpath_simps) simp
  show ?case
  proof (cases "?pte AND PTE_V \<noteq> 0")
    case True
    then have "table (mem s) r (vpath l va) = Some (PTE2PA ?pte)"
      using Suc.prems(4) by (simp add: path table_Cons)
    then show ?thesis using Suc.prems True by (intro Suc.IH) (auto simp: Let_def)
  next
    case False
    obtain n s1 where n: "kalloc s = (n, s1)" by force
    note alloc = kmem.alloc_none [of kend s] kmem.alloc_page [OF vm_invD(1) [OF Suc.prems(2)] _ n]
    show ?thesis
    proof (cases "n = 0")
      case True
      have "F = {}" using alloc(2) vm_invD(4) [OF Suc.prems(2)] True by auto
      moreover have "s1 = s" using alloc(1) vm_invD(1) [OF Suc.prems(2)] n \<open>F = {}\<close> by simp
      moreover have "a = 0" "s' = s1" using Suc.prems(5) False True n by (auto simp: Let_def)
      ultimately show ?thesis using grows_refl [OF Suc.prems(2)] by auto
    next
      case n0: False
      then have nF: "n \<in> F" using alloc vm_invD(1) [OF Suc.prems(2)] n by (cases "F = {}") auto
      let ?s1 = "put_table (pte_at t ?i) n s1"
      have nt: "new_table_at (mem s) R r ?i (vpath (Suc l) va) t n (mem ?s1)"
        using Suc.prems False n nF path valid_vpath [of l va] by (intro put_table_new) auto
      note g = put_table_grows [OF Suc.prems(2) n nF nt]
      have "walk_levels l n va True ?s1 = (a, s')"
        using Suc.prems(5) False n0 n by (simp add: Let_def put_table_def)
      moreover have "table (mem ?s1) r (vpath l va) = Some n"
        using new_table_paths [OF nt Suc.prems(3) valid_vpath [of l va]] path by simp
      moreover have "vm_inv kend (F - {n}) R ?s1" using g by (simp add: grows_def)
      ultimately obtain F' where F': "grows kend R (F - {n}) ?s1 F' s'"
        "\<forall>r' \<in> R. \<forall>vb. pte_of (mem s') r' vb = pte_of (mem ?s1) r' vb"
        "if a = 0 then F' = {} else \<exists>u. table (mem s') r (vpath 0 va) = Some u \<and> a = pte_at u (PX 0 va)"
        using Suc.IH [of "F - {n}" ?s1 n] Suc.prems(1,3) by auto
      show ?thesis
        using grows_trans [OF g F'(1)] F'(2,3) new_table_pte_of [OF nt] by (intro exI [of _ F']) auto
    qed
  qed
qed

lemma walk_alloc:
  assumes "vm_inv kend F R s" "r \<in> R" "va < MAXVA"
  obtains a s' F' where "walk r va True s = Ok (a, s')" "grows kend R F s F' s'"
    "\<And>r' vb. r' \<in> R \<Longrightarrow> pte_of (mem s') r' vb = pte_of (mem s) r' vb"
    "a = 0 \<Longrightarrow> F' = {}"
    "a \<noteq> 0 \<Longrightarrow> \<exists>u. table (mem s') r [PX 1 va, PX 2 va] = Some u \<and> a = pte_at u (PX 0 va)"
proof -
  obtain a s' where w: "walk_levels 2 r va True s = (a, s')" by force
  then have "walk r va True s = Ok (a, s')" using assms(3) by (simp add: walk_def)
  with walk_levels_grows [OF _ assms(1,2) _ w] that show ?thesis
    by (auto simp: vpath_simps split: if_splits)
qed

lemma walk_find:
  assumes "va < MAXVA"
  shows "walk r va False s = Ok (case table (mem s) r [PX 1 va, PX 2 va] of
      None \<Rightarrow> 0 | Some t \<Rightarrow> pte_at t (PX 0 va), s)"
  using assms by (simp add: walk_def walk_levels_find)

section \<open>Mapping\<close>

lemma same_page_iff:
  assumes "va < MAXVA" "vb < MAXVA"
  shows "same_page va vb \<longleftrightarrow> PGROUNDDOWN va = PGROUNDDOWN vb"
proof -
  have px: "PX l (PGROUNDDOWN v) = PX l v" for l v
    by (simp add: word_unat_eq_iff unat_PX unat_PGROUNDDOWN power_add div_mult2_eq)
  have lt: "PGROUNDDOWN v < MAXVA" if "v < MAXVA" for v
  proof -
    have "unat (PGROUNDDOWN v) \<le> unat v" by (simp add: unat_PGROUNDDOWN)
    then show ?thesis using that by (simp add: word_less_nat_alt)
  qed
  show ?thesis
  proof
    assume "same_page va vb"
    then show "PGROUNDDOWN va = PGROUNDDOWN vb"
      using PX_inj [OF lt [OF assms(1)] lt [OF assms(2)]] by (simp add: px same_page_def)
  next
    assume "PGROUNDDOWN va = PGROUNDDOWN vb"
    then have "PX l va = PX l vb" for l using px by metis
    then show "same_page va vb" by (simp add: same_page_def)
  qed
qed

lemma leaf_store_grows:
  assumes "vm_inv kend F R s" "r \<in> R" "table (mem s) r [PX 1 va, PX 2 va] = Some t"
  shows "grows kend R F s F (s\<lparr>mem := store64 (mem s) (pte_at t (PX 0 va)) v\<rparr>)"
proof -
  have "t \<in> tables (mem s) R" using assms(2,3) by (intro table_in_tables) simp_all
  then have "store64 (mem s) (pte_at t (PX 0 va)) v x = mem s x" if "x \<notin> pages (tables (mem s) R \<union> F)" for x
    using that by (intro store_pte_outside) (auto simp: unat_PX_less)
  then show ?thesis
    using leaf_store_inv [OF assms, of "PX 0 va" v] by (auto simp: grows_def unat_PX_less)
qed

text \<open>Arithmetic of page-aligned addresses.\<close>

lemma aligned_next:
  assumes "aligned 12 a" "aligned 12 b" "a < b"
  shows "a + PGSIZE \<le> b" "unat (a + PGSIZE) = unat a + 4096" "aligned 12 (a + PGSIZE)"
proof -
  obtain i j where ij: "unat a = 4096 * i" "unat b = 4096 * j"
    using assms(1,2) unfolding aligned_dvd by (auto elim!: dvdE)
  then have "i < j" using assms(3) by (simp add: word_less_nat_alt)
  then have le: "unat a + 4096 \<le> unat b" using ij by simp
  then show u: "unat (a + PGSIZE) = unat a + 4096"
    using unat_lt2p [of b] unat_add_nat [of a 4096] by (simp add: PGSIZE_def)
  show "a + PGSIZE \<le> b" using le u by (simp add: word_le_nat_alt)
  show "aligned 12 (a + PGSIZE)"
    using assms(1) by (rule aligned_add) (simp add: aligned_def PGSIZE_def)
qed

lemma aligned_range_split:
  assumes "aligned 12 a" "aligned 12 b" "a < b" "aligned 12 q"
  shows "a \<le> q \<longleftrightarrow> q = a \<or> a + PGSIZE \<le> q" "a + PGSIZE \<le> q \<Longrightarrow> q \<noteq> a"
proof -
  note n = aligned_next [OF assms(1-3)]
  show "a + PGSIZE \<le> q \<Longrightarrow> q \<noteq> a" using n(2) by (auto simp: word_le_nat_alt)
  have "a + PGSIZE \<le> q" if "a < q" using aligned_next(1) [OF assms(1,4) that] .
  moreover have "a \<le> q" if "a + PGSIZE \<le> q" using that n(2) by (auto simp: word_le_nat_alt)
  ultimately show "a \<le> q \<longleftrightarrow> q = a \<or> a + PGSIZE \<le> q" by (auto simp: order.order_iff_strict)
qed

lemma pte_of_page:
  "va < MAXVA \<Longrightarrow> vb < MAXVA \<Longrightarrow> PGROUNDDOWN va = PGROUNDDOWN vb \<Longrightarrow> pte_of m r va = pte_of m r vb"
  using same_page_iff [of va vb] by (auto simp: same_page_def pte_of_def split: option.split)

text \<open>One page: the entry is installed, or no memory was left and every translation is as before.\<close>

lemma map_page:
  assumes "vm_inv kend F R s" "r \<in> R" "aligned 12 a" "a < MAXVA" "pte_of (mem s) r a AND PTE_V = 0"
  obtains (full) s' where "walk r a True s = Ok (0, s')" "grows kend R F s {} s'"
      "\<And>r' va. r' \<in> R \<Longrightarrow> pte_of (mem s') r' va = pte_of (mem s) r' va"
  | (found) pte s1 F' where "walk r a True s = Ok (pte, s1)" "pte \<noteq> 0" "load64 (mem s1) pte AND PTE_V = 0"
      "\<And>v. grows kend R F s F' (s1\<lparr>mem := store64 (mem s1) pte v\<rparr>)"
      "\<And>v r' va. r' \<in> R \<Longrightarrow> va < MAXVA \<Longrightarrow> pte_of (store64 (mem s1) pte v) r' va =
         (if r' = r \<and> PGROUNDDOWN va = a then v else pte_of (mem s) r' va)"
proof -
  obtain pte s1 F' where w: "walk r a True s = Ok (pte, s1)" and g: "grows kend R F s F' s1"
    and same: "\<And>r' vb. r' \<in> R \<Longrightarrow> pte_of (mem s1) r' vb = pte_of (mem s) r' vb"
    and zero: "pte = 0 \<Longrightarrow> F' = {}"
    and slot: "pte \<noteq> 0 \<Longrightarrow> \<exists>u. table (mem s1) r [PX 1 a, PX 2 a] = Some u \<and> pte = pte_at u (PX 0 a)"
    using walk_alloc [OF assms(1,2,4)] by blast
  show thesis
  proof (cases "pte = 0")
    case True
    then show thesis using full w g same zero by blast
  next
    case False
    then obtain u where u: "table (mem s1) r [PX 1 a, PX 2 a] = Some u" "pte = pte_at u (PX 0 a)"
      using slot by blast
    have inv1: "vm_inv kend F' R s1" using g by (simp add: grows_def)
    have "load64 (mem s1) pte = pte_of (mem s) r a" using u same [OF assms(2), of a] by (simp add: pte_of_def)
    moreover have "pte_of (store64 (mem s1) pte v) r' va =
        (if r' = r \<and> PGROUNDDOWN va = a then v else pte_of (mem s) r' va)"
      if "r' \<in> R" "va < MAXVA" for v r' va
      using leaf_store_pte_of [OF inv1 assms(2) u(1) that(1), of v va] same [OF that(1)] u(2)
        same_page_iff [OF that(2) assms(4)] by (simp add: PGROUNDDOWN_aligned [OF assms(3)])
    moreover have "grows kend R F s F' (s1\<lparr>mem := store64 (mem s1) pte v\<rparr>)" for v
      using grows_trans [OF g leaf_store_grows [OF inv1 assms(2) u(1)]] u(2) by blast
    ultimately show thesis using found w False assms(5) by metis
  qed
qed

text \<open>
  What \<^verbatim>\<open>mappages\<close> leaves behind when it maps \<open>a..last_a\<close> to \<open>pa...\<close>: the outcome 0 or -1,
  the entries, the free pages.
\<close>

definition maps_range where
  "maps_range kend R F s r a last_a pa perm c F' s' \<longleftrightarrow> grows kend R F s F' s' \<and>
     (if c = (0::int)
      then \<forall>r' \<in> R. \<forall>va < MAXVA. pte_of (mem s') r' va =
        (if r' = r \<and> a \<le> PGROUNDDOWN va \<and> PGROUNDDOWN va \<le> last_a
         then PA2PTE (pa + (PGROUNDDOWN va - a)) OR scast (perm :: cint) OR PTE_V
         else pte_of (mem s) r' va)
      else c = -1 \<and> F' = {} \<and> (\<forall>r' \<in> R. \<forall>va < MAXVA. pte_of (mem s') r' va = pte_of (mem s) r' va \<or>
        r' = r \<and> a \<le> PGROUNDDOWN va \<and> PGROUNDDOWN va < last_a))"

lemma mappages_loop_spec:
  assumes "vm_inv kend F R s" "r \<in> R" "aligned 12 a" "aligned 12 last_a" "a \<le> last_a" "last_a < MAXVA"
    and "\<And>va. aligned 12 va \<Longrightarrow> a \<le> va \<Longrightarrow> va \<le> last_a \<Longrightarrow> pte_of (mem s) r va AND PTE_V = 0"
  shows "okR (\<lambda>(c, s'). \<exists>F'. maps_range kend R F s r a last_a pa perm c F' s') (mappages_loop r a last_a pa perm s)"
  using assms
proof (induction r a last_a pa perm s arbitrary: F rule: mappages_loop.induct)
  case (1 r a last_a pa perm s)
  have lt: "a < MAXVA" using 1(6,7) by simp
  have "pte_of (mem s) r a AND PTE_V = 0" using 1(4,6,8) by simp
  from 1(2-4) lt this show ?case
  proof (cases rule: map_page)
    case (full s')
    then have "maps_range kend R F s r a last_a pa perm (-1) {} s'" by (simp add: maps_range_def)
    then show ?thesis using full(1) by (auto simp: mappages_loop.simps [of r a])
  next
    case (found pte s1 F1)
    let ?v = "PA2PTE pa OR scast perm OR PTE_V"
    let ?s2 = "s1\<lparr>mem := store64 (mem s1) pte ?v\<rparr>"
    have g: "grows kend R F s F1 ?s2" by (rule found(4))
    have e: "pte_of (mem ?s2) r' va = (if r' = r \<and> PGROUNDDOWN va = a then ?v else pte_of (mem s) r' va)"
      if "r' \<in> R" "va < MAXVA" for r' va using found(5) [OF that] by simp
    show ?thesis
    proof (cases "a = last_a")
      case True
      then have "maps_range kend R F s r a last_a pa perm 0 F1 ?s2"
        using g e by (auto simp: maps_range_def)
      then show ?thesis using found(1-3) True by (subst mappages_loop.simps) auto
    next
      case False
      then have less: "a < last_a" using 1(6) by simp
      note nx = aligned_next [OF 1(4,5) less]
      note sp = aligned_range_split [OF 1(4,5) less]
      have "pte_of (mem ?s2) r va AND PTE_V = 0" if "aligned 12 va" "a + PGSIZE \<le> va" "va \<le> last_a" for va
        using that e [OF 1(3), of va] sp [of va] 1(7) 1(8) [of va] by (simp add: PGROUNDDOWN_aligned)
      then have "okR (\<lambda>(c, s'). \<exists>F'. maps_range kend R F1 ?s2 r (a + PGSIZE) last_a (pa + PGSIZE) perm c F' s')
          (mappages_loop r (a + PGSIZE) last_a (pa + PGSIZE) perm ?s2)"
        using 1(3,5,7) g nx False found(1-3)
        by (intro 1(1) [OF found(1) refl]) (auto simp: grows_def)
      moreover have "maps_range kend R F s r a last_a pa perm c F' s'"
        if "maps_range kend R F1 ?s2 r (a + PGSIZE) last_a (pa + PGSIZE) perm c F' s'" for c F' s'
        using that grows_trans [OF g] e sp [OF aligned_PGROUNDDOWN] less
        by (auto simp: maps_range_def algebra_simps split: if_splits)
      ultimately show ?thesis
        using found(1-3) False by (auto simp: mappages_loop.simps [of r a] okR_def) blast
    qed
  qed
qed

lemma mappages_page:
  assumes "aligned 12 a"
  shows "mappages r a PGSIZE pa perm s = mappages_loop r a a pa perm s"
proof -
  have "4096 dvd unat a" using assms by (simp add: aligned_dvd)
  then obtain k where k: "unat a = 4096 * k" by blast
  have "unat a + 4095 < 2 ^ 64" using k unat_lt2p [of a] by simp
  then have u: "unat (a + 4095) = unat a + 4095" using unat_add_nat [of a 4095] by simp
  have "PGROUNDDOWN (a + PGSIZE - 1) = PGROUNDDOWN (a + 4095)" by (simp add: PGSIZE_def add.commute)
  also have "\<dots> = a" using u k by (simp add: word_unat_eq_iff unat_PGROUNDDOWN)
  finally show ?thesis by (simp add: mappages_def PGROUNDDOWN_aligned assms PGSIZE_def)
qed

section \<open>Unmapping\<close>

text \<open>The pages between two addresses, and the frames an address space maps them to.\<close>

definition vpages :: "uint64 \<Rightarrow> uint64 \<Rightarrow> uint64 set" where
  "vpages a b = {va. aligned 12 va \<and> a \<le> va \<and> va < b}"

definition frame_of :: "memory \<Rightarrow> uint64 \<Rightarrow> uint64 \<Rightarrow> uint64" where
  "frame_of m r va = PTE2PA (pte_of m r va)"

text \<open>
  \<open>owns kend F R s r a b\<close>: every page of \<open>[a, b)\<close> is mapped to a frame of its own, which is
  neither free nor a table.
\<close>

definition owns :: "uint64 \<Rightarrow> uint64 set \<Rightarrow> uint64 set \<Rightarrow> 'z kmem_scheme \<Rightarrow> uint64 \<Rightarrow> uint64 \<Rightarrow> uint64 \<Rightarrow> bool" where
  "owns kend F R s r a b \<longleftrightarrow>
     (\<forall>va \<in> vpages a b. pte_of (mem s) r va AND PTE_V \<noteq> 0 \<and> PTE_FLAGS (pte_of (mem s) r va) \<noteq> PTE_V \<and>
        valid_page kend (frame_of (mem s) r va) \<and> frame_of (mem s) r va \<noteq> 0 \<and>
        frame_of (mem s) r va \<notin> F \<and> frame_of (mem s) r va \<notin> tables (mem s) R) \<and>
     inj_on (frame_of (mem s) r) (vpages a b)"

lemma kfree_vm:
  assumes "vm_inv kend F R s" "valid_page kend pa" "pa \<noteq> 0" "pa \<notin> F" "pa \<notin> tables (mem s) R"
  obtains s' where "kfree kend pa s = Ok s'" "vm_inv kend (insert pa F) R s'" "tables (mem s') R = tables (mem s) R"
    "\<And>r p. r \<in> R \<Longrightarrow> valid_path p \<Longrightarrow> table (mem s') r p = table (mem s) r p"
    "\<And>r va. r \<in> R \<Longrightarrow> pte_of (mem s') r va = pte_of (mem s) r va"
    "\<And>x. x \<notin> page pa \<Longrightarrow> mem s' x = mem s x"
proof -
  obtain s' where s': "kfree kend pa s = Ok s'" and free: "kmem_free kend (insert pa F) s'"
    using kmem.free_page [OF vm_invD(1) [OF assms(1)]] assms(2-4) by blast
  have byte: "mem s' x = mem s x" if "x \<notin> page pa" for x by (rule kmem.free_byte [OF s' that])
  have out: "mem s' x = mem s x" if x: "x \<in> pages (tables (mem s) R)" for x
  proof -
    obtain t where t: "t \<in> tables (mem s) R" "x \<in> page t" using x by blast
    then have "x \<notin> page pa"
      using vm_invD(3) [OF assms(1) t(1)] assms(2,5) by (intro pages_disjoint [of t pa]) (auto simp: valid_page_def)
    then show ?thesis by (rule byte)
  qed
  have tb: "table (mem s') r p = table (mem s) r p" if "r \<in> R" "valid_path p" for r p
    by (rule table_outside [OF out that])
  have inv': "vm_inv kend (insert pa F) R s'"
    using free assms tables_inj_cong [OF tb] tables_cong [OF tb] by (auto simp: vm_inv_def)
  show thesis
    by (rule that [OF s' inv' tables_cong [OF tb]]) (auto simp: tb byte intro: pte_of_outside [OF out])
qed

text \<open>One round of the loop of \<^verbatim>\<open>uvmunmap\<close>.\<close>

lemma unmap_page:
  fixes do_free :: bool
  assumes "vm_inv kend F R s" "r \<in> R" "a < MAXVA" "aligned 12 a" "owns kend F R s r a b" "a < b"
  defines "f \<equiv> frame_of (mem s) r a"
  defines "F' \<equiv> if do_free then insert f F else F"
  obtains pte s1 where "walk r a False s = Ok (pte, s)" "pte \<noteq> 0" "load64 (mem s) pte = pte_of (mem s) r a"
    "(if do_free then kfree kend (PTE2PA (load64 (mem s) pte)) s else Ok s) = Ok s1"
    "vm_inv kend F' R (s1\<lparr>mem := store64 (mem s1) pte 0\<rparr>)"
    "tables (store64 (mem s1) pte 0) R = tables (mem s) R"
    "\<And>r' va. r' \<in> R \<Longrightarrow> va < MAXVA \<Longrightarrow> pte_of (store64 (mem s1) pte 0) r' va =
       (if r' = r \<and> PGROUNDDOWN va = a then 0 else pte_of (mem s) r' va)"
    "\<And>x. x \<notin> pages (tables (mem s) R) \<Longrightarrow> do_free \<longrightarrow> x \<notin> page f \<Longrightarrow> store64 (mem s1) pte 0 x = mem s x"
proof -
  have av: "a \<in> vpages a b" using assms(4,6) by (simp add: vpages_def)
  then have own: "pte_of (mem s) r a AND PTE_V \<noteq> 0" "valid_page kend f" "f \<noteq> 0" "f \<notin> F" "f \<notin> tables (mem s) R"
    using assms(5) unfolding owns_def f_def by auto
  then obtain t where t: "table (mem s) r [PX 1 a, PX 2 a] = Some t" "pte_of (mem s) r a = load64 (mem s) (pte_at t (PX 0 a))"
    by (auto simp: pte_of_def split: option.splits)
  let ?pte = "pte_at t (PX 0 a)"
  have tT: "t \<in> tables (mem s) R" using assms(2) t(1) by (intro table_in_tables) simp_all
  obtain s1 where s1: "(if do_free then kfree kend (PTE2PA (load64 (mem s) ?pte)) s else Ok s) = Ok s1"
    "vm_inv kend F' R s1" "tables (mem s1) R = tables (mem s) R" "table (mem s1) r [PX 1 a, PX 2 a] = Some t"
    "\<And>r' va. r' \<in> R \<Longrightarrow> pte_of (mem s1) r' va = pte_of (mem s) r' va"
    "\<And>x. do_free \<longrightarrow> x \<notin> page f \<Longrightarrow> mem s1 x = mem s x"
  proof (cases do_free)
    case True
    from kfree_vm [OF assms(1) own(2-5)] obtain s' where s': "kfree kend f s = Ok s'"
      "vm_inv kend (insert f F) R s'" "tables (mem s') R = tables (mem s) R"
      "\<And>r p. r \<in> R \<Longrightarrow> valid_path p \<Longrightarrow> table (mem s') r p = table (mem s) r p"
      "\<And>r va. r \<in> R \<Longrightarrow> pte_of (mem s') r va = pte_of (mem s) r va"
      "\<And>x. x \<notin> page f \<Longrightarrow> mem s' x = mem s x" by blast
    have "PTE2PA (load64 (mem s) ?pte) = f" using t(2) by (simp add: f_def frame_of_def)
    then show thesis using that [of s'] s' True t(1) assms(2) by (simp add: F'_def)
  next
    case False
    then show thesis using that [of s] assms(1) t(1) by (simp add: F'_def)
  qed
  note leaf = leaf_store_grows [OF s1(2) assms(2) s1(4), of 0]
  show thesis
  proof (rule that [of ?pte s1])
    show "walk r a False s = Ok (?pte, s)" using t(1) assms(3) by (simp add: walk_find)
    show "?pte \<noteq> 0" using vm_invD(3) [OF assms(1) tT] by (intro pte_at_nonzero [of kend]) (auto simp: unat_PX_less)
    show "tables (store64 (mem s1) ?pte 0) R = tables (mem s) R" using leaf s1(3) by (simp add: grows_def)
    show "vm_inv kend F' R (s1\<lparr>mem := store64 (mem s1) ?pte 0\<rparr>)" using leaf by (simp add: grows_def)
    show "pte_of (store64 (mem s1) ?pte 0) r' va = (if r' = r \<and> PGROUNDDOWN va = a then 0 else pte_of (mem s) r' va)"
      if "r' \<in> R" "va < MAXVA" for r' va
      using leaf_store_pte_of [OF s1(2) assms(2) s1(4) that(1), of 0 va] s1(5) [OF that(1)]
        same_page_iff [OF that(2) assms(3)] by (simp add: PGROUNDDOWN_aligned [OF assms(4)])
    show "store64 (mem s1) ?pte 0 x = mem s x"
      if "x \<notin> pages (tables (mem s) R)" "do_free \<longrightarrow> x \<notin> page f" for x
      using that tT s1(6) [of x] store_pte_outside [of "PX 0 a" x t] by (auto simp: unat_PX_less)
  qed (use t(2) s1(1) in auto)
qed

definition unmaps where
  "unmaps kend R F s r a b do_free s' \<longleftrightarrow>
     vm_inv kend (if do_free then F \<union> frame_of (mem s) r ` vpages a b else F) R s' \<and>
     tables (mem s') R = tables (mem s) R \<and>
     (\<forall>r' \<in> R. \<forall>va < MAXVA. pte_of (mem s') r' va =
        (if r' = r \<and> a \<le> PGROUNDDOWN va \<and> PGROUNDDOWN va < b then 0 else pte_of (mem s) r' va)) \<and>
     (\<forall>x. x \<notin> pages (tables (mem s) R) \<longrightarrow> (do_free \<longrightarrow> x \<notin> pages (frame_of (mem s) r ` vpages a b)) \<longrightarrow>
        mem s' x = mem s x)"

lemma vpages_empty: "\<not> a < b \<Longrightarrow> vpages a b = {}"
  by (auto simp: vpages_def)

lemma vpages_step:
  assumes "aligned 12 a" "aligned 12 b" "a < b"
  shows "vpages a b = insert a (vpages (a + PGSIZE) b)" "a \<notin> vpages (a + PGSIZE) b"
  using aligned_range_split [OF assms] assms by (auto simp: vpages_def)

lemma owns_step:
  assumes "owns kend F R s r a b" "aligned 12 a" "aligned 12 b" "a < b"
    and "\<And>va. va \<in> vpages (a + PGSIZE) b \<Longrightarrow> pte_of (mem s') r va = pte_of (mem s) r va"
    and "tables (mem s') R = tables (mem s) R" "F' \<subseteq> insert (frame_of (mem s) r a) F"
  shows "owns kend F' R s' r (a + PGSIZE) b"
proof -
  note v = vpages_step [OF assms(2-4)]
  have fr: "frame_of (mem s') r va = frame_of (mem s) r va" if "va \<in> vpages (a + PGSIZE) b" for va
    using assms(5) [OF that] by (simp add: frame_of_def)
  have inj: "inj_on (frame_of (mem s) r) (insert a (vpages (a + PGSIZE) b))"
    using assms(1) by (simp add: owns_def v(1))
  then have "inj_on (frame_of (mem s') r) (vpages (a + PGSIZE) b)"
    using fr by (simp add: inj_on_def)
  moreover have "frame_of (mem s) r va \<noteq> frame_of (mem s) r a" if "va \<in> vpages (a + PGSIZE) b" for va
    using inj that v(2) by (auto simp: inj_on_def)
  ultimately show ?thesis
    using assms(1,7) by (auto simp: owns_def v(1) fr assms(5,6))
qed

lemma uvmunmap_loop_spec:
  assumes "vm_inv kend F R s" "r \<in> R" "aligned 12 a" "aligned 12 b" "b \<le> MAXVA" "owns kend F R s r a b"
  shows "okR (unmaps kend R F s r a b do_free) (uvmunmap_loop kend r a b do_free s)"
  using assms
proof (induction kend r a b do_free s arbitrary: F rule: uvmunmap_loop.induct)
  case (1 kend r a b do_free s)
  show ?case
  proof (cases "a < b")
    case False
    then show ?thesis
      using 1(2) vpages_empty [OF False] by (auto simp: uvmunmap_loop.simps [of _ _ a] unmaps_def)
  next
    case True
    have lt: "a < MAXVA" using True 1(6) by simp
    let ?f = "frame_of (mem s) r a"
    let ?F = "if do_free then insert ?f F else F"
    obtain pte s1 where w: "walk r a False s = Ok (pte, s)" "pte \<noteq> 0" "load64 (mem s) pte = pte_of (mem s) r a"
      and fr: "(if do_free then kfree kend (PTE2PA (load64 (mem s) pte)) s else Ok s) = Ok s1"
      and inv2: "vm_inv kend ?F R (s1\<lparr>mem := store64 (mem s1) pte 0\<rparr>)"
      and tb2: "tables (store64 (mem s1) pte 0) R = tables (mem s) R"
      and pte2: "\<And>r' va. r' \<in> R \<Longrightarrow> va < MAXVA \<Longrightarrow> pte_of (store64 (mem s1) pte 0) r' va =
         (if r' = r \<and> PGROUNDDOWN va = a then 0 else pte_of (mem s) r' va)"
      and byte2: "\<And>x. x \<notin> pages (tables (mem s) R) \<Longrightarrow> do_free \<longrightarrow> x \<notin> page ?f \<Longrightarrow> store64 (mem s1) pte 0 x = mem s x"
      using unmap_page [OF 1(2,3) lt 1(4,7) True, of do_free] by blast
    let ?s2 = "s1\<lparr>mem := store64 (mem s1) pte 0\<rparr>"
    have ok: "pte_of (mem s) r a AND PTE_V \<noteq> 0" "PTE_FLAGS (pte_of (mem s) r a) \<noteq> PTE_V"
      using 1(7) vpages_step(1) [OF 1(4,5) True] by (auto simp: owns_def)
    note v = vpages_step [OF 1(4,5) True]
    have same: "pte_of (mem ?s2) r va = pte_of (mem s) r va" if "va \<in> vpages (a + PGSIZE) b" for va
      using that v(2) 1(6) pte2 [OF 1(3), of va] by (auto simp: vpages_def PGROUNDDOWN_aligned)
    have owns2: "owns kend ?F R ?s2 r (a + PGSIZE) b"
      using tb2 same by (intro owns_step [OF 1(7,4,5) True]) auto
    have "okR (unmaps kend R ?F ?s2 r (a + PGSIZE) b do_free) (uvmunmap_loop kend r (a + PGSIZE) b do_free ?s2)"
      using 1(3,5,6) aligned_next(3) [OF 1(4,5) True] inv2 owns2 ok w fr True
      by (intro 1(1) [OF True w(1) refl _ _ _ fr]) auto
    moreover have "unmaps kend R F s r a b do_free s'"
      if "unmaps kend R ?F ?s2 r (a + PGSIZE) b do_free s'" for s'
    proof -
      have im: "frame_of (mem ?s2) r ` vpages (a + PGSIZE) b = frame_of (mem s) r ` vpages (a + PGSIZE) b"
        using same by (intro image_cong) (simp_all add: frame_of_def)
      show ?thesis
        using that tb2 pte2 byte2 aligned_range_split [OF 1(4,5) True aligned_PGROUNDDOWN] True
        unfolding unmaps_def im v(1) by (auto split: if_splits)
    qed
    ultimately have "okR (unmaps kend R F s r a b do_free) (uvmunmap_loop kend r (a + PGSIZE) b do_free ?s2)"
      by (rule okR_mono)
    then show ?thesis using True w fr ok by (simp add: uvmunmap_loop.simps [of _ _ a])
  qed
qed

section \<open>Growing a process\<close>

lemma kalloc_vm:
  assumes "vm_inv kend F R s" "kalloc s = (p, s1)" "p \<noteq> 0" "\<forall>x. x \<notin> page p \<longrightarrow> m x = mem s1 x"
  shows "p \<in> F" "vm_inv kend (F - {p}) R (s1\<lparr>mem := m\<rparr>)" "tables m R = tables (mem s) R"
    "\<And>r va. r \<in> R \<Longrightarrow> pte_of m r va = pte_of (mem s) r va" "\<And>x. x \<notin> page p \<Longrightarrow> m x = mem s x"
proof -
  note alloc = kmem.alloc_none [of kend s] kmem.alloc_page [OF vm_invD(1) [OF assms(1)] _ assms(2)]
  show pF: "p \<in> F" using alloc vm_invD(1) [OF assms(1)] assms(2,3) by (cases "F = {}") auto
  show byte: "m x = mem s x" if "x \<notin> page p" for x
    using kmem.alloc_byte [OF vm_invD(1) [OF assms(1)] assms(2) that] assms(4) that by simp
  have out: "m x = mem s x" if x: "x \<in> pages (tables (mem s) R)" for x
  proof (rule byte)
    obtain t where t: "t \<in> tables (mem s) R" "x \<in> page t" using x by blast
    then show "x \<notin> page p"
      using vm_invD(3) [OF assms(1) t(1)] vm_invD(4) [OF assms(1) pF] pF by (intro pages_disjoint [of t p]) auto
  qed
  have tb: "table m r q = table (mem s) r q" if "r \<in> R" "valid_path q" for r q
    by (rule table_outside [OF out that])
  show "tables m R = tables (mem s) R" by (rule tables_cong [OF tb])
  show "pte_of m r va = pte_of (mem s) r va" if "r \<in> R" for r va
    by (rule pte_of_outside [OF out that])
  have "kmem_free kend (F - {p}) (s1\<lparr>mem := m\<rparr>)"
  proof (rule kmem_free_cong)
    show "kmem_free kend (F - {p}) s1" using alloc pF by auto
    fix x
    assume "x \<in> pages (F - {p})"
    then obtain q where q: "q \<in> F" "q \<noteq> p" "x \<in> page q" by auto
    then have "x \<notin> page p"
      using vm_invD(4) [OF assms(1) q(1)] vm_invD(4) [OF assms(1) pF] by (intro pages_disjoint [of q p]) auto
    then show "mem (s1\<lparr>mem := m\<rparr>) x = mem s1 x" using assms(4) by simp
  qed simp
  then show "vm_inv kend (F - {p}) R (s1\<lparr>mem := m\<rparr>)"
    using assms(1) tables_cong [OF tb] tables_inj_cong [OF tb] by (auto simp: vm_inv_def)
qed

lemma kalloc_vm_none:
  assumes "vm_inv kend F R s" "kalloc s = (0, s1)"
  shows "F = {} \<and> s1 = s"
  using kmem.alloc_none [of kend s] kmem.alloc_page [OF vm_invD(1) [OF assms(1)] _ assms(2)]
    vm_invD(1,4) [OF assms(1)] assms(2) by (cases "F = {}") auto

text \<open>Permission bits that fit the flag field of an entry.\<close>

lemma scast_small_perm:
  assumes "drop_bit 10 (perm :: cint) = 0"
  shows "drop_bit 10 (scast perm :: uint64) = 0"
proof -
  have b: "\<not> bit perm (10 + k)" for k
    using arg_cong [OF assms, of "\<lambda>w. bit w k"] by (simp add: bit_drop_bit_eq)
  show ?thesis
  proof (rule bit_word_eqI)
    fix n
    have "\<not> bit perm (min 31 (10 + n))" using b [of "min 31 (10 + n) - 10"] by simp
    then show "bit (drop_bit 10 (scast perm :: uint64)) n = bit 0 n"
      by (simp add: bit_drop_bit_eq bit_signed_iff)
  qed
qed

lemma entry_fields:
  assumes "drop_bit 10 flags = 0" "aligned 12 pa"
  shows "PTE2PA (PA2PTE pa OR flags OR PTE_V) = pa" "PTE_FLAGS (PA2PTE pa OR flags OR PTE_V) = flags OR PTE_V"
    "(PA2PTE pa OR flags OR PTE_V) AND PTE_V \<noteq> 0"
proof -
  have d: "drop_bit 10 (flags OR PTE_V) = 0" using assms(1) by (simp add: drop_bit_or)
  show "PTE2PA (PA2PTE pa OR flags OR PTE_V) = pa" "PTE_FLAGS (PA2PTE pa OR flags OR PTE_V) = flags OR PTE_V"
    using PTE2PA_PA2PTE_or [OF d] PTE_FLAGS_PA2PTE_or [OF d] by (simp_all add: or.assoc PGROUNDDOWN_aligned [OF assms(2)])
  show "(PA2PTE pa OR flags OR PTE_V) AND PTE_V \<noteq> 0" by (simp add: PA2PTE_valid)
qed

end
