(* ===== verification/VmUser.thy ===== *)
theory VmUser
  imports VmMap
begin

text \<open>
  User memory: growing and shrinking a process (\<^verbatim>\<open>uvmalloc\<close>, \<^verbatim>\<open>uvmdealloc\<close>), and copying
  between kernel and user addresses (\<^verbatim>\<open>copyin\<close>, \<^verbatim>\<open>copyout\<close>, \<^verbatim>\<open>copyinstr\<close>). The properties of
  the virtual-memory component are at the end.
\<close>

unbundle bit_operations_syntax

section \<open>Shrinking\<close>

lemma PGROUNDUP_le_MAXVA:
  assumes "sz \<le> MAXVA"
  shows "unat sz \<le> unat (PGROUNDUP sz)" "unat (PGROUNDUP sz) \<le> 2 ^ 38" "PGROUNDUP sz \<le> MAXVA"
    "unat (PGROUNDUP sz) = (unat sz + 4095) div 4096 * 4096"
proof -
  have u: "unat sz \<le> 2 ^ 38" using assms by (simp add: word_le_nat_alt unat_MAXVA)
  then show e: "unat (PGROUNDUP sz) = (unat sz + 4095) div 4096 * 4096" by (intro unat_PGROUNDUP) simp
  show "unat sz \<le> unat (PGROUNDUP sz)" using u by (intro PGROUNDUP_bounds) simp
  have "(unat sz + 4095) div 4096 \<le> 2 ^ 26" using u by simp
  then show le: "unat (PGROUNDUP sz) \<le> 2 ^ 38" by (simp add: e)
  then show "PGROUNDUP sz \<le> MAXVA" by (simp add: word_le_nat_alt unat_MAXVA)
qed

text \<open>The page count survives its trip through a C \<^verbatim>\<open>int\<close>.\<close>

lemma npages_exact:
  assumes "aligned 12 a" "aligned 12 b" "a \<le> b" "b \<le> MAXVA"
  shows "a + scast (ucast ((b - a) div PGSIZE) :: cint) * PGSIZE = b"
proof -
  obtain i j where ij: "unat a = 4096 * i" "unat b = 4096 * j"
    using assms(1,2) unfolding aligned_dvd by (auto elim!: dvdE)
  have "unat b \<le> 2 ^ 38" "unat a \<le> unat b"
    using assms(3,4) by (simp_all add: word_le_nat_alt unat_MAXVA)
  then have k: "j - i < 2 ^ 31" "i \<le> j" "unat (b - a) = 4096 * (j - i)"
    using ij by (simp_all add: unat_sub_if_size algebra_simps)
  then have d: "unat ((b - a) div PGSIZE) = j - i" by (simp add: unat_div PGSIZE_def)
  then have "(b - a) div PGSIZE = of_nat (j - i)" by (metis of_nat_unat ucast_id)
  moreover have "scast (of_nat (j - i) :: cint) = (of_nat (j - i) :: uint64)"
  proof -
    have "sint (of_nat (j - i) :: cint) = int (j - i)"
      using k(1) by (simp add: signed_of_nat signed_take_bit_int_eq_self)
    then show ?thesis by (simp add: scast_eq)
  qed
  moreover have "b = a + of_nat (4096 * (j - i))"
    using k(3) by (metis add.commute diff_add_cancel of_nat_unat ucast_id)
  moreover have "ucast (of_nat (j - i) :: uint64) = (of_nat (j - i) :: cint)"
    using k(1) by (simp add: unsigned_of_nat take_bit_nat_eq_self)
  ultimately show ?thesis by (simp add: PGSIZE_def mult.commute)
qed

lemma uvmdealloc_spec:
  assumes "vm_inv kend F R s" "r \<in> R" "newsz \<le> oldsz" "oldsz \<le> MAXVA"
    and "owns kend F R s r (PGROUNDUP newsz) (PGROUNDUP oldsz)"
  shows "okR (\<lambda>(sz, s'). sz = newsz \<and> unmaps kend R F s r (PGROUNDUP newsz) (PGROUNDUP oldsz) True s')
    (uvmdealloc kend r oldsz newsz s)"
proof -
  let ?a = "PGROUNDUP newsz" and ?b = "PGROUNDUP oldsz"
  have none: "unmaps kend R F s r ?a ?b True s" if "\<not> ?a < ?b"
    using that assms(1) vpages_empty [OF that] by (auto simp: unmaps_def)
  show ?thesis
  proof (cases "?a < ?b")
    case False
    then show ?thesis using none assms(3) by (auto simp: uvmdealloc_def)
  next
    case True
    then have lt: "newsz < oldsz" using assms(3) by (auto simp: order.order_iff_strict)
    have e: "?a + scast (ucast ((?b - ?a) div PGSIZE) :: cint) * PGSIZE = ?b"
      using True PGROUNDUP_le_MAXVA(3) [OF assms(4)] by (intro npages_exact) simp_all
    have "?a mod PGSIZE = 0" using aligned_mod [of 12 ?a] by (simp add: PGSIZE_def)
    then have "uvmdealloc kend r oldsz newsz s =
        bindR (uvmunmap_loop kend r ?a ?b True s) (\<lambda>s. Ok (newsz, s))"
      using lt True by (auto simp: uvmdealloc_def uvmunmap_def Let_def e)
    moreover have "okR (unmaps kend R F s r ?a ?b True) (uvmunmap_loop kend r ?a ?b True s)"
      using assms PGROUNDUP_le_MAXVA(3) by (intro uvmunmap_loop_spec) simp_all
    ultimately show ?thesis by (simp add: okR_bindR)
  qed
qed

section \<open>Growing\<close>

text \<open>
  The state of \<^verbatim>\<open>uvmalloc\<close> after it has added the pages \<open>[o, a)\<close> to \<open>r\<close>, starting from
  \<open>s0\<close> with free pages \<open>F0\<close>: the former free pages are still free, became tables, or are the
  zeroed frames of the new pages; every other translation is as it was.
\<close>

definition allocs where
  "allocs kend R F0 s0 r lo a perm F s \<longleftrightarrow>
     vm_inv kend F R s \<and> tables (mem s0) R \<subseteq> tables (mem s) R \<and>
     F0 = F \<union> (tables (mem s) R - tables (mem s0) R) \<union> frame_of (mem s) r ` vpages lo a \<and>
     owns kend F R s r lo a \<and>
     (\<forall>r' \<in> R. \<forall>va < MAXVA. pte_of (mem s) r' va =
        (if r' = r \<and> lo \<le> PGROUNDDOWN va \<and> PGROUNDDOWN va < a
         then PA2PTE (frame_of (mem s) r (PGROUNDDOWN va)) OR scast (perm :: cint) OR PTE_V
         else pte_of (mem s0) r' va)) \<and>
     (\<forall>va \<in> vpages lo a. \<forall>x \<in> page (frame_of (mem s) r va). mem s x = 0) \<and>
     (\<forall>x. x \<notin> pages (tables (mem s0) R \<union> F0) \<longrightarrow> mem s x = mem s0 x)"

lemma allocsD:
  assumes "allocs kend R F0 s0 r lo a perm F s"
  shows "vm_inv kend F R s" "tables (mem s0) R \<subseteq> tables (mem s) R"
    "F0 = F \<union> (tables (mem s) R - tables (mem s0) R) \<union> frame_of (mem s) r ` vpages lo a"
    "owns kend F R s r lo a"
    "\<And>r' va. r' \<in> R \<Longrightarrow> va < MAXVA \<Longrightarrow> pte_of (mem s) r' va =
        (if r' = r \<and> lo \<le> PGROUNDDOWN va \<and> PGROUNDDOWN va < a
         then PA2PTE (frame_of (mem s) r (PGROUNDDOWN va)) OR scast perm OR PTE_V
         else pte_of (mem s0) r' va)"
    "\<And>va x. va \<in> vpages lo a \<Longrightarrow> x \<in> page (frame_of (mem s) r va) \<Longrightarrow> mem s x = 0"
    "\<And>x. x \<notin> pages (tables (mem s0) R \<union> F0) \<Longrightarrow> mem s x = mem s0 x"
    "tables (mem s) R \<union> F \<subseteq> tables (mem s0) R \<union> F0"
  using assms unfolding allocs_def by blast+

lemma pages_mono: "P \<subseteq> Q \<Longrightarrow> x \<notin> pages Q \<Longrightarrow> x \<notin> pages P"
  by blast

lemma allocs_refl: "vm_inv kend F R s \<Longrightarrow> allocs kend R F s r lo lo perm F s"
  by (auto simp: allocs_def vpages_empty owns_def)

lemma vpages_snoc:
  assumes "aligned 12 lo" "aligned 12 a" "lo \<le> a" "a < MAXVA"
  shows "vpages lo (a + PGSIZE) = insert a (vpages lo a)"
proof -
  have u: "unat (a + PGSIZE) = unat a + 4096" using below_MAXVA_step [of a] assms(4) by simp
  have "va < a + PGSIZE \<longleftrightarrow> va = a \<or> va < a" if va: "aligned 12 va" for va
  proof -
    obtain i j where "unat a = 4096 * i" "unat va = 4096 * j"
      using assms(2) va unfolding aligned_dvd by (auto elim!: dvdE)
    then show ?thesis using u by (auto simp: word_less_nat_alt word_unat_eq_iff)
  qed
  then show ?thesis using assms(2,3) by (auto simp: vpages_def)
qed

lemma maps_one:
  assumes "maps_range kend R F s r a a pa perm 0 F' s'" "aligned 12 a"
  shows "grows kend R F s F' s'"
    "\<And>r' va. r' \<in> R \<Longrightarrow> va < MAXVA \<Longrightarrow> pte_of (mem s') r' va =
       (if r' = r \<and> PGROUNDDOWN va = a then PA2PTE pa OR scast perm OR PTE_V else pte_of (mem s) r' va)"
  using assms by (auto simp: maps_range_def)

lemma maps_none:
  assumes "maps_range kend R F s r a a pa perm c F' s'" "c \<noteq> 0"
  shows "grows kend R F s {} s'" "\<And>r' va. r' \<in> R \<Longrightarrow> va < MAXVA \<Longrightarrow> pte_of (mem s') r' va = pte_of (mem s) r' va"
  using assms by (fastforce simp: maps_range_def)+

lemma owned_page_untouched:
  assumes "owns kend F R s r lo a" "vm_inv kend F R s" "va \<in> vpages lo a" "x \<in> page (frame_of (mem s) r va)"
  shows "x \<notin> pages (tables (mem s) R \<union> F)"
proof
  assume "x \<in> pages (tables (mem s) R \<union> F)"
  then obtain q where q: "q \<in> tables (mem s) R \<union> F" "x \<in> page q" by blast
  then have "aligned 12 q" using vm_invD(3,4) [OF assms(2)] by auto
  moreover have "frame_of (mem s) r va \<noteq> q" "aligned 12 (frame_of (mem s) r va)"
    using assms(1,3) q(1) by (auto simp: owns_def valid_page_def)
  ultimately show False using pages_disjoint assms(4) q(2) by blast
qed

lemma allocs_step:
  assumes al: "allocs kend R F0 s0 r lo a perm F s" and r: "r \<in> R"
    and lo: "aligned 12 lo" "aligned 12 a" "lo \<le> a" "a < MAXVA"
    and p: "kalloc s = (p, s1)" "p \<noteq> 0" and perm: "drop_bit 10 perm = 0" "scast perm AND PTE_R \<noteq> 0"
    and mp: "maps_range kend R (F - {p}) (s1\<lparr>mem := memset (mem s1) p 0 (ucast PGSIZE)\<rparr>) r a a p perm 0 F' s3"
  shows "allocs kend R F0 s0 r lo (a + PGSIZE) perm F' s3"
proof -
  let ?m2 = "memset (mem s1) p 0 (ucast PGSIZE)"
  have inv: "vm_inv kend F R s" and own: "owns kend F R s r lo a" using al by (simp_all add: allocs_def)
  have m2: "\<forall>x. x \<notin> page p \<longrightarrow> ?m2 x = mem s1 x" by (simp add: memset_fill fill_def)
  note k = kalloc_vm [OF inv p m2]
  note g = maps_one [OF mp lo(2)]
  have pal: "aligned 12 p" "valid_page kend p" using vm_invD(4) [OF inv k(1)] by auto
  have gr: "F' \<subseteq> F - {p}" "vm_inv kend F' R s3" "tables (mem s3) R = tables (mem s) R \<union> (F - {p} - F')"
    using g(1) k(3) by (auto simp: grows_def)
  note v = vpages_snoc [OF lo]
  have notin: "a \<notin> vpages lo a" by (simp add: vpages_def)
  have pte: "pte_of (mem s3) r' va = (if r' = r \<and> PGROUNDDOWN va = a then PA2PTE p OR scast perm OR PTE_V
      else pte_of (mem s) r' va)" if "r' \<in> R" "va < MAXVA" for r' va
    using g(2) [OF that] k(4) [OF that(1)] by simp
  note ef = entry_fields [OF scast_small_perm [OF perm(1)] pal(1)]
  have fa: "frame_of (mem s3) r a = p" "pte_of (mem s3) r a = PA2PTE p OR scast perm OR PTE_V"
    using pte [OF r lo(4)] ef by (simp_all add: frame_of_def PGROUNDDOWN_aligned [OF lo(2)])
  have old: "pte_of (mem s3) r va = pte_of (mem s) r va" "frame_of (mem s3) r va = frame_of (mem s) r va"
    if "va \<in> vpages lo a" for va
    using that pte [OF r, of va] lo(4) by (auto simp: frame_of_def vpages_def PGROUNDDOWN_aligned)
  have flags: "scast perm OR PTE_V \<noteq> PTE_V"
  proof
    assume "scast perm OR PTE_V = PTE_V"
    then have "(scast perm OR PTE_V) AND PTE_R = PTE_V AND PTE_R" by simp
    moreover have "PTE_V AND PTE_R = 0" by (simp add: PTE_V_def PTE_R_def)
    ultimately show False using perm(2) by (simp add: bit.conj_disj_distrib2)
  qed
  have im: "frame_of (mem s3) r ` vpages lo (a + PGSIZE) = insert p (frame_of (mem s) r ` vpages lo a)"
    using fa(1) old(2) by (simp add: v)
  have own3: "owns kend F' R s3 r lo (a + PGSIZE)"
    using own k(1) pal(2) vm_invD(3,4) [OF inv] gr fa ef flags old notin
    unfolding owns_def v by (auto simp: inj_on_def)
  have keep: "mem s3 x = mem s x" if "x \<notin> pages (tables (mem s) R \<union> F)" for x
    using that g(1) k(1,3) k(5) [of x] by (auto simp: grows_def)
  have new0: "mem s3 x = 0" if x: "x \<in> page p" for x
  proof -
    have "x \<notin> page q" if "q \<in> tables (mem s) R \<union> (F - {p})" for q
      using x that pal(1) k(1) vm_invD(3,4) [OF inv] by (intro pages_disjoint [of p q]) auto
    then show ?thesis using g(1) k(3) x by (auto simp: grows_def memset_fill fill_def)
  qed
  have old0: "mem s3 x = 0" if "va \<in> vpages lo a" "x \<in> page (frame_of (mem s) r va)" for va x
    using keep [OF owned_page_untouched [OF own inv that]] allocsD(6) [OF al that] by simp
  have less: "PGROUNDDOWN va < a + PGSIZE \<longleftrightarrow> PGROUNDDOWN va = a \<or> PGROUNDDOWN va < a" if "lo \<le> PGROUNDDOWN va" for va
    using arg_cong [OF v, of "\<lambda>X. PGROUNDDOWN va \<in> X"] that by (simp add: vpages_def)
  show ?thesis
    unfolding allocs_def
  proof (intro conjI ballI allI impI)
    show "tables (mem s0) R \<subseteq> tables (mem s3) R" using allocsD(2) [OF al] gr(3) by auto
    show "F0 = F' \<union> (tables (mem s3) R - tables (mem s0) R) \<union> frame_of (mem s3) r ` vpages lo (a + PGSIZE)"
      unfolding im gr(3) allocsD(3) [OF al] using gr(1) k(1) vm_invD(3) [OF inv] allocsD(2) [OF al] by auto
    show "mem s3 x = mem s0 x" if "x \<notin> pages (tables (mem s0) R \<union> F0)" for x
      using keep [OF pages_mono [OF allocsD(8) [OF al] that]] allocsD(7) [OF al that] by simp
    show "mem s3 x = 0" if "va \<in> vpages lo (a + PGSIZE)" "x \<in> page (frame_of (mem s3) r va)" for va x
      using that new0 old0 fa(1) old(2) by (auto simp: v)
    show "pte_of (mem s3) r' va = (if r' = r \<and> lo \<le> PGROUNDDOWN va \<and> PGROUNDDOWN va < a + PGSIZE
        then PA2PTE (frame_of (mem s3) r (PGROUNDDOWN va)) OR scast perm OR PTE_V else pte_of (mem s0) r' va)"
      if "r' \<in> R" "va < MAXVA" for r' va
      using pte [OF that] allocsD(5) [OF al that] fa(1) old(2) [of "PGROUNDDOWN va"] less [of va] lo(3)
      by (auto simp: vpages_def)
  qed (use gr(2) own3 in auto)
qed

text \<open>The page that could not be mapped goes back to the free list.\<close>

lemma allocs_fail:
  assumes al: "allocs kend R F0 s0 r lo a perm F s" and r: "r \<in> R" and a: "aligned 12 a" "a < MAXVA"
    and p: "kalloc s = (p, s1)" "p \<noteq> 0" and c: "c \<noteq> 0"
    and mp: "maps_range kend R (F - {p}) (s1\<lparr>mem := memset (mem s1) p 0 (ucast PGSIZE)\<rparr>) r a a p perm c F' s3"
  obtains s4 where "kfree kend p s3 = Ok s4" "allocs kend R F0 s0 r lo a perm {p} s4"
proof -
  have inv: "vm_inv kend F R s" and own: "owns kend F R s r lo a" using allocsD [OF al] by auto
  have m2: "\<forall>x. x \<notin> page p \<longrightarrow> memset (mem s1) p 0 (ucast PGSIZE) x = mem s1 x" by (simp add: memset_fill fill_def)
  note k = kalloc_vm [OF inv p m2]
  note g = maps_none [OF mp c]
  have tb3: "tables (mem s3) R = tables (mem s) R \<union> (F - {p})" and inv3: "vm_inv kend {} R s3"
    using g(1) k(3) by (auto simp: grows_def)
  have pv: "valid_page kend p" "p \<notin> {}" "p \<notin> tables (mem s3) R"
    using tb3 k(1) vm_invD(3) [OF inv] vm_invD(4) [OF inv k(1)] by auto
  obtain s4 where s4: "kfree kend p s3 = Ok s4" "vm_inv kend {p} R s4" "tables (mem s4) R = tables (mem s3) R"
    "\<And>r p. r \<in> R \<Longrightarrow> valid_path p \<Longrightarrow> table (mem s4) r p = table (mem s3) r p"
    "\<And>r va. r \<in> R \<Longrightarrow> pte_of (mem s4) r va = pte_of (mem s3) r va"
    "\<And>x. x \<notin> page p \<Longrightarrow> mem s4 x = mem s3 x"
  proof (rule kfree_vm [OF inv3 pv(1) p(2) pv(2,3)])
  qed (rule that)
  have pte: "pte_of (mem s4) r' va = pte_of (mem s) r' va" if "r' \<in> R" "va < MAXVA" for r' va
    using s4(5) [OF that(1)] g(2) [OF that] k(4) [OF that(1)] by simp
  have lt: "va < MAXVA" if "va \<in> vpages lo a" for va using that a(2) by (auto simp: vpages_def)
  have fr: "frame_of (mem s4) r va = frame_of (mem s) r va" if "va < MAXVA" for va
    using pte [OF r that] by (simp add: frame_of_def)
  have keep: "mem s4 x = mem s x" if x: "x \<notin> pages (tables (mem s) R \<union> F)" for x
  proof -
    have "x \<notin> page p" "x \<notin> pages (tables (mem s) R \<union> (F - {p}))" using x k(1) by auto
    then show ?thesis using s4(6) [of x] k(3) k(5) [of x] g(1) by (auto simp: grows_def)
  qed
  have im: "frame_of (mem s4) r ` vpages lo a = frame_of (mem s) r ` vpages lo a"
    using fr lt by (intro image_cong) auto
  have PG: "PGROUNDDOWN va < MAXVA" if "va < MAXVA" for va
  proof -
    have "unat (PGROUNDDOWN va) \<le> unat va" by (simp add: unat_PGROUNDDOWN)
    then show ?thesis using that by (simp add: word_less_nat_alt)
  qed
  have "inj_on (frame_of (mem s4) r) (vpages lo a) = inj_on (frame_of (mem s) r) (vpages lo a)"
    using fr lt by (intro inj_on_cong) auto
  then have own4: "owns kend {p} R s4 r lo a"
    using own k(1) fr lt pte [OF r] unfolding owns_def s4(3) tb3 by auto
  have "allocs kend R F0 s0 r lo a perm {p} s4"
    unfolding allocs_def
  proof (intro conjI ballI allI impI)
    show "tables (mem s0) R \<subseteq> tables (mem s4) R" using allocsD(2) [OF al] tb3 s4(3) by auto
    show "F0 = {p} \<union> (tables (mem s4) R - tables (mem s0) R) \<union> frame_of (mem s4) r ` vpages lo a"
      unfolding im s4(3) tb3 allocsD(3) [OF al] using k(1) vm_invD(3) [OF inv] allocsD(2) [OF al] by auto
    show "mem s4 x = mem s0 x" if "x \<notin> pages (tables (mem s0) R \<union> F0)" for x
      using keep [OF pages_mono [OF allocsD(8) [OF al] that]] allocsD(7) [OF al that] by simp
    show "mem s4 x = 0" if "va \<in> vpages lo a" "x \<in> page (frame_of (mem s4) r va)" for va x
      using that keep [OF owned_page_untouched [OF own inv that(1)]] allocsD(6) [OF al that(1)] fr lt by auto
    show "pte_of (mem s4) r' va = (if r' = r \<and> lo \<le> PGROUNDDOWN va \<and> PGROUNDDOWN va < a
        then PA2PTE (frame_of (mem s4) r (PGROUNDDOWN va)) OR scast perm OR PTE_V else pte_of (mem s0) r' va)"
      if "r' \<in> R" "va < MAXVA" for r' va
      using pte [OF that] allocsD(5) [OF al that] fr PG [OF that(2)] by auto
  qed (use s4(2) own4 in auto)
  then show thesis by (rule that [OF s4(1)])
qed

text \<open>
  A failed growth is undone: every translation of every address space is as before, and the
  only pages it keeps are tables.
\<close>

definition undone where
  "undone kend R F0 s0 s' \<longleftrightarrow> tables (mem s0) R \<subseteq> tables (mem s') R \<and>
     vm_inv kend (F0 - (tables (mem s') R - tables (mem s0) R)) R s' \<and>
     (\<forall>r' \<in> R. \<forall>va < MAXVA. pte_of (mem s') r' va = pte_of (mem s0) r' va) \<and>
     (\<forall>x. x \<notin> pages (tables (mem s0) R \<union> F0) \<longrightarrow> mem s' x = mem s0 x)"

lemma unmaps_undone:
  assumes al: "allocs kend R F0 s0 r lo a perm F s" and um: "unmaps kend R F s r lo a True s'"
    and inv0: "vm_inv kend F0 R s0" and r: "r \<in> R" and "a \<le> MAXVA"
    and zero: "\<And>va. va \<in> vpages lo a \<Longrightarrow> pte_of (mem s0) r va = 0"
  shows "undone kend R F0 s0 s'"
proof -
  let ?P = "frame_of (mem s) r ` vpages lo a"
  have um': "vm_inv kend (F \<union> ?P) R s'" "tables (mem s') R = tables (mem s) R"
    using um by (simp_all add: unmaps_def)
  have "F \<union> ?P = F0 - (tables (mem s') R - tables (mem s0) R)"
    using allocsD(3,4) [OF al] vm_invD(3) [OF allocsD(1) [OF al]] vm_invD(3) [OF inv0]
    unfolding um'(2) owns_def by auto
  moreover have "pte_of (mem s') r' va = pte_of (mem s0) r' va" if "r' \<in> R" "va < MAXVA" for r' va
  proof (cases "r' = r \<and> lo \<le> PGROUNDDOWN va \<and> PGROUNDDOWN va < a")
    case True
    then have v: "PGROUNDDOWN va \<in> vpages lo a" by (simp add: vpages_def)
    then have "PGROUNDDOWN va < MAXVA" using assms(5) by (auto simp: vpages_def)
    then have "pte_of (mem s0) r va = pte_of (mem s0) r (PGROUNDDOWN va)"
      using that(2) by (intro pte_of_page) (simp_all add: PGROUNDDOWN_aligned)
    then show ?thesis using True zero [OF v] um that by (simp add: unmaps_def)
  next
    case False
    then show ?thesis using um that allocsD(5) [OF al that] by (auto simp: unmaps_def)
  qed
  moreover have "mem s' x = mem s0 x" if x: "x \<notin> pages (tables (mem s0) R \<union> F0)" for x
  proof -
    have "x \<notin> pages (tables (mem s) R)" using pages_mono [OF allocsD(8) [OF al] x] by auto
    moreover have "x \<notin> pages ?P" by (rule pages_mono [OF _ x]) (use allocsD(3) [OF al] in auto)
    ultimately show ?thesis using um allocsD(7) [OF al x] by (simp add: unmaps_def)
  qed
  ultimately show ?thesis using um' allocsD(2) [OF al] by (simp add: undone_def)
qed

lemma user_perm:
  assumes "drop_bit 10 (xperm :: cint) = 0"
  shows "drop_bit 10 (ucast (PTE_R OR PTE_U) OR xperm) = 0" "scast (ucast (PTE_R OR PTE_U) OR xperm) AND PTE_R \<noteq> 0"
proof -
  have "drop_bit 10 (ucast (PTE_R OR PTE_U) :: cint) = 0"
    by (simp add: PTE_R_def PTE_U_def drop_bit_eq_div)
  then show "drop_bit 10 (ucast (PTE_R OR PTE_U) OR xperm) = 0"
    using assms by (simp add: drop_bit_or)
  have "bit (scast (ucast (PTE_R OR PTE_U) OR xperm) AND PTE_R) 1"
    by (simp add: bit_simps PTE_R_def PTE_U_def)
  then show "scast (ucast (PTE_R OR PTE_U) OR xperm) AND PTE_R \<noteq> 0" by auto
qed

lemma undo_growth:
  assumes al: "allocs kend R F0 s0 r lo a perm F s" and inv0: "vm_inv kend F0 R s0" and r: "r \<in> R"
    and a: "aligned 12 lo" "aligned 12 a" "lo \<le> a" "a \<le> MAXVA"
    and zero: "\<And>va. va \<in> vpages lo a \<Longrightarrow> pte_of (mem s0) r va = 0"
  shows "okR (\<lambda>(_, s'). undone kend R F0 s0 s' \<and> tables (mem s') R = tables (mem s) R) (uvmdealloc kend r a lo s)"
proof -
  have "unat lo \<le> 2 ^ 38" "unat a \<le> 2 ^ 38" using a(3,4) by (simp_all add: word_le_nat_alt unat_MAXVA)
  then have up: "PGROUNDUP lo = lo" "PGROUNDUP a = a" using a(1,2) by (auto intro: PGROUNDUP_aligned)
  have "okR (\<lambda>(sz, s'). sz = lo \<and> unmaps kend R F s r (PGROUNDUP lo) (PGROUNDUP a) True s') (uvmdealloc kend r a lo s)"
    using allocsD(1,4) [OF al] r a(3,4) by (intro uvmdealloc_spec) (simp_all add: up)
  then show ?thesis
    unfolding up by (rule okR_mono) (use unmaps_undone [OF al _ inv0 r a(4) zero] in \<open>auto simp: unmaps_def\<close>)
qed

text \<open>
  The pages that were free do not cover what was asked for: all of them, but at most one, became tables
  or frames of new pages before one was missing.
\<close>

definition too_few where
  "too_few R F0 s0 lo newsz s' \<longleftrightarrow> card F0 \<le> card (vpages lo (PGROUNDUP newsz)) + card (tables (mem s') R - tables (mem s0) R)"

lemma too_fewI:
  assumes al: "allocs kend R F0 s0 r lo a perm F s" and F: "F \<subseteq> {p}" and t: "tables (mem s') R = tables (mem s) R"
    and a: "aligned 12 lo" "aligned 12 a" "lo \<le> a" "a < MAXVA" "a < PGROUNDUP newsz"
  shows "too_few R F0 s0 lo newsz s'"
proof -
  have snoc: "vpages lo (a + PGSIZE) = insert a (vpages lo a)" using a by (intro vpages_snoc)
  have "vpages lo (a + PGSIZE) \<subseteq> vpages lo (PGROUNDUP newsz)"
    using a(5) unfolding snoc by (auto simp: vpages_def a intro: less_trans)
  then have "card (insert a (vpages lo a)) \<le> card (vpages lo (PGROUNDUP newsz))"
    unfolding snoc by (rule card_mono [rotated]) simp
  then have v: "Suc (card (vpages lo a)) \<le> card (vpages lo (PGROUNDUP newsz))" by (simp add: vpages_def)
  have "card F0 \<le> card F + card (tables (mem s) R - tables (mem s0) R) + card (frame_of (mem s) r ` vpages lo a)"
    unfolding allocsD(3) [OF al]
    by (rule order.trans [OF card_Un_le]) (simp add: card_Un_le)
  moreover have "card F \<le> 1" using card_mono [OF _ F] by simp
  moreover have "card (frame_of (mem s) r ` vpages lo a) \<le> card (vpages lo a)" by (rule card_image_le) simp
  ultimately show ?thesis using v unfolding too_few_def t by linarith
qed

text \<open>What \<^verbatim>\<open>uvmalloc\<close> returns: the new size with the pages added, or 0 with nothing changed.\<close>

definition grown where
  "grown kend R F0 s0 r lo newsz perm res \<longleftrightarrow> (case res of (sz, s') \<Rightarrow>
     sz = newsz \<and> (\<exists>F'. allocs kend R F0 s0 r lo (PGROUNDUP newsz) perm F' s') \<or>
     sz = 0 \<and> undone kend R F0 s0 s' \<and> too_few R F0 s0 lo newsz s')"

lemma uvmalloc_loop_spec:
  assumes "allocs kend R F0 s0 r lo a (ucast (PTE_R OR PTE_U) OR xperm) F s"
    and "vm_inv kend F0 R s0" "r \<in> R" "drop_bit 10 xperm = 0"
    and "aligned 12 lo" "aligned 12 a" "lo \<le> a" "a \<le> PGROUNDUP newsz" "newsz \<le> MAXVA"
    and "\<And>va. va \<in> vpages lo (PGROUNDUP newsz) \<Longrightarrow> pte_of (mem s0) r va = 0"
  shows "okR (grown kend R F0 s0 r lo newsz (ucast (PTE_R OR PTE_U) OR xperm))
    (uvmalloc_loop kend r a lo newsz xperm s)"
  using assms
proof (induction kend r a lo newsz xperm s arbitrary: F rule: uvmalloc_loop.induct)
  case (1 kend r a lo newsz xperm s)
  let ?perm = "ucast (PTE_R OR PTE_U) OR xperm"
  let ?top = "PGROUNDUP newsz"
  note al = 1(2) note inv0 = 1(3) note r = 1(4) note perm = user_perm [OF 1(5)]
  note lo = 1(6-8)
  note top = PGROUNDUP_le_MAXVA [OF 1(10)]
  show ?case
  proof (cases "a < newsz")
    case False
    have "?top = a"
    proof -
      obtain i where "unat a = 4096 * i" using lo(2) unfolding aligned_dvd by (auto elim!: dvdE)
      moreover have "unat newsz \<le> unat a" "unat a \<le> unat ?top"
        using False 1(9) by (simp_all add: word_le_nat_alt not_less)
      ultimately show ?thesis using top(4) by (simp add: word_unat_eq_iff)
    qed
    then have "grown kend R F0 s0 r lo newsz ?perm (newsz, s)" using al by (auto simp: grown_def)
    then show ?thesis using False by (simp add: uvmalloc_loop.simps [of _ _ a])
  next
    case True
    have "unat a < unat ?top" using True top(1) by (simp add: word_less_nat_alt)
    then have lt: "a < ?top" by (simp add: word_less_nat_alt)
    then have aM: "a < MAXVA" using top(3) by simp
    have zero: "pte_of (mem s0) r va = 0" if "va \<in> vpages lo a" for va
      using that lt 1(11) [of va] by (auto simp: vpages_def)
    note inv = allocsD(1) [OF al]
    obtain p s1 where p: "kalloc s = (p, s1)" by force
    have undo: "okR (\<lambda>(_, u). undone kend R F0 s0 u \<and> too_few R F0 s0 lo newsz u) (uvmdealloc kend r a lo s')"
      if "allocs kend R F0 s0 r lo a ?perm F' s'" "F' \<subseteq> {q}" for F' s' q
    proof -
      have "okR (\<lambda>(_, u). undone kend R F0 s0 u \<and> tables (mem u) R = tables (mem s') R) (uvmdealloc kend r a lo s')"
        using that(1) inv0 r lo zero aM by (intro undo_growth) auto
      then show ?thesis by (rule okR_mono) (use too_fewI [OF that _ lo aM lt] in auto)
    qed
    show ?thesis
    proof (cases "p = 0")
      case p0: True
      then have "s1 = s" "F = {}" using kalloc_vm_none [OF inv] p by simp_all
      then show ?thesis
        using undo [OF al] True p p0
        by (auto simp: uvmalloc_loop.simps [of _ _ a] okR_bindR grown_def elim!: okR_mono)
    next
      case p0: False
      let ?s2 = "s1\<lparr>mem := memset (mem s1) p 0 (ucast PGSIZE)\<rparr>"
      have m2: "\<forall>x. x \<notin> page p \<longrightarrow> memset (mem s1) p 0 (ucast PGSIZE) x = mem s1 x"
        by (simp add: memset_fill fill_def)
      note k = kalloc_vm [OF inv p p0 m2]
      have "pte_of (mem s0) r a = 0" using lt lo 1(11) [of a] by (simp add: vpages_def)
      then have "pte_of (mem ?s2) r a = 0"
        using k(4) [OF r] allocsD(5) [OF al r aM] by (simp add: PGROUNDDOWN_aligned [OF lo(2)])
      then have "okR (\<lambda>(c, s'). \<exists>F'. maps_range kend R (F - {p}) ?s2 r a a p ?perm c F' s') (mappages_loop r a a p ?perm ?s2)"
        using k(2) r lo(2) aM by (intro mappages_loop_spec) auto
      then obtain c s3 F' where m: "mappages r a PGSIZE p ?perm ?s2 = Ok (c, s3)"
        and mp: "maps_range kend R (F - {p}) ?s2 r a a p ?perm c F' s3"
        by (auto simp: okR_def mappages_page [OF lo(2)])
      show ?thesis
      proof (cases "c = 0")
        case c0: True
        note st = allocs_step [OF al r lo aM p p0 perm mp [unfolded c0]]
        note nx = aligned_next [OF lo(2) aligned_PGROUNDUP lt]
        have "lo \<le> a + PGSIZE" using lo(3) nx(2) by (simp add: word_le_nat_alt)
        then have "okR (grown kend R F0 s0 r lo newsz ?perm) (uvmalloc_loop kend r (a + PGSIZE) lo newsz xperm s3)"
          using st m c0 p p0 1(3-6,10,11) nx by (intro 1(1) [OF True p [symmetric] refl p0 refl m refl]) auto
        then show ?thesis using True p p0 m c0 by (simp add: uvmalloc_loop.simps [of _ _ a])
      next
        case c1: False
        obtain s4 where s4: "kfree kend p s3 = Ok s4" "allocs kend R F0 s0 r lo a ?perm {p} s4"
          using allocs_fail [OF al r lo(2) aM p p0 c1 mp] by blast
        then show ?thesis
          using undo [OF s4(2)] True p p0 m c1
          by (auto simp: uvmalloc_loop.simps [of _ _ a] okR_bindR grown_def elim!: okR_mono)
      qed
    qed
  qed
qed

end
