(* ===== verification/VmCopy.thy ===== *)
theory VmCopy
  imports VmUser
begin

text \<open>
  Copies between kernel addresses and user virtual addresses. \<open>user_pa s r va\<close> is the physical
  address behind a user address (\<^verbatim>\<open>walkaddr\<close> and the page offset), \<^const>\<open>None\<close> when the page
  is not mapped for the user. The copy loops go page by page; the lemmas say what they do byte
  by byte.
\<close>

unbundle bit_operations_syntax

section \<open>User addresses\<close>

definition user_pa :: "'z kmem_scheme \<Rightarrow> uint64 \<Rightarrow> uint64 \<Rightarrow> uint64 option" where
  "user_pa s r va =
     (let pa0 = walkaddr r (PGROUNDDOWN va) s in
      if pa0 = 0 then None else Some (pa0 + (va - PGROUNDDOWN va)))"

lemma walkaddr_table:
  "walkaddr r va s = (if va \<ge> MAXVA then 0 else case table (mem s) r [PX 1 va, PX 2 va] of
      None \<Rightarrow> 0
    | Some t \<Rightarrow> (let e = load64 (mem s) (pte_at t (PX 0 va)) in
        if pte_at t (PX 0 va) = 0 \<or> e AND PTE_V = 0 \<or> e AND PTE_U = 0 then 0 else PTE2PA e))"
  by (auto simp: walkaddr_def walk_find Let_def not_le split: option.splits)

lemma walkaddr_pte:
  assumes "vm_inv kend F R s" "r \<in> R"
  shows "walkaddr r va s = (if va < MAXVA \<and> pte_of (mem s) r va AND PTE_V \<noteq> 0 \<and> pte_of (mem s) r va AND PTE_U \<noteq> 0
    then frame_of (mem s) r va else 0)"
proof (cases "table (mem s) r [PX 1 va, PX 2 va]")
  case None
  then show ?thesis by (auto simp: walkaddr_table pte_of_def)
next
  case (Some t)
  then have "t \<in> tables (mem s) R" using assms(2) by (intro table_in_tables) simp_all
  then have "pte_at t (PX 0 va) \<noteq> 0"
    using vm_invD(3) [OF assms(1)] by (intro pte_at_nonzero [of kend]) (auto simp: unat_PX_less)
  then show ?thesis using Some by (auto simp: walkaddr_table pte_of_def frame_of_def Let_def)
qed

lemma walkaddr_outside:
  assumes "\<And>x. x \<in> pages (tables (mem s) R) \<Longrightarrow> mem s' x = mem s x" "r \<in> R"
  shows "walkaddr r va s' = walkaddr r va s"
proof -
  have t: "table (mem s') r [PX 1 va, PX 2 va] = table (mem s) r [PX 1 va, PX 2 va]"
    by (rule table_outside [OF assms]) simp_all
  have "load64 (mem s') (pte_at t (PX 0 va)) = load64 (mem s) (pte_at t (PX 0 va))"
    if "table (mem s) r [PX 1 va, PX 2 va] = Some t" for t
    using table_in_tables [OF assms(2) _ that] assms(1) by (intro load_pte_cong) (auto simp: unat_PX_less)
  with t show ?thesis by (simp add: walkaddr_table Let_def split: option.splits)
qed

lemma user_pa_outside:
  assumes "\<And>x. x \<in> pages (tables (mem s) R) \<Longrightarrow> mem s' x = mem s x" "r \<in> R"
  shows "user_pa s' r va = user_pa s r va"
  using walkaddr_outside [OF assms] by (simp add: user_pa_def)

text \<open>Bytes of one page.\<close>

lemma PGROUNDDOWN_same:
  assumes "unat va mod 4096 + i < 4096"
  shows "PGROUNDDOWN (va + of_nat i) = PGROUNDDOWN va" "unat (va + of_nat i) = unat va + i"
proof -
  define q k where "q = unat va div 4096" and "k = unat va mod 4096"
  then have d: "unat va = 4096 * q + k" "k + i < 4096" using assms by simp_all
  then have "4096 * q < 2 ^ 64" using unat_lt2p [of va] by simp
  then have "4096 * q + 4096 \<le> 2 ^ 64" by simp
  then have "unat va + i < 2 ^ 64" using d by linarith
  then show u: "unat (va + of_nat i) = unat va + i" by (intro unat_add_nat) simp
  have "(unat va + i) div 4096 = q" "unat va div 4096 = q" using d by simp_all
  then show "PGROUNDDOWN (va + of_nat i) = PGROUNDDOWN va"
    by (simp add: word_unat_eq_iff unat_PGROUNDDOWN u)
qed

lemma user_pa_chunk:
  assumes "walkaddr r (PGROUNDDOWN va) s = pa0" "pa0 \<noteq> 0" "i < unat (page_chunk va len)"
  shows "user_pa s r (va + of_nat i) = Some (pa0 + (va - PGROUNDDOWN va) + of_nat i)"
proof -
  have "unat va mod 4096 + i < 4096" using assms(3) by (simp add: unat_page_chunk less_diff_conv add.commute)
  note PGROUNDDOWN_same(1) [OF this]
  then show ?thesis using assms(1,2) by (simp add: user_pa_def algebra_simps)
qed

lemma next_page:
  assumes "page_chunk va len \<noteq> len"
  shows "PGROUNDDOWN va + PGSIZE = va + page_chunk va len"
proof -
  have "page_chunk va len = PGSIZE - (va - PGROUNDDOWN va)"
    using assms by (auto simp: page_chunk_def Let_def split: if_splits)
  then show ?thesis by simp
qed

section \<open>\<^verbatim>\<open>copyin\<close>\<close>

text \<open>One round of either loop moves a chunk; \<^verbatim>\<open>memmove\<close> gets physical addresses.\<close>

lemma chunk_memmove:
  assumes "unat n \<le> 4096" "unat src + unat n < 2 ^ 64" "unat dst + unat n \<le> 2 ^ 64"
  shows "memmove m dst src (ucast (n :: uint64)) = moved m dst src (unat n)"
proof -
  have "unat (ucast n :: uint) = unat n"
    using assms(1) by (simp add: unsigned_ucast_eq take_bit_nat_eq_self)
  then show ?thesis using memmove_moved [of src "ucast n" dst m] assms by simp
qed

lemma chunk_bounds:
  assumes "0 < len"
  shows "0 < unat (page_chunk va len)" "unat (page_chunk va len) \<le> 4096" "unat (page_chunk va len) \<le> unat len"
    "unat (len - page_chunk va len) = unat len - unat (page_chunk va len)"
proof -
  have "0 < unat len" using assms by (simp add: unat_gt_0)
  moreover have "unat va mod 4096 < 4096" by simp
  ultimately show pos: "0 < unat (page_chunk va len)" unfolding unat_page_chunk by simp
  show "unat (page_chunk va len) \<le> 4096" unfolding unat_page_chunk by simp
  show le: "unat (page_chunk va len) \<le> unat len" unfolding unat_page_chunk by simp
  then show "unat (len - page_chunk va len) = unat len - unat (page_chunk va len)"
    by (simp add: unat_sub_if_size)
qed

lemma frame_plus_offset:
  assumes "walkaddr r (PGROUNDDOWN va) s < PHYSTOP" "n \<le> 4096"
  shows "unat (walkaddr r (PGROUNDDOWN va) s + (va - PGROUNDDOWN va)) + n < 2 ^ 64"
proof -
  have "unat (walkaddr r (PGROUNDDOWN va) s) < 0x88000000"
    using assms(1) by (simp add: word_less_nat_alt PHYSTOP_eq)
  moreover have "unat (va - PGROUNDDOWN va) < 4096" by (simp add: unat_page_offset)
  ultimately show ?thesis
    using assms(2) unat_plus_if_size [of "walkaddr r (PGROUNDDOWN va) s" "va - PGROUNDDOWN va"]
    by (simp add: word_size)
qed

text \<open>
  The kernel buffer \<open>[dst, dst + len)\<close> is apart from the page tables and from the user bytes
  that are read, which is how \<^verbatim>\<open>copyin\<close> is called.
\<close>

definition copyin_ok :: "uint64 set \<Rightarrow> uint64 \<Rightarrow> uint64 \<Rightarrow> uint64 \<Rightarrow> nat \<Rightarrow> 'z kmem_scheme \<Rightarrow> bool" where
  "copyin_ok R r dst srcva n s \<longleftrightarrow> r \<in> R \<and> unat dst + n \<le> 2 ^ 64 \<and>
     (\<forall>va. walkaddr r va s < PHYSTOP) \<and>
     (\<forall>x \<in> pages (tables (mem s) R). n \<le> unat (x - dst)) \<and>
     (\<forall>i < n. \<forall>pa. user_pa s r (srcva + of_nat i) = Some pa \<longrightarrow> n \<le> unat (pa - dst))"

definition user_range :: "'z kmem_scheme \<Rightarrow> uint64 \<Rightarrow> uint64 \<Rightarrow> nat \<Rightarrow> bool" where
  "user_range s r va n \<longleftrightarrow> (\<forall>i < n. user_pa s r (va + of_nat i) \<noteq> None)"

definition copied_in :: "'z kmem_scheme \<Rightarrow> uint64 \<Rightarrow> uint64 \<Rightarrow> uint64 \<Rightarrow> nat \<Rightarrow> memory" where
  "copied_in s r dst srcva n =
     (\<lambda>x. if unat (x - dst) < n then mem s (the (user_pa s r (srcva + (x - dst)))) else mem s x)"

lemma user_range_add:
  "user_range s r va (n + k) \<longleftrightarrow> user_range s r va n \<and> user_range s r (va + of_nat n) k"
proof -
  have "(\<forall>i < n + k. P i) \<longleftrightarrow> (\<forall>i < n. P i) \<and> (\<forall>i < k. P (n + i))" for P :: "nat \<Rightarrow> bool"
    by (metis add_less_cancel_left le_add_diff_inverse linorder_not_le trans_less_add1)
  then show ?thesis unfolding user_range_def by (simp add: algebra_simps)
qed

lemma offset_split:
  fixes x d :: uint64
  assumes "n + k \<le> 2 ^ 64" "n < 2 ^ 64"
  shows "unat (x - d) < n + k \<longleftrightarrow> unat (x - d) < n \<or> unat (x - (d + of_nat n)) < k"
    "unat (x - (d + of_nat n)) < k \<Longrightarrow> n \<le> unat (x - d)"
    "n \<le> unat (x - d) \<Longrightarrow> unat (x - (d + of_nat n)) = unat (x - d) - n"
proof -
  have n: "unat (of_nat n :: uint64) = n" using assms(2) by (simp add: unat_of_nat)
  have "unat (y - of_nat n) = (if n \<le> unat y then unat y - n else unat y + 2 ^ 64 - n)" for y :: uint64
    using unat_sub_if_size [of y "of_nat n"] n by (simp add: word_size)
  note u = this [of "x - d", unfolded diff_diff_eq]
  show "n \<le> unat (x - d) \<Longrightarrow> unat (x - (d + of_nat n)) = unat (x - d) - n" using u by simp
  show "unat (x - (d + of_nat n)) < k \<Longrightarrow> n \<le> unat (x - d)" using u assms(1) by (auto split: if_splits)
  show "unat (x - d) < n + k \<longleftrightarrow> unat (x - d) < n \<or> unat (x - (d + of_nat n)) < k"
    using u assms(1) by (auto split: if_splits)
qed

lemma copyin_step:
  assumes "copyin_ok R r dst srcva (unat len) s" "0 < len" "walkaddr r (PGROUNDDOWN srcva) s \<noteq> 0"
  defines "n \<equiv> page_chunk srcva len"
  defines "s1 \<equiv> s\<lparr>mem := memmove (mem s) dst (walkaddr r (PGROUNDDOWN srcva) s + (srcva - PGROUNDDOWN srcva)) (ucast n)\<rparr>"
  shows "mem s1 = copied_in s r dst srcva (unat n)" "user_range s r srcva (unat n)"
    "\<And>va. user_pa s1 r va = user_pa s r va" "copyin_ok R r (dst + n) (srcva + n) (unat len - unat n) s1"
    "tables (mem s1) R = tables (mem s) R"
proof -
  note ok = assms(1) [unfolded copyin_ok_def]
  note cb = chunk_bounds [OF assms(2), of srcva, folded n_def]
  let ?src = "walkaddr r (PGROUNDDOWN srcva) s + (srcva - PGROUNDDOWN srcva)"
  have src: "unat ?src + unat n < 2 ^ 64" by (rule frame_plus_offset) (use ok cb(2) in auto)
  have pa: "user_pa s r (srcva + of_nat i) = Some (?src + of_nat i)" if "i < unat n" for i
    using that assms(3) by (intro user_pa_chunk) (simp_all add: n_def)
  show m1: "mem s1 = copied_in s r dst srcva (unat n)"
  proof
    fix x
    have "mem s1 x = moved (mem s) dst ?src (unat n) x"
      using chunk_memmove [OF cb(2) src, of dst "mem s"] ok cb(3) by (simp add: s1_def)
    then show "mem s1 x = copied_in s r dst srcva (unat n) x"
      using pa [of "unat (x - dst)"] by (simp add: moved_def copied_in_def)
  qed
  show "user_range s r srcva (unat n)" using pa by (simp add: user_range_def)
  have out: "mem s1 x = mem s x" if "x \<in> pages (tables (mem s) R)" for x
    using ok that cb(3) by (fastforce simp: m1 copied_in_def)
  show up: "user_pa s1 r va = user_pa s r va" for va by (rule user_pa_outside [OF out]) (use ok in auto)
  show tb: "tables (mem s1) R = tables (mem s) R"
    by (rule tables_cong) (rule table_outside [OF out])
  have wa: "walkaddr r va s1 = walkaddr r va s" for va by (rule walkaddr_outside [OF out]) (use ok in auto)
  have nn: "unat n + (unat len - unat n) = unat len" "unat n < 2 ^ 64" "n = of_nat (unat n)" using cb by simp_all
  note os = offset_split [of "unat n" "unat len - unat n", folded nn(3)]
  have len: "unat n + (unat len - unat n) \<le> 2 ^ 64" using nn(1) unat_lt2p [of len] by simp
  have far: "unat len - unat n \<le> unat (x - (dst + n))" if "unat len \<le> unat (x - dst)" for x
    using os(3) [OF len nn(2), of x dst] that cb(3) by simp
  show "copyin_ok R r (dst + n) (srcva + n) (unat len - unat n) s1"
    unfolding copyin_ok_def tb wa up
  proof (intro conjI allI ballI impI)
    have "unat (dst + n) \<le> unat dst + unat n" using unat_plus_if_size [of dst n] by (simp add: word_size)
    moreover have "unat dst + unat len \<le> 2 ^ 64" using ok by blast
    ultimately show "unat (dst + n) + (unat len - unat n) \<le> 2 ^ 64" using cb(3) by linarith
    show "unat len - unat n \<le> unat (pa - (dst + n))"
      if "i < unat len - unat n" "user_pa s r (srcva + n + of_nat i) = Some pa" for i pa
    proof (rule far)
      have "srcva + n + of_nat i = srcva + of_nat (unat n + i)" by simp
      then show "unat len \<le> unat (pa - dst)" using ok that by (metis less_diff_conv add.commute)
    qed
  qed (use ok far in auto)
qed

lemma copied_in_0 [simp]: "copied_in s r dst srcva 0 = mem s"
  by (simp add: copied_in_def)

lemma copied_in_add:
  assumes "n + k \<le> 2 ^ 64" "n < 2 ^ 64"
    and s1: "mem s1 = copied_in s r dst srcva n" "\<And>va. user_pa s1 r va = user_pa s r va"
    and apart: "\<And>i pa. i < n + k \<Longrightarrow> user_pa s r (srcva + of_nat i) = Some pa \<Longrightarrow> n + k \<le> unat (pa - dst)"
    and range: "user_range s r srcva (n + k)"
  shows "copied_in s1 r (dst + of_nat n) (srcva + of_nat n) k = copied_in s r dst srcva (n + k)"
proof
  fix x
  note os = offset_split [OF assms(1,2), of x dst]
  show "copied_in s1 r (dst + of_nat n) (srcva + of_nat n) k x = copied_in s r dst srcva (n + k) x"
  proof (cases "unat (x - (dst + of_nat n)) < k")
    case False
    then show ?thesis using os by (simp add: copied_in_def s1(1))
  next
    case True
    have "unat (x - dst) < n + k" using True os by simp
    then obtain pa where pa: "user_pa s r (srcva + (x - dst)) = Some pa"
      using range by (force simp: user_range_def dest: spec [of _ "unat (x - dst)"])
    then have "n + k \<le> unat (pa - dst)"
      using apart [of "unat (x - dst)" pa] \<open>unat (x - dst) < n + k\<close> by simp
    then have "mem s1 pa = mem s pa" by (simp add: s1(1) copied_in_def)
    moreover have "srcva + of_nat n + (x - (dst + of_nat n)) = srcva + (x - dst)" by simp
    ultimately show ?thesis
      using True os pa s1(2) by (simp add: copied_in_def)
  qed
qed

text \<open>
  \<^verbatim>\<open>copyin\<close> returns 0 exactly when every byte of the range is mapped for the user, with the
  bytes copied; otherwise it returns -1, and only the buffer can have changed.
\<close>

lemma copyin_spec:
  assumes "copyin_ok R r dst srcva (unat len) s"
  shows "if user_range s r srcva (unat len)
    then copyin r dst srcva len s = (0, s\<lparr>mem := copied_in s r dst srcva (unat len)\<rparr>)
    else \<exists>m. copyin r dst srcva len s = (-1, s\<lparr>mem := m\<rparr>) \<and> (\<forall>x. unat len \<le> unat (x - dst) \<longrightarrow> m x = mem s x)"
  using assms
proof (induction r dst srcva len s rule: copyin.induct)
  case (1 r dst srcva len s)
  show ?case
  proof (cases "0 < len")
    case False
    then have "len = 0" by (simp add: word_gt_0)
    then show ?thesis by (simp add: copyin.simps [of r dst srcva] user_range_def)
  next
    case True
    let ?n = "page_chunk srcva len"
    let ?pa0 = "walkaddr r (PGROUNDDOWN srcva) s"
    show ?thesis
    proof (cases "?pa0 = 0")
      case p0: True
      then have "user_pa s r (srcva + of_nat 0) = None" by (simp add: user_pa_def)
      moreover have "0 < unat len" using True by (simp add: unat_gt_0)
      ultimately have "\<not> user_range s r srcva (unat len)" unfolding user_range_def by blast
      moreover have "copyin r dst srcva len s = (-1, s\<lparr>mem := mem s\<rparr>)"
        using True p0 by (simp add: copyin.simps [of r dst srcva])
      ultimately show ?thesis by (auto intro!: exI [of _ "mem s"])
    next
      case p0: False
      define s1 where "s1 = s\<lparr>mem := memmove (mem s) dst (?pa0 + (srcva - PGROUNDDOWN srcva)) (ucast ?n)\<rparr>"
      note st = copyin_step [OF 1(2) True p0, folded s1_def]
      note cb = chunk_bounds [OF True, of srcva]
      have k: "unat ?n + (unat len - unat ?n) = unat len" using cb(3) by simp
      have rg: "user_range s r srcva (unat len) \<longleftrightarrow> user_range s1 r (srcva + ?n) (unat len - unat ?n)"
        using user_range_add [of s r srcva "unat ?n" "unat len - unat ?n"] st(2,3) k by (simp add: user_range_def)
      have run: "copyin r dst srcva len s = copyin r (dst + ?n) (srcva + ?n) (len - ?n) s1"
      proof (cases "?n = len")
        case True
        then show ?thesis using \<open>0 < len\<close> p0
          by (simp add: copyin.simps [of r dst srcva] copyin.simps [of r _ _ 0] s1_def Let_def)
      next
        case False
        then show ?thesis using \<open>0 < len\<close> p0 next_page [OF False]
          by (simp add: copyin.simps [of r dst srcva] s1_def Let_def)
      qed
      have ih: "if user_range s1 r (srcva + ?n) (unat (len - ?n))
        then copyin r (dst + ?n) (srcva + ?n) (len - ?n) s1 = (0, s1\<lparr>mem := copied_in s1 r (dst + ?n) (srcva + ?n) (unat (len - ?n))\<rparr>)
        else \<exists>m. copyin r (dst + ?n) (srcva + ?n) (len - ?n) s1 = (-1, s1\<lparr>mem := m\<rparr>) \<and>
          (\<forall>x. unat (len - ?n) \<le> unat (x - (dst + ?n)) \<longrightarrow> m x = mem s1 x)"
      proof (cases "?n = len")
        case True
        then show ?thesis by (simp add: copyin.simps [of r _ _ 0] user_range_def)
      next
        case False
        show ?thesis
          unfolding next_page [OF False, symmetric]
          by (rule 1(1) [OF True refl refl p0 refl s1_def])
            (use st(4) cb(4) next_page [OF False] in simp)
      qed
      have m: "copied_in s1 r (dst + ?n) (srcva + ?n) (unat len - unat ?n) = copied_in s r dst srcva (unat len)"
        if "user_range s r srcva (unat len)"
        using copied_in_add [of "unat ?n" "unat len - unat ?n" s1 s r dst srcva] st(1,3) that k cb
          unat_lt2p [of len] 1(2) by (simp add: copyin_ok_def)
      have out: "m x = mem s x" if "\<forall>x. unat len - unat ?n \<le> unat (x - (dst + ?n)) \<longrightarrow> m x = mem s1 x"
        "unat len \<le> unat (x - dst)" for m x
        using that offset_split [of "unat ?n" "unat len - unat ?n" x dst] k cb(2,3) unat_lt2p [of len]
        by (auto simp: st(1) copied_in_def)
      show ?thesis
        using ih rg m out unfolding run cb(4) by (auto simp: s1_def split: if_splits)
    qed
  qed
qed

section \<open>\<^verbatim>\<open>copyout\<close>\<close>

text \<open>
  The user bytes that are written are no page tables and not part of the source buffer, and
  different user addresses of the range are different bytes.
\<close>

definition copyout_ok :: "uint64 set \<Rightarrow> uint64 \<Rightarrow> uint64 \<Rightarrow> uint64 \<Rightarrow> nat \<Rightarrow> 'z kmem_scheme \<Rightarrow> bool" where
  "copyout_ok R r dstva src n s \<longleftrightarrow> r \<in> R \<and> unat src + n < 2 ^ 64 \<and>
     (\<forall>va. walkaddr r va s < PHYSTOP) \<and>
     (\<forall>i < n. \<forall>pa. user_pa s r (dstva + of_nat i) = Some pa \<longrightarrow>
        pa \<notin> pages (tables (mem s) R) \<and> n \<le> unat (pa - src)) \<and>
     (\<forall>i < n. \<forall>j < n. \<forall>pa. user_pa s r (dstva + of_nat i) = Some pa \<longrightarrow>
        user_pa s r (dstva + of_nat j) = Some pa \<longrightarrow> i = j)"

definition written :: "'z kmem_scheme \<Rightarrow> uint64 \<Rightarrow> uint64 \<Rightarrow> nat \<Rightarrow> uint64 set" where
  "written s r dstva n = {pa. \<exists>i < n. user_pa s r (dstva + of_nat i) = Some pa}"

definition copied_out :: "'z kmem_scheme \<Rightarrow> uint64 \<Rightarrow> uint64 \<Rightarrow> uint64 \<Rightarrow> nat \<Rightarrow> memory \<Rightarrow> bool" where
  "copied_out s r dstva src n m \<longleftrightarrow>
     (\<forall>i < n. m (the (user_pa s r (dstva + of_nat i))) = mem s (src + of_nat i)) \<and>
     (\<forall>x. x \<notin> written s r dstva n \<longrightarrow> m x = mem s x)"

lemma copyout_okD:
  assumes "copyout_ok R r dstva src n s"
  shows "r \<in> R" "unat src + n < 2 ^ 64" "\<And>va. walkaddr r va s < PHYSTOP"
    "\<And>i pa. i < n \<Longrightarrow> user_pa s r (dstva + of_nat i) = Some pa \<Longrightarrow> pa \<notin> pages (tables (mem s) R)"
    "\<And>i pa. i < n \<Longrightarrow> user_pa s r (dstva + of_nat i) = Some pa \<Longrightarrow> n \<le> unat (pa - src)"
    "\<And>i j pa. i < n \<Longrightarrow> j < n \<Longrightarrow> user_pa s r (dstva + of_nat i) = Some pa \<Longrightarrow>
       user_pa s r (dstva + of_nat j) = Some pa \<Longrightarrow> i = j"
  using assms unfolding copyout_ok_def by blast+

lemma written_add: "written s r va (n + k) = written s r va n \<union> written s r (va + of_nat n) k"
proof -
  have "(\<exists>i < n + k. P i) \<longleftrightarrow> (\<exists>i < n. P i) \<or> (\<exists>i < k. P (n + i))" for P :: "nat \<Rightarrow> bool"
    by (metis add_less_cancel_left le_add_diff_inverse linorder_not_le trans_less_add1)
  then show ?thesis unfolding written_def by (auto simp: algebra_simps)
qed

lemma copyout_step:
  assumes ok: "copyout_ok R r dstva src (unat len) s" and len: "0 < len"
    and p0: "walkaddr r (PGROUNDDOWN dstva) s \<noteq> 0"
  defines "n \<equiv> page_chunk dstva len"
  defines "s1 \<equiv> s\<lparr>mem := memmove (mem s) (walkaddr r (PGROUNDDOWN dstva) s + (dstva - PGROUNDDOWN dstva)) src (ucast n)\<rparr>"
  shows "copied_out s r dstva src (unat n) (mem s1)" "user_range s r dstva (unat n)"
    "\<And>va. user_pa s1 r va = user_pa s r va" "copyout_ok R r (dstva + n) (src + n) (unat len - unat n) s1"
proof -
  note okD = copyout_okD [OF ok]
  note cb = chunk_bounds [OF len, of dstva, folded n_def]
  let ?dst = "walkaddr r (PGROUNDDOWN dstva) s + (dstva - PGROUNDDOWN dstva)"
  have dst: "unat ?dst + unat n < 2 ^ 64" by (rule frame_plus_offset [OF okD(3) cb(2)])
  have pa: "user_pa s r (dstva + of_nat i) = Some (?dst + of_nat i)" if "i < unat n" for i
    using that p0 by (intro user_pa_chunk) (simp_all add: n_def)
  have "mem s1 = moved (mem s) ?dst src (unat n)"
    using chunk_memmove [OF cb(2), of src ?dst "mem s"] okD(2) dst cb(3) by (simp add: s1_def)
  moreover have wr: "x \<in> written s r dstva (unat n) \<longleftrightarrow> unat (x - ?dst) < unat n" for x
    using pa unat_diff_less_iff [of "unat n" x ?dst] cb(2) by (fastforce simp: written_def)
  ultimately show co: "copied_out s r dstva src (unat n) (mem s1)"
    using pa by (auto simp: copied_out_def moved_def unat_of_nat)
  show "user_range s r dstva (unat n)" using pa by (simp add: user_range_def)
  have out: "mem s1 x = mem s x" if "x \<in> pages (tables (mem s) R)" for x
  proof -
    have "x \<notin> written s r dstva (unat n)"
    proof
      assume "x \<in> written s r dstva (unat n)"
      then obtain i where "i < unat n" "user_pa s r (dstva + of_nat i) = Some x" by (auto simp: written_def)
      with okD(4) [of i x] cb(3) that show False by simp
    qed
    then show ?thesis using co by (simp add: copied_out_def)
  qed
  show up: "user_pa s1 r va = user_pa s r va" for va by (rule user_pa_outside [OF out okD(1)])
  have tb: "tables (mem s1) R = tables (mem s) R" by (rule tables_cong) (rule table_outside [OF out])
  have wa: "walkaddr r va s1 = walkaddr r va s" for va by (rule walkaddr_outside [OF out okD(1)])
  have shift: "dstva + n + of_nat i = dstva + of_nat (unat n + i)" for i by simp
  have un: "unat (src + n) = unat src + unat n"
    using okD(2) cb(3) unat_plus_if_size [of src n] by (simp add: word_size)
  have far: "unat len - unat n \<le> unat (x - (src + n))" if "unat len \<le> unat (x - src)" for x
    using offset_split(3) [of "unat n" "unat len - unat n" x src] that cb unat_lt2p [of len] by simp
  show "copyout_ok R r (dstva + n) (src + n) (unat len - unat n) s1"
    unfolding copyout_ok_def tb wa up shift
  proof (intro conjI allI impI)
    show "unat (src + n) + (unat len - unat n) < 2 ^ 64" using okD(2) un cb(3) by simp
  next
    fix i pa
    assume i: "i < unat len - unat n" "user_pa s r (dstva + of_nat (unat n + i)) = Some pa"
    then show "pa \<notin> pages (tables (mem s) R)" using okD(4) [of "unat n + i" pa] by auto
    show "unat len - unat n \<le> unat (pa - (src + n))" using i okD(5) [of "unat n + i" pa] by (intro far) auto
  next
    fix i j pa
    assume "i < unat len - unat n" "j < unat len - unat n"
      "user_pa s r (dstva + of_nat (unat n + i)) = Some pa" "user_pa s r (dstva + of_nat (unat n + j)) = Some pa"
    then show "i = j" using okD(6) [of "unat n + i" "unat n + j" pa] by simp
  qed (use okD in auto)
qed

lemma copied_out_add:
  assumes c1: "copied_out s r dstva src n (mem s1)" and same: "\<And>va. user_pa s1 r va = user_pa s r va"
    and c2: "copied_out s1 r (dstva + of_nat n) (src + of_nat n) k m"
    and ok: "copyout_ok R r dstva src (n + k) s" and rg: "user_range s r dstva (n + k)"
  shows "copied_out s r dstva src (n + k) m"
proof -
  note okD = copyout_okD [OF ok]
  have shift: "dstva + of_nat n + of_nat i = dstva + of_nat (n + i)" "src + of_nat n + of_nat i = src + of_nat (n + i)" for i
    by simp_all
  have some: "\<exists>pa. user_pa s r (dstva + of_nat i) = Some pa" if "i < n + k" for i
    using rg that by (auto simp: user_range_def)
  have w1: "written s1 r va l = written s r va l" for va l by (simp add: written_def same)
  have src: "mem s1 (src + of_nat i) = mem s (src + of_nat i)" if i: "i < n + k" for i
  proof -
    have "src + of_nat i \<notin> written s r dstva n"
    proof
      assume "src + of_nat i \<in> written s r dstva n"
      then obtain j where j: "j < n" "user_pa s r (dstva + of_nat j) = Some (src + of_nat i)"
        by (auto simp: written_def)
      have "n + k \<le> unat (of_nat i :: uint64)" using okD(5) [OF _ j(2)] j(1) by simp
      then show False using i okD(2) by (simp add: unat_of_nat_small)
    qed
    then show ?thesis using c1 by (simp add: copied_out_def)
  qed
  have "m (the (user_pa s r (dstva + of_nat i))) = mem s (src + of_nat i)" if i: "i < n + k" for i
  proof (cases "i < n")
    case True
    obtain pa where pa: "user_pa s r (dstva + of_nat i) = Some pa" using some [OF i] by blast
    have "pa \<notin> written s r (dstva + of_nat n) k"
    proof
      assume "pa \<in> written s r (dstva + of_nat n) k"
      then obtain j where "j < k" "user_pa s r (dstva + of_nat (n + j)) = Some pa"
        by (auto simp: written_def shift)
      then show False using okD(6) [of i "n + j" pa] i pa True by simp
    qed
    moreover have "mem s1 (the (user_pa s r (dstva + of_nat i))) = mem s (src + of_nat i)"
      using c1 True unfolding copied_out_def by blast
    ultimately show ?thesis using c2 pa by (simp add: copied_out_def w1)
  next
    case False
    then have "m (the (user_pa s r (dstva + of_nat i))) = mem s1 (src + of_nat i)"
      using c2 i shift [of "i - n"] by (auto simp: copied_out_def same dest!: spec [of _ "i - n"])
    then show ?thesis using src [OF i] by simp
  qed
  moreover have "m x = mem s x" if "x \<notin> written s r dstva (n + k)" for x
    using that c1 c2 by (simp add: written_add copied_out_def w1)
  ultimately show ?thesis by (simp add: copied_out_def)
qed

lemma copyout_spec:
  assumes "copyout_ok R r dstva src (unat len) s"
  shows "if user_range s r dstva (unat len)
    then \<exists>m. copyout r dstva src len s = (0, s\<lparr>mem := m\<rparr>) \<and> copied_out s r dstva src (unat len) m
    else \<exists>m. copyout r dstva src len s = (-1, s\<lparr>mem := m\<rparr>) \<and> (\<forall>x. x \<notin> written s r dstva (unat len) \<longrightarrow> m x = mem s x)"
  using assms
proof (induction r dstva src len s rule: copyout.induct)
  case (1 r dstva src len s)
  show ?case
  proof (cases "0 < len")
    case False
    then have "len = 0" by (simp add: word_gt_0)
    then have "copyout r dstva src len s = (0, s\<lparr>mem := mem s\<rparr>)" by (simp add: copyout.simps [of r dstva src])
    then show ?thesis using \<open>len = 0\<close> by (auto simp: user_range_def copied_out_def intro!: exI [of _ "mem s"])
  next
    case True
    let ?n = "page_chunk dstva len"
    let ?pa0 = "walkaddr r (PGROUNDDOWN dstva) s"
    show ?thesis
    proof (cases "?pa0 = 0")
      case p0: True
      then have "user_pa s r (dstva + of_nat 0) = None" by (simp add: user_pa_def)
      moreover have "0 < unat len" using True by (simp add: unat_gt_0)
      ultimately have "\<not> user_range s r dstva (unat len)" unfolding user_range_def by blast
      moreover have "copyout r dstva src len s = (-1, s\<lparr>mem := mem s\<rparr>)"
        using True p0 by (simp add: copyout.simps [of r dstva src])
      ultimately show ?thesis by (auto intro!: exI [of _ "mem s"])
    next
      case p0: False
      define s1 where "s1 = s\<lparr>mem := memmove (mem s) (?pa0 + (dstva - PGROUNDDOWN dstva)) src (ucast ?n)\<rparr>"
      note st = copyout_step [OF 1(2) True p0, folded s1_def]
      note cb = chunk_bounds [OF True, of dstva]
      have k: "unat ?n + (unat len - unat ?n) = unat len" using cb(3) by simp
      have rg: "user_range s r dstva (unat len) \<longleftrightarrow> user_range s1 r (dstva + ?n) (unat len - unat ?n)"
        using user_range_add [of s r dstva "unat ?n" "unat len - unat ?n"] st(2,3) k by (simp add: user_range_def)
      have run: "copyout r dstva src len s = copyout r (dstva + ?n) (src + ?n) (len - ?n) s1"
        using True p0 next_page [of dstva len]
        by (cases "?n = len") (simp_all add: copyout.simps [of r dstva src] copyout.simps [of r _ _ 0] s1_def Let_def)
      have ih: "if user_range s1 r (dstva + ?n) (unat len - unat ?n)
        then \<exists>m. copyout r (dstva + ?n) (src + ?n) (len - ?n) s1 = (0, s1\<lparr>mem := m\<rparr>) \<and>
          copied_out s1 r (dstva + ?n) (src + ?n) (unat len - unat ?n) m
        else \<exists>m. copyout r (dstva + ?n) (src + ?n) (len - ?n) s1 = (-1, s1\<lparr>mem := m\<rparr>) \<and>
          (\<forall>x. x \<notin> written s1 r (dstva + ?n) (unat len - unat ?n) \<longrightarrow> m x = mem s1 x)"
      proof (cases "?n = len")
        case True
        then show ?thesis
          by (auto simp: copyout.simps [of r _ _ 0] user_range_def copied_out_def intro!: exI [of _ "mem s1"])
      next
        case False
        show ?thesis
          unfolding next_page [OF False, symmetric] cb(4) [symmetric]
          by (rule 1(1) [OF True refl refl p0 refl s1_def])
            (use st(4) cb(4) next_page [OF False] in simp)
      qed
      have w1: "written s1 r va l = written s r va l" for va l by (simp add: written_def st(3))
      have "copied_out s r dstva src (unat len) m"
        if "copied_out s1 r (dstva + ?n) (src + ?n) (unat len - unat ?n) m" "user_range s r dstva (unat len)" for m
        using copied_out_add [of s r dstva src "unat ?n" s1 "unat len - unat ?n" m R] that st(1,3) 1(2) k by simp
      moreover have "m x = mem s x"
        if "\<forall>x. x \<notin> written s1 r (dstva + ?n) (unat len - unat ?n) \<longrightarrow> m x = mem s1 x" "x \<notin> written s r dstva (unat len)" for m x
        using that written_add [of s r dstva "unat ?n" "unat len - unat ?n"] st(1) k
        by (simp add: copied_out_def w1)
      ultimately show ?thesis
        using ih rg unfolding run by (auto simp: s1_def split: if_splits)
    qed
  qed
qed

lemma copyout_keeps:
  assumes "copyout_ok R r dstva src (unat len) s" "copyout r dstva src len s = (c, s')"
  shows "walkaddr r va s' = walkaddr r va s" "user_pa s' r va = user_pa s r va" "tables (mem s') R = tables (mem s) R"
proof -
  have out: "mem s' x = mem s x" if x: "x \<in> pages (tables (mem s) R)" for x
  proof -
    have "x \<notin> written s r dstva (unat len)"
      using copyout_okD(4) [OF assms(1), of _ x] x unfolding written_def by blast
    then show ?thesis
      using copyout_spec [OF assms(1)] assms(2) by (auto simp: copied_out_def split: if_splits)
  qed
  show "walkaddr r va s' = walkaddr r va s" by (rule walkaddr_outside [OF out copyout_okD(1) [OF assms(1)]])
  show "user_pa s' r va = user_pa s r va" by (rule user_pa_outside [OF out copyout_okD(1) [OF assms(1)]])
  show "tables (mem s') R = tables (mem s) R" by (rule tables_cong) (rule table_outside [OF out])
qed

section \<open>An example address space\<close>

text \<open>One user page at virtual address 0, backed by the frame \<open>0x80203000\<close>.\<close>

definition vm_example :: kmem where
  "vm_example = \<lparr>mem =
      store64 (store64 (store64 (\<lambda>_. 0)
        (pte_at 0x80200000 0) (PA2PTE 0x80201000 OR PTE_V))
        (pte_at 0x80201000 0) (PA2PTE 0x80202000 OR PTE_V))
        (pte_at 0x80202000 0) (PA2PTE 0x80203000 OR (PTE_R OR PTE_W OR PTE_U) OR PTE_V),
    freelist = 0x80100000\<rparr>"

lemma load64_zero: "load64 (\<lambda>_. 0) a = 0"
  by (rule load_zero) simp

lemma vm_example_load:
  assumes "unat i < 512"
  shows "load64 (mem vm_example) (pte_at 0x80200000 i) = (if i = 0 then PA2PTE 0x80201000 OR PTE_V else 0)"
    "load64 (mem vm_example) (pte_at 0x80201000 i) = (if i = 0 then PA2PTE 0x80202000 OR PTE_V else 0)"
    "load64 (mem vm_example) (pte_at 0x80202000 i) =
      (if i = 0 then PA2PTE 0x80203000 OR (PTE_R OR PTE_W OR PTE_U) OR PTE_V else 0)"
  using assms by (simp_all add: vm_example_def load_store_pte aligned_def take_bit_eq_mod load64_zero)

lemma vm_example_table:
  assumes "valid_path p"
  shows "table (mem vm_example) 0x80200000 p = (if p = [] then Some 0x80200000 else if p = [0] then Some 0x80201000
    else if p = [0, 0] then Some 0x80202000 else None)"
proof -
  have al: "aligned 12 (0x80201000 :: uint64)" "aligned 12 (0x80202000 :: uint64)"
    by (simp_all add: aligned_def take_bit_eq_mod)
  have one: "table (mem vm_example) 0x80200000 [i] = (if i = 0 then Some 0x80201000 else None)" if "unat i < 512" for i
    using that by (simp add: table_Cons vm_example_load PA2PTE_valid PTE2PA_table al)
  have two: "table (mem vm_example) 0x80200000 [j, i] = (if i = 0 \<and> j = 0 then Some 0x80202000 else None)"
    if "unat i < 512" "unat j < 512" for i j
    using that one [of i] by (simp add: table_Cons [of _ _ j] vm_example_load PA2PTE_valid PTE2PA_table al)
  consider "p = []" | i where "p = [i]" "unat i < 512" | i j where "p = [j, i]" "unat i < 512" "unat j < 512"
    using assms by (cases p rule: remdups_adj.cases) (auto simp: valid_path_def)
  then show ?thesis using one two by cases auto
qed

lemma vm_example_tables: "tables (mem vm_example) {0x80200000} = {0x80200000, 0x80201000, 0x80202000}"
proof -
  have "valid_path [0]" "valid_path [0, 0]" by (simp_all add: valid_path_def)
  then show ?thesis
    unfolding tables_def using vm_example_table
    by (auto split: if_splits) (metis list.discI list.inject not_Cons_self2 valid_path_simps(1))+
qed

lemma vm_example_inv: "vm_inv 0x80024000 {0x80100000} {0x80200000} vm_example"
proof -
  have "load64 (mem vm_example) 0x80100000 = 0"
    using load_store_pte [of _ "0x80100000" 0 0]
    by (simp add: vm_example_def load_store_pte load64_zero pte_at_def aligned_def take_bit_eq_mod load64_store64_other)
  then have "kmem_inv 0x80024000 [0x80100000] vm_example"
    by (simp add: kmem_inv_def vm_example_def valid_page_def PHYSTOP_eq aligned_def take_bit_eq_mod)
  then have "kmem_free 0x80024000 {0x80100000} vm_example" unfolding kmem_free_def by fastforce
  moreover have "tables_inj (mem vm_example) {0x80200000}"
    by (auto simp: tables_inj_def vm_example_table split: if_splits)
  ultimately show ?thesis
    by (auto simp: vm_inv_def vm_example_tables valid_page_def PHYSTOP_eq aligned_def take_bit_eq_mod)
qed

lemma vm_example_walkaddr:
  "walkaddr 0x80200000 va vm_example =
     (if va < MAXVA \<and> PX 0 va = 0 \<and> PX 1 va = 0 \<and> PX 2 va = 0 then 0x80203000 else 0)"
proof -
  let ?e = "PA2PTE 0x80203000 OR (PTE_R OR PTE_W OR PTE_U) OR PTE_V"
  have e: "?e AND PTE_V \<noteq> 0" "?e AND PTE_U \<noteq> 0" "PTE2PA ?e = 0x80203000"
    by (simp_all add: PA2PTE_def PTE_V_def PTE_R_def PTE_W_def PTE_U_def PTE2PA_def push_bit_eq_mult drop_bit_eq_div)
  have "table (mem vm_example) 0x80200000 [PX 1 va, PX 2 va] =
      (if PX 1 va = 0 \<and> PX 2 va = 0 then Some 0x80202000 else None)"
    by (subst vm_example_table) auto
  moreover have "pte_at 0x80202000 (PX 0 va) \<noteq> 0"
    by (rule pte_at_nonzero [of "0x80024000"]) (simp_all add: valid_page_def aligned_def take_bit_eq_mod PHYSTOP_eq unat_PX_less)
  ultimately show ?thesis
    using e vm_example_load(3) [OF unat_PX_less, of 0 va] by (auto simp: walkaddr_table Let_def)
qed

lemma vm_example_user_pa:
  assumes "i < 4096"
  shows "user_pa vm_example 0x80200000 (of_nat i) = Some (0x80203000 + of_nat i)"
proof -
  have u: "unat (of_nat i :: uint64) = i" using assms by (intro unat_of_nat_small) simp
  then have "PGROUNDDOWN (of_nat i) = 0" using assms by (simp add: word_unat_eq_iff unat_PGROUNDDOWN)
  moreover have "PX l 0 = 0" for l by (simp add: word_unat_eq_iff unat_PX)
  ultimately show ?thesis by (simp add: user_pa_def vm_example_walkaddr MAXVA_eq)
qed

lemma vm_example_pte_of:
  "pte_of (mem vm_example) 0x80200000 va = (if PX 0 va = 0 \<and> PX 1 va = 0 \<and> PX 2 va = 0
     then PA2PTE 0x80203000 OR (PTE_R OR PTE_W OR PTE_U) OR PTE_V else 0)"
proof -
  have "table (mem vm_example) 0x80200000 [PX 1 va, PX 2 va] =
      (if PX 1 va = 0 \<and> PX 2 va = 0 then Some 0x80202000 else None)"
    by (subst vm_example_table) auto
  then show ?thesis using vm_example_load(3) [OF unat_PX_less, of 0 va] by (auto simp: pte_of_def)
qed

section \<open>Properties\<close>

text \<open>
  C7. \<^verbatim>\<open>mappages\<close> on unmapped pages below \<^verbatim>\<open>MAXVA\<close> never panics. If it returns 0, exactly
  the pages of the range are mapped, in order, to consecutive frames with the given
  permissions, and no other translation of any address space changed; if it returns -1, memory
  is exhausted. Tables of different address spaces stay disjoint and nothing outside tables and
  free pages is written.
\<close>

theorem mappages_maps_range:
  assumes "vm_inv kend F R s" "r \<in> R" "0 < sz" "PGROUNDDOWN va \<le> PGROUNDDOWN (va + sz - 1)"
    and "PGROUNDDOWN (va + sz - 1) < MAXVA"
    and "\<forall>v. aligned 12 v \<longrightarrow> PGROUNDDOWN va \<le> v \<longrightarrow> v \<le> PGROUNDDOWN (va + sz - 1) \<longrightarrow> pte_of (mem s) r v AND PTE_V = 0"
  shows "okR (\<lambda>(c, s'). \<exists>F'. maps_range kend R F s r (PGROUNDDOWN va) (PGROUNDDOWN (va + sz - 1)) pa perm c F' s')
    (mappages r va sz pa perm s)"
  using mappages_loop_spec [OF assms(1,2) _ _ assms(4,5)] assms(3,6) by (auto simp: mappages_def)

theorem mappages_maps_range_witness:
  "okR (\<lambda>(c, s'). \<exists>F'. maps_range 0x80024000 {0x80200000} {0x80100000} vm_example 0x80200000 0x1000 0x1000 0x80204000 2 c F' s')
    (mappages 0x80200000 0x1000 0x1000 0x80204000 2 vm_example)"
proof -
  have r: "PGROUNDDOWN 0x1000 = 0x1000" "PGROUNDDOWN (0x1000 + 0x1000 - 1) = 0x1000"
    by (simp_all add: word_unat_eq_iff unat_PGROUNDDOWN)
  have "PX 0 v \<noteq> 0" if "v = 0x1000" for v
    using that by (simp add: word_unat_eq_iff unat_PX)
  then have "\<forall>v. aligned 12 v \<longrightarrow> 0x1000 \<le> v \<longrightarrow> v \<le> 0x1000 \<longrightarrow> pte_of (mem vm_example) 0x80200000 v AND PTE_V = 0"
    by (auto simp: vm_example_pte_of)
  then show ?thesis
    using mappages_maps_range [OF vm_example_inv, of "0x80200000" "0x1000" "0x1000" "0x80204000" 2]
    unfolding r by (simp add: MAXVA_eq)
qed




lemma vm_example_copyout_ok: "copyout_ok {0x80200000} 0x80200000 0 0x80300000 8 vm_example"
proof -
  have pa: "user_pa vm_example 0x80200000 (of_nat i) = Some (0x80203000 + of_nat i)" "unat (of_nat i :: uint64) = i"
    if "i < 8" for i
    using vm_example_user_pa [of i] that by (simp_all add: unat_of_nat)
  have "0x80203000 + of_nat i \<notin> pages {0x80200000, 0x80201000, 0x80202000 :: uint64}" if "i < 8" for i
  proof -
    have n: "0x80203000 + of_nat i \<notin> page q" if "aligned 12 q" "q \<noteq> 0x80203000" for q :: uint64
      using page_offset_apart [of "0x80203000" q i] that \<open>i < 8\<close> by (simp add: aligned_def take_bit_eq_mod)
    show ?thesis
      using n [of "0x80200000"] n [of "0x80201000"] n [of "0x80202000"] by (simp add: aligned_def take_bit_eq_mod)
  qed
  moreover have "8 \<le> unat (0x80203000 + of_nat i - 0x80300000 :: uint64)" if "i < 8" for i
    using page_offset_apart [of "0x80203000" "0x80300000" i] that by (simp add: aligned_def take_bit_eq_mod)
  ultimately show ?thesis
    using pa word_add_of_nat_inj [where 'a = 64]
    by (auto simp: copyout_ok_def vm_example_walkaddr vm_example_tables PHYSTOP_eq)
qed


text \<open>
  C10. What \<^verbatim>\<open>copyout\<close> wrote at a user address, \<^verbatim>\<open>copyin\<close> reads back: the bytes arrive in
  the second kernel buffer unchanged, whatever page boundaries the range crosses.
\<close>

theorem copy_roundtrip:
  assumes "copyout_ok R r va src (unat len) s" "copyout r va src len s = (0, s1)"
    and "copyin_ok R r dst va (unat len) s1" "copyin r dst va len s1 = (c, s2)"
  shows "c = 0 \<and> bytes_at (mem s2) dst (unat len) = bytes_at (mem s) src (unat len)"
proof -
  have rg: "user_range s r va (unat len)" and co: "copied_out s r va src (unat len) (mem s1)"
    using copyout_spec [OF assms(1)] assms(2) by (auto split: if_splits)
  have pa: "user_pa s1 r v = user_pa s r v" for v by (rule copyout_keeps(2) [OF assms(1,2)])
  then have "user_range s1 r va (unat len)" using rg by (simp add: user_range_def)
  then have "c = 0" and s2: "mem s2 = copied_in s1 r dst va (unat len)"
    using copyin_spec [OF assms(3)] assms(4) by auto
  moreover have "mem s2 (dst + of_nat i) = mem s (src + of_nat i)" if "i < unat len" for i
  proof -
    have "unat (of_nat i :: uint64) = i" using that unat_lt2p [of len] by (intro unat_of_nat_small) simp
    then show ?thesis using that co by (simp add: s2 copied_in_def copied_out_def pa)
  qed
  ultimately show ?thesis by (simp add: bytes_at_def)
qed

theorem copy_roundtrip_witness:
  "\<exists>s1 s2. copyout 0x80200000 0 0x80300000 8 vm_example = (0, s1) \<and>
     copyin 0x80200000 0x80301000 0 8 s1 = (0, s2) \<and>
     bytes_at (mem s2) 0x80301000 8 = bytes_at (mem vm_example) 0x80300000 8"
proof -
  have ok: "copyout_ok {0x80200000} 0x80200000 0 0x80300000 (unat (8 :: uint64)) vm_example"
    using vm_example_copyout_ok by simp
  have "user_range vm_example 0x80200000 0 8" using vm_example_user_pa by (simp add: user_range_def)
  then obtain s1 where s1: "copyout 0x80200000 0 0x80300000 8 vm_example = (0, s1)"
    using copyout_spec [OF ok] by auto
  note keep = copyout_keeps [OF ok s1]
  have apart: "4096 \<le> unat (p + of_nat i - 0x80301000)" if "aligned 12 p" "p \<noteq> 0x80301000" "i < 4096" for p :: uint64 and i
    using page_offset_apart [of p "0x80301000" i] that by (simp add: aligned_def take_bit_eq_mod)
  have far: "8 \<le> unat (x - 0x80301000)" if x: "x \<in> page q" "aligned 12 q" "q \<noteq> 0x80301000" for x q :: uint64
    using apart [of q "unat (x - q)"] x by simp
  have "\<forall>x \<in> pages {0x80200000, 0x80201000, 0x80202000}. 8 \<le> unat (x - 0x80301000)"
    using far [of _ "0x80200000"] far [of _ "0x80201000"] far [of _ "0x80202000"]
    by (auto simp: aligned_def take_bit_eq_mod)
  moreover have "8 \<le> unat (0x80203000 + of_nat i - 0x80301000 :: uint64)" if "i < 8" for i
    using apart [of "0x80203000" i] that by (simp add: aligned_def take_bit_eq_mod)
  ultimately have "copyin_ok {0x80200000} 0x80200000 0x80301000 0 (unat (8 :: uint64)) s1"
    unfolding copyin_ok_def keep vm_example_tables
    using vm_example_user_pa by (simp add: vm_example_walkaddr PHYSTOP_eq)
  moreover obtain c s2 where "copyin 0x80200000 0x80301000 0 8 s1 = (c, s2)" by force
  ultimately show ?thesis using copy_roundtrip [OF ok s1] s1 by auto
qed

end
