(* ===== verification/Ring.thy ===== *)
theory Ring
  imports Prelude
begin

text \<open>
  Ring buffers. The pipe, the UART transmit buffer and the console input buffer are arrays
  whose read and write counters run freely and are reduced modulo the array size only when the
  array is indexed; the counters wrap at the width of their C type. \<open>ring_list\<close> is the queue
  such a buffer represents, and the lemmas show that it stays right across the wrap because
  the size divides the range of the counters. \<open>bounded_fifo\<close> is the contract of such a queue
  with its test for full and empty, and \<open>fifo_exec\<close> a run of puts and takes in any order.
\<close>

definition ring_idx :: "nat \<Rightarrow> 'w::len word \<Rightarrow> nat" where
  "ring_idx n i = unat i mod n"

definition ring_list :: "nat \<Rightarrow> 'a list \<Rightarrow> 'w::len word \<Rightarrow> 'w word \<Rightarrow> 'a list" where
  "ring_list n d r w = map (\<lambda>i. d ! ring_idx n (r + of_nat i)) [0..<unat (w - r)]"

lemma length_ring_list [simp]: "length (ring_list n d r w) = unat (w - r)"
  by (simp add: ring_list_def)

lemma ring_list_empty [simp]: "ring_list n d r r = []"
  by (simp add: ring_list_def)

lemma ring_list_Nil: "ring_list n d r w = [] \<longleftrightarrow> w = r"
  by (simp add: ring_list_def unat_eq_zero)

lemma ring_idx_less: "0 < n \<Longrightarrow> ring_idx n i < n"
  by (simp add: ring_idx_def)

lemma ring_idx_add:
  assumes "n dvd 2 ^ LENGTH('w::len)"
  shows "ring_idx n (r + of_nat i :: 'w word) = (unat r + i) mod n"
proof -
  have "r + of_nat i = (of_nat (unat r + i) :: 'w word)" by simp
  then have "unat (r + of_nat i :: 'w word) = (unat r + i) mod 2 ^ LENGTH('w)"
    by (simp only: unat_of_nat take_bit_eq_mod)
  then show ?thesis using assms by (simp add: ring_idx_def mod_mod_cancel)
qed

lemma ring_put:
  fixes r w :: "'w::len word"
  assumes "n dvd 2 ^ LENGTH('w)" "unat (w - r) < n" "length d = n" "n < 2 ^ LENGTH('w)"
  shows "ring_list n (d[ring_idx n w := x]) r (w + 1) = ring_list n d r w @ [x]"
proof -
  let ?k = "unat (w - r)"
  have w: "ring_idx n w = (unat r + ?k) mod n"
    using ring_idx_add [OF assms(1), of r ?k] by simp
  have k: "unat (w + 1 - r) = Suc ?k"
  proof -
    have "w + 1 - r = of_nat (Suc ?k)" by simp
    then show ?thesis using assms(2,4) by (simp only: unat_of_nat_small)
  qed
  have neq: "ring_idx n w \<noteq> ring_idx n (r + of_nat i)" if i: "i < ?k" for i
  proof
    assume "ring_idx n w = ring_idx n (r + of_nat i)"
    then have "(unat r + i) mod n = (unat r + ?k) mod n" by (simp add: w ring_idx_add [OF assms(1)])
    then have "n dvd (unat r + ?k) - (unat r + i)" using i by (metis mod_eq_dvd_iff_nat add_le_cancel_left less_imp_le)
    then have "n dvd ?k - i" by simp
    then show False using i assms(2) by (auto dest: dvd_imp_le)
  qed
  have "ring_idx n w < n" using assms(2) by (intro ring_idx_less) simp
  then show ?thesis
    using neq assms(3) by (simp add: ring_list_def k)
qed

lemma ring_take:
  assumes "w \<noteq> r"
  shows "ring_list n d r w = d ! ring_idx n r # ring_list n d (r + 1) w"
proof -
  have k: "unat (w - r) = Suc (unat (w - (r + 1)))" by (rule unat_sub_Suc [OF assms])
  have "ring_list n d r w = map (\<lambda>i. d ! ring_idx n (r + of_nat i)) (0 # map Suc [0..<unat (w - (r + 1))])"
    by (simp only: ring_list_def k upt_conv_Cons map_Suc_upt zero_less_Suc)
  then show ?thesis by (simp add: ring_list_def algebra_simps)
qed

lemma ring_unput:
  assumes "w \<noteq> r"
  shows "ring_list n d r w = ring_list n d r (w - 1) @ [d ! ring_idx n (w - 1)]"
proof -
  have "unat (w - r) = Suc (unat (w - r - 1))"
    using unat_minus_one [of "w - r"] assms by (simp add: unat_gt_0)
  moreover have "w - r - 1 = w - 1 - r" by simp
  ultimately have k: "unat (w - r) = Suc (unat (w - 1 - r))" by simp
  show ?thesis by (simp add: ring_list_def k)
qed

lemma ring_full:
  fixes r w :: "'w::len word"
  assumes "n < 2 ^ LENGTH('w)"
  shows "w = r + of_nat n \<longleftrightarrow> unat (w - r) = n"
  by (rule word_offset_iff [OF assms])

lemma ring_append:
  fixes r w e :: "'w::len word"
  assumes "unat (w - r) + unat (e - w) < 2 ^ LENGTH('w)"
  shows "ring_list n d r e = ring_list n d r w @ ring_list n d w e"
proof -
  let ?a = "unat (w - r)" and ?b = "unat (e - w)"
  have "e - r = of_nat (?a + ?b)" by simp
  then have k: "unat (e - r) = ?a + ?b" using assms by (simp only: unat_of_nat_small)
  have shift: "r + of_nat (?a + i) = w + of_nat i" for i by simp
  have "map (\<lambda>i. d ! ring_idx n (r + of_nat i)) [?a..<?a + ?b] = ring_list n d w e"
  proof (rule nth_equalityI)
    fix i assume "i < length (map (\<lambda>i. d ! ring_idx n (r + of_nat i)) [?a..<?a + ?b])"
    then have "i < ?b" by simp
    then show "map (\<lambda>i. d ! ring_idx n (r + of_nat i)) [?a..<?a + ?b] ! i = ring_list n d w e ! i"
      by (simp add: ring_list_def shift del: of_nat_add)
  qed simp
  then have "map (\<lambda>i. d ! ring_idx n (r + of_nat i)) [0..<?a + ?b] = ring_list n d r w @ ring_list n d w e"
    using upt_add_eq_append [of 0 ?a ?b] by (simp add: ring_list_def)
  then show ?thesis by (simp only: ring_list_def k)
qed

section \<open>The contract\<close>

text \<open>A run of attempts: \<open>Some x\<close> puts \<open>x\<close> unless the queue is full, \<open>None\<close> takes unless it is empty.\<close>

fun fifo_exec :: "('s \<Rightarrow> bool) \<Rightarrow> ('s \<Rightarrow> bool) \<Rightarrow> ('a \<Rightarrow> 's \<Rightarrow> 's) \<Rightarrow> ('s \<Rightarrow> 'a \<times> 's) \<Rightarrow>
    'a option list \<Rightarrow> 's \<Rightarrow> 'a list \<times> 'a list \<times> 's" where
  "fifo_exec isfull isempty enq deq [] s = ([], [], s)"
| "fifo_exec isfull isempty enq deq (Some x # ops) s =
     (if isfull s then fifo_exec isfull isempty enq deq ops s
      else case fifo_exec isfull isempty enq deq ops (enq x s) of (ins, outs, s) \<Rightarrow> (x # ins, outs, s))"
| "fifo_exec isfull isempty enq deq (None # ops) s =
     (if isempty s then fifo_exec isfull isempty enq deq ops s
      else case deq s of (y, s) \<Rightarrow>
        (case fifo_exec isfull isempty enq deq ops s of (ins, outs, s) \<Rightarrow> (ins, y # outs, s)))"

locale bounded_fifo =
  fixes cap :: nat
    and inv :: "'s \<Rightarrow> bool"
    and content :: "'s \<Rightarrow> 'a list"
    and isfull :: "'s \<Rightarrow> bool"
    and isempty :: "'s \<Rightarrow> bool"
    and enq :: "'a \<Rightarrow> 's \<Rightarrow> 's"
    and deq :: "'s \<Rightarrow> 'a \<times> 's"
  assumes full_iff: "inv s \<Longrightarrow> isfull s \<longleftrightarrow> length (content s) = cap"
    and bound: "inv s \<Longrightarrow> length (content s) \<le> cap"
    and empty_iff: "inv s \<Longrightarrow> isempty s \<longleftrightarrow> content s = []"
    and put_ok: "inv s \<Longrightarrow> \<not> isfull s \<Longrightarrow> inv (enq x s) \<and> content (enq x s) = content s @ [x]"
    and take_ok: "inv s \<Longrightarrow> \<not> isempty s \<Longrightarrow> deq s = (y, s') \<Longrightarrow> inv s' \<and> content s = y # content s'"
begin

lemma exec_fifo:
  "inv s \<Longrightarrow> fifo_exec isfull isempty enq deq ops s = (ins, outs, s') \<Longrightarrow>
     inv s' \<and> content s @ ins = outs @ content s'"
proof (induction ops arbitrary: s ins outs s')
  case Nil
  then show ?case by simp
next
  case (Cons op ops)
  show ?case
  proof (cases op)
    case (Some x)
    show ?thesis
    proof (cases "isfull s")
      case True
      then show ?thesis using Cons Some by simp
    next
      case False
      obtain ins1 outs1 s1 where run: "fifo_exec isfull isempty enq deq ops (enq x s) = (ins1, outs1, s1)"
        by (metis prod_cases3)
      then show ?thesis
        using Cons.IH [OF _ run] put_ok [OF Cons.prems(1) False, of x] Cons.prems(2) Some False by simp
    qed
  next
    case None
    show ?thesis
    proof (cases "isempty s")
      case True
      then show ?thesis using Cons None by simp
    next
      case False
      obtain y s0 where y: "deq s = (y, s0)" by force
      obtain ins1 outs1 s1 where run: "fifo_exec isfull isempty enq deq ops s0 = (ins1, outs1, s1)"
        by (metis prod_cases3)
      then show ?thesis
        using Cons.IH [OF _ run] take_ok [OF Cons.prems(1) False y] Cons.prems(2) None False y by auto
    qed
  qed
qed

end

end
