(* ===== verification/UserByte.thy ===== *)
theory UserByte
  imports VmCopy
begin

text \<open>
  Pipes and the console move data to and from user memory one byte at a time, through a local
  variable of the kernel at address \<open>chp\<close>. The lemmas specialise \<^verbatim>\<open>copyin\<close> and \<^verbatim>\<open>copyout\<close> to
  that use; \<open>user_bytes\<close> is a range of user memory as a list.
\<close>

section \<open>One byte at a time\<close>

text \<open>
  The kernel variable at \<open>chp\<close> is neither a page table nor reachable from user addresses.
\<close>

definition local_ok :: "uint64 set \<Rightarrow> uint64 \<Rightarrow> uint64 \<Rightarrow> 'z kmem_scheme \<Rightarrow> bool" where
  "local_ok R r chp s \<longleftrightarrow> r \<in> R \<and> chp \<notin> pages (tables (mem s) R) \<and> unat chp + 1 < 2 ^ 64 \<and>
     (\<forall>va. walkaddr r va s < PHYSTOP) \<and> (\<forall>va. user_pa s r va \<noteq> Some chp)"

lemma unat_sub_pos: "x \<noteq> a \<Longrightarrow> 1 \<le> unat (x - a)" for x a :: uint64
  using unat_sub_Suc [of x a] by simp

lemma copyin_byte:
  assumes "local_ok R r chp s"
  shows "copyin r chp va 1 s = (case user_pa s r va of
      None \<Rightarrow> (-1, s) | Some pa \<Rightarrow> (0, s\<lparr>mem := (mem s)(chp := mem s pa)\<rparr>))"
proof -
  have ok: "copyin_ok R r chp va (unat (1 :: uint64)) s"
    unfolding copyin_ok_def
  proof (intro conjI ballI allI impI)
    show "unat (1 :: uint64) \<le> unat (x - chp)" if "x \<in> pages (tables (mem s) R)" for x
      using that assms unat_sub_pos [of x chp] by (auto simp: local_ok_def)
    show "unat (1 :: uint64) \<le> unat (pa - chp)"
      if "i < unat (1 :: uint64)" "user_pa s r (va + of_nat i) = Some pa" for i pa
      using that assms unat_sub_pos [of pa chp] by (auto simp: local_ok_def)
  qed (use assms in \<open>auto simp: local_ok_def\<close>)
  have up: "unat (x - chp) < 1 \<longleftrightarrow> x = chp" for x by (simp add: unat_eq_zero)
  show ?thesis
  proof (cases "user_pa s r va")
    case None
    have "walkaddr r (PGROUNDDOWN va) s = 0" using None by (auto simp: user_pa_def Let_def split: if_splits)
    then have "copyin r chp va 1 s = (-1, s)" by (simp add: copyin.simps [of r chp va])
    then show ?thesis using None by simp
  next
    case (Some pa)
    then have "copyin r chp va 1 s = (0, s\<lparr>mem := copied_in s r chp va 1\<rparr>)"
      using copyin_spec [OF ok] by (simp add: user_range_def)
    moreover have "copied_in s r chp va 1 = (mem s)(chp := mem s pa)"
      unfolding copied_in_def up using Some by auto
    ultimately show ?thesis using Some by simp
  qed
qed

lemma local_ok_outside:
  assumes "local_ok R r chp s" "\<And>x. x \<in> pages (tables (mem s) R) \<Longrightarrow> mem s' x = mem s x"
  shows "local_ok R r chp s'" "user_pa s' r va = user_pa s r va" "tables (mem s') R = tables (mem s) R"
proof -
  have r: "r \<in> R" using assms(1) by (simp add: local_ok_def)
  have up: "user_pa s' r va = user_pa s r va" for va by (rule user_pa_outside [OF assms(2) r])
  then show "user_pa s' r va = user_pa s r va" .
  show tb: "tables (mem s') R = tables (mem s) R" by (rule tables_cong) (rule table_outside [OF assms(2)])
  have "walkaddr r va s' = walkaddr r va s" for va by (rule walkaddr_outside [OF assms(2) r])
  then show "local_ok R r chp s'" using assms(1) up tb by (simp add: local_ok_def)
qed

lemma local_ok_set_local:
  assumes "local_ok R r chp s"
  shows "local_ok R r chp (s\<lparr>mem := (mem s)(chp := c)\<rparr>)" "user_pa (s\<lparr>mem := (mem s)(chp := c)\<rparr>) r va = user_pa s r va"
    "tables ((mem s)(chp := c)) R = tables (mem s) R"
proof -
  let ?s' = "s\<lparr>mem := (mem s)(chp := c)\<rparr>"
  have out: "mem ?s' x = mem s x" if "x \<in> pages (tables (mem s) R)" for x
    using that assms by (auto simp: local_ok_def)
  show "local_ok R r chp ?s'" by (rule local_ok_outside(1) [OF assms out])
  show "user_pa ?s' r va = user_pa s r va" by (rule local_ok_outside(2) [OF assms out])
  show "tables ((mem s)(chp := c)) R = tables (mem s) R" using local_ok_outside(3) [OF assms out] by simp
qed

lemma copyout_byte:
  assumes "local_ok R r chp s" "\<And>pa. user_pa s r va = Some pa \<Longrightarrow> pa \<notin> pages (tables (mem s) R)"
  shows "copyout r va chp 1 s = (case user_pa s r va of
      None \<Rightarrow> (-1, s) | Some pa \<Rightarrow> (0, s\<lparr>mem := (mem s)(pa := mem s chp)\<rparr>))"
proof -
  have ok: "copyout_ok R r va chp (unat (1 :: uint64)) s"
    unfolding copyout_ok_def
  proof (intro conjI allI impI)
    show "unat (1 :: uint64) \<le> unat (pa - chp)"
      if "i < unat (1 :: uint64)" "user_pa s r (va + of_nat i) = Some pa" for i pa
      using that assms(1) unat_sub_pos [of pa chp] by (auto simp: local_ok_def)
  qed (use assms in \<open>auto simp: local_ok_def\<close>)
  show ?thesis
  proof (cases "user_pa s r va")
    case None
    then have "walkaddr r (PGROUNDDOWN va) s = 0" by (auto simp: user_pa_def Let_def split: if_splits)
    then show ?thesis using None by (simp add: copyout.simps [of r va])
  next
    case (Some pa)
    then obtain m where m: "copyout r va chp 1 s = (0, s\<lparr>mem := m\<rparr>)" "copied_out s r va chp 1 m"
      using copyout_spec [OF ok] by (auto simp: user_range_def)
    have "m = (mem s)(pa := mem s chp)"
      using m(2) Some by (auto simp: copied_out_def written_def fun_eq_iff)
    then show ?thesis using Some m(1) by simp
  qed
qed

section \<open>Ranges of user memory\<close>

definition user_bytes :: "'z kmem_scheme \<Rightarrow> uint64 \<Rightarrow> uint64 \<Rightarrow> nat \<Rightarrow> uchar list" where
  "user_bytes s r va k = map (\<lambda>j. mem s (the (user_pa s r (va + of_nat j)))) [0..<k]"

lemma user_bytes_0 [simp]: "user_bytes s r va 0 = []"
  by (simp add: user_bytes_def)

lemma user_bytes_Suc: "user_bytes s r va (Suc k) = mem s (the (user_pa s r va)) # user_bytes s r (va + 1) k"
proof -
  have "[0..<Suc k] = 0 # map Suc [0..<k]" by (simp add: map_Suc_upt upt_conv_Cons)
  then show ?thesis by (simp add: user_bytes_def algebra_simps)
qed

lemma user_bytes_set_local:
  assumes "local_ok R r chp s" "\<forall>j < k. user_pa s r (va + of_nat j) \<noteq> None"
  shows "user_bytes (s\<lparr>mem := (mem s)(chp := c)\<rparr>) r va k = user_bytes s r va k"
  using assms local_ok_set_local(2) [OF assms(1)] by (auto simp: user_bytes_def local_ok_def)

text \<open>The user buffer of a read: mapped, no page tables in it, different addresses different bytes.\<close>

definition dst_ok :: "uint64 set \<Rightarrow> uint64 \<Rightarrow> uint64 \<Rightarrow> uint64 \<Rightarrow> nat \<Rightarrow> 'z kmem_scheme \<Rightarrow> bool" where
  "dst_ok R r chp addr n s \<longleftrightarrow> local_ok R r chp s \<and> user_range s r addr n \<and>
     (\<forall>j < n. \<forall>pa. user_pa s r (addr + of_nat j) = Some pa \<longrightarrow> pa \<notin> pages (tables (mem s) R)) \<and>
     (\<forall>i < n. \<forall>j < n. user_pa s r (addr + of_nat i) = user_pa s r (addr + of_nat j) \<longrightarrow> i = j)"

lemma dst_ok_cong:
  assumes "dst_ok R r chp addr n s" "local_ok R r chp s'" "\<And>va. user_pa s' r va = user_pa s r va"
    "tables (mem s') R = tables (mem s) R"
  shows "dst_ok R r chp addr n s'"
  using assms by (simp add: dst_ok_def user_range_def)

text \<open>Part of the buffer may be unmapped.\<close>

definition dest_ok :: "uint64 set \<Rightarrow> uint64 \<Rightarrow> uint64 \<Rightarrow> uint64 \<Rightarrow> nat \<Rightarrow> 'z kmem_scheme \<Rightarrow> bool" where
  "dest_ok R r chp addr n s \<longleftrightarrow> local_ok R r chp s \<and>
     (\<forall>j < n. \<forall>pa. user_pa s r (addr + of_nat j) = Some pa \<longrightarrow> pa \<notin> pages (tables (mem s) R)) \<and>
     (\<forall>i < n. \<forall>j < n. user_pa s r (addr + of_nat i) = user_pa s r (addr + of_nat j) \<longrightarrow>
        user_pa s r (addr + of_nat i) \<noteq> None \<longrightarrow> i = j)"

lemma dst_ok_dest: "dst_ok R r chp addr n s \<longleftrightarrow> dest_ok R r chp addr n s \<and> user_range s r addr n"
  unfolding dst_ok_def dest_ok_def user_range_def by (rule iffI; elim conjE; intro conjI allI impI; blast)

definition mapped_prefix :: "'z kmem_scheme \<Rightarrow> uint64 \<Rightarrow> uint64 \<Rightarrow> nat \<Rightarrow> nat" where
  "mapped_prefix s r addr n = length (takeWhile (\<lambda>j. user_pa s r (addr + of_nat j) \<noteq> None) [0..<n])"

lemma mapped_prefix_le: "mapped_prefix s r addr n \<le> n"
  unfolding mapped_prefix_def using length_takeWhile_le [of _ "[0..<n]"] by simp

lemma mapped_prefix_eq:
  assumes "k < n" "\<forall>j < k. user_pa s r (addr + of_nat j) \<noteq> None" "user_pa s r (addr + of_nat k) = None"
  shows "mapped_prefix s r addr n = k"
  unfolding mapped_prefix_def using assms by (subst takeWhile_eq_take_P_nth [of k]) auto

lemma mapped_prefix_ge:
  assumes "k \<le> n" "\<forall>j < k. user_pa s r (addr + of_nat j) \<noteq> None"
  shows "k \<le> mapped_prefix s r addr n"
proof (rule ccontr)
  let ?P = "\<lambda>j. user_pa s r (addr + of_nat j) \<noteq> None"
  assume "\<not> ?thesis"
  then have "length (takeWhile ?P [0..<n]) < k" by (simp add: mapped_prefix_def)
  then show False using nth_length_takeWhile [of ?P "[0..<n]"] assms by simp
qed

lemma mapped_prefix_all: "user_range s r addr n \<Longrightarrow> mapped_prefix s r addr n = n"
  using mapped_prefix_ge [of n n s r addr] mapped_prefix_le [of s r addr n] by (auto simp: user_range_def)

lemma mapped_prefix_less:
  assumes "\<not> user_range s r addr n"
  shows "mapped_prefix s r addr n < n"
proof -
  let ?P = "\<lambda>j. user_pa s r (addr + of_nat j) \<noteq> None"
  have "takeWhile ?P [0..<n] \<noteq> [0..<n]"
    using assms unfolding takeWhile_eq_all_conv user_range_def by auto
  then have "length (takeWhile ?P [0..<n]) \<noteq> n"
    using takeWhile_eq_take [of ?P "[0..<n]"] by fastforce
  then show ?thesis using mapped_prefix_le [of s r addr n] by (simp add: mapped_prefix_def)
qed

lemma dest_ok_cong:
  assumes "dest_ok R r chp addr n s" "local_ok R r chp s'" "\<And>va. user_pa s' r va = user_pa s r va"
    "tables (mem s') R = tables (mem s) R"
  shows "dest_ok R r chp addr n s'"
  using assms by (simp add: dest_ok_def)

lemma put_byte:
  assumes ok: "dest_ok R r chp addr n s" and i: "i < n" and pa: "user_pa s r (addr + of_nat i) = Some pa"
  shows "pa \<noteq> chp"
    "copyout r (addr + of_nat i) chp 1 (s\<lparr>mem := (mem s)(chp := ch)\<rparr>) = (0, s\<lparr>mem := (mem s)(chp := ch, pa := ch)\<rparr>)"
    "dest_ok R r chp addr n (s\<lparr>mem := (mem s)(chp := ch, pa := ch)\<rparr>)"
    "user_pa (s\<lparr>mem := (mem s)(chp := ch, pa := ch)\<rparr>) r va = user_pa s r va"
proof -
  have loc: "local_ok R r chp s" using ok by (simp add: dest_ok_def)
  note l1 = local_ok_set_local [OF loc, of ch]
  show pc: "pa \<noteq> chp" using ok i pa by (auto simp: dest_ok_def local_ok_def)
  have pat: "pa \<notin> pages (tables (mem s) R)" using ok i pa by (auto simp: dest_ok_def)
  let ?s1 = "s\<lparr>mem := (mem s)(chp := ch)\<rparr>" and ?s2 = "s\<lparr>mem := (mem s)(chp := ch, pa := ch)\<rparr>"
  show "copyout r (addr + of_nat i) chp 1 ?s1 = (0, ?s2)"
    using copyout_byte [OF l1(1), of "addr + of_nat i"] pa pat l1(2,3) by simp
  have out: "mem ?s2 x = mem ?s1 x" if "x \<in> pages (tables (mem ?s1) R)" for x
    using that pat(1) l1(3) by auto
  have "local_ok R r chp ?s2" by (rule local_ok_outside(1) [OF l1(1) out])
  moreover have "tables (mem ?s2) R = tables (mem ?s1) R" by (rule local_ok_outside(3) [OF l1(1) out])
  moreover have up: "user_pa ?s2 r va = user_pa s r va" for va
    using local_ok_outside(2) [OF l1(1) out, of va] l1(2) [of va] by simp
  ultimately show "dest_ok R r chp addr n ?s2" "user_pa ?s2 r va = user_pa s r va"
    using l1(3) up by (auto intro: dest_ok_cong [OF ok])
qed

lemma put_byte_fails:
  assumes "local_ok R r chp s" "user_pa s r va = None"
  shows "copyout r va chp 1 (s\<lparr>mem := (mem s)(chp := ch)\<rparr>) = (-1, s\<lparr>mem := (mem s)(chp := ch)\<rparr>)"
  using copyout_byte [OF local_ok_set_local(1) [OF assms(1), of ch], of va] assms(2) local_ok_set_local(2) [OF assms(1)] by simp

lemma deliver_byte:
  assumes ok: "dst_ok R r chp addr n s" and i: "i < n"
  obtains pa where "user_pa s r (addr + of_nat i) = Some pa" "pa \<noteq> chp"
    "copyout r (addr + of_nat i) chp 1 (s\<lparr>mem := (mem s)(chp := ch)\<rparr>) = (0, s\<lparr>mem := (mem s)(chp := ch, pa := ch)\<rparr>)"
    "dst_ok R r chp addr n (s\<lparr>mem := (mem s)(chp := ch, pa := ch)\<rparr>)"
    "\<And>va. user_pa (s\<lparr>mem := (mem s)(chp := ch, pa := ch)\<rparr>) r va = user_pa s r va"
proof -
  obtain pa where pa: "user_pa s r (addr + of_nat i) = Some pa" using ok i by (auto simp: dst_ok_def user_range_def)
  have d: "dest_ok R r chp addr n s" "user_range s r addr n" using ok by (simp_all add: dst_ok_dest)
  note p = put_byte [OF d(1) i pa]
  have "dst_ok R r chp addr n (s\<lparr>mem := (mem s)(chp := ch, pa := ch)\<rparr>)"
    using p(3,4) d(2) by (simp add: dst_ok_dest user_range_def)
  then show thesis using that [OF pa p(1,2)] p(4) by simp
qed

lemma length_user_bytes [simp]: "length (user_bytes s r va k) = k"
  by (simp add: user_bytes_def)

lemma user_bytes_snoc:
  "user_bytes s r va (Suc k) = user_bytes s r va k @ [mem s (the (user_pa s r (va + of_nat k)))]"
  by (simp add: user_bytes_def)

lemma deliver_next:
  assumes ok: "dst_ok R r chp addr n s" and i: "i < n"
  obtains s' where "copyout r (addr + of_nat i) chp 1 (s\<lparr>mem := (mem s)(chp := ch)\<rparr>) = (0, s')"
    "dst_ok R r chp addr n s'" "user_bytes s' r addr (Suc i) = user_bytes s r addr i @ [ch]"
proof -
  obtain pa where st: "user_pa s r (addr + of_nat i) = Some pa" "pa \<noteq> chp"
    "copyout r (addr + of_nat i) chp 1 (s\<lparr>mem := (mem s)(chp := ch)\<rparr>) = (0, s\<lparr>mem := (mem s)(chp := ch, pa := ch)\<rparr>)"
    "dst_ok R r chp addr n (s\<lparr>mem := (mem s)(chp := ch, pa := ch)\<rparr>)"
    "\<And>va. user_pa (s\<lparr>mem := (mem s)(chp := ch, pa := ch)\<rparr>) r va = user_pa s r va"
    by (rule deliver_byte [OF ok i]) (rule that)
  let ?s2 = "s\<lparr>mem := (mem s)(chp := ch, pa := ch)\<rparr>"
  have "user_bytes ?s2 r addr i = user_bytes s r addr i"
  proof -
    have "mem ?s2 (the (user_pa s r (addr + of_nat j))) = mem s (the (user_pa s r (addr + of_nat j)))" if j: "j < i" for j
    proof -
      have "j < n" using j i by simp
      then obtain q where q: "user_pa s r (addr + of_nat j) = Some q" using ok by (auto simp: dst_ok_def user_range_def)
      have "q \<noteq> pa" using ok j i q st(1) unfolding dst_ok_def by (metis less_trans nat_neq_iff)
      moreover have "q \<noteq> chp" using ok q by (auto simp: dst_ok_def local_ok_def)
      ultimately show ?thesis using q by simp
    qed
    then show ?thesis using st(5) by (simp add: user_bytes_def)
  qed
  then have "user_bytes ?s2 r addr (Suc i) = user_bytes s r addr i @ [ch]"
    using st(1,5) by (simp add: user_bytes_snoc)
  with st(3,4) show thesis by (rule that)
qed

lemma vm_example_local_ok: "local_ok {0x80200000} 0x80200000 0x80300000 vm_example"
proof -
  have apart: "4096 \<le> unat (p + of_nat i - 0x80300000)" if "aligned 12 p" "p \<noteq> 0x80300000" "i < 4096" for p :: uint64 and i
    using page_offset_apart [of p "0x80300000" i] that by (simp add: aligned_def take_bit_eq_mod)
  have "0x80300000 \<notin> page p" if "aligned 12 p" "p \<noteq> 0x80300000" for p :: uint64
    using apart [OF that, of "unat (0x80300000 - p)"] by auto
  note t = this [of "0x80200000"] this [of "0x80201000"] this [of "0x80202000"]
  have "user_pa vm_example 0x80200000 va \<noteq> Some 0x80300000" for va
    using apart [of "0x80203000" "unat (va - PGROUNDDOWN va)"] unat_page_offset [of va]
    by (auto simp: user_pa_def Let_def vm_example_walkaddr aligned_def take_bit_eq_mod)
  then show ?thesis
    using t by (auto simp: local_ok_def vm_example_tables vm_example_walkaddr PHYSTOP_eq aligned_def take_bit_eq_mod)
qed

lemma vm_example_dst_ok: "dst_ok {0x80200000} 0x80200000 0x80300000 0 5 vm_example"
proof -
  have pa: "user_pa vm_example 0x80200000 (of_nat i) = Some (0x80203000 + of_nat i)" if "i < 5" for i
    using vm_example_user_pa [of i] that by simp
  have tab: "pa \<notin> pages (tables (mem vm_example) {0x80200000})"
    if "i < 5" "user_pa vm_example 0x80200000 (0 + of_nat i) = Some pa" for i pa
    using copyout_okD(4) [OF vm_example_copyout_ok, of i pa] that by simp
  have inj: "i = j" if "i < 5" "j < 5" "user_pa vm_example 0x80200000 (0 + of_nat i) = user_pa vm_example 0x80200000 (0 + of_nat j)" for i j
    using copyout_okD(6) [OF vm_example_copyout_ok, of i j] that pa [of i] by simp
  show ?thesis
    using vm_example_local_ok tab inj pa by (auto simp: dst_ok_def user_range_def)
qed

end
