(* ===== verification/Pipe.thy ===== *)
theory Pipe
  imports Ring UserByte
begin

text \<open>
  \<^verbatim>\<open>kernel/pipe.c\<close>. A call of \<^verbatim>\<open>pipewrite\<close> or \<^verbatim>\<open>piperead\<close> runs under the pipe's lock until
  it returns or goes to sleep; that segment is one model function, whose outcome is the
  returned value or the channel it sleeps on with the loop index to resume from, together with
  the channels it woke. Processes interleave only between segments (\<open>pipe_step\<close>). The local
  variable \<^verbatim>\<open>ch\<close> has the kernel address \<open>chp\<close>; \<open>killed\<close> is what \<^verbatim>\<open>killed(pr)\<close> returns during
  the segment.
\<close>

definition PIPESIZE :: nat where "PIPESIZE = 512"

record pipe =
  data :: "uchar list"
  nread :: uint
  nwrite :: uint
  readopen :: bool
  writeopen :: bool

datatype pipe_chan = NREAD | NWRITE

datatype pipe_out = PRet int | PSleep pipe_chan int

text \<open>The initialisation \<^verbatim>\<open>pipealloc\<close> gives a fresh page; \<open>junk\<close> is what the page held.\<close>

definition pipe_init :: "uchar list \<Rightarrow> pipe" where
  "pipe_init junk = \<lparr>data = junk, nread = 0, nwrite = 0, readopen = True, writeopen = True\<rparr>"

definition pipeclose :: "uint64 \<Rightarrow> uint64 \<Rightarrow> bool \<Rightarrow> pipe \<Rightarrow> 'z kmem_scheme \<Rightarrow>
    (pipe_chan \<times> pipe \<times> 'z kmem_scheme) result" where
  "pipeclose kend pi_addr writable pi s =
     (let (woken, pi) = (if writable then (NREAD, pi\<lparr>writeopen := False\<rparr>) else (NWRITE, pi\<lparr>readopen := False\<rparr>)) in
      if \<not> readopen pi \<and> \<not> writeopen pi
      then bindR (kfree kend pi_addr s) (\<lambda>s. Ok (woken, pi, s))
      else Ok (woken, pi, s))"

text \<open>\<^verbatim>\<open>pi->data[pi->nwrite++ % PIPESIZE] = ch\<close> and \<^verbatim>\<open>ch = pi->data[pi->nread++ % PIPESIZE]\<close>\<close>

definition pipe_put :: "uchar \<Rightarrow> pipe \<Rightarrow> pipe" where
  "pipe_put ch pi = pi\<lparr>data := (data pi)[unat (nwrite pi mod of_nat PIPESIZE) := ch], nwrite := nwrite pi + 1\<rparr>"

definition pipe_get :: "pipe \<Rightarrow> uchar \<times> pipe" where
  "pipe_get pi = (data pi ! unat (nread pi mod of_nat PIPESIZE), pi\<lparr>nread := nread pi + 1\<rparr>)"

definition pipe_full :: "pipe \<Rightarrow> bool" where
  "pipe_full pi \<longleftrightarrow> nwrite pi = nread pi + of_nat PIPESIZE"

definition pipe_empty :: "pipe \<Rightarrow> bool" where
  "pipe_empty pi \<longleftrightarrow> nread pi = nwrite pi"

function pipewrite_loop :: "uint64 \<Rightarrow> uint64 \<Rightarrow> bool \<Rightarrow> uint64 \<Rightarrow> int \<Rightarrow> int \<Rightarrow> pipe \<Rightarrow> 'z kmem_scheme \<Rightarrow>
    pipe_out \<times> pipe_chan list \<times> pipe \<times> 'z kmem_scheme" where
  "pipewrite_loop pagetable chp killed addr n i pi s =
     (if i < n then
        if \<not> readopen pi \<or> killed then (PRet (-1), [], pi, s)
        else if pipe_full pi then (PSleep NWRITE i, [NREAD], pi, s)
        else
          let (r, s) = copyin pagetable chp (addr + of_int i) 1 s in
          if r = -1 then (PRet i, [NREAD], pi, s)
          else pipewrite_loop pagetable chp killed addr n (i + 1) (pipe_put (mem s chp) pi) s
      else (PRet i, [NREAD], pi, s))"
  by pat_completeness auto
termination
  by (relation "measure (\<lambda>(pagetable, chp, killed, addr, n, i, pi, s). nat (n - i))") auto

declare pipewrite_loop.simps [simp del]

definition pipewrite :: "uint64 \<Rightarrow> uint64 \<Rightarrow> bool \<Rightarrow> uint64 \<Rightarrow> cint \<Rightarrow> pipe \<Rightarrow> 'z kmem_scheme \<Rightarrow>
    pipe_out \<times> pipe_chan list \<times> pipe \<times> 'z kmem_scheme" where
  "pipewrite pagetable chp killed addr n pi s = pipewrite_loop pagetable chp killed addr (sint n) 0 pi s"

text \<open>The copy loop of \<^verbatim>\<open>piperead\<close> (\<^verbatim>\<open>DOC: piperead-copy\<close>).\<close>

function piperead_copy :: "uint64 \<Rightarrow> uint64 \<Rightarrow> uint64 \<Rightarrow> int \<Rightarrow> int \<Rightarrow> pipe \<Rightarrow> 'z kmem_scheme \<Rightarrow>
    int \<times> pipe \<times> 'z kmem_scheme" where
  "piperead_copy pagetable chp addr n i pi s =
     (if i < n then
        if pipe_empty pi then (i, pi, s)
        else
          let (ch, pi) = pipe_get pi;
              s = s\<lparr>mem := (mem s)(chp := ch)\<rparr>;
              (r, s) = copyout pagetable (addr + of_int i) chp 1 s
          in if r = -1 then (i, pi, s) else piperead_copy pagetable chp addr n (i + 1) pi s
      else (i, pi, s))"
  by pat_completeness auto
termination
  by (relation "measure (\<lambda>(pagetable, chp, addr, n, i, pi, s). nat (n - i))") auto

declare piperead_copy.simps [simp del]

text \<open>
  A reader that slept re-evaluates the condition of the waiting loop when it wakes, so resuming
  it is running \<^verbatim>\<open>piperead\<close> again.
\<close>

definition piperead :: "uint64 \<Rightarrow> uint64 \<Rightarrow> bool \<Rightarrow> uint64 \<Rightarrow> cint \<Rightarrow> pipe \<Rightarrow> 'z kmem_scheme \<Rightarrow>
    pipe_out \<times> pipe_chan list \<times> pipe \<times> 'z kmem_scheme" where
  "piperead pagetable chp killed addr n pi s =
     (if pipe_empty pi \<and> writeopen pi
      then if killed then (PRet (-1), [], pi, s) else (PSleep NREAD 0, [], pi, s)
      else
        let (i, pi, s) = piperead_copy pagetable chp addr (sint n) 0 pi s
        in (PRet i, [NWRITE], pi, s))"

section \<open>The queue in the pipe\<close>

definition pipe_inv :: "pipe \<Rightarrow> bool" where
  "pipe_inv pi \<longleftrightarrow> length (data pi) = PIPESIZE \<and> unat (nwrite pi - nread pi) \<le> PIPESIZE"

definition pipe_content :: "pipe \<Rightarrow> uchar list" where
  "pipe_content pi = ring_list PIPESIZE (data pi) (nread pi) (nwrite pi)"

lemma pipe_idx: "unat (i mod of_nat PIPESIZE) = ring_idx PIPESIZE i" for i :: uint
  by (simp add: ring_idx_def PIPESIZE_def unat_mod)

interpretation pq: bounded_fifo PIPESIZE pipe_inv pipe_content pipe_full pipe_empty pipe_put pipe_get
proof unfold_locales
  fix pi x y pi'
  note defs = pipe_inv_def pipe_content_def pipe_full_def pipe_empty_def
  have N: "PIPESIZE dvd 2 ^ LENGTH(32)" "PIPESIZE < 2 ^ LENGTH(32)" by (simp_all add: PIPESIZE_def)
  assume inv: "pipe_inv pi"
  show full: "pipe_full pi \<longleftrightarrow> length (pipe_content pi) = PIPESIZE"
    using ring_full [OF N(2), of "nwrite pi" "nread pi"] by (simp add: defs)
  show "length (pipe_content pi) \<le> PIPESIZE" using inv by (simp add: defs)
  show "pipe_empty pi \<longleftrightarrow> pipe_content pi = []" by (auto simp: defs ring_list_Nil)
  show "pipe_inv (pipe_put x pi) \<and> pipe_content (pipe_put x pi) = pipe_content pi @ [x]" if "\<not> pipe_full pi"
  proof -
    have lt: "unat (nwrite pi - nread pi) < PIPESIZE" using that full inv by (simp add: defs)
    note p = ring_put [OF N(1) lt _ N(2), of "data pi" x]
    have "length (ring_list PIPESIZE (data (pipe_put x pi)) (nread pi) (nwrite pi + 1)) \<le> PIPESIZE"
      using p inv lt by (simp add: pipe_put_def pipe_idx defs)
    then show ?thesis using p inv by (simp add: pipe_put_def pipe_idx defs)
  qed
  show "pipe_inv pi' \<and> pipe_content pi = y # pipe_content pi'" if "\<not> pipe_empty pi" "pipe_get pi = (y, pi')"
  proof -
    have ne: "nwrite pi \<noteq> nread pi" using that by (auto simp: defs)
    then show ?thesis
      using that ring_take [OF ne, of PIPESIZE "data pi"] unat_sub_Suc [OF ne] inv
      by (auto simp: pipe_get_def pipe_idx defs)
  qed
qed

section \<open>Segments\<close>

text \<open>
  A write segment appends the next \<open>k\<close> user bytes, in order, to the queue, and says so: it
  returns or sleeps at index \<open>i + k\<close>, and returns early only at an unmapped byte. It returns
  -1 without having written anything when the read end is closed or the caller was killed.
\<close>

definition wrote where
  "wrote r chp killed addr n i pi s out pi' s' k \<longleftrightarrow>
     pipe_inv pi' \<and> (\<forall>j < k. user_pa s r (addr + of_int i + of_nat j) \<noteq> None) \<and>
     pipe_content pi' = pipe_content pi @ user_bytes s r (addr + of_int i) k \<and>
     readopen pi' = readopen pi \<and> writeopen pi' = writeopen pi \<and> nread pi' = nread pi \<and>
     (\<forall>x. x \<noteq> chp \<longrightarrow> mem s' x = mem s x) \<and>
     (out = PRet (-1) \<and> k = 0 \<and> (\<not> readopen pi \<or> killed) \<and> i < n \<or>
      out = PRet (i + int k) \<and> (n \<le> i + int k \<or> user_pa s r (addr + of_int (i + int k)) = None) \<or>
      out = PSleep NWRITE (i + int k) \<and> pipe_full pi' \<and> i + int k < n)"

lemma pipewrite_loop_spec:
  assumes "local_ok R r chp s" "pipe_inv pi"
    and "pipewrite_loop r chp killed addr n i pi s = (out, ws, pi', s')"
  shows "\<exists>k. wrote r chp killed addr n i pi s out pi' s' k"
  using assms
proof (induction r chp killed addr n i pi s rule: pipewrite_loop.induct)
  case (1 r chp killed addr n i pi s)
  note run = 1(4) [unfolded pipewrite_loop.simps [of r chp killed addr n i]]
  show ?case
  proof (cases "i < n \<and> readopen pi \<and> \<not> killed \<and> \<not> pipe_full pi \<and> user_pa s r (addr + of_int i) \<noteq> None")
    case False
    then have "wrote r chp killed addr n i pi s out pi' s' 0"
      using run 1(3) copyin_byte [OF 1(2), of "addr + of_int i"]
      by (auto simp: wrote_def split: if_splits option.splits)
    then show ?thesis ..
  next
    case True
    then obtain pa where pa: "user_pa s r (addr + of_int i) = Some pa" by auto
    let ?s1 = "s\<lparr>mem := (mem s)(chp := mem s pa)\<rparr>"
    let ?pi1 = "pipe_put (mem s pa) pi"
    have ci: "copyin r chp (addr + of_int i) 1 s = (0, ?s1)"
      using copyin_byte [OF 1(2), of "addr + of_int i"] pa by simp
    then have rec: "pipewrite_loop r chp killed addr n (i + 1) ?pi1 ?s1 = (out, ws, pi', s')"
      using run True by simp
    have put: "pipe_inv ?pi1" "pipe_content ?pi1 = pipe_content pi @ [mem s pa]"
      using pq.put_ok [OF 1(3)] True by auto
    note loc = local_ok_set_local [OF 1(2), of "mem s pa"]
    have "\<exists>k. wrote r chp killed addr n (i + 1) ?pi1 ?s1 out pi' s' k"
      using 1(1) [of "(0, ?s1)" 0 ?s1] True ci loc(1) put(1) rec by auto
    then obtain k where k: "wrote r chp killed addr n (i + 1) ?pi1 ?s1 out pi' s' k" ..
    have idx: "addr + of_int (i + 1) = addr + of_int i + 1" by simp
    have some: "\<forall>j < k. user_pa s r (addr + of_int i + 1 + of_nat j) \<noteq> None"
      using k loc(2) unfolding wrote_def idx by simp
    then have "\<forall>j < Suc k. user_pa s r (addr + of_int i + of_nat j) \<noteq> None"
      using pa by (auto simp: less_Suc_eq_0_disj algebra_simps)
    moreover have "user_bytes s r (addr + of_int i) (Suc k) = mem s pa # user_bytes ?s1 r (addr + of_int (i + 1)) k"
      unfolding idx user_bytes_Suc using user_bytes_set_local [OF 1(2) some] pa by simp
    ultimately have "wrote r chp killed addr n i pi s out pi' s' (Suc k)"
      using k put(2) True loc(2) unfolding wrote_def by (auto simp: pipe_put_def algebra_simps)
    then show ?thesis ..
  qed
qed

text \<open>
  A read segment delivers the next \<open>k\<close> bytes of the queue, in order, to the user buffer. It
  stops before the end of the buffer when the pipe is empty, or at an unmapped byte: the byte
  of the queue that was meant for it (\<open>lost\<close>) has then been taken already.
\<close>

definition delivered where
  "delivered r chp addr n i pi s i' pi' s' k lost \<longleftrightarrow>
     i' = int (i + k) \<and> i + k \<le> n \<and> pipe_inv pi' \<and>
     (\<forall>j. i \<le> j \<longrightarrow> j < i + k \<longrightarrow> user_pa s r (addr + of_nat j) \<noteq> None) \<and>
     pipe_content pi = user_bytes s' r (addr + of_nat i) k @ lost @ pipe_content pi' \<and>
     (if lost = [] then i + k < n \<longrightarrow> pipe_empty pi'
      else length lost = 1 \<and> i + k < n \<and> user_pa s r (addr + of_nat (i + k)) = None) \<and>
     readopen pi' = readopen pi \<and> writeopen pi' = writeopen pi \<and>
     (\<forall>va. user_pa s' r va = user_pa s r va) \<and>
     (\<forall>x. x \<noteq> chp \<longrightarrow> (\<forall>j. i \<le> j \<longrightarrow> j < n \<longrightarrow> user_pa s r (addr + of_nat j) \<noteq> Some x) \<longrightarrow> mem s' x = mem s x)"

lemma delivered_Suc:
  assumes del: "delivered r chp addr n (Suc i) pi1 (s\<lparr>mem := (mem s)(chp := ch, pa := ch)\<rparr>) i' pi' s' k lost"
    and i: "i < n" and pa: "user_pa s r (addr + of_nat i) = Some pa" "pa \<noteq> chp"
    and same: "\<And>va. user_pa (s\<lparr>mem := (mem s)(chp := ch, pa := ch)\<rparr>) r va = user_pa s r va"
    and inj: "\<And>j. Suc i \<le> j \<Longrightarrow> j < n \<Longrightarrow> user_pa s r (addr + of_nat j) \<noteq> Some pa"
    and get: "pipe_get pi = (ch, pi1)" "pipe_content pi = ch # pipe_content pi1"
  shows "delivered r chp addr n i pi s i' pi' s' (Suc k) lost"
proof -
  have "mem s' pa = ch" using del pa inj same by (simp add: delivered_def)
  then have "user_bytes s' r (addr + of_nat i) (Suc k) = ch # user_bytes s' r (addr + of_nat (Suc i)) k"
    using del pa(1) same by (simp add: user_bytes_Suc delivered_def algebra_simps)
  moreover have "mem s' x = mem s x"
    if "x \<noteq> chp" "\<forall>j. i \<le> j \<longrightarrow> j < n \<longrightarrow> user_pa s r (addr + of_nat j) \<noteq> Some x" for x
  proof -
    have "x \<noteq> pa" using that(2) pa(1) i by auto
    then show ?thesis using del that same by (simp add: delivered_def)
  qed
  moreover have "user_pa s r (addr + of_nat j) \<noteq> None" if "i \<le> j" "j < i + Suc k" for j
    using del that same pa(1) by (cases "j = i") (auto simp: delivered_def)
  ultimately show ?thesis
    using del get same by (auto simp: delivered_def pipe_get_def)
qed

lemma piperead_copy_spec:
  assumes "dest_ok R r chp addr n s" "pipe_inv pi" "i \<le> n"
    and "piperead_copy r chp addr (int n) (int i) pi s = (i', pi', s')"
  shows "\<exists>k lost. delivered r chp addr n i pi s i' pi' s' k lost"
  using assms
proof (induction "n - i" arbitrary: i pi s)
  case 0
  then have "i = n" by simp
  then have "delivered r chp addr n i pi s i' pi' s' 0 []"
    using 0 by (simp add: delivered_def piperead_copy.simps [of r chp addr "int n"])
  then show ?case by blast
next
  case (Suc d)
  then have i: "i < n" by simp
  note run = Suc.prems(4) [unfolded piperead_copy.simps [of r chp addr "int n" "int i"]]
  show ?case
  proof (cases "pipe_empty pi")
    case True
    then have "delivered r chp addr n i pi s i' pi' s' 0 []"
      using run i Suc.prems(2) by (simp add: delivered_def)
    then show ?thesis by blast
  next
    case False
    obtain ch pi1 where get: "pipe_get pi = (ch, pi1)" by force
    note tk = pq.take_ok [OF Suc.prems(2) False get]
    have loc: "local_ok R r chp s" using Suc.prems(1) by (simp add: dest_ok_def)
    show ?thesis
    proof (cases "user_pa s r (addr + of_nat i)")
      case None
      then have "i' = int i" "pi' = pi1" "s' = s\<lparr>mem := (mem s)(chp := ch)\<rparr>"
        using run i False get put_byte_fails [OF loc None, of ch] by simp_all
      then have "delivered r chp addr n i pi s i' pi' s' 0 [ch]"
        using None i tk get local_ok_set_local(2) [OF loc] by (auto simp: delivered_def pipe_get_def)
      then show ?thesis by blast
    next
      case (Some pa)
      note st = put_byte(1) [OF Suc.prems(1) i Some] put_byte(2-4) [OF Suc.prems(1) i Some, where ch = ch]
      let ?s2 = "s\<lparr>mem := (mem s)(chp := ch, pa := ch)\<rparr>"
      have rec: "piperead_copy r chp addr (int n) (int (Suc i)) pi1 ?s2 = (i', pi', s')"
        using run i False get st(2) by (simp add: add.commute)
      have "d = n - Suc i" "Suc i \<le> n" using Suc.hyps(2) i by simp_all
      with Suc.hyps(1) [OF _ st(3) conjunct1 [OF tk] _ rec] obtain k lost
        where k: "delivered r chp addr n (Suc i) pi1 ?s2 i' pi' s' k lost" by blast
      have "user_pa s r (addr + of_nat j) \<noteq> Some pa" if "Suc i \<le> j" "j < n" for j
        using Suc.prems(1) that i Some unfolding dest_ok_def by (metis Suc_n_not_le_n option.distinct(1))
      from delivered_Suc [OF k i Some st(1,4) this get conjunct2 [OF tk]] show ?thesis by blast
    qed
  qed
qed

text \<open>
  What a read of \<open>n\<close> bytes gives: as many bytes as it asked for, as the queue has, and as the
  buffer has room for before its first unmapped byte.
\<close>

definition read_count :: "'z kmem_scheme \<Rightarrow> uint64 \<Rightarrow> uint64 \<Rightarrow> cint \<Rightarrow> pipe \<Rightarrow> nat" where
  "read_count s r addr n pi = min (mapped_prefix s r addr (nat (sint n))) (length (pipe_content pi))"

definition read_lost :: "'z kmem_scheme \<Rightarrow> uint64 \<Rightarrow> uint64 \<Rightarrow> cint \<Rightarrow> pipe \<Rightarrow> uchar list" where
  "read_lost s r addr n pi =
     (let k = read_count s r addr n pi in
      if k < nat (sint n) then take 1 (drop k (pipe_content pi)) else [])"

lemma delivered_count:
  assumes "delivered r chp addr (nat (sint n)) 0 pi s i' pi' s' k lost"
  shows "k = read_count s r addr n pi" "lost = read_lost s r addr n pi"
proof -
  let ?N = "nat (sint n)"
  have le: "k \<le> ?N" "\<forall>j < k. user_pa s r (addr + of_nat j) \<noteq> None"
    and c: "pipe_content pi = user_bytes s' r addr k @ lost @ pipe_content pi'"
    and inv: "pipe_inv pi'" using assms by (auto simp: delivered_def)
  have ge: "k \<le> mapped_prefix s r addr ?N" by (rule mapped_prefix_ge [OF le])
  have "k = read_count s r addr n pi \<and> lost = read_lost s r addr n pi"
  proof (cases "lost = []")
    case True
    then have "k < ?N \<longrightarrow> pipe_content pi' = []" using assms pq.empty_iff [OF inv] by (simp add: delivered_def)
    then have "k = read_count s r addr n pi" 
      using c True le(1) ge mapped_prefix_le [of s r addr ?N] by (cases "k < ?N") (auto simp: read_count_def)
    with \<open>k < ?N \<longrightarrow> pipe_content pi' = []\<close> c True show ?thesis by (simp add: read_lost_def Let_def)
  next
    case False
    then have l: "length lost = 1" "k < ?N" "user_pa s r (addr + of_nat k) = None"
      using assms by (auto simp: delivered_def)
    have "mapped_prefix s r addr ?N = k" by (rule mapped_prefix_eq [OF l(2) le(2) l(3)])
    with c l(1) have "k = read_count s r addr n pi" by (simp add: read_count_def)
    with c l(1,2) show ?thesis by (simp add: read_lost_def Let_def)
  qed
  then show "k = read_count s r addr n pi" "lost = read_lost s r addr n pi" by blast+
qed

lemma piperead_outcome_lemma:
  assumes "dest_ok R r chp addr (nat (sint n)) s" "pipe_inv pi" "\<not> (pipe_content pi = [] \<and> writeopen pi)"
    and "piperead r chp killed addr n pi s = (out, ws, pi', s')"
  defines "k \<equiv> read_count s r addr n pi"
  shows "out = PRet (int k)" "user_bytes s' r addr k = take k (pipe_content pi)"
    "pipe_content pi = user_bytes s' r addr k @ read_lost s r addr n pi @ pipe_content pi'" "pipe_inv pi'" "ws = [NWRITE]"
    "\<forall>x. x \<noteq> chp \<longrightarrow> (\<forall>j < nat (sint n). user_pa s r (addr + of_nat j) \<noteq> Some x) \<longrightarrow> mem s' x = mem s x"
proof -
  obtain i' where rc: "piperead_copy r chp addr (sint n) 0 pi s = (i', pi', s')" "out = PRet i'" and ws: "ws = [NWRITE]"
    using assms(3,4) pq.empty_iff [OF assms(2)] by (auto simp: piperead_def split: prod.splits if_splits)
  show "ws = [NWRITE]" by (rule ws)
  obtain k' lost where k': "delivered r chp addr (nat (sint n)) 0 pi s i' pi' s' k' lost"
  proof (cases "sint n < 0")
    case True
    then have "delivered r chp addr (nat (sint n)) 0 pi s i' pi' s' 0 []"
      using rc(1) assms(2) by (simp add: piperead_copy.simps [of r chp addr "sint n"] delivered_def)
    then show thesis by (rule that)
  next
    case False
    then have n: "int (nat (sint n)) = sint n" by simp
    then show thesis using piperead_copy_spec [OF assms(1,2), of 0 i' pi' s'] rc(1) that by auto
  qed
  note e = delivered_count [OF k']
  have c: "pipe_content pi = user_bytes s' r addr k @ read_lost s r addr n pi @ pipe_content pi'" "i' = int k" "pipe_inv pi'"
    using k' unfolding e k_def [symmetric] by (simp_all add: delivered_def)
  then show "pipe_content pi = user_bytes s' r addr k @ read_lost s r addr n pi @ pipe_content pi'" "out = PRet (int k)"
    "pipe_inv pi'" using rc(2) by simp_all
  show "user_bytes s' r addr k = take k (pipe_content pi)" using c(1) by (simp add: user_bytes_def)
  show "\<forall>x. x \<noteq> chp \<longrightarrow> (\<forall>j < nat (sint n). user_pa s r (addr + of_nat j) \<noteq> Some x) \<longrightarrow> mem s' x = mem s x"
    using k' by (simp add: delivered_def)
qed

section \<open>Readers and writers\<close>

fun accepted :: "int \<Rightarrow> pipe_out \<Rightarrow> nat" where
  "accepted i (PRet j) = (if j = -1 then 0 else nat (j - i))"
| "accepted i (PSleep c j) = nat (j - i)"

fun returned :: "pipe_out \<Rightarrow> nat" where
  "returned (PRet j) = nat j"
| "returned (PSleep c j) = 0"

text \<open>
  What the reading side has taken out of a pipe: bytes a reader found in its buffer, and bytes
  taken for a byte of the buffer that is not mapped.
\<close>

datatype taken = Given uchar | Lost uchar

primrec taken_byte :: "taken \<Rightarrow> uchar" where
  "taken_byte (Given b) = b"
| "taken_byte (Lost b) = b"

text \<open>
  Everything that can happen to a pipe between other things: a write segment, from any index
  of any caller's buffer; a read segment, into any buffer; closing an end; and any other change
  of memory. The lists are the bytes writers have handed over, read from the writer's memory,
  and what readers have taken, the given bytes read from the reader's memory. \<open>faults\<close> counts
  the read calls whose buffer was not wholly mapped.
\<close>

inductive pipe_run :: "uint64 set \<Rightarrow> pipe \<times> kmem \<times> uchar list \<times> taken list \<times> nat \<Rightarrow>
    pipe \<times> kmem \<times> uchar list \<times> taken list \<times> nat \<Rightarrow> bool" for R where
  start: "pipe_run R st st"
| write_segment: "pipe_run R st (pi, s, ins, outs, faults) \<Longrightarrow> local_ok R r chp s \<Longrightarrow> 0 \<le> i \<Longrightarrow>
    pipewrite_loop r chp killed addr n i pi s = (out, ws, pi', s') \<Longrightarrow>
    pipe_run R st (pi', s', ins @ user_bytes s r (addr + of_int i) (accepted i out), outs, faults)"
| read_segment: "pipe_run R st (pi, s, ins, outs, faults) \<Longrightarrow> dest_ok R r chp addr (nat (sint n)) s \<Longrightarrow>
    piperead r chp killed addr n pi s = (out, ws, pi', s') \<Longrightarrow>
    user_range s r addr (nat (sint n)) \<Longrightarrow>
    pipe_run R st (pi', s', ins, outs @ map Given (user_bytes s' r addr (returned out)), faults)"
| read_fault: "pipe_run R st (pi, s, ins, outs, faults) \<Longrightarrow> dest_ok R r chp addr (nat (sint n)) s \<Longrightarrow>
    piperead r chp killed addr n pi s = (out, ws, pi', s') \<Longrightarrow>
    \<not> user_range s r addr (nat (sint n)) \<Longrightarrow>
    pipe_run R st (pi', s', ins, outs @ map Given (user_bytes s' r addr (returned out)) @
      map Lost (take 1 (drop (returned out) (pipe_content pi))), Suc faults)"
| close_write: "pipe_run R st (pi, s, h) \<Longrightarrow> pipe_run R st (pi\<lparr>writeopen := False\<rparr>, s, h)"
| close_read: "pipe_run R st (pi, s, h) \<Longrightarrow> pipe_run R st (pi\<lparr>readopen := False\<rparr>, s, h)"
| other: "pipe_run R st (pi, s, h) \<Longrightarrow> pipe_run R st (pi, s', h)"

lemma wrote_accepted:
  assumes "wrote r chp killed addr n i pi s out pi' s' k" "0 \<le> i"
  shows "accepted i out = k"
  using assms by (auto simp: wrote_def)

lemma piperead_keeps:
  assumes "dest_ok R r chp addr (nat (sint n)) s" "pipe_inv pi"
    and "piperead r chp killed addr n pi s = (out, ws, pi', s')"
  shows "pipe_inv pi'" "pipe_content pi = user_bytes s' r addr (returned out) @
    (if user_range s r addr (nat (sint n)) then [] else take 1 (drop (returned out) (pipe_content pi))) @ pipe_content pi'"
proof -
  let ?N = "nat (sint n)"
  have "pipe_inv pi' \<and> pipe_content pi = user_bytes s' r addr (returned out) @
    (if user_range s r addr ?N then [] else take 1 (drop (returned out) (pipe_content pi))) @ pipe_content pi'"
  proof (cases "pipe_content pi = [] \<and> writeopen pi")
    case True
    then have "pi' = pi" "returned out = 0"
      using assms(3) pq.empty_iff [OF assms(2)] by (auto simp: piperead_def split: if_splits)
    then show ?thesis using assms(2) True by simp
  next
    case False
    note o = piperead_outcome_lemma [OF assms(1,2) False assms(3)]
    have "read_lost s r addr n pi = (if user_range s r addr ?N then [] else take 1 (drop (returned out) (pipe_content pi)))"
    proof (cases "user_range s r addr ?N")
      case True
      then show ?thesis by (auto simp: read_lost_def read_count_def Let_def mapped_prefix_all)
    next
      case False
      then have "mapped_prefix s r addr ?N < ?N"
        by (rule mapped_prefix_less)
      then show ?thesis using False o(1) by (simp add: read_lost_def read_count_def Let_def)
    qed
    then show ?thesis using o by simp
  qed
  then show "pipe_inv pi'" "pipe_content pi = user_bytes s' r addr (returned out) @
    (if user_range s r addr ?N then [] else take 1 (drop (returned out) (pipe_content pi))) @ pipe_content pi'"
    by blast+
qed

definition lost_bytes :: "taken list \<Rightarrow> uchar list" where
  "lost_bytes outs = concat (map (\<lambda>t. case t of Given b \<Rightarrow> [] | Lost b \<Rightarrow> [b]) outs)"

lemma lost_bytes_simps [simp]:
  "lost_bytes [] = []" "lost_bytes (xs @ ys) = lost_bytes xs @ lost_bytes ys"
  "lost_bytes (map Given bs) = []" "lost_bytes (map Lost bs) = bs"
  by (simp_all add: lost_bytes_def comp_def concat_map_singleton)

lemma taken_byte_simps [simp]: "taken_byte \<circ> Given = id" "taken_byte \<circ> Lost = id"
  by (simp_all add: fun_eq_iff)

definition fifo_state :: "pipe \<times> kmem \<times> uchar list \<times> taken list \<times> nat \<Rightarrow> bool" where
  "fifo_state = (\<lambda>(pi, s, ins, outs, faults). pipe_inv pi \<and> ins = map taken_byte outs @ pipe_content pi \<and>
     length (lost_bytes outs) \<le> faults)"

lemma pipe_run_fifo: "pipe_run R st st' \<Longrightarrow> fifo_state st \<Longrightarrow> fifo_state st'"
proof (induction rule: pipe_run.induct)
  case (write_segment st pi s ins outs faults r chp i killed addr n out ws pi' s')
  then have inv: "fifo_state (pi, s, ins, outs, faults)" "pipe_inv pi" by (simp_all add: fifo_state_def)
  obtain k where k: "wrote r chp killed addr n i pi s out pi' s' k"
    using pipewrite_loop_spec [OF write_segment(2) inv(2) write_segment(4)] by blast
  then have "pipe_inv pi'" "pipe_content pi' = pipe_content pi @ user_bytes s r (addr + of_int i) (accepted i out)"
    using wrote_accepted [OF k write_segment(3)] by (simp_all add: wrote_def)
  then show ?case using inv(1) by (simp add: fifo_state_def)
next
  case (read_segment st pi s ins outs faults r chp addr n killed out ws pi' s')
  then have inv: "fifo_state (pi, s, ins, outs, faults)" "pipe_inv pi" by (simp_all add: fifo_state_def)
  note piperead_keeps [OF read_segment(2) inv(2) read_segment(3)]
  then show ?case using inv(1) read_segment(4) by (simp add: fifo_state_def)
next
  case (read_fault st pi s ins outs faults r chp addr n killed out ws pi' s')
  then have inv: "fifo_state (pi, s, ins, outs, faults)" "pipe_inv pi" by (simp_all add: fifo_state_def)
  let ?l = "take 1 (drop (returned out) (pipe_content pi))"
  note k = piperead_keeps [OF read_fault(2) inv(2) read_fault(3)]
  have "length ?l \<le> 1" by simp
  moreover have "pipe_content pi = user_bytes s' r addr (returned out) @ ?l @ pipe_content pi'"
    using k(2) read_fault(4) by simp
  ultimately show ?case using inv(1) k(1) by (simp add: fifo_state_def del: length_take length_drop)
qed (auto simp: fifo_state_def pipe_inv_def pipe_content_def)

lemma pipe_init_empty:
  assumes "length junk = PIPESIZE"
  shows "pipe_inv (pipe_init junk)" "pipe_content (pipe_init junk) = []"
  using assms by (simp_all add: pipe_inv_def pipe_init_def pipe_content_def)

lemma vm_example_write:
  obtains pi s where
    "pipewrite_loop 0x80200000 0x80300000 False 0 2 0 (pipe_init (replicate 512 0)) vm_example = (PRet 2, [NREAD], pi, s)"
    "pipe_inv pi" "length (pipe_content pi) = 2" "dst_ok {0x80200000} 0x80200000 0x80300000 0 5 s"
proof -
  let ?r = "0x80200000 :: uint64" and ?chp = "0x80300000 :: uint64" and ?p = "pipe_init (replicate 512 0)"
  let ?s1 = "vm_example\<lparr>mem := (mem vm_example)(?chp := mem vm_example 0x80203000)\<rparr>"
  let ?s2 = "?s1\<lparr>mem := (mem ?s1)(?chp := mem ?s1 0x80203001)\<rparr>"
  have up: "user_pa vm_example ?r 0 = Some 0x80203000" "user_pa vm_example ?r 1 = Some 0x80203001"
    using vm_example_user_pa [of 0] vm_example_user_pa [of 1] by simp_all
  note l1 = local_ok_set_local [OF vm_example_local_ok, of "mem vm_example 0x80203000"]
  note l2 = local_ok_set_local [OF l1(1), of "mem ?s1 0x80203001"]
  have c1: "copyin ?r ?chp 0 1 vm_example = (0, ?s1)" using copyin_byte [OF vm_example_local_ok, of 0] up(1) by simp
  have c2: "copyin ?r ?chp 1 1 ?s1 = (0, ?s2)" using copyin_byte [OF l1(1), of 1] l1(2) [of 1] up(2) by simp
  let ?p1 = "pipe_put (mem vm_example 0x80203000) ?p"
  let ?p2 = "pipe_put (mem ?s1 0x80203001) ?p1"
  have i0: "pipe_inv ?p" "pipe_content ?p = []" by (rule pipe_init_empty; simp add: PIPESIZE_def)+
  have f0: "\<not> pipe_full ?p" by (simp add: pipe_full_def pipe_init_def PIPESIZE_def)
  note p1 = pq.put_ok [OF i0(1) f0, of "mem vm_example 0x80203000"]
  have f1: "\<not> pipe_full ?p1" by (simp add: pipe_full_def pipe_init_def pipe_put_def PIPESIZE_def)
  note p2 = pq.put_ok [OF conjunct1 [OF p1] f1, of "mem ?s1 0x80203001"]
  have "pipewrite_loop ?r ?chp False 0 2 0 ?p vm_example = (PRet 2, [NREAD], ?p2, ?s2)"
    using c1 c2 f0 f1 pipewrite_loop.simps [of ?r ?chp False 0 2 0 ?p vm_example]
      pipewrite_loop.simps [of ?r ?chp False 0 2 1 ?p1 ?s1] pipewrite_loop.simps [of ?r ?chp False 0 2 2 ?p2 ?s2]
    by (simp add: pipe_init_def pipe_put_def)
  moreover have "dst_ok {?r} ?r ?chp 0 5 ?s2"
    using vm_example_dst_ok l1 l2 by (auto simp: dst_ok_dest user_range_def intro: dest_ok_cong)
  moreover have "pipe_inv ?p2" "length (pipe_content ?p2) = 2" using p1 p2 i0 by simp_all
  ultimately show thesis by (intro that)
qed

section \<open>Properties\<close>

text \<open>
  C11. A pipe is a FIFO of bytes, for any number of readers and writers and any interleaving of
  their segments, also when the 32-bit counters wrap: the bytes handed over by writers are
  exactly the bytes readers have taken, in that order, followed by what is still buffered, at
  most 512 bytes. A taken byte is in its reader's buffer, except for at most one byte of each
  read call whose buffer is not wholly mapped, which is lost.
\<close>

theorem pipe_fifo:
  assumes "length junk = PIPESIZE" "pipe_run R (pipe_init junk, s0, [], [], 0) (pi, s, ins, outs, faults)"
  shows "ins = map taken_byte outs @ pipe_content pi \<and> length (pipe_content pi) \<le> 512 \<and>
    length (lost_bytes outs) \<le> faults"
proof -
  have "fifo_state (pipe_init junk, s0, [], [], 0)" using pipe_init_empty [OF assms(1)] by (simp add: fifo_state_def)
  from pipe_run_fifo [OF assms(2) this] pq.bound [of pi] show ?thesis by (simp add: fifo_state_def PIPESIZE_def)
qed

theorem pipe_fifo_witness:
  "\<exists>pi s. pipe_run {0x80200000} (pipe_init (replicate 512 0), vm_example, [], [], 0)
       (pi, s, user_bytes vm_example 0x80200000 0 2, map Given (user_bytes s 0x80200000 0 2), 0) \<and>
     user_bytes s 0x80200000 0 2 = user_bytes vm_example 0x80200000 0 2 \<and> pipe_content pi = []"
proof -
  let ?r = "0x80200000 :: uint64" and ?chp = "0x80300000 :: uint64"
  obtain pi1 s1 where w: "pipewrite_loop ?r ?chp False 0 2 0 (pipe_init (replicate 512 0)) vm_example = (PRet 2, [NREAD], pi1, s1)"
    and c1: "pipe_inv pi1" "length (pipe_content pi1) = 2" and d1: "dst_ok {?r} ?r ?chp 0 5 s1"
    by (rule vm_example_write)
  have run1: "pipe_run {?r} (pipe_init (replicate 512 0), vm_example, [], [], 0)
      (pi1, s1, [] @ user_bytes vm_example ?r (0 + of_int 0) (accepted 0 (PRet 2)), [], 0)"
    by (rule pipe_run.write_segment [OF pipe_run.start vm_example_local_ok _ w]) simp
  have ok: "dest_ok {?r} ?r ?chp 0 (nat (sint (5 :: cint))) s1" "user_range s1 ?r 0 (nat (sint (5 :: cint)))"
    using d1 by (simp_all add: dst_ok_dest)
  obtain out ws pi s where r: "piperead ?r ?chp False 0 5 pi1 s1 = (out, ws, pi, s)" by (metis prod_cases4)
  have ne: "\<not> (pipe_content pi1 = [] \<and> writeopen pi1)" using c1 by auto
  have out: "out = PRet 2"
    using piperead_outcome_lemma(1) [OF ok(1) c1(1) ne r] c1(2) mapped_prefix_all [OF ok(2)] by (simp add: read_count_def)
  have "pipe_run {?r} (pipe_init (replicate 512 0), vm_example, [], [], 0)
      (pi, s, user_bytes vm_example ?r 0 2, map Given (user_bytes s ?r 0 2), 0)"
    using pipe_run.read_segment [OF run1 ok(1) r ok(2)] out by simp
  moreover from pipe_fifo [OF _ this] have "user_bytes vm_example ?r 0 2 = user_bytes s ?r 0 2 @ pipe_content pi"
    by (simp add: PIPESIZE_def)
  then have "user_bytes s ?r 0 2 = user_bytes vm_example ?r 0 2 \<and> pipe_content pi = []"
    by (metis append_eq_append_conv append_Nil2 length_user_bytes)
  ultimately show ?thesis by blast
qed

text \<open>
  C30. What one call of \<^verbatim>\<open>piperead\<close> does. With data or a closed write end it returns at once with
  as many bytes as it asked for, as there are (0 at end of file), and as its buffer has room
  for before its first unmapped byte, moved from the front of the queue to the user buffer, and
  wakes writers; if it was the buffer that ended, the next byte of the queue is gone too. Of
  memory it changes only the buffer and its local variable. On an empty pipe whose write end is
  open it sleeps, or returns -1 if it was killed, wakes nobody and changes nothing.
\<close>

theorem piperead_outcome:
  assumes "dest_ok R r chp addr (nat (sint n)) s" "pipe_inv pi"
    and "piperead r chp killed addr n pi s = (out, ws, pi', s')"
  defines "k \<equiv> min (mapped_prefix s r addr (nat (sint n))) (length (pipe_content pi))"
  shows "if pipe_content pi = [] \<and> writeopen pi
    then out = (if killed then PRet (-1) else PSleep NREAD 0) \<and> ws = [] \<and> pi' = pi \<and> s' = s
    else out = PRet (int k) \<and> ws = [NWRITE] \<and>
      user_bytes s' r addr k = take k (pipe_content pi) \<and>
      pipe_content pi' = drop (if k < nat (sint n) then k + 1 else k) (pipe_content pi) \<and>
      (\<forall>x. x \<noteq> chp \<longrightarrow> (\<forall>j < nat (sint n). user_pa s r (addr + of_nat j) \<noteq> Some x) \<longrightarrow> mem s' x = mem s x)"
proof (cases "pipe_content pi = [] \<and> writeopen pi")
  case True
  then show ?thesis using assms(3) pq.empty_iff [OF assms(2)] by (auto simp: piperead_def)
next
  case False
  note o = piperead_outcome_lemma [OF assms(1,2) False assms(3)]
  have k: "read_count s r addr n pi = k" by (simp add: read_count_def k_def)
  have le: "k \<le> length (pipe_content pi)" by (simp add: k_def)
  have "length (user_bytes s' r addr k) = k" by (simp add: user_bytes_def)
  then have "drop k (pipe_content pi) = read_lost s r addr n pi @ pipe_content pi'"
    using o(3) unfolding k by (metis append_eq_conv_conj)
  moreover have "pipe_content pi' = drop (k + 1) (pipe_content pi)"
    if "drop k (pipe_content pi) = take 1 (drop k (pipe_content pi)) @ pipe_content pi'"
    using that append_take_drop_id [of 1 "drop k (pipe_content pi)"]
    by (metis add.commute drop_drop same_append_eq)
  ultimately have "pipe_content pi' = drop (if k < nat (sint n) then k + 1 else k) (pipe_content pi)"
    by (auto simp: read_lost_def Let_def k)
  then show ?thesis using False o(1,2,5,6) unfolding k by (simp only: if_False simp_thms)
qed

theorem piperead_outcome_witness:
  "\<exists>pi' s'. piperead 0x80200000 0x80300000 False 0 5 (pipe_put 7 (pipe_init (replicate 512 0))) vm_example = (PRet 1, [NWRITE], pi', s') \<and>
     user_bytes s' 0x80200000 0 1 = [7] \<and> pipe_content pi' = []"
proof -
  have ok: "dest_ok {0x80200000} 0x80200000 0x80300000 0 (nat (sint (5 :: cint))) vm_example"
    "user_range vm_example 0x80200000 0 (nat (sint (5 :: cint)))"
    using vm_example_dst_ok by (simp_all add: dst_ok_dest)
  have inv: "pipe_inv (pipe_init (replicate 512 0))" by (simp add: pipe_inv_def pipe_init_def PIPESIZE_def)
  have "\<not> pipe_full (pipe_init (replicate 512 0))" by (simp add: pipe_full_def pipe_init_def PIPESIZE_def)
  then have put: "pipe_inv (pipe_put 7 (pipe_init (replicate 512 0)))"
      "pipe_content (pipe_put 7 (pipe_init (replicate 512 0))) = [7]"
    using pq.put_ok [OF inv, of 7] by (auto simp: pipe_content_def pipe_init_def)
  obtain out ws pi' s' where r: "piperead 0x80200000 0x80300000 False 0 5 (pipe_put 7 (pipe_init (replicate 512 0))) vm_example = (out, ws, pi', s')"
    by (metis prod_cases4)
  show ?thesis using piperead_outcome [OF ok(1) put(1) r] put(2) r mapped_prefix_all [OF ok(2)] by auto
qed

end
