(* ===== verification/Uart.thy ===== *)
theory Uart
  imports Ring
begin

text \<open>
  \<^verbatim>\<open>kernel/uart.c\<close>. The 16550 is outside the program: what reads of its registers return is
  an input of the model (\<open>lsr\<close> and \<open>rhr\<close> are the values the next reads of the line status and
  receive registers will return; with no more values the line is busy, and nothing was
  received), and what the driver writes to it is recorded in order in \<open>regs\<close>. \<open>woken\<close> records
  the channels passed to \<^verbatim>\<open>wakeup\<close>. \<^verbatim>\<open>uartputc\<close> on a full buffer sleeps and, when woken, tests
  again, so a sleeping call is one that has done nothing yet.
\<close>

unbundle bit_operations_syntax

definition RHR :: nat where "RHR = 0"
definition THR :: nat where "THR = 0"
definition IER :: nat where "IER = 1"
definition FCR :: nat where "FCR = 2"
definition LCR :: nat where "LCR = 3"
definition LSR :: nat where "LSR = 5"
definition LSR_RX_READY :: uchar where "LSR_RX_READY = push_bit 0 1"
definition LSR_TX_IDLE :: uchar where "LSR_TX_IDLE = push_bit 5 1"
definition UART_TX_BUF_SIZE :: nat where "UART_TX_BUF_SIZE = 32"

datatype uart_chan = UART_TX_R | CONS_R

record uart =
  lsr :: "uchar list"
  rhr :: "uchar list"
  regs :: "(nat \<times> uchar) list"
  woken :: "uart_chan list"
  uart_tx_buf :: "uchar list"
  uart_tx_w :: uint64
  uart_tx_r :: uint64

definition read_lsr :: "'z uart_scheme \<Rightarrow> uchar \<times> 'z uart_scheme" where
  "read_lsr u = (case lsr u of [] \<Rightarrow> (0, u) | v # vs \<Rightarrow> (v, u\<lparr>lsr := vs\<rparr>))"

definition read_rhr :: "'z uart_scheme \<Rightarrow> uchar \<times> 'z uart_scheme" where
  "read_rhr u = (case rhr u of [] \<Rightarrow> (0, u) | v # vs \<Rightarrow> (v, u\<lparr>rhr := vs\<rparr>))"

definition WriteReg :: "nat \<Rightarrow> uchar \<Rightarrow> 'z uart_scheme \<Rightarrow> 'z uart_scheme" where
  "WriteReg reg v u = u\<lparr>regs := regs u @ [(reg, v)]\<rparr>"

definition uartinit :: "'z uart_scheme \<Rightarrow> 'z uart_scheme" where
  "uartinit u =
     (let u = WriteReg IER 0x00 u;
          u = WriteReg LCR (push_bit 7 1) u;
          u = WriteReg 0 0x03 u;
          u = WriteReg 1 0x00 u;
          u = WriteReg LCR (push_bit 0 3) u;
          u = WriteReg FCR (push_bit 0 1 OR push_bit 1 3) u
      in WriteReg IER (push_bit 1 1 OR push_bit 0 1) u)"

definition uart_tx_full :: "'z uart_scheme \<Rightarrow> bool" where
  "uart_tx_full u \<longleftrightarrow> uart_tx_w u = uart_tx_r u + of_nat UART_TX_BUF_SIZE"

definition uart_tx_empty :: "'z uart_scheme \<Rightarrow> bool" where
  "uart_tx_empty u \<longleftrightarrow> uart_tx_w u = uart_tx_r u"

definition uart_tx_put :: "uchar \<Rightarrow> 'z uart_scheme \<Rightarrow> 'z uart_scheme" where
  "uart_tx_put c u = u\<lparr>uart_tx_buf := (uart_tx_buf u)[unat (uart_tx_w u mod of_nat UART_TX_BUF_SIZE) := c],
     uart_tx_w := uart_tx_w u + 1\<rparr>"

definition uart_tx_get :: "'z uart_scheme \<Rightarrow> uchar \<times> 'z uart_scheme" where
  "uart_tx_get u = (uart_tx_buf u ! unat (uart_tx_r u mod of_nat UART_TX_BUF_SIZE), u\<lparr>uart_tx_r := uart_tx_r u + 1\<rparr>)"

function uartstart :: "'z uart_scheme \<Rightarrow> 'z uart_scheme" where
  "uartstart u =
     (if uart_tx_empty u then u
      else
        let (v, u) = read_lsr u in
        if v AND LSR_TX_IDLE = 0 then u
        else
          let (c, u) = uart_tx_get u;
              u = u\<lparr>woken := woken u @ [UART_TX_R]\<rparr>
          in uartstart (WriteReg THR c u))"
  by pat_completeness auto

lemma read_lsr_tx [simp]:
  assumes "read_lsr u = (v, u')"
  shows "uart_tx_w u' = uart_tx_w u" "uart_tx_r u' = uart_tx_r u" "uart_tx_buf u' = uart_tx_buf u" "regs u' = regs u"
  using assms by (auto simp: read_lsr_def split: list.splits)

termination uartstart
proof (relation "measure (\<lambda>u. unat (uart_tx_w u - uart_tx_r u))", goal_cases)
  case 1
  then show ?case by simp
next
  case (2 u x v u1 y c u2 u3)
  then have "uart_tx_w u \<noteq> uart_tx_r u" by (simp add: uart_tx_empty_def)
  from unat_sub_Suc [OF this] 2 show ?case
    by (auto simp: WriteReg_def uart_tx_get_def dest!: sym [of "(v, u1)"])
qed

declare uartstart.simps [simp del]

definition uartputc :: "bool \<Rightarrow> uchar \<Rightarrow> 'z uart_scheme \<Rightarrow> 'z uart_scheme result" where
  "uartputc panicked c u =
     (if panicked then Blocked
      else if uart_tx_full u then Blocked
      else Ok (uartstart (uart_tx_put c u)))"

text \<open>The loop \<^verbatim>\<open>while((ReadReg(LSR) & LSR_TX_IDLE) == 0);\<close>: what is left to read after it.\<close>

fun uart_spin :: "uchar list \<Rightarrow> uchar list option" where
  "uart_spin [] = None"
| "uart_spin (v # vs) = (if v AND LSR_TX_IDLE = 0 then uart_spin vs else Some vs)"

definition uartputc_sync :: "bool \<Rightarrow> uchar \<Rightarrow> 'z uart_scheme \<Rightarrow> 'z uart_scheme result" where
  "uartputc_sync panicked c u =
     (if panicked then Blocked
      else case uart_spin (lsr u) of
          None \<Rightarrow> Blocked
        | Some vs \<Rightarrow> Ok (WriteReg THR c (u\<lparr>lsr := vs\<rparr>)))"

definition uartgetc :: "'z uart_scheme \<Rightarrow> int \<times> 'z uart_scheme" where
  "uartgetc u =
     (let (v, u) = read_lsr u in
      if v AND 0x01 \<noteq> 0 then (let (c, u) = read_rhr u in (uint c, u)) else (-1, u))"

section \<open>The transmit queue\<close>

definition uart_inv :: "'z uart_scheme \<Rightarrow> bool" where
  "uart_inv u \<longleftrightarrow> length (uart_tx_buf u) = UART_TX_BUF_SIZE \<and> unat (uart_tx_w u - uart_tx_r u) \<le> UART_TX_BUF_SIZE"

definition uart_content :: "'z uart_scheme \<Rightarrow> uchar list" where
  "uart_content u = ring_list UART_TX_BUF_SIZE (uart_tx_buf u) (uart_tx_r u) (uart_tx_w u)"

lemma uart_idx: "unat (i mod of_nat UART_TX_BUF_SIZE) = ring_idx UART_TX_BUF_SIZE i" for i :: uint64
  by (simp add: ring_idx_def UART_TX_BUF_SIZE_def unat_mod)

interpretation utx: bounded_fifo UART_TX_BUF_SIZE uart_inv uart_content uart_tx_full uart_tx_empty uart_tx_put uart_tx_get
proof unfold_locales
  fix u u' :: "'z uart_scheme" and x y
  note defs = uart_inv_def uart_content_def uart_tx_full_def uart_tx_empty_def
  have N: "UART_TX_BUF_SIZE dvd 2 ^ LENGTH(64)" "UART_TX_BUF_SIZE < 2 ^ LENGTH(64)" by (simp_all add: UART_TX_BUF_SIZE_def)
  assume inv: "uart_inv u"
  show full: "uart_tx_full u \<longleftrightarrow> length (uart_content u) = UART_TX_BUF_SIZE"
    using ring_full [OF N(2), of "uart_tx_w u" "uart_tx_r u"] by (simp add: defs)
  show "length (uart_content u) \<le> UART_TX_BUF_SIZE" using inv by (simp add: defs)
  show "uart_tx_empty u \<longleftrightarrow> uart_content u = []" by (auto simp: defs ring_list_Nil)
  show "uart_inv (uart_tx_put x u) \<and> uart_content (uart_tx_put x u) = uart_content u @ [x]" if "\<not> uart_tx_full u"
  proof -
    have lt: "unat (uart_tx_w u - uart_tx_r u) < UART_TX_BUF_SIZE" using that full inv by (simp add: defs)
    note p = ring_put [OF N(1) lt _ N(2), of "uart_tx_buf u" x]
    have "length (ring_list UART_TX_BUF_SIZE (uart_tx_buf (uart_tx_put x u)) (uart_tx_r u) (uart_tx_w u + 1)) \<le> UART_TX_BUF_SIZE"
      using p inv lt by (simp add: uart_tx_put_def uart_idx defs)
    then show ?thesis using p inv by (simp add: uart_tx_put_def uart_idx defs)
  qed
  show "uart_inv u' \<and> uart_content u = y # uart_content u'" if "\<not> uart_tx_empty u" "uart_tx_get u = (y, u')"
  proof -
    have ne: "uart_tx_w u \<noteq> uart_tx_r u" using that by (auto simp: defs)
    then show ?thesis
      using that ring_take [OF ne, of UART_TX_BUF_SIZE "uart_tx_buf u"] unat_sub_Suc [OF ne] inv
      by (auto simp: uart_tx_get_def uart_idx defs)
  qed
qed

lemma uart_inv_cong:
  assumes "uart_tx_w u' = uart_tx_w u" "uart_tx_r u' = uart_tx_r u" "uart_tx_buf u' = uart_tx_buf u"
  shows "uart_inv u' = uart_inv u" "uart_content u' = uart_content u" "uart_tx_empty u' = uart_tx_empty u"
  using assms by (simp_all add: uart_inv_def uart_content_def uart_tx_empty_def)

lemma uartstart_sends:
  "uart_inv u \<Longrightarrow> \<exists>sent. uart_inv (uartstart u) \<and> uart_content u = sent @ uart_content (uartstart u) \<and>
     regs (uartstart u) = regs u @ map (Pair THR) sent"
proof (induction u rule: uartstart.induct)
  case (1 u)
  obtain v u1 where r: "read_lsr u = (v, u1)" by force
  note same = uart_inv_cong [OF read_lsr_tx(1-3) [OF r]]
  show ?case
  proof (cases "uart_tx_empty u \<or> v AND LSR_TX_IDLE = 0")
    case True
    then have "uart_content (uartstart u) = uart_content u" "uart_inv (uartstart u)" "regs (uartstart u) = regs u"
      using r same 1(2) read_lsr_tx(4) [OF r] by (auto simp: uartstart.simps [of u])
    then show ?thesis by (intro exI [of _ "[]"]) simp
  next
    case False
    obtain c u2 where g: "uart_tx_get u1 = (c, u2)" by force
    let ?u3 = "WriteReg THR c (u2\<lparr>woken := woken u2 @ [UART_TX_R]\<rparr>)"
    have step: "uartstart u = uartstart ?u3" using False r g by (simp add: uartstart.simps [of u] Let_def)
    have tk: "uart_inv u2" "uart_content u = c # uart_content u2"
      using utx.take_ok [of u1 c u2] same 1(2) False g by auto
    have u3: "uart_inv ?u3" "uart_content ?u3 = uart_content u2" "regs ?u3 = regs u @ [(THR, c)]"
      using tk read_lsr_tx(4) [OF r] g by (auto simp: uart_inv_def uart_content_def WriteReg_def uart_tx_get_def)
    have "\<exists>sent. uart_inv (uartstart ?u3) \<and> uart_content ?u3 = sent @ uart_content (uartstart ?u3) \<and>
        regs (uartstart ?u3) = regs ?u3 @ map (Pair THR) sent"
      using False by (intro 1(1) [OF _ r [symmetric] refl _ g [symmetric] refl refl u3(1)]) auto
    then obtain sent where "uart_inv (uartstart ?u3)" "uart_content ?u3 = sent @ uart_content (uartstart ?u3)"
      "regs (uartstart ?u3) = regs ?u3 @ map (Pair THR) sent" by blast
    then show ?thesis using tk u3 by (intro exI [of _ "c # sent"]) (simp add: step)
  qed
qed

text \<open>
  Everything that happens to the transmit buffer: a call of \<^verbatim>\<open>uartputc\<close> that does not sleep, an
  interrupt that calls \<^verbatim>\<open>uartstart\<close>, and the hardware choosing what the next status reads return.
\<close>

inductive uart_run :: "uart \<Rightarrow> uart \<Rightarrow> uchar list \<Rightarrow> bool" for u0 where
  boot: "uart_run u0 u0 []"
| putc: "uart_run u0 u ins \<Longrightarrow> uartputc panicked c u = Ok u' \<Longrightarrow> uart_run u0 u' (ins @ [c])"
| intr: "uart_run u0 u ins \<Longrightarrow> uart_run u0 (uartstart u) ins"
| hardware: "uart_run u0 u ins \<Longrightarrow> uart_run u0 (u\<lparr>lsr := vs\<rparr>) ins"

lemma uart_run_fifo:
  "uart_run u0 u ins \<Longrightarrow> uart_inv u0 \<Longrightarrow> uart_content u0 = [] \<Longrightarrow>
   \<exists>sent. uart_inv u \<and> regs u = regs u0 @ map (Pair THR) sent \<and> ins = sent @ uart_content u"
proof (induction rule: uart_run.induct)
  case boot
  then show ?case by simp
next
  case (putc u ins panicked c u')
  then obtain sent where s: "uart_inv u" "regs u = regs u0 @ map (Pair THR) sent" "ins = sent @ uart_content u" by blast
  have nf: "\<not> uart_tx_full u" and u': "u' = uartstart (uart_tx_put c u)"
    using putc(2) by (auto simp: uartputc_def split: if_splits)
  note put = utx.put_ok [OF s(1) nf, of c]
  obtain sent' where "uart_inv u'" "uart_content (uart_tx_put c u) = sent' @ uart_content u'"
    "regs u' = regs (uart_tx_put c u) @ map (Pair THR) sent'"
    using uartstart_sends [of "uart_tx_put c u"] put u' by blast
  then show ?case using s put by (intro exI [of _ "sent @ sent'"]) (simp add: uart_tx_put_def)
next
  case (intr u ins)
  then obtain sent where s: "uart_inv u" "regs u = regs u0 @ map (Pair THR) sent" "ins = sent @ uart_content u" by blast
  obtain sent' where "uart_inv (uartstart u)" "uart_content u = sent' @ uart_content (uartstart u)"
    "regs (uartstart u) = regs u @ map (Pair THR) sent'" using uartstart_sends [OF s(1)] by blast
  then show ?case using s by (intro exI [of _ "sent @ sent'"]) simp
next
  case (hardware u ins vs)
  then show ?case by (simp add: uart_inv_def uart_content_def)
qed

lemma uartstart_drains_lemma:
  "uart_inv u \<Longrightarrow> \<forall>v \<in> set (lsr u). v AND LSR_TX_IDLE \<noteq> 0 \<Longrightarrow> length (uart_content u) \<le> length (lsr u) \<Longrightarrow>
     uart_content (uartstart u) = []"
proof (induction u rule: uartstart.induct)
  case (1 u)
  show ?case
  proof (cases "uart_tx_empty u")
    case True
    then show ?thesis using utx.empty_iff [OF 1(2)] by (simp add: uartstart.simps [of u])
  next
    case False
    then have "uart_content u \<noteq> []" using utx.empty_iff [OF 1(2)] by simp
    then obtain v vs where l: "lsr u = v # vs" using 1(4) by (cases "lsr u") auto
    then have r: "read_lsr u = (v, u\<lparr>lsr := vs\<rparr>)" by (simp add: read_lsr_def)
    obtain c u2 where g: "uart_tx_get (u\<lparr>lsr := vs\<rparr>) = (c, u2)" by force
    let ?u3 = "WriteReg THR c (u2\<lparr>woken := woken u2 @ [UART_TX_R]\<rparr>)"
    have idle: "v AND LSR_TX_IDLE \<noteq> 0" using 1(3) l by simp
    have step: "uartstart u = uartstart ?u3" using False r g idle by (simp add: uartstart.simps [of u] Let_def)
    have "uart_inv u2" "uart_content u = c # uart_content u2"
      using utx.take_ok [of "u\<lparr>lsr := vs\<rparr>" c u2] uart_inv_cong [of "u\<lparr>lsr := vs\<rparr>" u] 1(2) False g by auto
    then have "uart_inv ?u3" "uart_content u = c # uart_content ?u3" "lsr ?u3 = vs"
      using g by (auto simp: uart_inv_def uart_content_def WriteReg_def uart_tx_get_def)
    then have "uart_content (uartstart ?u3) = []"
      using 1(3,4) l by (intro 1(1) [OF False r [symmetric] refl idle g [symmetric] refl refl]) auto
    then show ?thesis by (simp add: step)
  qed
qed

section \<open>Properties\<close>

text \<open>
  C22. The UART sends exactly the characters \<^verbatim>\<open>uartputc\<close> accepted, in order and without loss
  or repetition, whatever the hardware reports and however calls and interrupts interleave:
  the accepted characters are those written to the transmit register, then those buffered.
\<close>

theorem uart_fifo:
  assumes "uart_run u0 u ins" "uart_inv u0" "uart_content u0 = []"
  shows "\<exists>sent. regs u = regs u0 @ map (Pair THR) sent \<and> ins = sent @ uart_content u \<and> length (uart_content u) \<le> 32"
  using uart_run_fifo [OF assms] utx.bound [of u] by (auto simp: UART_TX_BUF_SIZE_def)

definition uart_example :: uart where
  "uart_example = \<lparr>lsr = [0x20, 0], rhr = [], regs = [], woken = [], uart_tx_buf = replicate 32 0, uart_tx_w = 0, uart_tx_r = 0\<rparr>"

lemma uart_example_ok: "uart_inv uart_example" "uart_content uart_example = []"
  by (simp_all add: uart_inv_def uart_content_def uart_example_def UART_TX_BUF_SIZE_def)

theorem uart_fifo_witness:
  "\<exists>u sent. uart_run uart_example u [65, 66] \<and> regs u = map (Pair THR) sent \<and> [65, 66] = sent @ uart_content u"
proof -
  have put: "uart_tx_full uart_example = False" by (simp add: uart_tx_full_def uart_example_def UART_TX_BUF_SIZE_def)
  let ?u1 = "uartstart (uart_tx_put 65 uart_example)"
  have u1: "uartputc False 65 uart_example = Ok ?u1" by (simp add: uartputc_def put)
  have run1: "uart_run uart_example ?u1 ([] @ [65])" by (rule uart_run.putc [OF uart_run.boot u1])
  obtain sent where "uart_inv ?u1" "[65] = sent @ uart_content ?u1"
    using uart_run_fifo [OF run1 uart_example_ok] by auto
  then have "length (uart_content ?u1) \<le> 1" by (metis length_append le_add2 One_nat_def length_Cons list.size(3))
  then have "\<not> uart_tx_full ?u1" using utx.full_iff [OF \<open>uart_inv ?u1\<close>] by (simp add: UART_TX_BUF_SIZE_def)
  then have u2: "uartputc False 66 ?u1 = Ok (uartstart (uart_tx_put 66 ?u1))" by (simp add: uartputc_def)
  have run2: "uart_run uart_example (uartstart (uart_tx_put 66 ?u1)) (([] @ [65]) @ [66])"
    by (rule uart_run.putc [OF run1 u2])
  have "regs uart_example = []" by (simp add: uart_example_def)
  then show ?thesis using uart_fifo [OF run2 uart_example_ok] run2 by auto
qed

text \<open>
  C38. When the device reports an idle transmitter as often as there are characters, one
  call of \<^verbatim>\<open>uartstart\<close> empties the buffer: no character stays behind.
\<close>

theorem uartstart_drains:
  assumes "uart_inv u" "\<forall>v \<in> set (lsr u). v AND LSR_TX_IDLE \<noteq> 0" "length (uart_content u) \<le> length (lsr u)"
  shows "uart_content (uartstart u) = []"
  by (rule uartstart_drains_lemma [OF assms])

theorem uartstart_drains_witness: "uart_content (uartstart (uart_tx_put 65 (uart_example\<lparr>lsr := [0x20]\<rparr>))) = []"
proof -
  let ?u = "uart_example\<lparr>lsr := [0x20]\<rparr>"
  have "\<not> uart_tx_full ?u" by (simp add: uart_tx_full_def uart_example_def UART_TX_BUF_SIZE_def)
  moreover have "uart_inv ?u" "uart_content ?u = []"
    using uart_example_ok uart_inv_cong [of ?u uart_example] by auto
  ultimately have "uart_inv (uart_tx_put 65 ?u)" "uart_content (uart_tx_put 65 ?u) = [65]"
    using utx.put_ok [of ?u 65] by auto
  then show ?thesis by (intro uartstart_drains) (auto simp: uart_tx_put_def LSR_TX_IDLE_def)
qed

end
