(* ===== verification/Console.thy ===== *)
theory Console
  imports Uart UserByte
begin

text \<open>
  \<^verbatim>\<open>kernel/console.c\<close> and the interrupt handler of \<^verbatim>\<open>kernel/uart.c\<close> that feeds it. The input
  buffer has three counters: \<open>r\<close>, \<open>w\<close> and \<open>e\<close>; the bytes between \<open>r\<close> and \<open>w\<close> are lines ready
  for \<^verbatim>\<open>consoleread\<close>, those between \<open>w\<close> and \<open>e\<close> the line being edited. \<open>line_step\<close> is the line
  discipline on two lists that \<^verbatim>\<open>consoleintr\<close> implements. \<open>dump\<close> is the text \<^verbatim>\<open>procdump\<close>
  prints. Calls that sleep return what they need to be resumed.
\<close>

unbundle bit_operations_syntax

definition BACKSPACE :: int where "BACKSPACE = 0x100"
definition INPUT_BUF_SIZE :: nat where "INPUT_BUF_SIZE = 128"
definition CTRL :: "int \<Rightarrow> int" where "CTRL x = x - 64"

record cons = uart +
  cbuf :: "uchar list"
  cons_r :: uint
  cons_w :: uint
  cons_e :: uint

definition consputc :: "bool \<Rightarrow> int \<Rightarrow> 'z uart_scheme \<Rightarrow> 'z uart_scheme result" where
  "consputc panicked c u =
     (if c = BACKSPACE
      then bindR (uartputc_sync panicked 8 u) (\<lambda>u.
           bindR (uartputc_sync panicked 32 u) (\<lambda>u. uartputc_sync panicked 8 u))
      else uartputc_sync panicked (of_int c) u)"

fun puts_sync :: "bool \<Rightarrow> uchar list \<Rightarrow> 'z uart_scheme \<Rightarrow> 'z uart_scheme result" where
  "puts_sync panicked [] u = Ok u"
| "puts_sync panicked (c # cs) u = bindR (uartputc_sync panicked c u) (puts_sync panicked cs)"

text \<open>Kill line: \<^verbatim>\<open>while(cons.e != cons.w && cons.buf[(cons.e-1) % INPUT_BUF_SIZE] != '\n')\<close>\<close>

function kill_line :: "bool \<Rightarrow> cons \<Rightarrow> cons result" where
  "kill_line panicked s =
     (if cons_e s \<noteq> cons_w s \<and> cbuf s ! unat ((cons_e s - 1) mod of_nat INPUT_BUF_SIZE) \<noteq> 10
      then bindR (consputc panicked BACKSPACE (s\<lparr>cons_e := cons_e s - 1\<rparr>)) (kill_line panicked)
      else Ok s)"
  by pat_completeness auto

lemma uartputc_sync_frame:
  assumes "uartputc_sync panicked c s = Ok s'"
  shows "\<exists>vs. s' = s\<lparr>lsr := vs, regs := regs s @ [(THR, c)]\<rparr> \<and> uart_spin (lsr s) = Some vs"
  using assms by (auto simp: uartputc_sync_def WriteReg_def split: if_splits option.splits)

lemma consputc_frame:
  assumes "consputc panicked c s = Ok (s' :: cons)"
  shows "cons_e s' = cons_e s" "cons_w s' = cons_w s" "cons_r s' = cons_r s" "cbuf s' = cbuf s"
    "rhr s' = rhr s" "uart_tx_w s' = uart_tx_w s" "uart_tx_r s' = uart_tx_r s" "uart_tx_buf s' = uart_tx_buf s"
proof -
  have "\<exists>vs rs. s' = s\<lparr>lsr := vs, regs := rs\<rparr>"
    using assms by (auto simp: consputc_def dest!: uartputc_sync_frame split: if_splits; blast)
  then show "cons_e s' = cons_e s" "cons_w s' = cons_w s" "cons_r s' = cons_r s" "cbuf s' = cbuf s"
    "rhr s' = rhr s" "uart_tx_w s' = uart_tx_w s" "uart_tx_r s' = uart_tx_r s" "uart_tx_buf s' = uart_tx_buf s"
    by auto
qed

termination kill_line
proof (relation "measure (\<lambda>(panicked, s). unat (cons_e s - cons_w s))", goal_cases)
  case 1
  then show ?case by simp
next
  case (2 panicked s x)
  then have "cons_e s \<noteq> cons_w s" by simp
  then have "unat (cons_e s - cons_w s - 1) < unat (cons_e s - cons_w s)"
    using unat_minus_one [of "cons_e s - cons_w s"] by (simp add: unat_gt_0)
  moreover have "cons_e s - cons_w s - 1 = cons_e s - 1 - cons_w s" by simp
  ultimately show ?case using consputc_frame [OF 2(2)] by simp
qed

declare kill_line.simps [simp del]

definition consoleintr :: "bool \<Rightarrow> uchar list \<Rightarrow> int \<Rightarrow> cons \<Rightarrow> cons result" where
  "consoleintr panicked dump c s =
     (if c = CTRL 80 then puts_sync panicked dump s
      else if c = CTRL 85 then kill_line panicked s
      else if c = CTRL 72 \<or> c = 0x7f
      then if cons_e s \<noteq> cons_w s then consputc panicked BACKSPACE (s\<lparr>cons_e := cons_e s - 1\<rparr>) else Ok s
      else if c \<noteq> 0 \<and> cons_e s - cons_r s < of_nat INPUT_BUF_SIZE
      then
        let c = (if c = 13 then 10 else c) in
        bindR (consputc panicked c s) (\<lambda>s.
          let s = s\<lparr>cbuf := (cbuf s)[unat (cons_e s mod of_nat INPUT_BUF_SIZE) := of_int c], cons_e := cons_e s + 1\<rparr> in
          Ok (if c = 10 \<or> c = CTRL 68 \<or> cons_e s - cons_r s = of_nat INPUT_BUF_SIZE
              then s\<lparr>cons_w := cons_e s, woken := woken s @ [CONS_R]\<rparr>
              else s))
      else Ok s)"

lemma uart_spin_shorter: "uart_spin vs = Some vs' \<Longrightarrow> length vs' < length vs"
  by (induction vs) (auto split: if_splits)

lemma puts_sync_shorter: "puts_sync panicked cs u = Ok u' \<Longrightarrow> length (lsr u') \<le> length (lsr u)"
proof (induction cs arbitrary: u)
  case (Cons c cs)
  then obtain u1 where u1: "uartputc_sync panicked c u = Ok u1" "puts_sync panicked cs u1 = Ok u'" by auto
  from uartputc_sync_frame [OF u1(1)] have "length (lsr u1) < length (lsr u)" by (auto dest: uart_spin_shorter)
  with Cons.IH [OF u1(2)] show ?case by simp
qed simp

lemma bindR_Ok_right [simp]: "bindR m Ok = m"
  by (cases m) auto

lemma consputc_puts: "consputc panicked c u = puts_sync panicked (if c = BACKSPACE then [8, 32, 8] else [of_int c]) u"
proof -
  have "puts_sync panicked [] = (Ok :: 'a uart_scheme \<Rightarrow> _)"
    "puts_sync panicked (x # xs) = (\<lambda>u :: 'a uart_scheme. bindR (uartputc_sync panicked x u) (puts_sync panicked xs))" for x xs
    by (simp_all add: fun_eq_iff)
  then show ?thesis by (simp add: consputc_def)
qed

lemma consputc_shorter: "consputc panicked c u = Ok u' \<Longrightarrow> length (lsr u') \<le> length (lsr u)"
  by (simp only: consputc_puts puts_sync_shorter)

lemma kill_line_shorter: "kill_line panicked s = Ok s' \<Longrightarrow> length (lsr s') \<le> length (lsr s)"
proof (induction panicked s rule: kill_line.induct)
  case (1 panicked s)
  show ?case
  proof (cases "cons_e s \<noteq> cons_w s \<and> cbuf s ! unat ((cons_e s - 1) mod of_nat INPUT_BUF_SIZE) \<noteq> 10")
    case True
    with 1(2) obtain s1 where s1: "consputc panicked BACKSPACE (s\<lparr>cons_e := cons_e s - 1\<rparr>) = Ok s1"
      "kill_line panicked s1 = Ok s'" by (auto simp: kill_line.simps [of panicked s])
    then have "length (lsr s1) \<le> length (lsr s)"
      using consputc_shorter [OF s1(1)] by simp
    with 1(1) [OF True s1] show ?thesis by simp
  qed (use 1(2) in \<open>auto simp: kill_line.simps [of panicked s] split: if_splits\<close>)
qed

lemma consoleintr_shorter:
  assumes "consoleintr panicked dump c s = Ok s'"
  shows "length (lsr s') \<le> length (lsr s)"
  using assms consputc_shorter [of panicked BACKSPACE "s\<lparr>cons_e := cons_e s - 1\<rparr>" s']
  by (auto simp: consoleintr_def Let_def dest: consputc_shorter puts_sync_shorter kill_line_shorter split: if_splits)

text \<open>
  \<^verbatim>\<open>uartintr\<close>: every pending input byte goes to \<^verbatim>\<open>consoleintr\<close>; the loop ends at the first read
  of the line status that reports no input.
\<close>

function uartintr_input :: "bool \<Rightarrow> uchar list \<Rightarrow> cons \<Rightarrow> cons result" where
  "uartintr_input panicked dump s =
     (let (c, s') = uartgetc s in
      if c = -1 then Ok s'
      else bindR (consoleintr panicked dump c s') (uartintr_input panicked dump))"
  by pat_completeness auto
termination
proof (relation "measure (\<lambda>(panicked, dump, s). length (lsr s))", goal_cases)
  case 1
  then show ?case by simp
next
  case (2 panicked dump s x c s1 s2)
  then have "length (lsr s1) < length (lsr s)"
    by (auto simp: uartgetc_def read_lsr_def read_rhr_def split: list.splits if_splits)
  with consoleintr_shorter [OF 2(4)] show ?case by simp
qed

declare uartintr_input.simps [simp del]

definition uartintr :: "bool \<Rightarrow> uchar list \<Rightarrow> cons \<Rightarrow> cons result" where
  "uartintr panicked dump s = bindR (uartintr_input panicked dump s) (\<lambda>s. Ok (uartstart s))"

definition consoleinit :: "cons \<Rightarrow> cons" where
  "consoleinit s = uartinit s"

text \<open>
  \<^verbatim>\<open>consoleread\<close>: \<open>CSleep dst n\<close> is a reader asleep on \<^verbatim>\<open>&cons.r\<close>, to be resumed with those
  values of its variables. The local \<^verbatim>\<open>cbuf\<close> has the address \<open>cbufp\<close>.
\<close>

datatype cons_out = CRet int | CSleep uint64 int

function consoleread_loop :: "uint64 \<Rightarrow> bool \<Rightarrow> uint64 \<Rightarrow> bool \<Rightarrow> int \<Rightarrow> uint64 \<Rightarrow> int \<Rightarrow> cons \<Rightarrow> 'z kmem_scheme \<Rightarrow>
    cons_out \<times> cons \<times> 'z kmem_scheme" where
  "consoleread_loop pagetable user_dst cbufp killed target dst n k s =
     (if 0 < n then
        if cons_r k = cons_w k then (if killed then (CRet (-1), k, s) else (CSleep dst n, k, s))
        else
          let c = cbuf k ! unat (cons_r k mod of_nat INPUT_BUF_SIZE);
              k = k\<lparr>cons_r := cons_r k + 1\<rparr>
          in
          if uint c = CTRL 68
          then (CRet (target - n), if n < target then k\<lparr>cons_r := cons_r k - 1\<rparr> else k, s)
          else
            let s = s\<lparr>mem := (mem s)(cbufp := c)\<rparr>;
                (r, s) = either_copyout pagetable user_dst dst cbufp 1 s
            in
            if r = -1 then (CRet (target - n), k, s)
            else if c = 10 then (CRet (target - (n - 1)), k, s)
            else consoleread_loop pagetable user_dst cbufp killed target (dst + 1) (n - 1) k s
      else (CRet (target - n), k, s))"
  by pat_completeness auto
termination
  by (relation "measure (\<lambda>(pagetable, user_dst, cbufp, killed, target, dst, n, k, s). nat n)") auto

declare consoleread_loop.simps [simp del]

definition consoleread :: "uint64 \<Rightarrow> bool \<Rightarrow> uint64 \<Rightarrow> bool \<Rightarrow> uint64 \<Rightarrow> cint \<Rightarrow> cons \<Rightarrow> 'z kmem_scheme \<Rightarrow>
    cons_out \<times> cons \<times> 'z kmem_scheme" where
  "consoleread pagetable user_dst cbufp killed dst n k s =
     consoleread_loop pagetable user_dst cbufp killed (sint n) dst (sint n) k s"

text \<open>
  \<^verbatim>\<open>consolewrite\<close>: \<open>WWait i c\<close> is a writer inside \<^verbatim>\<open>uartputc(c)\<close> for byte \<open>i\<close>, asleep until the
  transmit buffer has room (or stopped for ever after a panic); \<open>consolewrite_resume\<close> is its
  next segment.
\<close>

datatype cons_wout = WRet int | WWait int uchar

function consolewrite_loop :: "uint64 \<Rightarrow> bool \<Rightarrow> uint64 \<Rightarrow> bool \<Rightarrow> uint64 \<Rightarrow> int \<Rightarrow> int \<Rightarrow> cons \<Rightarrow> 'z kmem_scheme \<Rightarrow>
    cons_wout \<times> cons \<times> 'z kmem_scheme" where
  "consolewrite_loop pagetable user_src cp panicked src n i k s =
     (if i < n then
        let (r, s) = either_copyin pagetable cp user_src (src + of_int i) 1 s in
        if r = -1 then (WRet i, k, s)
        else case uartputc panicked (mem s cp) k of
            Ok k \<Rightarrow> consolewrite_loop pagetable user_src cp panicked src n (i + 1) k s
          | _ \<Rightarrow> (WWait i (mem s cp), k, s)
      else (WRet i, k, s))"
  by pat_completeness auto
termination
  by (relation "measure (\<lambda>(pagetable, user_src, cp, panicked, src, n, i, k, s). nat (n - i))") auto

declare consolewrite_loop.simps [simp del]

definition consolewrite :: "uint64 \<Rightarrow> bool \<Rightarrow> uint64 \<Rightarrow> bool \<Rightarrow> uint64 \<Rightarrow> cint \<Rightarrow> cons \<Rightarrow> 'z kmem_scheme \<Rightarrow>
    cons_wout \<times> cons \<times> 'z kmem_scheme" where
  "consolewrite pagetable user_src cp panicked src n k s =
     consolewrite_loop pagetable user_src cp panicked src (sint n) 0 k s"

definition consolewrite_resume :: "uint64 \<Rightarrow> bool \<Rightarrow> uint64 \<Rightarrow> bool \<Rightarrow> uint64 \<Rightarrow> int \<Rightarrow> int \<Rightarrow> uchar \<Rightarrow> cons \<Rightarrow> 'z kmem_scheme \<Rightarrow>
    cons_wout \<times> cons \<times> 'z kmem_scheme" where
  "consolewrite_resume pagetable user_src cp panicked src n i c k s =
     (case uartputc panicked c k of
         Ok k \<Rightarrow> consolewrite_loop pagetable user_src cp panicked src n (i + 1) k s
       | _ \<Rightarrow> (WWait i c, k, s))"

section \<open>The line discipline\<close>

definition committed :: "cons \<Rightarrow> uchar list" where
  "committed s = ring_list INPUT_BUF_SIZE (cbuf s) (cons_r s) (cons_w s)"

definition edited :: "cons \<Rightarrow> uchar list" where
  "edited s = ring_list INPUT_BUF_SIZE (cbuf s) (cons_w s) (cons_e s)"

definition cons_inv :: "cons \<Rightarrow> bool" where
  "cons_inv s \<longleftrightarrow> length (cbuf s) = INPUT_BUF_SIZE \<and> unat (cons_w s - cons_r s) + unat (cons_e s - cons_w s) \<le> INPUT_BUF_SIZE \<and>
     10 \<notin> set (edited s)"

fun line_step :: "int \<Rightarrow> uchar list \<times> uchar list \<Rightarrow> uchar list \<times> uchar list" where
  "line_step c (done_l, line) =
     (if c = 16 then (done_l, line)
      else if c = 21 then (done_l, [])
      else if c = 8 \<or> c = 127 then (done_l, butlast line)
      else if c = 0 \<or> 128 \<le> length done_l + length line then (done_l, line)
      else
        let c = (if c = 13 then 10 else c) in
        if c = 10 \<or> c = 4 \<or> length done_l + length line + 1 = 128 then (done_l @ line @ [of_int c], [])
        else (done_l, line @ [of_int c]))"

fun echo :: "uchar list \<Rightarrow> int \<Rightarrow> uchar list \<times> uchar list \<Rightarrow> uchar list" where
  "echo dump c (done_l, line) =
     (if c = 16 then dump
      else if c = 21 then concat (replicate (length line) [8, 32, 8])
      else if c = 8 \<or> c = 127 then (if line = [] then [] else [8, 32, 8])
      else if c = 0 \<or> 128 \<le> length done_l + length line then []
      else [of_int (if c = 13 then 10 else c)])"

definition idle_count :: "uchar list \<Rightarrow> nat" where
  "idle_count vs = length (filter (\<lambda>v. v AND LSR_TX_IDLE \<noteq> 0) vs)"

lemma uart_spin_idle: "0 < idle_count vs \<Longrightarrow> \<exists>vs'. uart_spin vs = Some vs' \<and> idle_count vs = Suc (idle_count vs')"
  by (induction vs) (auto simp: idle_count_def)

lemma puts_sync_ok:
  "length cs \<le> idle_count (lsr u) \<Longrightarrow>
   \<exists>vs. puts_sync False cs u = Ok (u\<lparr>lsr := vs, regs := regs u @ map (Pair THR) cs\<rparr>) \<and>
        idle_count (lsr u) = idle_count vs + length cs"
proof (induction cs arbitrary: u)
  case Nil
  then show ?case by (intro exI [of _ "lsr u"]) simp
next
  case (Cons c cs)
  then obtain vs1 where vs1: "uart_spin (lsr u) = Some vs1" "idle_count (lsr u) = Suc (idle_count vs1)"
    using uart_spin_idle [of "lsr u"] by auto
  let ?u = "u\<lparr>lsr := vs1, regs := regs u @ [(THR, c)]\<rparr>"
  have u: "uartputc_sync False c u = Ok ?u" by (simp add: uartputc_sync_def vs1 WriteReg_def)
  have "length cs \<le> idle_count (lsr ?u)" using Cons.prems vs1 by simp
  from Cons.IH [OF this] obtain vs where
    "puts_sync False cs ?u = Ok (?u\<lparr>lsr := vs, regs := regs ?u @ map (Pair THR) cs\<rparr>)" "idle_count vs1 = idle_count vs + length cs"
    by auto
  then show ?case using u vs1 by (intro exI [of _ vs]) simp
qed

lemma cons_idx: "unat (i mod of_nat INPUT_BUF_SIZE) = ring_idx INPUT_BUF_SIZE i" for i :: uint
  by (simp add: ring_idx_def INPUT_BUF_SIZE_def unat_mod)

lemma erase_ok:
  "3 \<le> idle_count (lsr s) \<Longrightarrow>
   \<exists>vs. consputc False BACKSPACE s = Ok (s\<lparr>lsr := vs, regs := regs s @ [(THR, 8), (THR, 32), (THR, 8)]\<rparr>) \<and>
        idle_count (lsr s) = idle_count vs + 3"
  using puts_sync_ok [of "[8, 32, 8]" s] by (simp add: consputc_puts eval_nat_numeral)

lemma echo_ok:
  "c \<noteq> BACKSPACE \<Longrightarrow> 1 \<le> idle_count (lsr s) \<Longrightarrow>
   \<exists>vs. consputc False c s = Ok (s\<lparr>lsr := vs, regs := regs s @ [(THR, of_int c)]\<rparr>)"
  using puts_sync_ok [of "[of_int c]" s] by (auto simp: consputc_puts)

lemma edited_Nil: "edited s = [] \<longleftrightarrow> cons_e s = cons_w s"
  by (simp add: edited_def ring_list_Nil)

lemma kill_line_ok:
  "cons_inv s \<Longrightarrow> 3 * length (edited s) \<le> idle_count (lsr s) \<Longrightarrow>
   \<exists>vs. kill_line False s = Ok (s\<lparr>lsr := vs, regs := regs s @ map (Pair THR) (concat (replicate (length (edited s)) [8, 32, 8])), cons_e := cons_w s\<rparr>)"
proof (induction "length (edited s)" arbitrary: s)
  case 0
  then have "cons_e s = cons_w s" by (simp add: edited_Nil [symmetric])
  then show ?case using 0(1) by (intro exI [of _ "lsr s"]) (simp add: kill_line.simps [of False s])
next
  case (Suc n)
  then have ne: "cons_e s \<noteq> cons_w s" using edited_Nil [of s] by auto
  let ?s = "s\<lparr>cons_e := cons_e s - 1\<rparr>"
  have ed: "edited s = edited ?s @ [cbuf s ! ring_idx INPUT_BUF_SIZE (cons_e s - 1)]"
    using ring_unput [OF ne, of INPUT_BUF_SIZE "cbuf s"] by (simp add: edited_def)
  then have n: "length (edited ?s) = n" using Suc(2) by simp
  have "cons_e s \<noteq> cons_w s \<and> cbuf s ! unat ((cons_e s - 1) mod of_nat INPUT_BUF_SIZE) \<noteq> 10"
    using ne Suc.prems(1) ed by (auto simp: cons_inv_def cons_idx)
  then have step: "kill_line False s = bindR (consputc False BACKSPACE ?s) (kill_line False)"
    by (simp add: kill_line.simps [of False s])
  have "3 \<le> idle_count (lsr ?s)" using Suc.prems(2) Suc(2) by simp
  from erase_ok [OF this] obtain vs where
    vs: "consputc False BACKSPACE ?s = Ok (?s\<lparr>lsr := vs, regs := regs s @ [(THR, 8), (THR, 32), (THR, 8)]\<rparr>)"
    "idle_count (lsr s) = idle_count vs + 3" by auto
  let ?t = "?s\<lparr>lsr := vs, regs := regs s @ [(THR, 8), (THR, 32), (THR, 8)]\<rparr>"
  have edt: "edited ?t = edited ?s" by (simp add: edited_def)
  have "length (edited s) = unat (cons_e s - cons_w s)" "length (edited ?s) = unat (cons_e s - 1 - cons_w s)"
    by (simp_all add: edited_def)
  then have inv: "cons_inv ?t" using Suc.prems(1) ed edt n Suc(2) by (simp add: cons_inv_def)
  have "3 * length (edited ?t) \<le> idle_count (lsr ?t)" using Suc.prems(2) vs(2) edt n Suc(2) by simp
  from Suc.hyps(1) [OF _ inv this] obtain vs' where "kill_line False ?t =
     Ok (?t\<lparr>lsr := vs', regs := regs ?t @ map (Pair THR) (concat (replicate n [8, 32, 8])), cons_e := cons_w ?t\<rparr>)"
    using edt n by auto
  then show ?case using step vs(1) Suc(2) [symmetric] by (intro exI [of _ vs']) simp
qed

lemma cons_lengths:
  assumes "cons_inv s"
  shows "unat (cons_e s - cons_r s) = length (committed s) + length (edited s)"
    "ring_list INPUT_BUF_SIZE (cbuf s) (cons_r s) (cons_e s) = committed s @ edited s"
proof -
  have "unat (cons_w s - cons_r s) + unat (cons_e s - cons_w s) < 2 ^ LENGTH(32)"
    using assms by (simp add: cons_inv_def INPUT_BUF_SIZE_def)
  from ring_append [OF this] show app: "ring_list INPUT_BUF_SIZE (cbuf s) (cons_r s) (cons_e s) = committed s @ edited s"
    by (simp add: committed_def edited_def)
  show "unat (cons_e s - cons_r s) = length (committed s) + length (edited s)"
    using arg_cong [OF app, of length] by simp
qed

text \<open>Storing a character after the line being edited.\<close>

lemma store_char:
  fixes s :: cons and x :: uchar
  assumes inv: "cons_inv s" and room: "length (committed s) + length (edited s) < INPUT_BUF_SIZE"
  defines "t \<equiv> s\<lparr>cbuf := (cbuf s)[ring_idx INPUT_BUF_SIZE (cons_e s) := x], cons_e := cons_e s + 1\<rparr>"
  shows "committed t = committed s" "edited t = edited s @ [x]" "length (cbuf t) = INPUT_BUF_SIZE"
    "unat (cons_e t - cons_r t) = length (committed s) + length (edited s) + 1"
    "ring_list INPUT_BUF_SIZE (cbuf t) (cons_r t) (cons_e t) = committed s @ edited s @ [x]"
proof -
  have N: "INPUT_BUF_SIZE dvd 2 ^ LENGTH(32)" "INPUT_BUF_SIZE < 2 ^ LENGTH(32)" by (simp_all add: INPUT_BUF_SIZE_def)
  have len: "length (cbuf s) = INPUT_BUF_SIZE" using inv by (simp add: cons_inv_def)
  show "length (cbuf t) = INPUT_BUF_SIZE" by (simp add: t_def len)
  note cl = cons_lengths [OF inv]
  have "unat (cons_e s - cons_r s) < INPUT_BUF_SIZE" using cl room by simp
  from ring_put [OF N(1) this len N(2), of x] cl(2)
  show all: "ring_list INPUT_BUF_SIZE (cbuf t) (cons_r t) (cons_e t) = committed s @ edited s @ [x]" by (simp add: t_def)
  show "unat (cons_e t - cons_r t) = length (committed s) + length (edited s) + 1"
    using arg_cong [OF all, of length] by simp
  have "unat (cons_e s - cons_w s) < INPUT_BUF_SIZE" using room by (simp add: edited_def)
  from ring_put [OF N(1) this len N(2), of x] show ed: "edited t = edited s @ [x]" by (simp add: t_def edited_def)
  have "unat (cons_w t - cons_r t) = length (committed s)" "unat (cons_e t - cons_w t) = length (edited s) + 1"
    using arg_cong [OF ed, of length] by (simp_all add: edited_def committed_def t_def)
  then have "unat (cons_w t - cons_r t) + unat (cons_e t - cons_w t) < 2 ^ LENGTH(32)"
    using room by (simp add: INPUT_BUF_SIZE_def)
  from ring_append [OF this, of INPUT_BUF_SIZE "cbuf t"] all ed
  show "committed t = committed s" by (simp add: committed_def edited_def)
qed

text \<open>What the line discipline promises for one input character.\<close>

definition intr_done :: "uchar list \<Rightarrow> int \<Rightarrow> cons \<Rightarrow> cons \<Rightarrow> bool" where
  "intr_done dump c s s' \<longleftrightarrow> cons_inv s' \<and> (committed s', edited s') = line_step c (committed s, edited s) \<and>
     regs s' = regs s @ map (Pair THR) (echo dump c (committed s, edited s)) \<and>
     woken s' = woken s @ (if committed s' = committed s then [] else [CONS_R])"

lemma committed_cong: "cbuf s' = cbuf s \<Longrightarrow> cons_r s' = cons_r s \<Longrightarrow> cons_w s' = cons_w s \<Longrightarrow> committed s' = committed s"
  by (simp add: committed_def)

lemma consoleintr_erase:
  assumes inv: "cons_inv s" and c: "c = 8 \<or> c = 127" and idle: "length (echo dump c (committed s, edited s)) \<le> idle_count (lsr s)"
  shows "\<exists>s'. consoleintr False dump c s = Ok s' \<and> intr_done dump c s s'"
proof (cases "cons_e s = cons_w s")
  case True
  then have "edited s = []" by (simp add: edited_Nil)
  moreover have "consoleintr False dump c s = Ok s" using c True by (auto simp: consoleintr_def CTRL_def)
  ultimately show ?thesis using c inv by (auto simp: intr_done_def)
next
  case False
  let ?s = "s\<lparr>cons_e := cons_e s - 1\<rparr>"
  have ed: "edited s = edited ?s @ [cbuf s ! ring_idx INPUT_BUF_SIZE (cons_e s - 1)]"
    using ring_unput [OF False, of INPUT_BUF_SIZE "cbuf s"] by (simp add: edited_def)
  have "3 \<le> idle_count (lsr ?s)" using idle c ed by auto
  from erase_ok [OF this] obtain vs where
    vs: "consputc False BACKSPACE ?s = Ok (?s\<lparr>lsr := vs, regs := regs s @ [(THR, 8), (THR, 32), (THR, 8)]\<rparr>)" by auto
  let ?t = "?s\<lparr>lsr := vs, regs := regs s @ [(THR, 8), (THR, 32), (THR, 8)]\<rparr>"
  have t: "edited ?t = edited ?s" "committed ?t = committed s" by (simp_all add: edited_def committed_def)
  have "length (edited s) = unat (cons_e s - cons_w s)" "length (edited ?s) = unat (cons_e s - 1 - cons_w s)"
    by (simp_all add: edited_def)
  then have it: "cons_inv ?t" using inv ed t by (simp add: cons_inv_def)
  have run: "consoleintr False dump c s = Ok ?t" using c False by (elim disjE) (simp_all add: consoleintr_def CTRL_def vs)
  have "line_step c (committed s, edited s) = (committed s, edited ?s)" "echo dump c (committed s, edited s) = [8, 32, 8]"
    using c unfolding ed by auto
  with it have "intr_done dump c s ?t" unfolding intr_done_def t by simp
  then show ?thesis using run by blast
qed

lemma consoleintr_kill:
  assumes inv: "cons_inv s" and idle: "length (echo dump 21 (committed s, edited s)) \<le> idle_count (lsr s)"
  shows "\<exists>s'. consoleintr False dump 21 s = Ok s' \<and> intr_done dump 21 s s'"
proof -
  have "length (concat (replicate n [8, 32, 8 :: uchar])) = 3 * n" for n by (induction n) auto
  with idle have "3 * length (edited s) \<le> idle_count (lsr s)" by simp
  from kill_line_ok [OF inv this] obtain vs where k: "kill_line False s =
    Ok (s\<lparr>lsr := vs, regs := regs s @ map (Pair THR) (concat (replicate (length (edited s)) [8, 32, 8])), cons_e := cons_w s\<rparr>)"
    (is "_ = Ok ?t") by blast
  have "consoleintr False dump 21 s = Ok ?t" using k by (simp add: consoleintr_def CTRL_def)
  moreover have "edited ?t = []" "committed ?t = committed s" by (simp_all add: edited_def committed_def)
  moreover from this have "cons_inv ?t" using inv by (simp add: cons_inv_def)
  ultimately show ?thesis by (intro exI [of _ ?t]) (simp add: intr_done_def)
qed

lemma consoleintr_dump:
  assumes inv: "cons_inv s" and idle: "length dump \<le> idle_count (lsr s)"
  shows "\<exists>s'. consoleintr False dump 16 s = Ok s' \<and> intr_done dump 16 s s'"
proof -
  from puts_sync_ok [OF idle] obtain vs where k: "puts_sync False dump s = Ok (s\<lparr>lsr := vs, regs := regs s @ map (Pair THR) dump\<rparr>)"
    (is "_ = Ok ?t") by blast
  have t: "committed ?t = committed s" "edited ?t = edited s" by (simp_all add: edited_def committed_def)
  then have "cons_inv ?t" using inv by (simp add: cons_inv_def)
  moreover have "consoleintr False dump 16 s = Ok ?t" using k by (simp add: consoleintr_def CTRL_def)
  ultimately show ?thesis using t by (intro exI [of _ ?t]) (simp add: intr_done_def)
qed

lemma consoleintr_store:
  assumes inv: "cons_inv s" and c: "0 \<le> c" "c < 256" "c \<notin> {8, 16, 21, 127}"
    and idle: "length (echo dump c (committed s, edited s)) \<le> idle_count (lsr s)"
  shows "\<exists>s'. consoleintr False dump c s = Ok s' \<and> intr_done dump c s s'"
proof -
  note cl = cons_lengths [OF inv]
  have guard: "cons_e s - cons_r s < of_nat INPUT_BUF_SIZE \<longleftrightarrow> length (committed s) + length (edited s) < 128"
    using cl(1) by (simp add: word_less_nat_alt INPUT_BUF_SIZE_def)
  show ?thesis
  proof (cases "c = 0 \<or> 128 \<le> length (committed s) + length (edited s)")
    case True
    then have "consoleintr False dump c s = Ok s" using guard c by (auto simp: consoleintr_def CTRL_def)
    then show ?thesis using True c inv by (auto simp: intr_done_def)
  next
    case False
    define d where "d = (if c = 13 then 10 else c)"
    have d: "d \<noteq> BACKSPACE" "of_int d = (10 :: uchar) \<longleftrightarrow> d = 10"
    proof -
      show "d \<noteq> BACKSPACE" using c by (simp add: d_def BACKSPACE_def)
      have "uint (of_int d :: uchar) = d" using c by (simp add: d_def uint_word_of_int)
      then show "of_int d = (10 :: uchar) \<longleftrightarrow> d = 10" by (simp only: word_uint_eq_iff) simp
    qed
    have "1 \<le> idle_count (lsr s)" using idle False c by simp
    from echo_ok [OF d(1) this] obtain vs where vs: "consputc False d s = Ok (s\<lparr>lsr := vs, regs := regs s @ [(THR, of_int d)]\<rparr>)"
      (is "_ = Ok ?s") by blast
    have s: "cons_inv ?s" "committed ?s = committed s" "edited ?s = edited s"
      using inv by (simp_all add: cons_inv_def committed_def edited_def)
    let ?t = "?s\<lparr>cbuf := (cbuf ?s)[ring_idx INPUT_BUF_SIZE (cons_e ?s) := of_int d], cons_e := cons_e ?s + 1\<rparr>"
    have "length (committed ?s) + length (edited ?s) < INPUT_BUF_SIZE" using False s by (simp add: INPUT_BUF_SIZE_def)
    note st = store_char [OF s(1) this, of "of_int d", unfolded s(2,3)]
    let ?full = "cons_e ?t - cons_r ?t = of_nat INPUT_BUF_SIZE"
    have full: "?full \<longleftrightarrow> length (committed s) + length (edited s) + 1 = 128"
      using st(4) by (simp add: word_unat_eq_iff INPUT_BUF_SIZE_def)
    let ?u = "if d = 10 \<or> d = 4 \<or> ?full then ?t\<lparr>cons_w := cons_e ?t, woken := woken ?t @ [CONS_R]\<rparr> else ?t"
    have run: "consoleintr False dump c s = Ok ?u"
      using False c guard vs by (simp add: consoleintr_def CTRL_def cons_idx Let_def flip: d_def)
    have inv_t: "length (committed s) + length (edited s) + 1 \<le> 128" using False by simp
    have "intr_done dump c s ?u"
    proof (cases "d = 10 \<or> d = 4 \<or> ?full")
      case True
      let ?v = "?t\<lparr>cons_w := cons_e ?t, woken := woken ?t @ [CONS_R]\<rparr>"
      have v: "edited ?v = []" "committed ?v = committed s @ edited s @ [of_int d]"
        using st(5) by (simp_all add: edited_def committed_def)
      have "length (committed ?v) = unat (cons_w ?v - cons_r ?v)" by (simp only: committed_def length_ring_list)
      then have "cons_inv ?v" using v inv_t st(3) by (simp add: cons_inv_def INPUT_BUF_SIZE_def)
      moreover have "line_step c (committed s, edited s) = (committed s @ edited s @ [of_int d], [])"
        "echo dump c (committed s, edited s) = [of_int d]"
        using True False c full by (auto simp: d_def Let_def)
      ultimately show ?thesis using v True by (simp add: intr_done_def)
    next
      case F: False
      have "length (committed ?t) = unat (cons_w ?t - cons_r ?t)" "length (edited ?t) = unat (cons_e ?t - cons_w ?t)"
        by (simp_all only: committed_def edited_def length_ring_list)
      then have "cons_inv ?t" using st inv_t d(2) F s(1) by (simp add: cons_inv_def INPUT_BUF_SIZE_def s(3))
      moreover have "line_step c (committed s, edited s) = (committed s, edited s @ [of_int d])"
        "echo dump c (committed s, edited s) = [of_int d]"
        using F False c full by (auto simp: d_def Let_def)
      ultimately show ?thesis using st F by (simp add: intr_done_def)
    qed
    with run show ?thesis by blast
  qed
qed

section \<open>Reading\<close>

text \<open>
  What a reader that still wants \<open>n\<close> bytes and has \<open>got\<close> some takes from the ready bytes: the
  bytes it ends up with, the bytes left, and whether it returns (or has to wait for more).
\<close>

fun read_line :: "nat \<Rightarrow> uchar list \<Rightarrow> uchar list \<Rightarrow> uchar list \<times> uchar list \<times> bool" where
  "read_line 0 got q = (got, q, True)"
| "read_line (Suc n) got [] = (got, [], False)"
| "read_line (Suc n) got (c # q) =
     (if c = 4 then (if got = [] then ([], q, True) else (got, c # q, True))
      else if c = 10 then (got @ [c], q, True)
      else read_line n (got @ [c]) q)"

lemma take_char:
  assumes "cons_inv k" "cons_r k \<noteq> cons_w k"
  defines "k1 \<equiv> k\<lparr>cons_r := cons_r k + 1\<rparr>"
  shows "committed k = cbuf k ! ring_idx INPUT_BUF_SIZE (cons_r k) # committed k1" "edited k1 = edited k" "cons_inv k1"
proof -
  have ne: "cons_w k \<noteq> cons_r k" using assms(2) by simp
  show "committed k = cbuf k ! ring_idx INPUT_BUF_SIZE (cons_r k) # committed k1"
    using ring_take [OF ne] by (simp add: committed_def k1_def)
  show ed: "edited k1 = edited k" by (simp add: edited_def k1_def)
  show "cons_inv k1" using assms(1) unat_sub_Suc [OF ne] ed by (simp add: cons_inv_def k1_def)
qed

lemma consoleread_spec:
  assumes "dst_ok R r cbufp addr N s" "cons_inv k" "length got \<le> N" "user_bytes s r addr (length got) = got"
    and "consoleread_loop r True cbufp killed (int N) (addr + of_nat (length got)) (int (N - length got)) k s = (out, k', s')"
    and "read_line (N - length got) got (committed k) = (bs, q, fin)"
  shows "cons_inv k' \<and> committed k' = q \<and> edited k' = edited k \<and> user_bytes s' r addr (length bs) = bs \<and>
    out = (if fin then CRet (int (length bs)) else if killed then CRet (-1)
           else CSleep (addr + of_nat (length bs)) (int (N - length bs)))"
  using assms
proof (induction "N - length got" arbitrary: got k s)
  case 0
  then have "length got = N" by simp
  then show ?case using 0 by (auto simp: consoleread_loop.simps [of r True cbufp killed])
next
  case (Suc n)
  note run = Suc.prems(5) [unfolded consoleread_loop.simps [of r True cbufp killed "int N" "addr + of_nat (length got)" "int (N - length got)" k s]]
  have i: "length got < N" "0 < int (N - length got)" using Suc(2) by simp_all
  show ?case
  proof (cases "cons_r k = cons_w k")
    case True
    then have "committed k = []" by (simp add: committed_def)
    then show ?thesis using run True i Suc.prems Suc(2) [symmetric] by (auto simp: of_nat_diff)
  next
    case False
    define c where "c = cbuf k ! ring_idx INPUT_BUF_SIZE (cons_r k)"
    let ?k = "k\<lparr>cons_r := cons_r k + 1\<rparr>"
    note tk = take_char [OF Suc.prems(2) False, folded c_def]
    have ctrlD: "uint c = CTRL 68 \<longleftrightarrow> c = 4" by (simp add: CTRL_def word_uint_eq_iff)
    have lt: "int (N - length got) < int N \<longleftrightarrow> got \<noteq> []" using i by auto
    show ?thesis
    proof (cases "c = 4")
      case True
      have "k\<lparr>cons_r := cons_r k + 1 - 1\<rparr> = k" by simp
      then show ?thesis
        using run False i Suc.prems(2,4,6) True tk ctrlD lt Suc(2) [symmetric]
        by (auto simp: cons_idx Let_def of_nat_diff simp flip: c_def split: if_splits)
    next
      case c4: False
      obtain s2 where s2: "copyout r (addr + of_nat (length got)) cbufp 1 (s\<lparr>mem := (mem s)(cbufp := c)\<rparr>) = (0, s2)"
        "dst_ok R r cbufp addr N s2" "user_bytes s2 r addr (Suc (length got)) = user_bytes s r addr (length got) @ [c]"
        by (rule deliver_next [OF Suc.prems(1) i(1), of c]) (rule that)
      have g: "user_bytes s2 r addr (length (got @ [c])) = got @ [c]" using s2(3) Suc.prems(4) by simp
      show ?thesis
      proof (cases "c = 10")
        case True
        have "out = CRet (int N - (int (N - length got) - 1))" "k' = ?k" "s' = s2"
          using run False i c4 ctrlD s2(1) True by (auto simp: cons_idx Let_def either_copyout_def simp flip: c_def)
        moreover have "bs = got @ [c]" "q = committed ?k" "fin" using Suc.prems(6) tk(1) c4 True Suc(2) [symmetric] by auto
        moreover have "int N - (int (N - length got) - 1) = int (length (got @ [c]))" using i by simp
        ultimately show ?thesis using tk g by simp
      next
        case c10: False
        have eqs: "int (N - length got) - 1 = int (N - length (got @ [c]))" "addr + of_nat (length got) + 1 = addr + of_nat (length (got @ [c]))"
          using i by simp_all
        have "consoleread_loop r True cbufp killed (int N) (addr + of_nat (length got) + 1) (int (N - length got) - 1) ?k s2 = (out, k', s')"
          using run False i(2) c4 c10 ctrlD s2(1) by (simp add: cons_idx Let_def either_copyout_def flip: c_def)
        note this [unfolded eqs]
        moreover have "read_line (N - length (got @ [c])) (got @ [c]) (committed ?k) = (bs, q, fin)"
          using Suc.prems(6) tk(1) c4 c10 Suc(2) [symmetric] by (simp add: diff_Suc)
        moreover have "n = N - length (got @ [c])" "length (got @ [c]) \<le> N" using Suc(2) by simp_all
        ultimately show ?thesis using Suc.hyps(1) [OF _ s2(2) tk(3) _ g] tk(2) by metis
      qed
    qed
  qed
qed

section \<open>Properties\<close>

text \<open>
  C21. The console implements its line discipline: one input character changes the bytes ready
  for readers and the line being edited as \<open>line_step\<close> says (erase a character, kill the line,
  turn a carriage return into a newline, commit the line at a newline, at control-D or when the
  128 bytes are full, and drop input when they are), echoes exactly \<open>echo\<close>, wakes readers
  exactly when bytes become ready, and keeps the buffer's invariant. It returns, given that
  the transmitter gets idle once for each echoed character.
\<close>

theorem consoleintr_line_discipline:
  assumes "cons_inv s" "0 \<le> c" "c < 256" "length (echo dump c (committed s, edited s)) \<le> idle_count (lsr s)"
  shows "\<exists>s'. consoleintr False dump c s = Ok s' \<and> cons_inv s' \<and>
    (committed s', edited s') = line_step c (committed s, edited s) \<and>
    regs s' = regs s @ map (Pair THR) (echo dump c (committed s, edited s)) \<and>
    woken s' = woken s @ (if committed s' = committed s then [] else [CONS_R])"
proof -
  consider "c = 16" | "c = 21" | "c = 8 \<or> c = 127" | "c \<notin> {8, 16, 21, 127}" by auto
  then have "\<exists>s'. consoleintr False dump c s = Ok s' \<and> intr_done dump c s s'"
  proof cases
    case 1
    then show ?thesis using consoleintr_dump [OF assms(1)] assms(4) by simp
  next
    case 2
    then show ?thesis using consoleintr_kill [OF assms(1)] assms(4) by blast
  next
    case 3
    then show ?thesis by (rule consoleintr_erase [OF assms(1) _ assms(4)])
  next
    case 4
    then show ?thesis by (rule consoleintr_store [OF assms(1-3) _ assms(4)])
  qed
  then show ?thesis by (simp add: intr_done_def)
qed

definition cons_example :: cons where
  "cons_example = \<lparr>lsr = [0x20, 0x20, 0x20, 0x20], rhr = [], regs = [], woken = [], uart_tx_buf = replicate 32 0, uart_tx_w = 0,
     uart_tx_r = 0, cbuf = replicate 128 7, cons_r = -1, cons_w = 1, cons_e = 2\<rparr>"

lemma cons_example_ok: "cons_inv cons_example" "committed cons_example = [7, 7]" "edited cons_example = [7]"
proof -
  have "ring_list 128 (replicate 128 (7 :: uchar)) r w = replicate (unat (w - r)) 7" for r w :: uint
    by (rule nth_equalityI) (simp_all add: ring_list_def ring_idx_def)
  moreover have replicate_2: "replicate 2 x = [x, x]" for x :: uchar by (simp add: numeral_2_eq_2)
  ultimately show c: "committed cons_example = [7, 7]" and e: "edited cons_example = [7]"
    by (simp_all add: committed_def edited_def cons_example_def INPUT_BUF_SIZE_def replicate_2)
  show "cons_inv cons_example" using e by (simp add: cons_inv_def) (simp add: cons_example_def INPUT_BUF_SIZE_def)
qed

theorem consoleintr_line_discipline_witness:
  "\<exists>s'. consoleintr False [] 13 cons_example = Ok s' \<and> committed s' = [7, 7, 7, 10] \<and> edited s' = [] \<and> woken s' = [CONS_R]"
proof -
  have "length (echo [] 13 (committed cons_example, edited cons_example)) \<le> idle_count (lsr cons_example)"
    by (simp add: cons_example_ok) (simp add: cons_example_def idle_count_def LSR_TX_IDLE_def)
  from consoleintr_line_discipline [OF cons_example_ok(1) _ _ this] show ?thesis
    by (auto simp: cons_example_ok) (auto simp: cons_example_def)
qed

text \<open>
  C31. \<^verbatim>\<open>consoleread\<close> gives the user at most one line: it moves to the user buffer the ready bytes up
  to the requested count, through the first newline, or up to a control-D, which is consumed
  only by a read that returns 0; with the line not complete it sleeps, remembering its
  position (also when resumed after having delivered \<open>got\<close>), and a killed reader gets -1. The
  line being edited is not touched.
\<close>

theorem consoleread_one_line:
  assumes "dst_ok R r cbufp addr N s" "cons_inv k" "length got \<le> N" "user_bytes s r addr (length got) = got"
    and "consoleread_loop r True cbufp killed (int N) (addr + of_nat (length got)) (int (N - length got)) k s = (out, k', s')"
    and "read_line (N - length got) got (committed k) = (bs, q, fin)"
  shows "cons_inv k' \<and> committed k' = q \<and> edited k' = edited k \<and> user_bytes s' r addr (length bs) = bs \<and>
    out = (if fin then CRet (int (length bs)) else if killed then CRet (-1)
           else CSleep (addr + of_nat (length bs)) (int (N - length bs)))"
  by (rule consoleread_spec [OF assms])

theorem consoleread_one_line_witness:
  "\<exists>k' s'. consoleread_loop 0x80200000 True 0x80300000 False 5 0 5 cons_example vm_example = (CSleep 2 3, k', s') \<and>
     committed k' = [] \<and> user_bytes s' 0x80200000 0 2 = [7, 7]"
proof -
  obtain out k' s' where r: "consoleread_loop 0x80200000 True 0x80300000 False 5 0 5 cons_example vm_example = (out, k', s')"
    by (metis prod_cases3)
  have five: "(5 :: nat) = Suc (Suc (Suc 2))" by simp
  have "read_line 5 [] [7, 7] = ([7, 7], [], False)" by (simp only: five read_line.simps) simp
  with consoleread_one_line [OF vm_example_dst_ok cons_example_ok(1), of "[]" False out k' s' "[7, 7]" "[]" False] r show ?thesis
    by (simp add: cons_example_ok numeral_2_eq_2)
qed

end
