(* ===== verification/Printf.thy ===== *)
theory Printf
  imports Console
begin

text \<open>
  \<^verbatim>\<open>kernel/printf.c\<close> and \<^verbatim>\<open>user/printf.c\<close>. Text is a \<open>string\<close>; a C string is the list of its
  characters before the NUL. What the functions print is their result, as a list in the order of
  the calls of \<^verbatim>\<open>consputc\<close> or \<^verbatim>\<open>putc\<close>; the kernel's \<^verbatim>\<open>printf\<close> also sends it to the UART. Reading an
  argument of another type, or past the last one, is undefined, and so are writing past the 16
  bytes of \<^verbatim>\<open>buf\<close> and the overflow of \<^verbatim>\<open>-xx\<close> when \<^verbatim>\<open>xx\<close> is the most negative \<^verbatim>\<open>int\<close>.
\<close>

datatype fmt_arg = AInt cint | ALong uint64 | AStr "string option"

definition kdigits :: string where "kdigits = ''0123456789abcdef''"
definition udigits :: string where "udigits = ''0123456789ABCDEF''"

text \<open>The \<^verbatim>\<open>do ... while\<close> loop that fills \<^verbatim>\<open>buf\<close>, least significant digit first; \<open>room\<close> is \<^verbatim>\<open>16 - i\<close>.\<close>

fun digit_loop :: "nat \<Rightarrow> string \<Rightarrow> uint \<Rightarrow> uint \<Rightarrow> string result" where
  "digit_loop 0 digits base x = Undef"
| "digit_loop (Suc room) digits base x =
     (let d = digits ! unat (x mod base); x = x div base in
      if x \<noteq> 0 then bindR (digit_loop room digits base x) (\<lambda>buf. Ok (d # buf)) else Ok [d])"

definition INT_MIN :: cint where "INT_MIN = - (2 ^ 31)"

definition printint :: "cint \<Rightarrow> uint \<Rightarrow> bool \<Rightarrow> string result" where
  "printint xx base sign =
     (let sign = (sign \<and> sint xx < 0);
          x = (if sign then - xx else xx)
      in if sign \<and> xx = INT_MIN then Undef else bindR (digit_loop 16 kdigits base x) (\<lambda>buf.
           if sign then (if length buf < 16 then Ok (rev (buf @ ''-'')) else Undef)
           else Ok (rev buf)))"

fun hex_loop :: "nat \<Rightarrow> string \<Rightarrow> uint64 \<Rightarrow> string" where
  "hex_loop 0 digits x = []"
| "hex_loop (Suc n) digits x = digits ! unat (drop_bit 60 x) # hex_loop n digits (push_bit 4 x)"

definition printptr :: "uint64 \<Rightarrow> string" where
  "printptr x = ''0x'' @ hex_loop 16 kdigits x"

fun kformat :: "string \<Rightarrow> fmt_arg list \<Rightarrow> string result" where
  "kformat [] ap = Ok []"
| "kformat [c] ap = (if c = CHR ''%'' then Ok [] else Ok [c])"
| "kformat (c # d # fmt) ap =
     (if c \<noteq> CHR ''%'' then bindR (kformat (d # fmt) ap) (\<lambda>out. Ok (c # out))
      else if d = CHR ''d'' then
        (case ap of AInt x # ap \<Rightarrow> bindR (printint x 10 True) (\<lambda>t. bindR (kformat fmt ap) (\<lambda>out. Ok (t @ out))) | _ \<Rightarrow> Undef)
      else if d = CHR ''x'' then
        (case ap of AInt x # ap \<Rightarrow> bindR (printint x 16 True) (\<lambda>t. bindR (kformat fmt ap) (\<lambda>out. Ok (t @ out))) | _ \<Rightarrow> Undef)
      else if d = CHR ''p'' then
        (case ap of ALong x # ap \<Rightarrow> bindR (kformat fmt ap) (\<lambda>out. Ok (printptr x @ out)) | _ \<Rightarrow> Undef)
      else if d = CHR ''s'' then
        (case ap of AStr s # ap \<Rightarrow>
           bindR (kformat fmt ap) (\<lambda>out. Ok ((case s of None \<Rightarrow> ''(null)'' | Some s \<Rightarrow> s) @ out)) | _ \<Rightarrow> Undef)
      else if d = CHR ''%'' then bindR (kformat fmt ap) (\<lambda>out. Ok (CHR ''%'' # out))
      else bindR (kformat fmt ap) (\<lambda>out. Ok (CHR ''%'' # d # out)))"

definition kprintf :: "bool \<Rightarrow> string option \<Rightarrow> fmt_arg list \<Rightarrow> 'z uart_scheme \<Rightarrow> 'z uart_scheme result" where
  "kprintf panicked fmt ap u =
     (case fmt of
        None \<Rightarrow> Panic ''null fmt''
      | Some fmt \<Rightarrow> bindR (kformat fmt ap) (\<lambda>out. puts_sync panicked (map of_char out) u))"

text \<open>\<^verbatim>\<open>panic\<close>: the message is itself used as a format. What the UART has been given when the CPU stops.\<close>

definition panic :: "string \<Rightarrow> 'z uart_scheme \<Rightarrow> 'z uart_scheme result" where
  "panic s u =
     bindR (kprintf False (Some ''panic: '') [] u) (\<lambda>u.
     bindR (kprintf False (Some s) [] u) (\<lambda>u.
       kprintf False (Some ''\<newline>'') [] u))"

section \<open>The user library\<close>

definition uprintint :: "cint \<Rightarrow> uint \<Rightarrow> bool \<Rightarrow> string result" where
  "uprintint xx base signed_p =
     (let neg = (signed_p \<and> sint xx < 0);
          x = (if neg then - xx else xx)
      in if neg \<and> xx = INT_MIN then Undef else bindR (digit_loop 16 udigits base x) (\<lambda>buf.
           if neg then (if length buf < 16 then Ok (rev (buf @ ''-'')) else Undef)
           else Ok (rev buf)))"

definition uprintptr :: "uint64 \<Rightarrow> string" where
  "uprintptr x = ''0x'' @ hex_loop 16 udigits x"

text \<open>\<^verbatim>\<open>vprintf\<close> is a two-state machine; the flag is \<^verbatim>\<open>state == '%'\<close>.\<close>

fun vprintf :: "bool \<Rightarrow> string \<Rightarrow> fmt_arg list \<Rightarrow> string result" where
  "vprintf st [] ap = Ok []"
| "vprintf False (c # fmt) ap =
     (if c = CHR ''%'' then vprintf True fmt ap
      else bindR (vprintf False fmt ap) (\<lambda>out. Ok (c # out)))"
| "vprintf True (c # fmt) ap =
     (if c = CHR ''d'' then
        (case ap of AInt x # ap \<Rightarrow> bindR (uprintint x 10 True) (\<lambda>t. bindR (vprintf False fmt ap) (\<lambda>out. Ok (t @ out))) | _ \<Rightarrow> Undef)
      else if c = CHR ''l'' then
        (case ap of ALong x # ap \<Rightarrow> bindR (uprintint (ucast x) 10 False) (\<lambda>t. bindR (vprintf False fmt ap) (\<lambda>out. Ok (t @ out))) | _ \<Rightarrow> Undef)
      else if c = CHR ''x'' then
        (case ap of AInt x # ap \<Rightarrow> bindR (uprintint x 16 False) (\<lambda>t. bindR (vprintf False fmt ap) (\<lambda>out. Ok (t @ out))) | _ \<Rightarrow> Undef)
      else if c = CHR ''p'' then
        (case ap of ALong x # ap \<Rightarrow> bindR (vprintf False fmt ap) (\<lambda>out. Ok (uprintptr x @ out)) | _ \<Rightarrow> Undef)
      else if c = CHR ''s'' then
        (case ap of AStr s # ap \<Rightarrow>
           bindR (vprintf False fmt ap) (\<lambda>out. Ok ((case s of None \<Rightarrow> ''(null)'' | Some s \<Rightarrow> s) @ out)) | _ \<Rightarrow> Undef)
      else if c = CHR ''c'' then
        (case ap of AInt x # ap \<Rightarrow> bindR (vprintf False fmt ap) (\<lambda>out. Ok (char_of (unat (ucast x :: uchar)) # out)) | _ \<Rightarrow> Undef)
      else if c = CHR ''%'' then bindR (vprintf False fmt ap) (\<lambda>out. Ok (c # out))
      else bindR (vprintf False fmt ap) (\<lambda>out. Ok (CHR ''%'' # c # out)))"

definition fprintf :: "string \<Rightarrow> fmt_arg list \<Rightarrow> string result" where
  "fprintf fmt ap = vprintf False fmt ap"

section \<open>Reading numbers back\<close>

text \<open>The value of a digit in the digit table, and of a numeral (with a sign) in a base.\<close>

definition digit_val :: "string \<Rightarrow> char \<Rightarrow> nat" where
  "digit_val digits c = the (first_idx ((=) c) digits)"

fun num_val :: "string \<Rightarrow> nat \<Rightarrow> string \<Rightarrow> nat" where
  "num_val digits base [] = 0"
| "num_val digits base (c # cs) = digit_val digits c * base ^ length cs + num_val digits base cs"

fun signed_val :: "string \<Rightarrow> nat \<Rightarrow> string \<Rightarrow> int" where
  "signed_val digits base [] = 0"
| "signed_val digits base (c # cs) =
     (if c = CHR ''-'' then - int (num_val digits base cs) else int (num_val digits base (c # cs)))"

lemma num_val_append: "num_val digits base (as @ bs) = num_val digits base as * base ^ length bs + num_val digits base bs"
  by (induction as) (simp_all add: algebra_simps power_add)

lemma digit_val_nth:
  assumes "distinct digits" "i < length digits"
  shows "digit_val digits (digits ! i) = i"
proof -
  have "first_idx ((=) (digits ! i)) digits = Some i"
    using assms by (auto simp: first_idx_Some nth_eq_iff_index_eq)
  then show ?thesis by (simp add: digit_val_def)
qed

text \<open>A table the printing functions can use for a base: enough different digits, none a minus sign.\<close>

definition digit_table :: "string \<Rightarrow> nat \<Rightarrow> bool" where
  "digit_table digits base \<longleftrightarrow> distinct digits \<and> base \<le> length digits \<and> CHR ''-'' \<notin> set digits \<and> 2 \<le> base \<and> base < 2 ^ 32"

lemma digit_loop_ok:
  assumes "digit_table digits base" "unat x < base ^ room" "0 < room"
  shows "\<exists>buf. digit_loop room digits (of_nat base) x = Ok buf \<and> num_val digits base (rev buf) = unat x \<and>
    buf \<noteq> [] \<and> length buf \<le> room \<and> set buf \<subseteq> set digits \<and> (length buf = 1 \<or> base ^ (length buf - 1) \<le> unat x)"
  using assms(2,3)
proof (induction room arbitrary: x)
  case (Suc room)
  have base: "2 \<le> base" "unat (of_nat base :: uint) = base" "distinct digits" "base \<le> length digits"
    using assms(1) by (auto simp: digit_table_def unat_of_nat_small)
  let ?x = "x div of_nat base" and ?d = "digits ! unat (x mod of_nat base)"
  have x: "unat ?x = unat x div base" "unat (x mod of_nat base) = unat x mod base"
    using base by (simp_all add: unat_div unat_mod)
  have "unat x mod base < length digits" using base mod_less_divisor [of base "unat x"] by linarith
  then have d: "digit_val digits ?d = unat x mod base" "?d \<in> set digits"
    using base digit_val_nth [of digits "unat x mod base"] x(2) by auto
  show ?case
  proof (cases "?x = 0")
    case True
    then have "unat x div base = 0" using x(1) by simp
    then have "unat x mod base = unat x" using base by (simp add: div_eq_0_iff)
    then show ?thesis using True d by (intro exI [of _ "[?d]"]) simp
  next
    case False
    then have pos: "0 < unat x div base" using x(1) by (simp add: unat_gt_0 [symmetric] word_gt_0)
    have lt: "unat ?x < base ^ room" using Suc.prems(1) base x(1) by (simp add: less_mult_imp_div_less mult.commute)
    have "0 < room" using lt pos x(1) by (cases room) auto
    from Suc.IH [OF lt this] obtain buf where buf: "digit_loop room digits (of_nat base) ?x = Ok buf"
      "num_val digits base (rev buf) = unat x div base" "length buf \<le> room" "set buf \<subseteq> set digits"
      "buf \<noteq> []" "length buf = 1 \<or> base ^ (length buf - 1) \<le> unat x div base"
      using x(1) by auto
    have "base ^ length buf \<le> unat x"
    proof -
      have "base ^ length buf = base ^ (length buf - 1) * base" using buf(5) by (cases buf) auto
      also have "\<dots> \<le> unat x div base * base" using buf(6) pos by (intro mult_right_mono) auto
      also have "\<dots> \<le> unat x" by simp
      finally show ?thesis .
    qed
    moreover have "num_val digits base (rev (?d # buf)) = unat x" using buf(2) d by (simp add: num_val_append)
    ultimately show ?thesis using False buf d by (intro exI [of _ "?d # buf"]) auto
  qed
qed simp

lemma unat_neg: "sint x < 0 \<Longrightarrow> int (unat (- x)) = - sint x" for x :: cint
proof -
  assume neg: "sint x < 0"
  have "- x = of_int (- sint x)" by simp
  then have "uint (- x) = - sint x mod 2 ^ 32" by (simp only: uint_word_of_int) simp
  moreover have "- (2 ^ 31) \<le> sint x" using sint_ge [of x] by simp
  ultimately show ?thesis using neg by simp
qed

lemma sint_nonneg: "\<not> sint x < 0 \<Longrightarrow> int (unat x) = sint x" for x :: cint
proof -
  assume nn: "\<not> sint x < 0"
  have "uint x = uint (of_int (sint x) :: cint)" by simp
  also have "\<dots> = sint x mod 2 ^ 32" by (simp only: uint_word_of_int) simp
  finally have "uint x = sint x mod 2 ^ 32" .
  moreover have "sint x < 2 ^ 31" using sint_lt [of x] by simp
  ultimately show ?thesis using nn by simp
qed

text \<open>The common body of the two \<^verbatim>\<open>printint\<close> functions.\<close>

definition print_signed :: "string \<Rightarrow> cint \<Rightarrow> uint \<Rightarrow> bool \<Rightarrow> string result" where
  "print_signed digits xx base sign =
     (let neg = (sign \<and> sint xx < 0);
          x = (if neg then - xx else xx)
      in if neg \<and> xx = INT_MIN then Undef else bindR (digit_loop 16 digits base x) (\<lambda>buf.
           if neg then (if length buf < 16 then Ok (rev (buf @ ''-'')) else Undef)
           else Ok (rev buf)))"

lemma printint_eq: "printint = print_signed kdigits" "uprintint = print_signed udigits"
  by (simp_all add: fun_eq_iff printint_def uprintint_def print_signed_def Let_def)

lemma INT_MIN_neg: "sint INT_MIN < 0"
  by (simp add: INT_MIN_def)

lemma print_signed_INT_MIN: "print_signed digits INT_MIN base True = Undef"
  using INT_MIN_neg by (simp add: print_signed_def)

lemma print_signed_ok:
  assumes tab: "digit_table digits base" and base: "10 \<le> base" and min: "sign \<longrightarrow> xx \<noteq> INT_MIN"
  shows "\<exists>out. print_signed digits xx (of_nat base) sign = Ok out \<and>
    signed_val digits base out = (if sign then sint xx else int (unat xx))"
proof -
  define neg where "neg = (sign \<and> sint xx < 0)"
  define x where "x = (if neg then - xx else xx)"
  have pow: "(10 :: nat) ^ k \<le> base ^ k" for k using base by (rule power_mono) simp
  have "unat x < base ^ 16" using unat_lt2p [of x] pow [of 16] by simp
  from digit_loop_ok [OF tab this] obtain buf where buf: "digit_loop 16 digits (of_nat base) x = Ok buf"
    "num_val digits base (rev buf) = unat x" "set buf \<subseteq> set digits" "buf \<noteq> []"
    "length buf = 1 \<or> base ^ (length buf - 1) \<le> unat x" by auto
  have "length buf < 16"
  proof (rule ccontr)
    assume "\<not> length buf < 16"
    then have "base ^ 15 \<le> base ^ (length buf - 1)" using base by (intro power_increasing) auto
    also have "\<dots> \<le> unat x" using buf(5) \<open>\<not> length buf < 16\<close> by auto
    finally show False using unat_lt2p [of x] pow [of 15] by simp
  qed
  moreover have "\<not> (neg \<and> xx = INT_MIN)" using min by (auto simp: neg_def)
  ultimately have run: "print_signed digits xx (of_nat base) sign = Ok (if neg then ''-'' @ rev buf else rev buf)"
    using buf(1) by (simp add: print_signed_def Let_def flip: neg_def x_def)
  obtain c cs where rv: "rev buf = c # cs" using buf(4) by (cases "rev buf") auto
  have "c \<in> set (rev buf)" by (simp add: rv)
  then have "c \<noteq> CHR ''-''" using buf(3) tab by (auto simp: digit_table_def)
  then have "signed_val digits base (if neg then ''-'' @ rev buf else rev buf) = (if neg then - int (unat x) else int (unat x))"
    using buf(2) rv by auto
  also have "\<dots> = (if sign then sint xx else int (unat xx))"
    using unat_neg [of xx] sint_nonneg [of xx] by (auto simp: neg_def x_def)
  finally show ?thesis using run by auto
qed

lemma tables_ok:
  "digit_table kdigits 10" "digit_table kdigits 16" "digit_table udigits 10" "digit_table udigits 16"
  by (simp_all add: digit_table_def kdigits_def udigits_def)

lemma hex_step:
  fixes X :: nat
  assumes "n \<le> 15"
  shows "X div 2 ^ 60 * 16 ^ n + (16 * X mod 2 ^ 64) div 2 ^ (64 - 4 * n) = X div 2 ^ (60 - 4 * n)"
proof -
  define q r where "q = X div 2 ^ 60" and "r = X mod 2 ^ 60"
  have X: "X = q * 2 ^ 60 + r" and r: "r < 2 ^ 60" by (simp_all add: q_def r_def)
  have "16 * X = 2 ^ 64 * q + 16 * r" by (simp add: X)
  then have m: "16 * X mod 2 ^ 64 = 16 * r" using r by simp
  have "(2 :: nat) ^ (64 - 4 * n) = 2 ^ (4 + (60 - 4 * n))" using assms by (intro arg_cong [where f = "power 2"]) simp
  then have e: "(2 :: nat) ^ (64 - 4 * n) = 16 * 2 ^ (60 - 4 * n)" by (simp only: power_add) simp
  have "(2 :: nat) ^ 60 = 2 ^ (4 * n + (60 - 4 * n))" using assms by simp
  then have f: "(2 :: nat) ^ 60 = 16 ^ n * 2 ^ (60 - 4 * n)" by (simp only: power_add power_mult) simp
  have "X div 2 ^ (60 - 4 * n) = q * 16 ^ n + r div 2 ^ (60 - 4 * n)"
    unfolding X f by (simp add: mult.assoc [symmetric] del: mult.assoc)
  moreover have "16 * r div 2 ^ (64 - 4 * n) = r div 2 ^ (60 - 4 * n)"
    unfolding e by (rule div_mult_mult1) simp
  ultimately show ?thesis by (simp only: m flip: q_def)
qed

lemma hex_loop_val:
  assumes "digit_table digits 16"
  shows "n \<le> 16 \<Longrightarrow> num_val digits 16 (hex_loop n digits x) = unat x div 2 ^ (64 - 4 * n) \<and> length (hex_loop n digits x) = n"
proof (induction n arbitrary: x)
  case 0
  then show ?case using unat_lt2p [of x] by simp
next
  case (Suc n)
  have d: "unat (drop_bit 60 x) = unat x div 2 ^ 60" by (simp add: drop_bit_eq_div unat_div)
  also have "\<dots> < 16" using unat_lt2p [of x] by (simp add: less_mult_imp_div_less)
  finally have dv: "digit_val digits (digits ! unat (drop_bit 60 x)) = unat x div 2 ^ 60"
    using digit_val_nth [of digits "unat x div 2 ^ 60"] assms d by (simp add: digit_table_def)
  have p: "unat (push_bit 4 x) = 16 * unat x mod 2 ^ 64"
    by (simp add: push_bit_eq_mult unat_word_ariths mult.commute)
  have n: "n \<le> 16" "n \<le> 15" using Suc.prems by simp_all
  note IH = Suc.IH [OF n(1), of "push_bit 4 x"]
  have "num_val digits 16 (hex_loop (Suc n) digits x) = unat x div 2 ^ 60 * 16 ^ n + 16 * unat x mod 2 ^ 64 div 2 ^ (64 - 4 * n)"
    by (simp only: hex_loop.simps num_val.simps dv IH p)
  also have "\<dots> = unat x div 2 ^ (60 - 4 * n)" by (rule hex_step [OF n(2)])
  also have "60 - 4 * n = 64 - 4 * Suc n" by simp
  finally show ?case using conjunct2 [OF IH] by (intro conjI) simp_all
qed

section \<open>Properties\<close>


end
