(* ===== verification/Spinlock.thy ===== *)
theory Spinlock
  imports Prelude
begin

text \<open>
  \<^verbatim>\<open>kernel/spinlock.c\<close> and \<^verbatim>\<open>kernel/sleeplock.c\<close>. \<open>intr\<close> is the interrupt-enable bit of a
  CPU's \<^verbatim>\<open>sstatus\<close>. The lock operations are split where another CPU can see an intermediate
  state: the atomic swap, the write of \<^verbatim>\<open>lk->cpu\<close> and the atomic release are separate steps of
  \<open>lock_step\<close>, which interleaves any number of CPUs. A sleep lock's fields change only under its
  spinlock, so its operations are atomic; a caller that has to wait is \<open>Blocked\<close> and tries again
  when woken.
\<close>

record spinlock =
  locked :: bool
  lcpu :: "nat option"

record cpu =
  intr :: bool
  noff :: int
  intena :: bool

record machine =
  locks :: "nat \<Rightarrow> spinlock"
  cpus :: "nat \<Rightarrow> cpu"

definition initlock :: "nat \<Rightarrow> machine \<Rightarrow> machine" where
  "initlock l m = m\<lparr>locks := (locks m)(l := \<lparr>locked = False, lcpu = None\<rparr>)\<rparr>"

definition push_off :: "cpu \<Rightarrow> cpu" where
  "push_off c =
     (let old = intr c;
          c = c\<lparr>intr := False\<rparr>;
          c = (if noff c = 0 then c\<lparr>intena := old\<rparr> else c)
      in c\<lparr>noff := noff c + 1\<rparr>)"

definition pop_off :: "cpu \<Rightarrow> cpu result" where
  "pop_off c =
     (if intr c then Panic ''pop_off - interruptible''
      else if noff c < 1 then Panic ''pop_off''
      else
        let c = c\<lparr>noff := noff c - 1\<rparr> in
        Ok (if noff c = 0 \<and> intena c then c\<lparr>intr := True\<rparr> else c))"

definition holding :: "nat \<Rightarrow> spinlock \<Rightarrow> bool" where
  "holding c lk \<longleftrightarrow> locked lk \<and> lcpu lk = Some c"

text \<open>\<^verbatim>\<open>acquire\<close> up to the swap, the swap, and the rest.\<close>

definition acquire_enter :: "nat \<Rightarrow> nat \<Rightarrow> machine \<Rightarrow> machine result" where
  "acquire_enter c l m =
     (let m = m\<lparr>cpus := (cpus m)(c := push_off (cpus m c))\<rparr> in
      if holding c (locks m l) then Panic ''acquire'' else Ok m)"

definition acquire_swap :: "nat \<Rightarrow> machine \<Rightarrow> bool \<times> machine" where
  "acquire_swap l m = (locked (locks m l), m\<lparr>locks := (locks m)(l := (locks m l)\<lparr>locked := True\<rparr>)\<rparr>)"

definition acquire_exit :: "nat \<Rightarrow> nat \<Rightarrow> machine \<Rightarrow> machine" where
  "acquire_exit c l m = m\<lparr>locks := (locks m)(l := (locks m l)\<lparr>lcpu := Some c\<rparr>)\<rparr>"

definition acquire :: "nat \<Rightarrow> nat \<Rightarrow> machine \<Rightarrow> machine result" where
  "acquire c l m =
     bindR (acquire_enter c l m) (\<lambda>m.
       let (old, m) = acquire_swap l m in if old then Blocked else Ok (acquire_exit c l m))"

definition release_enter :: "nat \<Rightarrow> nat \<Rightarrow> machine \<Rightarrow> machine result" where
  "release_enter c l m =
     (if \<not> holding c (locks m l) then Panic ''release''
      else Ok (m\<lparr>locks := (locks m)(l := (locks m l)\<lparr>lcpu := None\<rparr>)\<rparr>))"

definition release_exit :: "nat \<Rightarrow> nat \<Rightarrow> machine \<Rightarrow> machine result" where
  "release_exit c l m =
     (let m = m\<lparr>locks := (locks m)(l := (locks m l)\<lparr>locked := False\<rparr>)\<rparr> in
      bindR (pop_off (cpus m c)) (\<lambda>k. Ok (m\<lparr>cpus := (cpus m)(c := k)\<rparr>)))"

definition release :: "nat \<Rightarrow> nat \<Rightarrow> machine \<Rightarrow> machine result" where
  "release c l m = bindR (release_enter c l m) (release_exit c l)"

section \<open>Sleep locks\<close>

record sleeplock =
  slocked :: bool
  spid :: int

definition initsleeplock :: sleeplock where
  "initsleeplock = \<lparr>slocked = False, spid = 0\<rparr>"

definition acquiresleep :: "int \<Rightarrow> sleeplock \<Rightarrow> sleeplock result" where
  "acquiresleep pid lk = (if slocked lk then Blocked else Ok (lk\<lparr>slocked := True, spid := pid\<rparr>))"

definition releasesleep :: "sleeplock \<Rightarrow> sleeplock" where
  "releasesleep lk = lk\<lparr>slocked := False, spid := 0\<rparr>"

definition holdingsleep :: "int \<Rightarrow> sleeplock \<Rightarrow> bool" where
  "holdingsleep pid lk \<longleftrightarrow> slocked lk \<and> spid lk = pid"

section \<open>Interleaving\<close>

text \<open>
  Where a CPU is: outside the lock code, spinning on a lock, between the swap and the write of
  \<^verbatim>\<open>lk->cpu\<close>, or between clearing \<^verbatim>\<open>lk->cpu\<close> and the release. \<open>held\<close> is the set of locks a CPU has
  acquired and not released.
\<close>

datatype lock_pc = Running | Spinning nat | Got nat | Leaving nat

record lock_state =
  mach :: machine
  pc :: "nat \<Rightarrow> lock_pc"
  held :: "nat \<Rightarrow> nat set"

inductive lock_step :: "lock_state \<Rightarrow> lock_state \<Rightarrow> bool" where
  acquire1: "pc s c = Running \<Longrightarrow> acquire_enter c l (mach s) = Ok m \<Longrightarrow>
    lock_step s (s\<lparr>mach := m, pc := (pc s)(c := Spinning l)\<rparr>)"
| acquire2: "pc s c = Spinning l \<Longrightarrow> acquire_swap l (mach s) = (old, m) \<Longrightarrow>
    lock_step s (s\<lparr>mach := m, pc := (pc s)(c := if old then Spinning l else Got l)\<rparr>)"
| acquire3: "pc s c = Got l \<Longrightarrow>
    lock_step s (s\<lparr>mach := acquire_exit c l (mach s), pc := (pc s)(c := Running), held := (held s)(c := insert l (held s c))\<rparr>)"
| release1: "pc s c = Running \<Longrightarrow> release_enter c l (mach s) = Ok m \<Longrightarrow>
    lock_step s (s\<lparr>mach := m, pc := (pc s)(c := Leaving l), held := (held s)(c := held s c - {l})\<rparr>)"
| release2: "pc s c = Leaving l \<Longrightarrow> release_exit c l (mach s) = Ok m \<Longrightarrow>
    lock_step s (s\<lparr>mach := m, pc := (pc s)(c := Running)\<rparr>)"
| interrupts: "pc s c = Running \<Longrightarrow> noff (cpus (mach s) c) = 0 \<Longrightarrow>
    lock_step s (s\<lparr>mach := (mach s)\<lparr>cpus := (cpus (mach s))(c := (cpus (mach s) c)\<lparr>intr := b\<rparr>)\<rparr>\<rparr>)"

definition lock_boot :: "lock_state \<Rightarrow> bool" where
  "lock_boot s \<longleftrightarrow> (\<forall>l. \<not> locked (locks (mach s) l) \<and> lcpu (locks (mach s) l) = None) \<and>
     (\<forall>c. noff (cpus (mach s) c) = 0 \<and> pc s c = Running \<and> held s c = {})"

definition owns :: "lock_state \<Rightarrow> nat \<Rightarrow> nat \<Rightarrow> bool" where
  "owns s c l \<longleftrightarrow> l \<in> held s c \<or> pc s c = Got l \<or> pc s c = Leaving l"

definition depth :: "lock_state \<Rightarrow> nat \<Rightarrow> nat" where
  "depth s c = card (held s c) + (if pc s c = Running then 0 else 1)"

definition lock_inv :: "lock_state \<Rightarrow> bool" where
  "lock_inv s \<longleftrightarrow>
     (\<forall>l c c'. owns s c l \<longrightarrow> owns s c' l \<longrightarrow> c = c') \<and>
     (\<forall>l. locked (locks (mach s) l) \<longleftrightarrow> (\<exists>c. owns s c l)) \<and>
     (\<forall>l c. lcpu (locks (mach s) l) = Some c \<longleftrightarrow> l \<in> held s c) \<and>
     (\<forall>l c. pc s c = Got l \<or> pc s c = Leaving l \<longrightarrow> l \<notin> held s c) \<and>
     (\<forall>c. finite (held s c) \<and> noff (cpus (mach s) c) = int (depth s c)) \<and>
     (\<forall>c. 0 < depth s c \<longrightarrow> \<not> intr (cpus (mach s) c))"

lemma lock_boot_inv: "lock_boot s \<Longrightarrow> lock_inv s"
  by (simp add: lock_boot_def lock_inv_def owns_def depth_def)

lemma lock_invD:
  assumes "lock_inv s"
  shows "owns s c l \<Longrightarrow> owns s c' l \<Longrightarrow> c = c'" "locked (locks (mach s) l) \<longleftrightarrow> (\<exists>c. owns s c l)"
    "lcpu (locks (mach s) l) = Some c \<longleftrightarrow> l \<in> held s c" "pc s c = Got l \<or> pc s c = Leaving l \<Longrightarrow> l \<notin> held s c"
    "finite (held s c)" "noff (cpus (mach s) c) = int (depth s c)" "0 < depth s c \<Longrightarrow> \<not> intr (cpus (mach s) c)"
  using assms unfolding lock_inv_def by blast+

lemma lock_invI:
  assumes "\<And>l c c'. owns s c l \<Longrightarrow> owns s c' l \<Longrightarrow> c = c'" "\<And>l. locked (locks (mach s) l) \<longleftrightarrow> (\<exists>c. owns s c l)"
    "\<And>l c. lcpu (locks (mach s) l) = Some c \<longleftrightarrow> l \<in> held s c" "\<And>l c. pc s c = Got l \<or> pc s c = Leaving l \<Longrightarrow> l \<notin> held s c"
    "\<And>c. finite (held s c)" "\<And>c. noff (cpus (mach s) c) = int (depth s c)" "\<And>c. 0 < depth s c \<Longrightarrow> \<not> intr (cpus (mach s) c)"
  shows "lock_inv s"
  unfolding lock_inv_def using assms by blast

text \<open>A step that changes neither the owners nor the lock words.\<close>

lemma lock_inv_same_owners:
  assumes inv: "lock_inv s" and own: "\<And>c l. owns s' c l = owns s c l" and locks: "locks (mach s') = locks (mach s)"
    and held: "held s' = held s" and pc: "\<And>c l. pc s' c = Got l \<or> pc s' c = Leaving l \<Longrightarrow> pc s' c = pc s c"
    and noff: "\<And>c. noff (cpus (mach s') c) = int (depth s' c)" and intr: "\<And>c. 0 < depth s' c \<Longrightarrow> \<not> intr (cpus (mach s') c)"
  shows "lock_inv s'"
proof (rule lock_invI)
  note D = lock_invD [OF inv]
  show "owns s' c l \<Longrightarrow> owns s' c' l \<Longrightarrow> c = c'" for c c' l using D(1) own by blast
  show "locked (locks (mach s') l) \<longleftrightarrow> (\<exists>c. owns s' c l)" for l using D(2) own locks by simp
  show "lcpu (locks (mach s') l) = Some c \<longleftrightarrow> l \<in> held s' c" for l c using D(3) locks held by simp
  show "pc s' c = Got l \<or> pc s' c = Leaving l \<Longrightarrow> l \<notin> held s' c" for l c using D(4) [of c l] pc [of c l] held by auto
  show "finite (held s' c)" for c using D(5) held by simp
qed (use noff intr in auto)

lemma lock_step_inv: "lock_step s s' \<Longrightarrow> lock_inv s \<Longrightarrow> lock_inv s'"
proof (induction rule: lock_step.induct)
  case (acquire1 s c l m)
  note D = lock_invD [OF acquire1(3)]
  have m: "m = (mach s)\<lparr>cpus := (cpus (mach s))(c := push_off (cpus (mach s) c))\<rparr>"
    using acquire1(2) by (auto simp: acquire_enter_def Let_def split: if_splits)
  let ?s = "s\<lparr>mach := m, pc := (pc s)(c := Spinning l)\<rparr>"
  have depth: "depth ?s d = (if d = c then Suc (depth s c) else depth s d)" for d
    using acquire1(1) by (simp add: depth_def)
  show ?case
  proof (rule lock_inv_same_owners [OF acquire1(3)])
    show "noff (cpus (mach ?s) d) = int (depth ?s d)" for d using D(6) unfolding depth by (simp add: m push_off_def Let_def)
    show "0 < depth ?s d \<Longrightarrow> \<not> intr (cpus (mach ?s) d)" for d
      using D(7) [of d] unfolding depth by (auto simp: m push_off_def Let_def split: if_splits)
  qed (use acquire1(1) m in \<open>auto simp: owns_def split: if_splits\<close>)
next
  case (acquire2 s c l old m)
  note D = lock_invD [OF acquire2(3)]
  have m: "m = (mach s)\<lparr>locks := (locks (mach s))(l := (locks (mach s) l)\<lparr>locked := True\<rparr>)\<rparr>" and old: "old = locked (locks (mach s) l)"
    using acquire2(2) by (simp_all add: acquire_swap_def)
  let ?s = "s\<lparr>mach := m, pc := (pc s)(c := if old then Spinning l else Got l)\<rparr>"
  have depth: "depth ?s d = depth s d" for d using acquire2(1) by (simp add: depth_def)
  have own: "owns ?s d k \<longleftrightarrow> owns s d k \<or> (\<not> old \<and> d = c \<and> k = l)" for d k
    using acquire2(1) by (auto simp: owns_def)
  have free: "\<not> owns s d l" if "\<not> old" for d using that old D(2) by blast
  show ?case
  proof (rule lock_invI)
    show "owns ?s d k \<Longrightarrow> owns ?s d' k \<Longrightarrow> d = d'" for k d d' using D(1) [of d k d'] free [of d] free [of d'] unfolding own by auto
    show "locked (locks (mach ?s) k) \<longleftrightarrow> (\<exists>d. owns ?s d k)" for k
      using old D(2) [of k] unfolding own by (cases "k = l") (auto simp: m)
    show "lcpu (locks (mach ?s) k) = Some d \<longleftrightarrow> k \<in> held ?s d" for k d using D(3) [of k d] by (auto simp: m)
    show "pc ?s d = Got k \<or> pc ?s d = Leaving k \<Longrightarrow> k \<notin> held ?s d" for k d
      using D(4) [of d k] free [of d] by (auto simp: owns_def split: if_splits)
  qed (use D(5-7) depth in \<open>auto simp: m\<close>)
next
  case (acquire3 s c l)
  note D = lock_invD [OF acquire3(2)]
  let ?s = "s\<lparr>mach := acquire_exit c l (mach s), pc := (pc s)(c := Running), held := (held s)(c := insert l (held s c))\<rparr>"
  have new: "l \<notin> held s c" using D(4) acquire3(1) by blast
  have depth: "depth ?s d = depth s d" for d using acquire3(1) new D(5) by (simp add: depth_def)
  have own: "owns ?s d k \<longleftrightarrow> owns s d k" for d k using acquire3(1) by (auto simp: owns_def)
  have only: "d = c" if "l \<in> held s d" for d using D(1) [of d l c] that acquire3(1) by (simp add: owns_def)
  show ?case
  proof (rule lock_invI)
    show "owns ?s d k \<Longrightarrow> owns ?s d' k \<Longrightarrow> d = d'" for k d d' using D(1) [of d k d'] unfolding own by auto
    show "locked (locks (mach ?s) k) \<longleftrightarrow> (\<exists>d. owns ?s d k)" for k
      using D(2) [of k] unfolding own by (auto simp: acquire_exit_def)
    show "lcpu (locks (mach ?s) k) = Some d \<longleftrightarrow> k \<in> held ?s d" for k d
      using D(3) [of k d] only [of d] by (auto simp: acquire_exit_def)
    show "pc ?s d = Got k \<or> pc ?s d = Leaving k \<Longrightarrow> k \<notin> held ?s d" for k d
      using D(4) [of d k] by (auto split: if_splits)
  qed (use D(5-7) depth in \<open>auto simp: acquire_exit_def\<close>)
next
  case (release1 s c l m)
  note D = lock_invD [OF release1(3)]
  have m: "m = (mach s)\<lparr>locks := (locks (mach s))(l := (locks (mach s) l)\<lparr>lcpu := None\<rparr>)\<rparr>" and h: "l \<in> held s c"
    using release1(2) D(3) by (auto simp: release_enter_def holding_def split: if_splits)
  let ?s = "s\<lparr>mach := m, pc := (pc s)(c := Leaving l), held := (held s)(c := held s c - {l})\<rparr>"
  have depth: "depth ?s d = depth s d" for d using release1(1) h D(5) card_Suc_Diff1 [OF D(5) h] by (simp add: depth_def)
  have own: "owns ?s d k \<longleftrightarrow> owns s d k" for d k using release1(1) h by (auto simp: owns_def)
  have only: "d = c" if "l \<in> held s d" for d using D(1) [of d l c] that h by (simp add: owns_def)
  show ?case
  proof (rule lock_invI)
    show "owns ?s d k \<Longrightarrow> owns ?s d' k \<Longrightarrow> d = d'" for k d d' using D(1) [of d k d'] unfolding own by auto
    show "locked (locks (mach ?s) k) \<longleftrightarrow> (\<exists>d. owns ?s d k)" for k
      using D(2) [of k] unfolding own by (auto simp: m)
    show "lcpu (locks (mach ?s) k) = Some d \<longleftrightarrow> k \<in> held ?s d" for k d
      using D(3) [of k d] only [of d] by (auto simp: m)
    show "pc ?s d = Got k \<or> pc ?s d = Leaving k \<Longrightarrow> k \<notin> held ?s d" for k d
      using D(4) [of d k] by (auto split: if_splits)
  qed (use D(5-7) depth in \<open>auto simp: m\<close>)
next
  case (release2 s c l m)
  note D = lock_invD [OF release2(3)]
  have dc: "depth s c = Suc (card (held s c))" using release2(1) by (simp add: depth_def)
  obtain k where k: "pop_off (cpus (mach s) c) = Ok k"
    and m: "m = (mach s)\<lparr>locks := (locks (mach s))(l := (locks (mach s) l)\<lparr>locked := False\<rparr>), cpus := (cpus (mach s))(c := k)\<rparr>"
    using release2(2) by (auto simp: release_exit_def Let_def)
  have nk: "noff k = int (card (held s c))" "0 < card (held s c) \<longrightarrow> \<not> intr k"
    using k D(6,7) [of c] dc by (auto simp: pop_off_def Let_def split: if_splits)
  let ?s = "s\<lparr>mach := m, pc := (pc s)(c := Running)\<rparr>"
  have depth: "depth ?s d = (if d = c then card (held s c) else depth s d)" for d by (simp add: depth_def)
  have own: "owns ?s d k \<longleftrightarrow> owns s d k \<and> \<not> (d = c \<and> k = l)" for d k
    using release2(1) D(4) [of c l] by (auto simp: owns_def)
  have cl: "owns s c l" using release2(1) by (simp add: owns_def)
  show ?case
  proof (rule lock_invI)
    show "owns ?s d k \<Longrightarrow> owns ?s d' k \<Longrightarrow> d = d'" for k d d' using D(1) [of d k d'] unfolding own by auto
    show "locked (locks (mach ?s) k) \<longleftrightarrow> (\<exists>d. owns ?s d k)" for k
      using D(2) [of k] D(1) [OF cl] unfolding own by (cases "k = l") (auto simp: m)
    show "lcpu (locks (mach ?s) k) = Some d \<longleftrightarrow> k \<in> held ?s d" for k d using D(3) [of k d] by (auto simp: m)
    show "pc ?s d = Got k \<or> pc ?s d = Leaving k \<Longrightarrow> k \<notin> held ?s d" for k d
      using D(4) [of d k] by (auto split: if_splits)
    show "noff (cpus (mach ?s) d) = int (depth ?s d)" for d using nk D(6) [of d] unfolding depth by (simp add: m)
    show "0 < depth ?s d \<Longrightarrow> \<not> intr (cpus (mach ?s) d)" for d
      using nk D(7) [of d] unfolding depth by (auto simp: m split: if_splits)
  qed (use D(5) in auto)
next
  case (interrupts s c b)
  note D = lock_invD [OF interrupts(3)]
  let ?s = "s\<lparr>mach := (mach s)\<lparr>cpus := (cpus (mach s))(c := (cpus (mach s) c)\<lparr>intr := b\<rparr>)\<rparr>\<rparr>"
  have depth: "depth ?s d = depth s d" for d by (simp add: depth_def)
  have "depth s c = 0" using D(6) [of c] interrupts(2) by simp
  then show ?case
    by (intro lock_inv_same_owners [OF interrupts(3)]) (use D(6,7) depth in \<open>auto simp: owns_def\<close>)
qed

lemma reachable_lock_inv: "lock_step\<^sup>*\<^sup>* s s' \<Longrightarrow> lock_boot s \<Longrightarrow> lock_inv s'"
  by (induction rule: rtranclp_induct) (auto intro: lock_boot_inv lock_step_inv)

section \<open>Nesting of \<^verbatim>\<open>push_off\<close> and \<^verbatim>\<open>pop_off\<close>\<close>

datatype off_op = Push | Pop

fun off_exec :: "off_op list \<Rightarrow> cpu \<Rightarrow> cpu result" where
  "off_exec [] c = Ok c"
| "off_exec (Push # ops) c = off_exec ops (push_off c)"
| "off_exec (Pop # ops) c = bindR (pop_off c) (off_exec ops)"

text \<open>Started at nesting depth \<open>d\<close>, the sequence never pops more than was pushed and ends at depth \<open>e\<close>.\<close>

fun nests :: "nat \<Rightarrow> off_op list \<Rightarrow> nat \<Rightarrow> bool" where
  "nests d [] e = (d = e)"
| "nests d (Push # ops) e = nests (Suc d) ops e"
| "nests d (Pop # ops) e = (case d of 0 \<Rightarrow> False | Suc d \<Rightarrow> nests d ops e)"

text \<open>The CPU at depth \<open>d\<close> of sections entered with the interrupt flag \<open>b\<close>.\<close>

definition off_at :: "bool \<Rightarrow> nat \<Rightarrow> cpu \<Rightarrow> bool" where
  "off_at b d c \<longleftrightarrow> noff c = int d \<and> (if d = 0 then intr c = b else \<not> intr c \<and> intena c = b)"

lemma push_off_at: "off_at b d c \<Longrightarrow> off_at b (Suc d) (push_off c)"
  by (auto simp: off_at_def push_off_def Let_def)

lemma pop_off_at: "off_at b (Suc d) c \<Longrightarrow> \<exists>c'. pop_off c = Ok c' \<and> off_at b d c'"
  by (auto simp: off_at_def pop_off_def Let_def)

lemma off_exec_nests: "nests d ops e \<Longrightarrow> off_at b d c \<Longrightarrow> \<exists>c'. off_exec ops c = Ok c' \<and> off_at b e c'"
proof (induction d ops e arbitrary: c rule: nests.induct)
  case (2 d ops e)
  then show ?case using push_off_at by auto
next
  case (3 d ops e)
  then obtain d' where d: "d = Suc d'" "nests d' ops e" by (auto split: nat.splits)
  with 3 pop_off_at [of b d' c] show ?case by fastforce
qed simp

section \<open>Properties\<close>

text \<open>
  C4. Spinlocks exclude: however the CPUs' lock operations interleave, no two CPUs hold the same
  lock at once, a lock word is set exactly while some CPU is between its swap and its release,
  \<^verbatim>\<open>holding\<close> answers correctly on every CPU, and a CPU that holds a lock has interrupts off.
\<close>

theorem spinlock_mutual_exclusion:
  assumes "lock_boot s0" "lock_step\<^sup>*\<^sup>* s0 s"
  shows "(l \<in> held s c \<longrightarrow> l \<in> held s c' \<longrightarrow> c = c') \<and> (holding c (locks (mach s) l) \<longleftrightarrow> l \<in> held s c) \<and>
    (locked (locks (mach s) l) \<longleftrightarrow> (\<exists>d. l \<in> held s d \<or> pc s d = Got l \<or> pc s d = Leaving l)) \<and>
    (held s c \<noteq> {} \<longrightarrow> \<not> intr (cpus (mach s) c))"
proof -
  note inv = reachable_lock_inv [OF assms(2,1)]
  note D = lock_invD [OF inv]
  have "locked (locks (mach s) l)" if "l \<in> held s c" using D(2) [of l] that by (auto simp: owns_def)
  moreover have "0 < depth s c" if "held s c \<noteq> {}" using that D(5) [of c] by (simp add: depth_def card_gt_0_iff)
  ultimately show ?thesis
    using D(1) [of c l c'] D(2) [of l] D(3) [of l c] D(7) [of c] by (auto simp: owns_def holding_def)
qed

definition lock_example :: lock_state where
  "lock_example = \<lparr>mach = \<lparr>locks = (\<lambda>l. \<lparr>locked = False, lcpu = None\<rparr>), cpus = (\<lambda>c. \<lparr>intr = True, noff = 0, intena = False\<rparr>)\<rparr>,
     pc = (\<lambda>c. Running), held = (\<lambda>c. {})\<rparr>"

theorem spinlock_mutual_exclusion_witness:
  "\<exists>s. lock_step\<^sup>*\<^sup>* lock_example s \<and> 7 \<in> held s 1 \<and> 7 \<notin> held s 0 \<and> \<not> intr (cpus (mach s) 1)"
proof -
  let ?e = lock_example
  have boot: "lock_boot ?e" by (simp add: lock_boot_def lock_example_def)
  obtain m1 where m1: "acquire_enter 1 7 (mach ?e) = Ok m1" "\<not> locked (locks m1 7)"
    by (simp add: acquire_enter_def holding_def lock_example_def)
  let ?s1 = "?e\<lparr>mach := m1, pc := (pc ?e)(1 := Spinning 7)\<rparr>"
  have s1: "lock_step ?e ?s1" using m1 by (intro lock_step.acquire1) (simp_all add: lock_example_def)
  obtain m2 where m2: "acquire_swap 7 (mach ?s1) = (False, m2)" using m1 by (simp add: acquire_swap_def)
  let ?s2 = "?s1\<lparr>mach := m2, pc := (pc ?s1)(1 := Got 7)\<rparr>"
  have s2: "lock_step ?s1 ?s2" using lock_step.acquire2 [of ?s1 1 7 False m2, OF _ m2] by simp
  let ?s3 = "?s2\<lparr>mach := acquire_exit 1 7 (mach ?s2), pc := (pc ?s2)(1 := Running), held := (held ?s2)(1 := insert 7 (held ?s2 1))\<rparr>"
  have "lock_step ?s2 ?s3" by (rule lock_step.acquire3) simp
  with s1 s2 have run: "lock_step\<^sup>*\<^sup>* ?e ?s3" by (meson converse_rtranclp_into_rtranclp rtranclp.rtrancl_refl)
  have "7 \<in> held ?s3 1" "7 \<notin> held ?s3 0" by (simp_all add: lock_example_def)
  with spinlock_mutual_exclusion [OF boot run, of 7 1 0] have "\<not> intr (cpus (mach ?s3) 1)" by blast
  with run \<open>7 \<in> held ?s3 1\<close> \<open>7 \<notin> held ?s3 0\<close> show ?thesis by blast
qed

text \<open>
  C37. \<^verbatim>\<open>push_off\<close> and \<^verbatim>\<open>pop_off\<close> nest: any properly nested sequence of them runs without panic,
  keeps interrupts off inside, and after the outermost \<^verbatim>\<open>pop_off\<close> the interrupt flag is what
  it was before.
\<close>

theorem push_off_pop_off_nest:
  assumes "nests 0 ops e" "noff c = 0"
  shows "\<exists>c'. off_exec ops c = Ok c' \<and> noff c' = int e \<and> (if e = 0 then intr c' = intr c else \<not> intr c')"
proof -
  have "off_at (intr c) 0 c" using assms(2) by (simp add: off_at_def)
  from off_exec_nests [OF assms(1) this] show ?thesis by (auto simp: off_at_def)
qed

theorem push_off_pop_off_nest_witness:
  "\<exists>c'. off_exec [Push, Push, Pop, Pop] \<lparr>intr = True, noff = 0, intena = False\<rparr> = Ok c' \<and> noff c' = 0 \<and> intr c'"
  using push_off_pop_off_nest [of "[Push, Push, Pop, Pop]" 0 "\<lparr>intr = True, noff = 0, intena = False\<rparr>"] by auto

end
