(* ===== verification/Sched.thy ===== *)
theory Sched
  imports Spinlock Printf
begin

text \<open>
  The process table of \<^verbatim>\<open>kernel/proc.c\<close>: sleeping and waking, killing, reparenting, time
  accounting, and the schedulers. A pointer to a table entry is its index and a null pointer
  \<open>None\<close>; the index \<open>NPROC\<close> is the pointer one past the table, which the code must not access.
  A channel is the address passed to \<^verbatim>\<open>sleep\<close>; the address of a process is \<open>ChProc\<close> of its index.
  Operations on one entry run under \<^verbatim>\<open>p->lock\<close> and are atomic; the scan loops, which take one
  lock at a time, are given by their effect in one go.
\<close>

datatype procstate = UNUSED | USED | SLEEPING | RUNNABLE | RUNNING | ZOMBIE

datatype chan = NoChan | ChProc nat | ChAddr uint64

record kcontext =
  ra :: uint64
  sp :: uint64
  sregs :: "uint64 list"

record proc =
  state :: procstate
  chan :: chan
  killed :: bool
  xstate :: cint
  pid :: int
  ctime :: uint
  etime :: uint
  wtime :: uint
  rtime :: uint
  nrun :: uint
  spriority :: int
  niceness :: int
  parent :: "nat option"
  kstack :: uint64
  sz :: uint64
  pagetable :: uint64
  trapframe :: uint64
  pcontext :: kcontext
  ofile :: "nat option list"
  cwd :: "nat option"
  pname :: string
  trace_mask :: cint
  queue :: int
  ticks_in_curr_slice :: int
  qticks :: "int list"
  last_exec :: int

section \<open>Sleep, wakeup, kill\<close>

definition sleep_on :: "chan \<Rightarrow> proc \<Rightarrow> proc" where
  "sleep_on ch p = p\<lparr>chan := ch, state := SLEEPING\<rparr>"

text \<open>What \<^verbatim>\<open>sleep\<close> does when \<^verbatim>\<open>sched\<close> returns.\<close>

definition sleep_done :: "proc \<Rightarrow> proc" where
  "sleep_done p = p\<lparr>chan := NoChan\<rparr>"

definition wake :: "chan \<Rightarrow> proc \<Rightarrow> proc" where
  "wake ch p = (if state p = SLEEPING \<and> chan p = ch then p\<lparr>state := RUNNABLE\<rparr> else p)"

definition wakeup :: "nat option \<Rightarrow> chan \<Rightarrow> proc list \<Rightarrow> proc list" where
  "wakeup me ch ps = map (\<lambda>(i, p). if Some i \<noteq> me then wake ch p else p) (enumerate 0 ps)"

definition kill :: "int \<Rightarrow> proc list \<Rightarrow> int \<times> proc list" where
  "kill pd ps =
     (case first_idx (\<lambda>p. pid p = pd) ps of
        None \<Rightarrow> (-1, ps)
      | Some i \<Rightarrow>
          let p = (ps ! i)\<lparr>killed := True\<rparr>;
              p = (if state p = SLEEPING then p\<lparr>state := RUNNABLE\<rparr> else p)
          in (0, ps[i := p]))"

definition setkilled :: "nat \<Rightarrow> proc list \<Rightarrow> proc list" where
  "setkilled i ps = ps[i := (ps ! i)\<lparr>killed := True\<rparr>]"

text \<open>\<^verbatim>\<open>reparent(p)\<close>, with \<^verbatim>\<open>wakeup(initproc)\<close> for every child found.\<close>

fun reparent_loop :: "nat option \<Rightarrow> nat \<Rightarrow> nat \<Rightarrow> nat list \<Rightarrow> proc list \<Rightarrow> proc list" where
  "reparent_loop me initproc p [] ps = ps"
| "reparent_loop me initproc p (i # is) ps =
     reparent_loop me initproc p is
       (if parent (ps ! i) = Some p
        then wakeup me (ChProc initproc) (ps[i := (ps ! i)\<lparr>parent := Some initproc\<rparr>])
        else ps)"

definition reparent :: "nat \<Rightarrow> nat \<Rightarrow> proc list \<Rightarrow> proc list" where
  "reparent initproc p ps = reparent_loop (Some p) initproc p [0..<length ps] ps"

definition time_updates :: "proc list \<Rightarrow> proc list" where
  "time_updates ps = map (\<lambda>p. if state p = RUNNING then p\<lparr>rtime := rtime p + 1\<rparr> else p) ps"

text \<open>\<^verbatim>\<open>sched\<close>: its checks, and the interrupt flag it restores after \<^verbatim>\<open>swtch\<close> (on whatever CPU that is).\<close>

definition sched :: "nat \<Rightarrow> spinlock \<Rightarrow> cpu \<Rightarrow> proc \<Rightarrow> bool result" where
  "sched c lk k p =
     (if \<not> holding c lk then Panic ''sched p->lock''
      else if noff k \<noteq> 1 then Panic ''sched locks''
      else if state p = RUNNING then Panic ''sched running''
      else if intr k then Panic ''sched interruptible''
      else Ok (intena k))"

definition yield :: "proc \<Rightarrow> proc" where
  "yield p = p\<lparr>state := RUNNABLE\<rparr>"

section \<open>Priorities\<close>

definition dynamic_priority :: "proc \<Rightarrow> int \<times> proc" where
  "dynamic_priority p =
     (let p = p\<lparr>spriority := 60\<rparr>;
          denom = wtime p + rtime p;
          p = (if denom = 0 then p\<lparr>niceness := 5\<rparr> else p\<lparr>niceness := sint ((wtime p div denom) * 10)\<rparr>);
          temp = spriority p - niceness p + 5;
          temp = (if temp > 100 then 100 else temp);
          temp = (if temp < 0 then 0 else temp)
      in (temp, p))"

definition set_priority :: "int \<Rightarrow> int \<Rightarrow> proc list \<Rightarrow> int \<times> proc list" where
  "set_priority new_priority pd ps =
     (case first_idx (\<lambda>p. pid p = pd) ps of
        None \<Rightarrow> (0, ps)
      | Some i \<Rightarrow> (spriority (ps ! i), ps[i := (ps ! i)\<lparr>spriority := new_priority, niceness := 5\<rparr>]))"

section \<open>Choosing a process\<close>

text \<open>
  Round robin: one iteration of the inner loop of \<^verbatim>\<open>scheduler\<close> looks at one entry; a process
  that was switched to comes back through \<^verbatim>\<open>sched\<close> and the loop goes on behind it.
\<close>

definition rr_visit :: "nat \<Rightarrow> proc list \<Rightarrow> nat option \<times> proc list" where
  "rr_visit i ps =
     (if state (ps ! i) = RUNNABLE then (Some i, ps[i := (ps ! i)\<lparr>state := RUNNING\<rparr>]) else (None, ps))"

text \<open>
  The loops around it: \<^verbatim>\<open>p++\<close>, and past the end of the table the outer loop starts the inner one
  again. \<open>rr_run\<close> is \<open>n\<close> iterations from entry \<open>i\<close> on, each given as the process it switched to and
  the table it looked at. \<open>env t\<close> is everything that happens to the table after the iteration at
  time \<open>t\<close>, until the next one looks: the process that was switched to runs and comes back, other
  CPUs and interrupt handlers act.
\<close>

definition rr_next :: "nat \<Rightarrow> nat" where
  "rr_next i = (if i + 1 < NPROC then i + 1 else 0)"

fun rr_run :: "(nat \<Rightarrow> proc list \<Rightarrow> proc list) \<Rightarrow> nat \<Rightarrow> nat \<Rightarrow> nat \<Rightarrow> proc list \<Rightarrow> (nat option \<times> proc list) list" where
  "rr_run env t 0 i ps = []"
| "rr_run env t (Suc n) i ps =
     (let (r, ps') = rr_visit i ps in (r, ps) # rr_run env (t + 1) n (rr_next i) (env t ps'))"

text \<open>First come first served: the selection loop, and what the code then does with \<^verbatim>\<open>p\<close>, which the
  loop has left one past the table.\<close>

fun fcfs_loop :: "proc list \<Rightarrow> nat list \<Rightarrow> nat option \<Rightarrow> nat option" where
  "fcfs_loop ps [] first = first"
| "fcfs_loop ps (i # is) first =
     fcfs_loop ps is
       (if state (ps ! i) = RUNNABLE
        then (case first of None \<Rightarrow> Some i | Some f \<Rightarrow> if ctime (ps ! f) > ctime (ps ! i) then Some i else Some f)
        else first)"

definition switch_to :: "nat \<Rightarrow> proc list \<Rightarrow> (nat option \<times> proc list) result" where
  "switch_to p ps = (if p < length ps then Ok (rr_visit p ps) else Undef)"

definition fcfs_round :: "proc list \<Rightarrow> (nat option \<times> proc list) result" where
  "fcfs_round ps =
     (let first = fcfs_loop ps [0..<length ps] None; p = length ps in
      case first of None \<Rightarrow> Ok (None, ps) | Some f \<Rightarrow> switch_to p ps)"

text \<open>Priority based: the selection loop recomputes the priorities of both candidates.\<close>

fun pbs_loop :: "nat list \<Rightarrow> nat option \<Rightarrow> proc list \<Rightarrow> nat option \<times> proc list" where
  "pbs_loop [] hp ps = (hp, ps)"
| "pbs_loop (i # is) hp ps =
     (if state (ps ! i) \<noteq> RUNNABLE then pbs_loop is hp ps
      else case hp of
          None \<Rightarrow> pbs_loop is (Some i) ps
        | Some h \<Rightarrow>
            let (dp, p) = dynamic_priority (ps ! i);
                ps = ps[i := p];
                (hp_dp, q) = dynamic_priority (ps ! h);
                ps = ps[h := q]
            in
            if dp < hp_dp then pbs_loop is (Some i) ps
            else if dp = hp_dp then
              (if nrun (ps ! i) > nrun (ps ! h) then pbs_loop is (Some i) ps
               else if nrun (ps ! i) = nrun (ps ! h) \<and> ctime (ps ! h) < ctime (ps ! i) then pbs_loop is (Some i) ps
               else pbs_loop is (Some h) ps)
            else pbs_loop is (Some h) ps)"

definition pbs_switch :: "proc list \<Rightarrow> nat option \<times> proc list" where
  "pbs_switch ps =
     (case pbs_loop [0..<length ps] None ps of
        (None, ps) \<Rightarrow> (None, ps)
      | (Some h, ps) \<Rightarrow> rr_visit h ps)"

text \<open>What the loop does when the process it switched to comes back; then it releases the lock of
  the entry one past the table.\<close>

definition pbs_back :: "nat \<Rightarrow> proc list \<Rightarrow> proc list result" where
  "pbs_back h ps =
     (let ps = ps[h := (ps ! h)\<lparr>wtime := 0, rtime := 0, nrun := nrun (ps ! h) + 1\<rparr>]; p = length ps in
      if p < length ps then Ok ps else Undef)"

section \<open>The listing\<close>

fun state_name :: "procstate \<Rightarrow> string" where
  "state_name UNUSED = ''unused''"
| "state_name USED = ''used''"
| "state_name SLEEPING = ''sleep ''"
| "state_name RUNNABLE = ''runble''"
| "state_name RUNNING = ''run   ''"
| "state_name ZOMBIE = ''zombie''"

fun procdump_lines :: "proc list \<Rightarrow> string result" where
  "procdump_lines [] = Ok []"
| "procdump_lines (p # ps) =
     (if state p = UNUSED then procdump_lines ps
      else bindR (kformat ''%d %s %s'' [AInt (of_int (pid p)), AStr (Some (state_name (state p))), AStr (Some (pname p))]) (\<lambda>line.
           bindR (kformat ''\<newline>'' []) (\<lambda>nl. bindR (procdump_lines ps) (\<lambda>rest. Ok (line @ nl @ rest)))))"

definition procdump :: "proc list \<Rightarrow> string result" where
  "procdump ps = bindR (kformat ''\<newline>'' []) (\<lambda>nl. bindR (procdump_lines ps) (\<lambda>rest. Ok (nl @ rest)))"

section \<open>Single operations\<close>

lemma length_wakeup [simp]: "length (wakeup me ch ps) = length ps"
  by (simp add: wakeup_def)

lemma nth_wakeup: "i < length ps \<Longrightarrow> wakeup me ch ps ! i = (if Some i \<noteq> me then wake ch (ps ! i) else ps ! i)"
  by (simp add: wakeup_def nth_enumerate_eq)

lemma wake_fields [simp]:
  "parent (wake ch p) = parent p" "chan (wake ch p) = chan p" "pid (wake ch p) = pid p" "killed (wake ch p) = killed p"
  "state (wake ch p) = RUNNING \<longleftrightarrow> state p = RUNNING"
  by (auto simp: wake_def)

lemma wake_parent: "wake ch (p\<lparr>parent := q\<rparr>) = (wake ch p)\<lparr>parent := q\<rparr>"
  by (simp add: wake_def)

lemma wake_idem [simp]: "wake ch (wake ch p) = wake ch p"
  by (simp add: wake_def)

text \<open>The effect of the loop of \<^verbatim>\<open>reparent\<close> on one entry, after the entries in \<open>is\<close> have been visited.\<close>

definition reparented :: "nat option \<Rightarrow> nat \<Rightarrow> nat \<Rightarrow> nat set \<Rightarrow> proc list \<Rightarrow> nat \<Rightarrow> proc" where
  "reparented me init p is ps i =
     (let q = (if i \<in> is \<and> parent (ps ! i) = Some p then (ps ! i)\<lparr>parent := Some init\<rparr> else ps ! i) in
      if Some i \<noteq> me \<and> (\<exists>j \<in> is. parent (ps ! j) = Some p) then wake (ChProc init) q else q)"

lemma reparent_loop_spec:
  "distinct is \<Longrightarrow> set is \<subseteq> {..<length ps} \<Longrightarrow> init \<noteq> p \<Longrightarrow>
   length (reparent_loop me init p is ps) = length ps \<and>
   (\<forall>i < length ps. reparent_loop me init p is ps ! i = reparented me init p (set is) ps i)"
proof (induction "is" arbitrary: ps)
  case Nil
  then show ?case by (simp add: reparented_def)
next
  case (Cons k ks)
  define qs where "qs = (if parent (ps ! k) = Some p
    then wakeup me (ChProc init) (ps[k := (ps ! k)\<lparr>parent := Some init\<rparr>]) else ps)"
  have len: "length qs = length ps" by (simp add: qs_def)
  have par: "parent (qs ! i) = (if i = k \<and> parent (ps ! k) = Some p then Some init else parent (ps ! i))" if "i < length ps" for i
    using that by (auto simp: qs_def nth_wakeup nth_list_update)
  have "parent (qs ! j) = parent (ps ! j)" if "j \<in> set ks" for j
    using that Cons.prems(1,2) par [of j] by auto
  then have kids: "(\<exists>j \<in> set ks. parent (qs ! j) = Some p) \<longleftrightarrow> (\<exists>j \<in> set ks. parent (ps ! j) = Some p)" by simp
  have IH: "length (reparent_loop me init p ks qs) = length qs"
    "\<forall>i < length qs. reparent_loop me init p ks qs ! i = reparented me init p (set ks) qs i"
    using Cons.IH [of qs] Cons.prems len by auto
  have "reparented me init p (set ks) qs i = reparented me init p (set (k # ks)) ps i" if i: "i < length ps" for i
  proof (cases "parent (ps ! k) = Some p")
    case True
    have "qs ! i = (let q = (if i = k then (ps ! i)\<lparr>parent := Some init\<rparr> else ps ! i) in
        if Some i \<noteq> me then wake (ChProc init) q else q)"
      using True i by (auto simp: qs_def nth_wakeup nth_list_update)
    then show ?thesis
      using True Cons.prems par [OF i] kids by (auto simp: reparented_def Let_def wake_parent)
  next
    case False
    then have "qs = ps" by (simp add: qs_def)
    then show ?thesis using False by (auto simp: reparented_def)
  qed
  then show ?case using IH len by (simp flip: qs_def)
qed

section \<open>Schedulers on several CPUs\<close>

lemma rr_next_less [simp]: "rr_next i < NPROC"
  by (simp add: rr_next_def NPROC_def)

text \<open>
  \<open>cproc c\<close> is \<^verbatim>\<open>c->proc\<close>, \<open>pos c\<close> the next entry the scheduler of CPU \<open>c\<close> looks at. A running
  process gives up its CPU by \<^verbatim>\<open>yield\<close>, \<^verbatim>\<open>sleep\<close> or \<^verbatim>\<open>exit\<close>; the other steps are what running
  processes and interrupt handlers do to the table.
\<close>

record sched_state =
  procs :: "proc list"
  cproc :: "nat \<Rightarrow> nat option"
  pos :: "nat \<Rightarrow> nat"

inductive leaves :: "proc \<Rightarrow> proc \<Rightarrow> bool" where
  yields: "leaves p (yield p)"
| sleeps: "leaves p (sleep_on ch p)"
| exits: "leaves p (p\<lparr>xstate := st, state := ZOMBIE, etime := t\<rparr>)"

inductive sched_step :: "sched_state \<Rightarrow> sched_state \<Rightarrow> bool" where
  visit: "cproc s c = None \<Longrightarrow> rr_visit (pos s c) (procs s) = (r, ps) \<Longrightarrow>
    sched_step s (s\<lparr>procs := ps, cproc := (cproc s)(c := r), pos := (pos s)(c := rr_next (pos s c))\<rparr>)"
| goes_back: "cproc s c = Some i \<Longrightarrow> leaves (procs s ! i) p \<Longrightarrow>
    sched_step s (s\<lparr>procs := (procs s)[i := p], cproc := (cproc s)(c := None)\<rparr>)"
| wakes: "sched_step s (s\<lparr>procs := wakeup me ch (procs s)\<rparr>)"
| kills: "sched_step s (s\<lparr>procs := snd (kill pd (procs s))\<rparr>)"
| ticks: "sched_step s (s\<lparr>procs := time_updates (procs s)\<rparr>)"
| entry: "i < NPROC \<Longrightarrow> state (procs s ! i) \<in> {UNUSED, USED, ZOMBIE} \<Longrightarrow> state p \<in> {UNUSED, USED, RUNNABLE} \<Longrightarrow>
    sched_step s (s\<lparr>procs := (procs s)[i := p]\<rparr>)"

definition sched_inv :: "sched_state \<Rightarrow> bool" where
  "sched_inv s \<longleftrightarrow> length (procs s) = NPROC \<and> (\<forall>c. pos s c < NPROC) \<and>
     (\<forall>c i. cproc s c = Some i \<longrightarrow> i < NPROC) \<and>
     (\<forall>i < NPROC. state (procs s ! i) = RUNNING \<longleftrightarrow> (\<exists>c. cproc s c = Some i)) \<and>
     (\<forall>c c' i. cproc s c = Some i \<longrightarrow> cproc s c' = Some i \<longrightarrow> c = c')"

lemma sched_invD:
  assumes "sched_inv s"
  shows "length (procs s) = NPROC" "pos s c < NPROC" "cproc s c = Some i \<Longrightarrow> i < NPROC"
    "i < NPROC \<Longrightarrow> state (procs s ! i) = RUNNING \<longleftrightarrow> (\<exists>c. cproc s c = Some i)"
    "cproc s c = Some i \<Longrightarrow> cproc s c' = Some i \<Longrightarrow> c = c'"
  using assms unfolding sched_inv_def by blast+

text \<open>A step that runs no process and stops none.\<close>

lemma sched_inv_same_running:
  assumes "sched_inv s" "length ps = NPROC" "\<And>i. i < NPROC \<Longrightarrow> state (ps ! i) = RUNNING \<longleftrightarrow> state (procs s ! i) = RUNNING"
  shows "sched_inv (s\<lparr>procs := ps\<rparr>)"
  using assms by (simp add: sched_inv_def)

lemma kill_running:
  "length (snd (kill pd ps)) = length ps"
  "i < length ps \<Longrightarrow> state (snd (kill pd ps) ! i) = RUNNING \<longleftrightarrow> state (ps ! i) = RUNNING"
  by (auto simp: kill_def Let_def nth_list_update split: option.splits if_splits dest!: first_idx_length)

lemma sched_step_inv: "sched_step s s' \<Longrightarrow> sched_inv s \<Longrightarrow> sched_inv s'"
proof (induction rule: sched_step.induct)
  case (visit s c r ps)
  note D = sched_invD [OF visit(3)]
  have NP: "0 < NPROC" by (simp add: NPROC_def)
  show ?case
  proof (cases "state (procs s ! pos s c) = RUNNABLE")
    case True
    then have r: "r = Some (pos s c)" "ps = (procs s)[pos s c := (procs s ! pos s c)\<lparr>state := RUNNING\<rparr>]"
      using visit(2) by (auto simp: rr_visit_def)
    have free: "cproc s c' \<noteq> Some (pos s c)" for c' using D(4) [OF D(2), of c] True by auto
    show ?thesis
      unfolding sched_inv_def
    proof (intro conjI allI impI)
      fix i assume i: "i < NPROC"
      let ?s = "s\<lparr>procs := ps, cproc := (cproc s)(c := r), pos := (pos s)(c := rr_next (pos s c))\<rparr>"
      show "state (procs ?s ! i) = RUNNING \<longleftrightarrow> (\<exists>c. cproc ?s c = Some i)"
      proof (cases "i = pos s c")
        case True
        then show ?thesis using r D(1) D(2) [of c] by auto
      next
        case False
        have "(\<exists>d. cproc ?s d = Some i) \<longleftrightarrow> (\<exists>d. cproc s d = Some i)"
          using False visit(1) r(1) by (simp add: fun_upd_def) (metis option.distinct(1))
        then show ?thesis using False r(2) D(4) [OF i] by simp
      qed
    qed (use r free D NP in \<open>auto split: if_splits\<close>)
  next
    case False
    then have "r = None" "ps = procs s" using visit(2) by (auto simp: rr_visit_def)
    then have "s\<lparr>procs := ps, cproc := (cproc s)(c := r), pos := (pos s)(c := rr_next (pos s c))\<rparr> =
        s\<lparr>pos := (pos s)(c := rr_next (pos s c))\<rparr>" using visit(1) by (auto simp: fun_upd_idem)
    then show ?thesis using visit(3) NP by (simp add: sched_inv_def)
  qed
next
  case (goes_back s c i p)
  note D = sched_invD [OF goes_back(3)]
  have p: "state p \<noteq> RUNNING" using goes_back(2) by cases (simp_all add: yield_def sleep_on_def)
  have only: "cproc s c' \<noteq> Some i" if "c' \<noteq> c" for c' using D(5) [OF goes_back(1), of c'] that by auto
  let ?s = "s\<lparr>procs := (procs s)[i := p], cproc := (cproc s)(c := None)\<rparr>"
  show ?case
    unfolding sched_inv_def
  proof (intro conjI allI impI)
    fix k assume k: "k < NPROC"
    show "state (procs ?s ! k) = RUNNING \<longleftrightarrow> (\<exists>c. cproc ?s c = Some k)"
    proof (cases "k = i")
      case True
      then show ?thesis using p only D(1) D(3) [OF goes_back(1)] by auto
    next
      case False
      have "(\<exists>d. cproc ?s d = Some k) \<longleftrightarrow> (\<exists>d. cproc s d = Some k)"
        using False goes_back(1) by (simp add: fun_upd_def) (metis option.inject)
      then show ?thesis using False D(4) [OF k] by simp
    qed
  qed (use D in \<open>auto split: if_splits\<close>)
next
  case (wakes s me ch)
  then show ?case
    using sched_invD(1) [OF wakes] by (intro sched_inv_same_running) (simp_all add: nth_wakeup)
next
  case (kills s pd)
  then show ?case
    using sched_invD(1) [OF kills] kill_running by (intro sched_inv_same_running) simp_all
next
  case (ticks s)
  then show ?case using sched_invD(1) [OF ticks] by (intro sched_inv_same_running) (simp_all add: time_updates_def)
next
  case (entry i s p)
  then show ?case
    using sched_invD(1) [OF entry(4)] by (intro sched_inv_same_running) (auto simp: nth_list_update)
qed

lemma sched_reachable_inv: "sched_step\<^sup>*\<^sup>* s0 s \<Longrightarrow> sched_inv s0 \<Longrightarrow> sched_inv s"
  by (induction rule: rtranclp_induct) (auto intro: sched_step_inv)

section \<open>Sleep and wakeup\<close>

text \<open>
  The protocol between \<^verbatim>\<open>sleep\<close> and \<^verbatim>\<open>wakeup\<close> that loses no wakeup. Sleepers test a condition
  under the lock \<^verbatim>\<open>lk\<close> and call \<^verbatim>\<open>sleep(chan, lk)\<close> if it does not hold; a waker makes it hold under
  \<^verbatim>\<open>lk\<close> and then calls \<^verbatim>\<open>wakeup(chan)\<close>, which visits the table entry by entry, each under its
  lock. The steps are those at which the two locks are taken and released.
\<close>

datatype sl_pc = Away | Holding | Locking | Committing | Asleep

record sw_state =
  cond :: bool
  lk_owner :: "nat option option"  \<comment> \<open>the waker is \<open>None\<close>, sleeper \<open>i\<close> is \<open>Some i\<close>\<close>
  sl :: "nat \<Rightarrow> sl_pc"
  scan :: "nat option"             \<comment> \<open>the entry \<^verbatim>\<open>wakeup\<close> visits next\<close>

inductive sw_step :: "sw_state \<Rightarrow> sw_state \<Rightarrow> bool" where
  enter: "sl s i = Away \<Longrightarrow> lk_owner s = None \<Longrightarrow>
    sw_step s (s\<lparr>sl := (sl s)(i := Holding), lk_owner := Some (Some i)\<rparr>)"
| leave: "sl s i = Holding \<Longrightarrow> cond s \<Longrightarrow>
    sw_step s (s\<lparr>cond := False, sl := (sl s)(i := Away), lk_owner := None\<rparr>)"
| sleep1: "sl s i = Holding \<Longrightarrow> \<not> cond s \<Longrightarrow>
    sw_step s (s\<lparr>sl := (sl s)(i := Locking)\<rparr>)"
| sleep2: "sl s i = Locking \<Longrightarrow>
    sw_step s (s\<lparr>sl := (sl s)(i := Committing), lk_owner := None\<rparr>)"
| sleep3: "sl s i = Committing \<Longrightarrow>
    sw_step s (s\<lparr>sl := (sl s)(i := Asleep)\<rparr>)"
| wake1: "scan s = None \<Longrightarrow> lk_owner s = None \<Longrightarrow>
    sw_step s (s\<lparr>lk_owner := Some None, cond := True, scan := Some 0\<rparr>)"
| wake2: "scan s = Some i \<Longrightarrow> i < NPROC \<Longrightarrow> sl s i \<notin> {Locking, Committing} \<Longrightarrow>
    sw_step s (s\<lparr>scan := Some (Suc i), sl := (sl s)(i := if sl s i = Asleep then Away else sl s i)\<rparr>)"
| wake3: "scan s = Some NPROC \<Longrightarrow>
    sw_step s (s\<lparr>scan := None, lk_owner := None\<rparr>)"

text \<open>
  A sleeper that has taken its own lock and one that is committed still hold it (\<open>wake2\<close> waits for
  them); one in \<open>Locking\<close> or \<open>Holding\<close> also holds \<^verbatim>\<open>lk\<close>.
\<close>

definition sw_inv :: "sw_state \<Rightarrow> bool" where
  "sw_inv s \<longleftrightarrow>
     (\<forall>i. sl s i \<in> {Holding, Locking} \<longrightarrow> lk_owner s = Some (Some i)) \<and>
     (scan s \<noteq> None \<longleftrightarrow> lk_owner s = Some None) \<and>
     (\<forall>i. sl s i = Locking \<longrightarrow> \<not> cond s) \<and>
     (\<forall>i < NPROC. sl s i \<in> {Committing, Asleep} \<longrightarrow> cond s \<longrightarrow> (\<exists>j \<le> i. scan s = Some j)) \<and>
     (\<forall>j. scan s = Some j \<longrightarrow> j \<le> NPROC)"

lemma sw_invD:
  assumes "sw_inv s"
  shows "sl s i = Holding \<or> sl s i = Locking \<Longrightarrow> lk_owner s = Some (Some i)" "scan s \<noteq> None \<longleftrightarrow> lk_owner s = Some None"
    "sl s i = Locking \<Longrightarrow> \<not> cond s"
    "i < NPROC \<Longrightarrow> sl s i = Committing \<or> sl s i = Asleep \<Longrightarrow> cond s \<Longrightarrow> \<exists>j \<le> i. scan s = Some j"
    "scan s = Some j \<Longrightarrow> j \<le> NPROC"
  using assms unfolding sw_inv_def by auto

lemma sw_invI:
  assumes "\<And>i. sl s i = Holding \<or> sl s i = Locking \<Longrightarrow> lk_owner s = Some (Some i)" "scan s \<noteq> None \<longleftrightarrow> lk_owner s = Some None"
    "\<And>i. sl s i = Locking \<Longrightarrow> \<not> cond s"
    "\<And>i. i < NPROC \<Longrightarrow> sl s i = Committing \<or> sl s i = Asleep \<Longrightarrow> cond s \<Longrightarrow> \<exists>j \<le> i. scan s = Some j"
    "\<And>j. scan s = Some j \<Longrightarrow> j \<le> NPROC"
  shows "sw_inv s"
  using assms unfolding sw_inv_def by auto

lemma sw_step_inv: "sw_step s s' \<Longrightarrow> sw_inv s \<Longrightarrow> sw_inv s'"
proof (induction rule: sw_step.induct)
  case (enter s i)
  note D = sw_invD [OF enter(3)]
  show ?case
    by (rule sw_invI) (use D enter(1,2) in \<open>auto split: if_splits\<close>)
next
  case (leave s i)
  note D = sw_invD [OF leave(3)]
  have own: "lk_owner s = Some (Some i)" using D(1) leave(1) by simp
  show ?case
    by (rule sw_invI) (use D(1,2,5) own in \<open>auto split: if_splits\<close>)
next
  case (sleep1 s i)
  note D = sw_invD [OF sleep1(3)]
  show ?case
    by (rule sw_invI) (use D(1,2,5) sleep1(1,2) in \<open>auto split: if_splits\<close>)
next
  case (sleep2 s i)
  note D = sw_invD [OF sleep2(2)]
  have own: "lk_owner s = Some (Some i)" "\<not> cond s" using D(1,3) sleep2(1) by simp_all
  show ?case
    by (rule sw_invI) (use D(1,2,5) own in \<open>auto split: if_splits\<close>)
next
  case (sleep3 s i)
  note D = sw_invD [OF sleep3(2)]
  show ?case
    by (rule sw_invI) (use D sleep3(1) in \<open>auto split: if_splits\<close>)
next
  case (wake1 s)
  note D = sw_invD [OF wake1(3)]
  show ?case
    by (rule sw_invI) (use D(1) wake1(2) in \<open>auto split: if_splits\<close>)
next
  case (wake2 s i)
  note D = sw_invD [OF wake2(4)]
  show ?case
  proof (rule sw_invI)
    fix k assume k: "k < NPROC"
    let ?s = "s\<lparr>scan := Some (Suc i), sl := (sl s)(i := if sl s i = Asleep then Away else sl s i)\<rparr>"
    assume a: "sl ?s k = Committing \<or> sl ?s k = Asleep" "cond ?s"
    then have "k \<noteq> i" using wake2(3) by (auto split: if_splits)
    moreover from this have "i \<le> k" using D(4) [OF k] a wake2(1) by auto
    ultimately show "\<exists>j \<le> k. scan ?s = Some j" by simp
  qed (use D(1,2,3) wake2(1,2) in \<open>auto split: if_splits\<close>)
next
  case (wake3 s)
  note D = sw_invD [OF wake3(2)]
  have "lk_owner s = Some None" using D(2) wake3(1) by auto
  then show ?case
    by (intro sw_invI) (use D(1,3,4) wake3(1) in \<open>auto split: if_splits\<close>)
qed

lemma sw_reachable_inv: "sw_step\<^sup>*\<^sup>* s0 s \<Longrightarrow> sw_inv s0 \<Longrightarrow> sw_inv s"
  by (induction rule: rtranclp_induct) (auto intro: sw_step_inv)

section \<open>Taking turns\<close>

lemma rr_next_mod: "i < NPROC \<Longrightarrow> rr_next i = (i + 1) mod NPROC"
  using mod_less [of "i + 1" NPROC] by (cases "i + 1 = NPROC") (auto simp: rr_next_def)

text \<open>The \<open>m\<close>-th iteration looks at the \<open>m\<close>-th entry after the first, cyclically.\<close>

lemma rr_run_nth:
  assumes "i < NPROC" "m < n"
  obtains ps' where "rr_run env t n i ps ! m = (fst (rr_visit ((i + m) mod NPROC) ps'), ps')"
proof -
  have "\<exists>ps'. rr_run env t n i ps ! m = (fst (rr_visit ((i + m) mod NPROC) ps'), ps')"
    using assms
  proof (induction n arbitrary: i m t ps)
    case (Suc n)
    show ?case
    proof (cases m)
      case 0
      then show ?thesis using Suc.prems(1) by (simp add: split_beta Let_def)
    next
      case (Suc m')
      have "rr_next i < NPROC" "(rr_next i + m') mod NPROC = (i + m) mod NPROC"
        using Suc.prems(1) Suc rr_next_mod [of i] by (auto simp: rr_next_def mod_add_left_eq)
      then show ?thesis
        using Suc.IH [of "rr_next i" m' "t + 1" "env t (snd (rr_visit i ps))"] Suc.prems(2) Suc by (simp add: split_beta Let_def)
    qed
  qed simp
  then show thesis using that by blast
qed

lemma length_rr_run [simp]: "length (rr_run env t n i ps) = n"
  by (induction n arbitrary: t i ps) (simp_all add: split_beta Let_def)

lemma distinct_choices:
  assumes "\<And>m. m < length xs \<Longrightarrow> xs ! m = None \<or> xs ! m = Some (f m)" "inj_on f {..<length xs}"
  shows "distinct (filter (\<lambda>r. r \<noteq> None) xs)"
  using assms
proof (induction xs arbitrary: f)
  case (Cons x xs)
  have tail: "xs ! m = None \<or> xs ! m = Some ((f \<circ> Suc) m)" if "m < length xs" for m using Cons.prems(1) [of "Suc m"] that by simp
  have inj: "inj_on (f \<circ> Suc) {..<length xs}" using Cons.prems(2) by (auto simp: inj_on_def)
  have "x \<notin> set xs" if "x = Some (f 0)"
  proof
    assume "x \<in> set xs"
    then obtain m where m: "m < length xs" "xs ! m = x" by (auto simp: in_set_conv_nth)
    then have "f (Suc m) = f 0" using tail [OF m(1)] that by simp
    then show False using Cons.prems(2) m(1) by (auto simp: inj_on_def)
  qed
  then show ?case using Cons.IH [OF tail inj] Cons.prems(1) [of 0] by auto
qed simp

lemma shift_mod_inj: "inj_on (\<lambda>m. (i + m) mod N) {..<N}" for i N :: nat
proof (rule linorder_inj_onI')
  fix a b assume ab: "a \<in> {..<N}" "b \<in> {..<N}" "a < b"
  have "(b - a) mod N \<noteq> 0" using ab by simp
  then show "(i + a) mod N \<noteq> (i + b) mod N"
    using ab by (metis add_diff_cancel_left add_less_cancel_left diff_add_inverse less_imp_le mod_eq_dvd_iff_nat dvd_imp_mod_0)
qed

lemma fcfs_loop_spec:
  assumes "\<forall>i \<in> set is. state (ps ! i) = RUNNABLE \<longrightarrow> True"
  shows "case fcfs_loop ps is first of
      None \<Rightarrow> first = None \<and> (\<forall>i \<in> set is. state (ps ! i) \<noteq> RUNNABLE)
    | Some f \<Rightarrow> (f \<in> set is \<and> state (ps ! f) = RUNNABLE \<or> first = Some f) \<and>
        (\<forall>i \<in> set is. state (ps ! i) = RUNNABLE \<longrightarrow> ctime (ps ! f) \<le> ctime (ps ! i)) \<and>
        (\<forall>g. first = Some g \<longrightarrow> ctime (ps ! f) \<le> ctime (ps ! g))"
  using assms
proof (induction "is" arbitrary: first)
  case (Cons i is')
  let ?first = "if state (ps ! i) = RUNNABLE
    then (case first of None \<Rightarrow> Some i | Some f \<Rightarrow> if ctime (ps ! f) > ctime (ps ! i) then Some i else Some f) else first"
  note IH = Cons.IH [of ?first]
  show ?case
  proof (cases "fcfs_loop ps is' ?first")
    case None
    with IH show ?thesis by (auto split: if_splits option.splits)
  next
    case (Some f)
    with IH show ?thesis by (auto split: if_splits option.splits)
  qed
qed (simp split: option.splits)

section \<open>Properties\<close>

text \<open>
  C14. A process runs on at most one CPU: however the schedulers of the CPUs, the running
  processes and the interrupt handlers interleave, an entry is RUNNING exactly when it is the
  current process of some CPU, and no two CPUs have the same current process.
\<close>

theorem runs_on_one_cpu:
  assumes "sched_inv s0" "sched_step\<^sup>*\<^sup>* s0 s"
  shows "(i < NPROC \<longrightarrow> (state (procs s ! i) = RUNNING \<longleftrightarrow> (\<exists>c. cproc s c = Some i))) \<and>
    (cproc s c = Some i \<longrightarrow> cproc s c' = Some i \<longrightarrow> c = c')"
  using sched_invD(4,5) [OF sched_reachable_inv [OF assms(2,1)]] by blast

definition proc_example :: proc where
  "proc_example = \<lparr>state = RUNNABLE, chan = NoChan, killed = False, xstate = 0, pid = 1, ctime = 5, etime = 0, wtime = 0, rtime = 3, nrun = 0,
     spriority = 60, niceness = 5, parent = None, kstack = 0, sz = 0, pagetable = 0, trapframe = 0,
     pcontext = \<lparr>ra = 0, sp = 0, sregs = []\<rparr>, ofile = [], cwd = None, pname = ''init'', trace_mask = 0,
     queue = 0, ticks_in_curr_slice = 0, qticks = [], last_exec = 0\<rparr>"

definition sched_example :: sched_state where
  "sched_example = \<lparr>procs = replicate 64 proc_example, cproc = (\<lambda>c. None), pos = (\<lambda>c. 0)\<rparr>"

lemma sched_example_inv: "sched_inv sched_example"
  by (simp add: sched_inv_def sched_example_def proc_example_def NPROC_def)

theorem runs_on_one_cpu_witness:
  "\<exists>s. sched_step\<^sup>*\<^sup>* sched_example s \<and> cproc s 3 = Some 0 \<and> cproc s 1 \<noteq> Some 0"
proof -
  let ?s = "sched_example\<lparr>procs := (procs sched_example)[0 := (procs sched_example ! 0)\<lparr>state := RUNNING\<rparr>],
    cproc := (cproc sched_example)(3 := Some 0), pos := (pos sched_example)(3 := rr_next (pos sched_example 3))\<rparr>"
  have "sched_step sched_example ?s"
    by (rule sched_step.visit) (simp_all add: sched_example_def rr_visit_def proc_example_def)
  then have run: "sched_step\<^sup>*\<^sup>* sched_example ?s" by simp
  have "cproc ?s 3 = Some 0" by simp
  with runs_on_one_cpu [OF sched_example_inv run, of 0 3 1] have "cproc ?s 1 \<noteq> Some 0" by auto
  with run \<open>cproc ?s 3 = Some 0\<close> show ?thesis by blast
qed

text \<open>
  C24. Round robin does not starve: whatever happens to the table between its iterations, among any
  64 consecutive iterations of the scheduler's loop there is one that switches to a given process
  or finds that it is not RUNNABLE; and no process is switched to twice among them.
\<close>

theorem round_robin_no_starvation:
  assumes "i < NPROC" "j < NPROC"
  shows "(\<exists>(r, tb) \<in> set (rr_run env t NPROC i ps). r = Some j \<or> state (tb ! j) \<noteq> RUNNABLE) \<and>
    distinct (filter (\<lambda>r. r \<noteq> None) (map fst (rr_run env t NPROC i ps)))"
proof
  define m where "m = (j + NPROC - i) mod NPROC"
  have m: "m < NPROC" by (simp add: m_def NPROC_def)
  have "(i + m) mod NPROC = (i + (j + NPROC - i)) mod NPROC" by (simp add: m_def mod_add_right_eq)
  then have at: "(i + m) mod NPROC = j" using assms by simp
  obtain tb where tb: "rr_run env t NPROC i ps ! m = (fst (rr_visit j tb), tb)"
    using rr_run_nth [OF assms(1) m, of env t ps] at by metis
  then have "(fst (rr_visit j tb), tb) \<in> set (rr_run env t NPROC i ps)" using m by (metis length_rr_run nth_mem)
  then show "\<exists>(r, tb) \<in> set (rr_run env t NPROC i ps). r = Some j \<or> state (tb ! j) \<noteq> RUNNABLE"
    by (rule rev_bexI) (simp add: rr_visit_def)
  show "distinct (filter (\<lambda>r. r \<noteq> None) (map fst (rr_run env t NPROC i ps)))"
  proof (rule distinct_choices [where f = "\<lambda>m. (i + m) mod NPROC"])
    fix m assume "m < length (map fst (rr_run env t NPROC i ps))"
    then have m: "m < NPROC" by simp
    obtain tb where "rr_run env t NPROC i ps ! m = (fst (rr_visit ((i + m) mod NPROC) tb), tb)"
      using assms(1) m by (rule rr_run_nth)
    then show "map fst (rr_run env t NPROC i ps) ! m = None \<or> map fst (rr_run env t NPROC i ps) ! m = Some ((i + m) mod NPROC)"
      using m by (simp add: rr_visit_def)
  qed (simp add: shift_mod_inj)
qed

text \<open>Every entry is RUNNABLE again after each turn, and CPU time goes to entry 9 although the round starts behind it.\<close>

theorem round_robin_no_starvation_witness:
  "(\<exists>(r, tb) \<in> set (rr_run (\<lambda>t. map yield) 0 NPROC 10 (procs sched_example)). r = Some 9)"
proof -
  have run: "\<forall>(r, tb) \<in> set (rr_run (\<lambda>t. map yield) t n i ps). state (tb ! 9) = RUNNABLE"
    if "length ps = 64" "\<forall>q \<in> set ps. state q = RUNNABLE" for t n i ps
    using that
  proof (induction n arbitrary: t i ps)
    case (Suc n)
    let ?ps = "map yield (snd (rr_visit i ps))"
    have "length ?ps = 64" "\<forall>q \<in> set ?ps. state q = RUNNABLE" using Suc.prems(1) by (auto simp: rr_visit_def yield_def)
    then show ?case using Suc.IH [of ?ps] Suc.prems by (auto simp: split_beta Let_def)
  qed simp
  have "\<forall>(r, tb) \<in> set (rr_run (\<lambda>t. map yield) 0 NPROC 10 (procs sched_example)). state (tb ! 9) = RUNNABLE"
    by (rule run) (simp_all add: sched_example_def proc_example_def)
  moreover have "\<exists>(r, tb) \<in> set (rr_run (\<lambda>t. map yield) 0 NPROC 10 (procs sched_example)). r = Some 9 \<or> state (tb ! 9) \<noteq> RUNNABLE"
    using round_robin_no_starvation [of 10 9 "\<lambda>t. map yield" 0 "procs sched_example"] by (simp add: NPROC_def)
  ultimately show ?thesis by fastforce
qed

text \<open>
  C13. No wakeup is lost: once a waker has made the condition hold and finished \<^verbatim>\<open>wakeup\<close>, no process
  is asleep on the channel or committed to going to sleep; while it is still scanning, any such
  process is one it has yet to visit.
\<close>

theorem no_lost_wakeup:
  assumes "\<forall>i. sl s0 i = Away" "lk_owner s0 = None" "scan s0 = None" "sw_step\<^sup>*\<^sup>* s0 s"
    and "cond s" "i < NPROC" "sl s i \<in> {Committing, Asleep}"
  shows "\<exists>j \<le> i. scan s = Some j"
proof -
  have "sw_inv s0" using assms(1-3) by (simp add: sw_inv_def)
  from sw_invD(4) [OF sw_reachable_inv [OF assms(4) this]] assms(5-7) show ?thesis by blast
qed

theorem no_lost_wakeup_witness:
  "\<exists>s. sw_step\<^sup>*\<^sup>* \<lparr>cond = False, lk_owner = None, sl = (\<lambda>i. Away), scan = None\<rparr> s \<and> sl s 0 = Committing \<and> scan s = Some 0"
proof -
  let ?s0 = "\<lparr>cond = False, lk_owner = None, sl = (\<lambda>i. Away), scan = None\<rparr>"
  let ?s1 = "?s0\<lparr>sl := (sl ?s0)(0 := Holding), lk_owner := Some (Some 0)\<rparr>"
  let ?s2 = "?s1\<lparr>sl := (sl ?s1)(0 := Locking)\<rparr>"
  let ?s3 = "?s2\<lparr>sl := (sl ?s2)(0 := Committing), lk_owner := None\<rparr>"
  let ?s4 = "?s3\<lparr>lk_owner := Some None, cond := True, scan := Some 0\<rparr>"
  have "sw_step ?s0 ?s1" by (rule sw_step.enter) simp_all
  moreover have "sw_step ?s1 ?s2" by (rule sw_step.sleep1) simp_all
  moreover have "sw_step ?s2 ?s3" by (rule sw_step.sleep2) simp_all
  moreover have "sw_step ?s3 ?s4" by (rule sw_step.wake1) simp_all
  ultimately have run: "sw_step\<^sup>*\<^sup>* ?s0 ?s4"
    by (meson converse_rtranclp_into_rtranclp rtranclp.rtrancl_refl)
  have "\<exists>j \<le> 0. scan ?s4 = Some j" by (rule no_lost_wakeup [OF _ _ _ run]) (simp_all add: NPROC_def)
  moreover have "sl ?s4 0 = Committing" by simp
  ultimately show ?thesis using run by blast
qed

text \<open>
  C34. The first-come-first-served build selects correctly and then leaves the table: its loop finds a
  RUNNABLE process of least creation time whenever there is one, but the code then locks and
  switches to \<^verbatim>\<open>p\<close>, which points one past the table, instead of the process selected.
\<close>

theorem fcfs_selects_then_overruns:
  "(\<forall>f. fcfs_loop ps [0..<length ps] None = Some f \<longrightarrow> f < length ps \<and> state (ps ! f) = RUNNABLE \<and>
      (\<forall>i < length ps. state (ps ! i) = RUNNABLE \<longrightarrow> ctime (ps ! f) \<le> ctime (ps ! i))) \<and>
   (fcfs_round ps = (if \<exists>i < length ps. state (ps ! i) = RUNNABLE then Undef else Ok (None, ps)))"
proof -
  note spec = fcfs_loop_spec [of "[0..<length ps]" ps None]
  show ?thesis
  proof (cases "fcfs_loop ps [0..<length ps] None")
    case None
    then show ?thesis using spec by (auto simp: fcfs_round_def)
  next
    case (Some f)
    then have "f < length ps \<and> state (ps ! f) = RUNNABLE" using spec by auto
    then show ?thesis using spec Some by (auto simp: fcfs_round_def switch_to_def)
  qed
qed

theorem fcfs_selects_then_overruns_witness: "fcfs_round [proc_example] = Undef"
  using fcfs_selects_then_overruns [of "[proc_example]"] by (simp add: proc_example_def)

text \<open>
  C35. The dynamic priority is between 0 and 100; as long as the two times do not overflow it is 55, 60
  or 65, and the static priority a user set with \<^verbatim>\<open>set_priority\<close> has no influence on it.
\<close>

theorem dynamic_priority_bounds:
  "0 \<le> fst (dynamic_priority p) \<and> fst (dynamic_priority p) \<le> 100 \<and>
   fst (dynamic_priority (p\<lparr>spriority := x\<rparr>)) = fst (dynamic_priority p) \<and>
   (unat (wtime p) + unat (rtime p) < 2 ^ 32 \<longrightarrow> fst (dynamic_priority p) \<in> {55, 60, 65})"
proof -
  have "wtime p div (wtime p + rtime p) \<in> {0, 1}" if "unat (wtime p) + unat (rtime p) < 2 ^ 32"
  proof -
    have "unat (wtime p + rtime p) = unat (wtime p) + unat (rtime p)"
      using that by (simp add: unat_plus_if_size word_size)
    then have "unat (wtime p div (wtime p + rtime p)) = unat (wtime p) div (unat (wtime p) + unat (rtime p))"
      by (simp add: unat_div)
    moreover have "a div (a + b) \<le> 1" for a b :: nat
      by (cases "b = 0"; cases "a = 0") simp_all
    ultimately have "unat (wtime p div (wtime p + rtime p)) \<le> 1" by (simp only:)
    then have "unat (wtime p div (wtime p + rtime p)) \<in> {unat (0 :: uint), unat (1 :: uint)}" by auto
    then show ?thesis by (simp only: insert_iff empty_iff word_unat_eq_iff)
  qed
  then have "unat (wtime p) + unat (rtime p) < 2 ^ 32 \<longrightarrow> fst (dynamic_priority p) \<in> {55, 60, 65}"
    by (auto simp: dynamic_priority_def Let_def)
  then show ?thesis by (simp add: dynamic_priority_def Let_def)
qed

theorem dynamic_priority_bounds_witness: "fst (dynamic_priority proc_example) \<in> {55, 60, 65}"
  using dynamic_priority_bounds [of proc_example 0] by (simp add: proc_example_def)

text \<open>
  C36. \<^verbatim>\<open>reparent\<close> hands every child of an exiting process to init, wakes init if there was one and it
  waits for children, and changes nothing else.
\<close>

theorem reparent_correct:
  assumes "init \<noteq> p" "i < length ps"
  shows "reparent init p ps ! i =
    (let q = (if parent (ps ! i) = Some p then (ps ! i)\<lparr>parent := Some init\<rparr> else ps ! i) in
     if i \<noteq> p \<and> (\<exists>j < length ps. parent (ps ! j) = Some p) then wake (ChProc init) q else q)"
proof -
  have sub: "set [0..<length ps] \<subseteq> {..<length ps}" by auto
  have "(\<exists>j \<in> set [0..<length ps]. parent (ps ! j) = Some p) \<longleftrightarrow> (\<exists>j < length ps. parent (ps ! j) = Some p)" by auto
  with reparent_loop_spec [OF _ sub assms(1), of "Some p"] assms(2) show ?thesis
    by (simp add: reparent_def reparented_def)
qed

theorem reparent_correct_witness: "parent (reparent 0 5 (replicate 10 (proc_example\<lparr>parent := Some 5\<rparr>)) ! 7) = Some 0"
  using reparent_correct [of 0 5 7 "replicate 10 (proc_example\<lparr>parent := Some 5\<rparr>)"] by (auto simp: Let_def)

end
