(* ===== verification/Lru.thy ===== *)
theory Lru
  imports Prelude
begin

text \<open>
  The doubly linked list of the buffer cache (\<^verbatim>\<open>kernel/bio.c\<close>), as its \<^verbatim>\<open>next\<close> and \<^verbatim>\<open>prev\<close> pointers:
  maps from node to node, with \<open>hd\<close> the list head. The pointer assignments are those of \<^verbatim>\<open>binit\<close>
  and \<^verbatim>\<open>brelse\<close>, in their order. \<open>linked\<close> says which sequence of nodes the pointers represent.
\<close>

type_synonym links = "(nat \<Rightarrow> nat) \<times> (nat \<Rightarrow> nat)"

definition insert_front :: "nat \<Rightarrow> nat \<Rightarrow> links \<Rightarrow> links" where
  "insert_front h b l =
     (let (nx, pv) = l;
          nx = nx(b := nx h);
          pv = pv(b := h);
          pv = pv(nx h := b);
          nx = nx(h := b)
      in (nx, pv))"

definition unlink :: "nat \<Rightarrow> links \<Rightarrow> links" where
  "unlink b l =
     (let (nx, pv) = l;
          pv = pv(nx b := pv b);
          nx = nx(pv b := nx b)
      in (nx, pv))"

text \<open>Following pointers from a node to the first one that satisfies the test, or to the head.\<close>

fun scan :: "nat \<Rightarrow> nat \<Rightarrow> (nat \<Rightarrow> bool) \<Rightarrow> (nat \<Rightarrow> nat) \<Rightarrow> nat \<Rightarrow> nat option result" where
  "scan fuel h P f b =
     (if b = h then Ok None
      else if P b then Ok (Some b)
      else case fuel of 0 \<Rightarrow> Blocked | Suc fuel \<Rightarrow> scan fuel h P f (f b))"

declare scan.simps [simp del]

section \<open>The sequence the pointers represent\<close>

fun lpath :: "(nat \<Rightarrow> nat) \<Rightarrow> nat \<Rightarrow> nat list \<Rightarrow> nat \<Rightarrow> bool" where
  "lpath f a [] z \<longleftrightarrow> f a = z"
| "lpath f a (x # xs) z \<longleftrightarrow> f a = x \<and> lpath f x xs z"

definition linked :: "nat \<Rightarrow> links \<Rightarrow> nat list \<Rightarrow> bool" where
  "linked h l xs \<longleftrightarrow> lpath (fst l) h xs h \<and> lpath (snd l) h (rev xs) h \<and> distinct xs \<and> h \<notin> set xs"

lemma lpath_append: "lpath f a (xs @ y # ys) z \<longleftrightarrow> lpath f a xs y \<and> lpath f y ys z"
  by (induction xs arbitrary: a) auto

lemma lpath_move: "lpath f a xs z \<Longrightarrow> g b = f a \<Longrightarrow> (\<And>x. x \<in> set xs \<Longrightarrow> g x = f x) \<Longrightarrow> lpath g b xs z"
proof (induction xs arbitrary: a b)
  case (Cons x xs)
  then have "lpath g x xs z" by (intro Cons.IH [of x x]) auto
  then show ?case using Cons by simp
qed simp

text \<open>Redirecting the last pointer of a path.\<close>

lemma lpath_redirect:
  assumes "lpath f a xs z" "g (last (a # xs)) = y" "\<And>x. x \<in> insert a (set xs) \<Longrightarrow> x \<noteq> last (a # xs) \<Longrightarrow> g x = f x"
    and "distinct (a # xs)"
  shows "lpath g a xs y"
  using assms
proof (induction xs arbitrary: a)
  case (Cons x xs)
  have "lpath g x xs y"
  proof (rule Cons.IH)
    show "lpath f x xs z" using Cons.prems(1) by simp
    show "g (last (x # xs)) = y" using Cons.prems(2) by simp
    show "g u = f u" if "u \<in> insert x (set xs)" "u \<noteq> last (x # xs)" for u
      using Cons.prems(3) that by auto
    show "distinct (x # xs)" using Cons.prems(4) by simp
  qed
  moreover have "g a = x"
  proof -
    have "a \<noteq> last (a # x # xs)" using Cons.prems(4) last_in_set [of "x # xs"] by auto
    then have "g a = f a" using Cons.prems(3) [of a] by blast
    then show ?thesis using Cons.prems(1) by simp
  qed
  ultimately show ?case by simp
qed simp

lemma linked_empty: "linked h ((\<lambda>x. x)(h := h), (\<lambda>x. x)(h := h)) []"
  by (simp add: linked_def)

lemma insert_front_linked:
  assumes "linked h (nx, pv) xs" "b \<notin> set xs" "b \<noteq> h"
  shows "linked h (insert_front h b (nx, pv)) (b # xs)"
proof -
  let ?nx = "nx(b := nx h, h := b)" and ?pv = "pv(b := h, nx h := b)"
  have l: "insert_front h b (nx, pv) = (?nx, ?pv)" using assms(3) by (simp add: insert_front_def)
  have P: "lpath nx h xs h" "lpath pv h (rev xs) h" "distinct xs" "h \<notin> set xs" using assms(1) by (auto simp: linked_def)
  have n: "lpath ?nx b xs h"
    by (rule lpath_move [OF P(1)]) (use assms P(4) in auto)
  have p: "lpath ?pv h (rev xs) b"
  proof (cases xs)
    case Nil
    then have "nx h = h" using P(1) by simp
    then show ?thesis using Nil by simp
  next
    case (Cons x xs')
    then have x: "nx h = x" using P(1) by simp
    show ?thesis
    proof (rule lpath_redirect [OF P(2)])
      show "?pv (last (h # rev xs)) = b" using Cons x by simp
      show "?pv u = pv u" if "u \<in> insert h (set (rev xs))" "u \<noteq> last (h # rev xs)" for u
        using that Cons x assms(2,3) by auto
    qed (use P in auto)
  qed
  have "?pv b = h"
  proof -
    have "nx h \<noteq> b" using P(1) assms(2,3) by (cases xs) auto
    then show ?thesis by simp
  qed
  then show ?thesis
    using n p P assms(2,3) unfolding l by (auto simp: linked_def lpath_append)
qed

lemma unlink_linked:
  assumes "linked h (nx, pv) (xs @ b # ys)"
  shows "linked h (unlink b (nx, pv)) (xs @ ys)"
proof -
  let ?y = "hd (ys @ [h])" and ?x = "last (h # xs)"
  have N: "lpath nx h xs b" "lpath nx b ys h" and P: "lpath pv h (rev ys) b" "lpath pv b (rev xs) h"
    and d: "distinct (xs @ b # ys)" "h \<notin> set (xs @ b # ys)"
    using assms by (auto simp: linked_def lpath_append)
  have nb: "nx b = ?y" using N(2) by (cases ys) auto
  have pb: "pv b = ?x"
  proof (cases xs rule: rev_cases)
    case Nil
    then show ?thesis using P(2) by simp
  next
    case (snoc zs z)
    then show ?thesis using P(2) by simp
  qed
  let ?nx = "nx(?x := ?y)" and ?pv = "pv(?y := ?x)"
  have "?y \<noteq> b" using d by (cases ys) auto
  then have l: "unlink b (nx, pv) = (?nx, ?pv)" using nb pb by (simp add: unlink_def)
  have join: "lpath f a (as @ bs) z" if "lpath f a as (hd (bs @ [z]))" "bs \<noteq> [] \<Longrightarrow> lpath f (hd bs) (tl bs) z" for f a as bs z
    using that by (cases bs) (auto simp: lpath_append)
  have n1: "lpath ?nx h xs ?y"
    by (rule lpath_redirect [OF N(1)]) (use d in auto)
  have n2: "lpath ?nx (hd ys) (tl ys) h" if "ys \<noteq> []"
  proof -
    have "lpath nx (hd ys) (tl ys) h" using N(2) that by (cases ys) auto
    moreover have "?x \<notin> set ys" 
    proof (cases "xs = []")
      case False
      have "set xs \<inter> set ys = {}" using d by auto
      with last_in_set [OF False] have "last xs \<notin> set ys" by blast
      then show ?thesis using False by simp
    qed (use d in auto)
    ultimately have "lpath nx (hd ys) (tl ys) h" "\<And>u. u \<in> set ys \<Longrightarrow> ?nx u = nx u" by (auto simp del: last.simps)
    moreover have "hd ys \<in> set ys" "\<And>u. u \<in> set (tl ys) \<Longrightarrow> u \<in> set ys" using that by (auto dest: list.set_sel(2))
    ultimately show ?thesis by - (rule lpath_move [of nx "hd ys"], simp_all del: last.simps fun_upd_apply)
  qed
  have p1: "lpath ?pv h (rev ys) ?x"
    by (rule lpath_redirect [OF P(1)]) (use d in \<open>cases ys; auto\<close>)+
  have p2: "lpath ?pv (hd (rev xs)) (tl (rev xs)) h" if "xs \<noteq> []"
  proof -
    have "lpath pv (hd (rev xs)) (tl (rev xs)) h" using P(2) that by (cases "rev xs") auto
    moreover have "?y \<notin> set xs" using d by (cases ys) auto
    moreover have "set (tl (rev xs)) \<subseteq> set xs" "hd (rev xs) \<in> set xs"
      using that by (auto dest: list.set_sel(2) [rotated]) (metis hd_in_set rev_is_Nil_conv set_rev)
    ultimately show ?thesis by - (rule lpath_move [of pv], auto)
  qed
  have "lpath ?nx h (xs @ ys) h" by (rule join) (use n1 n2 in auto)
  moreover have "lpath ?pv h (rev ys @ rev xs) h"
  proof (rule join)
    show "lpath ?pv h (rev ys) (hd (rev xs @ [h]))" using p1 by (cases xs rule: rev_cases) auto
  qed (use p2 in auto)
  ultimately show ?thesis using d unfolding l by (auto simp: linked_def)
qed

lemma scan_path:
  "lpath f a xs h \<Longrightarrow> h \<notin> set xs \<Longrightarrow> length xs \<le> fuel \<Longrightarrow> scan fuel h P f (f a) = Ok (find P xs)"
proof (induction xs arbitrary: a fuel)
  case Nil
  then show ?case by (simp add: scan.simps)
next
  case (Cons x xs)
  then obtain k where "fuel = Suc k" by (cases fuel) auto
  then show ?case using Cons by (simp add: scan.simps [of "Suc k"])
qed

end
