(* ===== verification/Bio.thy ===== *)
theory Bio
  imports Lru Spinlock Vm
begin

text \<open>
  \<^verbatim>\<open>kernel/bio.c\<close>, with the struct of \<^verbatim>\<open>kernel/buf.h\<close>. A buffer is its index in \<^verbatim>\<open>bcache.buf\<close>; the index
  \<open>NBUF\<close> is \<^verbatim>\<open>bcache.head\<close>. \<open>cur_pid\<close> is \<^verbatim>\<open>myproc()->pid\<close>. The disk is outside the cache: a map from
  block numbers to contents, with \<open>dwrites\<close> the writes it has received, in order (a crash keeps a
  prefix of them). \<^verbatim>\<open>virtio_disk_rw\<close> returns when the request is complete, so here it is the transfer
  it performs. \<open>blk\<close> is what a reader of a block sees: the cached copy, or the disk.
\<close>

type_synonym block = "nat \<Rightarrow> uchar"

definition BSIZE :: nat where "BSIZE = 1024"

record buf =
  valid :: bool
  dev :: uint
  blockno :: uint
  block_lock :: sleeplock
  refcnt :: uint
  data :: block

record bio = kmem +
  cur_pid :: int
  bufs :: "buf list"
  nxt :: "nat \<Rightarrow> nat"
  prv :: "nat \<Rightarrow> nat"
  disk :: "uint \<Rightarrow> block"
  dwrites :: "(uint \<times> block) list"

definition upd_buf :: "nat \<Rightarrow> (buf \<Rightarrow> buf) \<Rightarrow> 'z bio_scheme \<Rightarrow> 'z bio_scheme" where
  "upd_buf i f s = s\<lparr>bufs := (bufs s)[i := f (bufs s ! i)]\<rparr>"

fun binit_loop :: "nat list \<Rightarrow> 'z bio_scheme \<Rightarrow> 'z bio_scheme" where
  "binit_loop [] s = s"
| "binit_loop (b # bs) s =
     (let (nx, pv) = insert_front NBUF b (nxt s, prv s) in
      binit_loop bs (upd_buf b (\<lambda>x. x\<lparr>block_lock := initsleeplock\<rparr>) (s\<lparr>nxt := nx, prv := pv\<rparr>)))"

definition binit :: "'z bio_scheme \<Rightarrow> 'z bio_scheme" where
  "binit s = binit_loop [0..<NBUF] (s\<lparr>nxt := (nxt s)(NBUF := NBUF), prv := (prv s)(NBUF := NBUF)\<rparr>)"

definition lock_buf :: "nat \<Rightarrow> 'z bio_scheme \<Rightarrow> (nat \<times> 'z bio_scheme) result" where
  "lock_buf i s =
     bindR (acquiresleep (cur_pid s) (block_lock (bufs s ! i))) (\<lambda>lk. Ok (i, upd_buf i (\<lambda>b. b\<lparr>block_lock := lk\<rparr>) s))"

definition bget :: "uint \<Rightarrow> uint \<Rightarrow> 'z bio_scheme \<Rightarrow> (nat \<times> 'z bio_scheme) result" where
  "bget d bno s =
     bindR (scan NBUF NBUF (\<lambda>i. dev (bufs s ! i) = d \<and> blockno (bufs s ! i) = bno) (nxt s) (nxt s NBUF)) (\<lambda>r.
       case r of
         Some i \<Rightarrow> lock_buf i (upd_buf i (\<lambda>b. b\<lparr>refcnt := refcnt b + 1\<rparr>) s)
       | None \<Rightarrow>
           bindR (scan NBUF NBUF (\<lambda>i. refcnt (bufs s ! i) = 0) (prv s) (prv s NBUF)) (\<lambda>r.
             case r of
               Some i \<Rightarrow> lock_buf i (upd_buf i (\<lambda>b. b\<lparr>dev := d, blockno := bno, valid := False, refcnt := 1\<rparr>) s)
             | None \<Rightarrow> Panic ''bget: no buffers''))"

definition virtio_disk_rw :: "nat \<Rightarrow> bool \<Rightarrow> 'z bio_scheme \<Rightarrow> 'z bio_scheme" where
  "virtio_disk_rw i write s =
     (let b = bufs s ! i in
      if write then s\<lparr>disk := (disk s)(blockno b := data b), dwrites := dwrites s @ [(blockno b, data b)]\<rparr>
      else upd_buf i (\<lambda>b. b\<lparr>data := disk s (blockno b)\<rparr>) s)"

definition bread :: "uint \<Rightarrow> uint \<Rightarrow> 'z bio_scheme \<Rightarrow> (nat \<times> 'z bio_scheme) result" where
  "bread d bno s =
     bindR (bget d bno s) (\<lambda>(i, s).
       if \<not> valid (bufs s ! i)
       then Ok (i, upd_buf i (\<lambda>b. b\<lparr>valid := True\<rparr>) (virtio_disk_rw i False s))
       else Ok (i, s))"

definition bwrite :: "nat \<Rightarrow> 'z bio_scheme \<Rightarrow> 'z bio_scheme result" where
  "bwrite i s =
     (if \<not> holdingsleep (cur_pid s) (block_lock (bufs s ! i)) then Panic ''bwrite''
      else Ok (virtio_disk_rw i True s))"

definition brelse :: "nat \<Rightarrow> 'z bio_scheme \<Rightarrow> 'z bio_scheme result" where
  "brelse i s =
     (if \<not> holdingsleep (cur_pid s) (block_lock (bufs s ! i)) then Panic ''brelse''
      else
        let s = upd_buf i (\<lambda>b. b\<lparr>block_lock := releasesleep (block_lock b)\<rparr>) s;
            s = upd_buf i (\<lambda>b. b\<lparr>refcnt := refcnt b - 1\<rparr>) s
        in
        if refcnt (bufs s ! i) = 0
        then let (nx, pv) = insert_front NBUF i (unlink i (nxt s, prv s)) in Ok (s\<lparr>nxt := nx, prv := pv\<rparr>)
        else Ok s)"

definition bpin :: "nat \<Rightarrow> 'z bio_scheme \<Rightarrow> 'z bio_scheme" where
  "bpin i s = upd_buf i (\<lambda>b. b\<lparr>refcnt := refcnt b + 1\<rparr>) s"

definition bunpin :: "nat \<Rightarrow> 'z bio_scheme \<Rightarrow> 'z bio_scheme" where
  "bunpin i s = upd_buf i (\<lambda>b. b\<lparr>refcnt := refcnt b - 1\<rparr>) s"

section \<open>Outcomes of file system code\<close>

text \<open>\<open>endsR ms Q m\<close>: the code returns with a result that satisfies \<open>Q\<close>, or panics with one of \<open>ms\<close>.\<close>

definition endsR :: "string set \<Rightarrow> ('a \<Rightarrow> bool) \<Rightarrow> 'a result \<Rightarrow> bool" where
  "endsR ms Q m \<longleftrightarrow> (case m of Ok x \<Rightarrow> Q x | Panic msg \<Rightarrow> msg \<in> ms | Blocked \<Rightarrow> False | Undef \<Rightarrow> False)"

lemma endsR_simps [simp]:
  "endsR ms Q (Ok x) = Q x" "endsR ms Q (Panic msg) = (msg \<in> ms)" "endsR ms Q Blocked = False" "endsR ms Q Undef = False"
  by (simp_all add: endsR_def)

lemma endsR_bindR: "endsR ms Q (bindR m k) = endsR ms (\<lambda>x. endsR ms Q (k x)) m"
  by (cases m) auto

lemma endsR_mono: "endsR ms Q m \<Longrightarrow> ms \<subseteq> ms' \<Longrightarrow> (\<And>x. m = Ok x \<Longrightarrow> Q x \<Longrightarrow> Q' x) \<Longrightarrow> endsR ms' Q' m"
  by (cases m) auto

lemma endsR_bindI: "endsR ms Q m \<Longrightarrow> (\<And>x. m = Ok x \<Longrightarrow> Q x \<Longrightarrow> endsR ms Q' (k x)) \<Longrightarrow> endsR ms Q' (bindR m k)"
  by (cases m) auto

section \<open>The cache invariant\<close>

text \<open>
  \<open>P\<close> is the set of pinned blocks and \<open>H\<close> the set of buffers the running process has locked. A
  buffer nobody refers to is clean, so recycling it loses nothing.
\<close>

definition cached :: "'z bio_scheme \<Rightarrow> nat \<Rightarrow> uint \<Rightarrow> bool" where
  "cached s i b \<longleftrightarrow> i < NBUF \<and> dev (bufs s ! i) = ROOTDEV \<and> blockno (bufs s ! i) = b"

definition buf_ok :: "uint set \<Rightarrow> nat set \<Rightarrow> int \<Rightarrow> (uint \<Rightarrow> block) \<Rightarrow> nat \<Rightarrow> buf \<Rightarrow> bool" where
  "buf_ok P H me d i b \<longleftrightarrow>
     (slocked (block_lock b) \<longleftrightarrow> i \<in> H) \<and> (i \<in> H \<longrightarrow> spid (block_lock b) = me \<and> dev b = ROOTDEV \<and> valid b) \<and>
     refcnt b = of_bool (i \<in> H) + of_bool (dev b = ROOTDEV \<and> blockno b \<in> P) \<and>
     (dev b = ROOTDEV \<and> blockno b \<in> P \<longrightarrow> valid b) \<and>
     (dev b = ROOTDEV \<and> valid b \<and> refcnt b = 0 \<longrightarrow> data b = d (blockno b))"

definition bio_inv :: "uint set \<Rightarrow> nat set \<Rightarrow> 'z bio_scheme \<Rightarrow> bool" where
  "bio_inv P H s \<longleftrightarrow> length (bufs s) = NBUF \<and> H \<subseteq> {..<NBUF} \<and>
     (\<exists>xs. linked NBUF (nxt s, prv s) xs \<and> set xs = {..<NBUF}) \<and>
     (\<forall>i j b. cached s i b \<longrightarrow> cached s j b \<longrightarrow> i = j) \<and>
     (\<forall>i < NBUF. buf_ok P H (cur_pid s) (disk s) i (bufs s ! i)) \<and>
     (\<forall>b \<in> P. \<exists>i. cached s i b)"

definition blk :: "'z bio_scheme \<Rightarrow> uint \<Rightarrow> block" where
  "blk s b = (case first_idx (\<lambda>x. dev x = ROOTDEV \<and> blockno x = b \<and> valid x) (bufs s) of
     None \<Rightarrow> disk s b | Some i \<Rightarrow> data (bufs s ! i))"

lemma bio_invD:
  assumes "bio_inv P H s"
  shows "length (bufs s) = NBUF" "i \<in> H \<Longrightarrow> i < NBUF" "\<exists>xs. linked NBUF (nxt s, prv s) xs \<and> set xs = {..<NBUF}"
    "cached s i b \<Longrightarrow> cached s j b \<Longrightarrow> i = j" "i < NBUF \<Longrightarrow> buf_ok P H (cur_pid s) (disk s) i (bufs s ! i)"
    "b \<in> P \<Longrightarrow> \<exists>i. cached s i b"
  using assms unfolding bio_inv_def by blast+

lemma bio_invI:
  assumes "length (bufs s) = NBUF" "\<And>i. i \<in> H \<Longrightarrow> i < NBUF" "\<exists>xs. linked NBUF (nxt s, prv s) xs \<and> set xs = {..<NBUF}"
    "\<And>i j b. cached s i b \<Longrightarrow> cached s j b \<Longrightarrow> i = j" "\<And>i. i < NBUF \<Longrightarrow> buf_ok P H (cur_pid s) (disk s) i (bufs s ! i)"
    "\<And>b. b \<in> P \<Longrightarrow> \<exists>i. cached s i b"
  shows "bio_inv P H s"
  unfolding bio_inv_def using assms by blast

lemma blk_cached:
  assumes "bio_inv P H s" "cached s i b"
  shows "blk s b = (if valid (bufs s ! i) then data (bufs s ! i) else disk s b)"
proof -
  note D = bio_invD [OF assms(1)]
  let ?Q = "\<lambda>x. dev x = ROOTDEV \<and> blockno x = b \<and> valid x"
  show ?thesis
  proof (cases "first_idx ?Q (bufs s)")
    case None
    then have "\<not> valid (bufs s ! i)" using assms(2) D(1) by (auto simp: first_idx_None cached_def)
    then show ?thesis using None by (simp add: blk_def)
  next
    case (Some j)
    then have "cached s j b" "valid (bufs s ! j)" using D(1) by (auto simp: first_idx_Some cached_def)
    then show ?thesis using D(4) [OF assms(2)] Some by (auto simp: blk_def)
  qed
qed

lemma blk_uncached:
  assumes "length (bufs s) = NBUF" "\<And>i. \<not> cached s i b"
  shows "blk s b = disk s b"
proof -
  have "first_idx (\<lambda>x. dev x = ROOTDEV \<and> blockno x = b \<and> valid x) (bufs s) = None"
    unfolding first_idx_None
  proof
    fix x assume "x \<in> set (bufs s)"
    then obtain i where "i < NBUF" "x = bufs s ! i" using assms(1) by (auto simp: in_set_conv_nth)
    then show "\<not> (dev x = ROOTDEV \<and> blockno x = b \<and> valid x)" using assms(2) [of i] by (auto simp: cached_def)
  qed
  then show ?thesis by (simp add: blk_def)
qed

lemma first_idx_keys:
  "map f xs = map f ys \<Longrightarrow> first_idx (\<lambda>x. Q (f x)) xs = first_idx (\<lambda>x. Q (f x)) ys"
proof (induction xs arbitrary: ys)
  case (Cons x xs)
  then obtain y zs where "ys = y # zs" "f x = f y" "map f xs = map f zs" by auto
  then show ?case using Cons.IH [of zs] by simp
qed simp

text \<open>A change of locks, reference counts and list order only.\<close>

definition key :: "buf \<Rightarrow> uint \<times> uint \<times> bool \<times> block" where
  "key b = (dev b, blockno b, valid b, data b)"

lemma blk_keys:
  assumes "map key (bufs s') = map key (bufs s)" "disk s' = disk s"
  shows "blk s' = blk s"
proof
  fix b :: uint
  let ?Q = "\<lambda>(d :: uint, n :: uint, v :: bool, x :: block). d = ROOTDEV \<and> n = b \<and> v"
  have f: "first_idx (\<lambda>x. dev x = ROOTDEV \<and> blockno x = b \<and> valid x) xs = first_idx (\<lambda>x. ?Q (key x)) xs" for xs
    by (simp add: key_def)
  have "data (bufs s' ! i) = data (bufs s ! i)" if "i < length (bufs s)" for i
  proof -
    have "map key (bufs s') ! i = map key (bufs s) ! i" using assms(1) by simp
    moreover have "length (bufs s') = length (bufs s)" using assms(1) by (rule map_eq_imp_length_eq)
    ultimately show ?thesis using that by (simp add: key_def)
  qed
  then show "blk s' b = blk s b"
    using first_idx_keys [OF assms(1), of ?Q] assms(2)
    by (auto simp: blk_def f split: option.splits dest: first_idx_length)
qed

lemma of_bool_plus_zero: "(of_bool a + of_bool b :: uint) = 0 \<longleftrightarrow> \<not> a \<and> \<not> b"
  by (cases a; cases b) simp_all

lemma replace_buf:
  assumes inv: "bio_inv P H s" and i: "i < NBUF" "i \<notin> H"
    and y: "dev y = ROOTDEV" "blockno y = bno" "valid y" "data y = blk s bno"
      "slocked (block_lock y)" "spid (block_lock y) = cur_pid s" "refcnt y = 1 + of_bool (bno \<in> P)"
    and alt: "cached s i bno \<or> (\<forall>j. \<not> cached s j bno) \<and> refcnt (bufs s ! i) = 0"
    and s': "s' = s\<lparr>bufs := (bufs s)[i := y]\<rparr>"
  shows "bio_inv P (insert i H) s'" "blk s' = blk s"
proof -
  note D = bio_invD [OF inv]
  have nth: "bufs s' ! j = (if j = i then y else bufs s ! j)" for j
    using D(1) i s' by (cases "j < NBUF") auto
  have c': "cached s' j b \<longleftrightarrow> (if j = i then b = bno else cached s j b)" for j b
    using i y by (auto simp: cached_def nth)
  have fr: "disk s' = disk s" "cur_pid s' = cur_pid s" using s' by simp_all
  have free: "blockno (bufs s ! i) \<notin> P \<and> (valid (bufs s ! i) \<longrightarrow> data (bufs s ! i) = disk s (blockno (bufs s ! i)))"
    if "\<not> cached s i bno" "dev (bufs s ! i) = ROOTDEV"
    using that alt D(5) [OF i(1)] i by (auto simp: buf_ok_def of_bool_plus_zero)
  have only: "\<not> cached s j bno" if "j \<noteq> i" for j using alt D(4) [of i bno j] that by auto
  show inv': "bio_inv P (insert i H) s'"
  proof (rule bio_invI)
    show "length (bufs s') = NBUF" using D(1) s' by simp
    show "\<exists>xs. linked NBUF (nxt s', prv s') xs \<and> set xs = {..<NBUF}" using D(3) s' by simp
    show "j = k" if "cached s' j b" "cached s' k b" for j k b
      using that D(4) [of j b k] only by (auto simp: c' split: if_splits)
    show "buf_ok P (insert i H) (cur_pid s') (disk s') j (bufs s' ! j)" if "j < NBUF" for j
    proof (cases "j = i")
      case True
      then show ?thesis using y fr by (simp add: nth buf_ok_def)
    next
      case False
      then have "buf_ok P (insert i H) me d j b = buf_ok P H me d j b" for me d b by (simp add: buf_ok_def)
      then show ?thesis using D(5) [OF that] False fr by (simp add: nth)
    qed
    show "\<exists>j. cached s' j b" if b: "b \<in> P" for b
    proof -
      obtain j where j: "cached s j b" using D(6) [OF b] by blast
      show ?thesis
      proof (cases "j = i")
        case True
        then have "b = bno" using j b free by (auto simp: cached_def)
        then show ?thesis using c' [of i] by auto
      next
        case False
        then show ?thesis using j c' by auto
      qed
    qed
  qed (use i D(2) in auto)
  show "blk s' = blk s"
  proof
    fix b
    show "blk s' b = blk s b"
    proof (cases "b = bno")
      case True
      then show ?thesis using blk_cached [OF inv', of i b] c' [of i b] nth [of i] y by simp
    next
      case b: False
      show ?thesis
      proof (cases "\<exists>j. j \<noteq> i \<and> cached s j b")
        case True
        then obtain j where j: "j \<noteq> i" "cached s j b" by blast
        then show ?thesis using blk_cached [OF inv', of j b] blk_cached [OF inv, of j b] c' [of j b] nth [of j] s' by simp
      next
        case False
        then have "\<not> cached s' j b" for j using b c' [of j b] by auto
        then have "blk s' b = disk s b" using blk_uncached [OF bio_invD(1) [OF inv'], of b] fr by simp
        moreover have "blk s b = disk s b"
        proof (cases "cached s i b")
          case True
          then show ?thesis using blk_cached [OF inv True] free b by (auto simp: cached_def)
        next
          case F: False
          then have "\<not> cached s j b" for j using False by metis
          then show ?thesis by (rule blk_uncached [OF D(1)])
        qed
        ultimately show ?thesis by simp
      qed
    qed
  qed
qed

text \<open>A change of one locked buffer, or of one buffer's lock and count, that keeps what it caches.\<close>

lemma change_buf:
  assumes inv: "bio_inv P H s" and i: "i < NBUF"
    and y: "dev y = dev (bufs s ! i)" "blockno y = blockno (bufs s ! i)" "valid y = valid (bufs s ! i)"
    and ok: "buf_ok P' H' (cur_pid s) d' i y" and H': "H' \<subseteq> {..<NBUF}" "\<And>j. j \<noteq> i \<Longrightarrow> j \<in> H' \<longleftrightarrow> j \<in> H"
    and P': "\<And>b. b \<noteq> blockno y \<or> dev y \<noteq> ROOTDEV \<Longrightarrow> b \<in> P' \<longleftrightarrow> b \<in> P"
    and d': "\<And>b. b \<noteq> blockno y \<or> dev y \<noteq> ROOTDEV \<Longrightarrow> d' b = disk s b"
    and l: "\<exists>xs. linked NBUF l xs \<and> set xs = {..<NBUF}"
    and s': "bufs s' = (bufs s)[i := y]" "disk s' = d'" "cur_pid s' = cur_pid s" "(nxt s', prv s') = l"
  shows "bio_inv P' H' s'"
proof (rule bio_invI)
  note D = bio_invD [OF inv]
  have nth: "bufs s' ! j = (if j = i then y else bufs s ! j)" for j
    using D(1) i s' by (cases "j < NBUF") auto
  have c': "cached s' j b \<longleftrightarrow> cached s j b" for j b using y by (simp add: cached_def nth)
  show "length (bufs s') = NBUF" using D(1) s' by simp
  show "j \<in> H' \<Longrightarrow> j < NBUF" for j using H'(1) by auto
  show "\<exists>xs. linked NBUF (nxt s', prv s') xs \<and> set xs = {..<NBUF}" using l s'(4) by simp
  show "j = k" if "cached s' j b" "cached s' k b" for j k b using that D(4) c' by blast
  show "\<exists>j. cached s' j b" if "b \<in> P'" for b
  proof (cases "b \<noteq> blockno y \<or> dev y \<noteq> ROOTDEV")
    case True
    then show ?thesis using that P' D(6) c' by blast
  next
    case False
    then have "cached s i b" using y i by (simp add: cached_def)
    then show ?thesis using c' by blast
  qed
  show "buf_ok P' H' (cur_pid s') (disk s') j (bufs s' ! j)" if j: "j < NBUF" for j
  proof (cases "j = i")
    case True
    then show ?thesis using ok s'(2,3) by (simp add: nth)
  next
    case False
    have ne: "blockno (bufs s ! j) \<noteq> blockno y \<or> dev y \<noteq> ROOTDEV" if "dev (bufs s ! j) = ROOTDEV"
      using D(4) [of i "blockno y" j] False i j y that by (auto simp: cached_def)
    have "buf_ok P' H' (cur_pid s) d' j (bufs s ! j) = buf_ok P H (cur_pid s) (disk s) j (bufs s ! j)"
    proof (cases "dev (bufs s ! j) = ROOTDEV")
      case True
      then show ?thesis using P' [OF ne [OF True]] d' [OF ne [OF True]] H'(2) [OF False] by (simp add: buf_ok_def)
    next
      case F: False
      then show ?thesis using H'(2) [OF False] by (simp add: buf_ok_def)
    qed
    then show ?thesis using D(5) [OF j] s'(2,3) False by (simp add: nth)
  qed
qed

lemma set_data_ok:
  assumes inv: "bio_inv P H s" and i: "i \<in> H"
  shows "bio_inv P H (upd_buf i (\<lambda>b. b\<lparr>data := d\<rparr>) s)"
    "blk (upd_buf i (\<lambda>b. b\<lparr>data := d\<rparr>) s) = (blk s)(blockno (bufs s ! i) := d)"
proof -
  note D = bio_invD [OF inv]
  let ?y = "(bufs s ! i)\<lparr>data := d\<rparr>" and ?s = "upd_buf i (\<lambda>b. b\<lparr>data := d\<rparr>) s"
  have iN: "i < NBUF" by (rule D(2) [OF i])
  note ok = D(5) [OF iN]
  show inv': "bio_inv P H ?s"
  proof (rule change_buf [OF inv iN, where y = ?y and d' = "disk s"])
    show "buf_ok P H (cur_pid s) (disk s) i ?y" using ok i by (auto simp: buf_ok_def of_bool_plus_zero)
  qed (use D(2,3) in \<open>auto simp: upd_buf_def\<close>)
  have dv: "dev (bufs s ! i) = ROOTDEV" "valid (bufs s ! i)" using ok i by (auto simp: buf_ok_def)
  have nth: "bufs ?s ! j = (if j = i then ?y else bufs s ! j)" for j
    using D(1) iN by (cases "j < NBUF") (auto simp: upd_buf_def)
  have c': "cached ?s j b \<longleftrightarrow> cached s j b" for j b by (simp add: cached_def nth)
  show "blk ?s = (blk s)(blockno (bufs s ! i) := d)"
  proof
    fix b
    show "blk ?s b = ((blk s)(blockno (bufs s ! i) := d)) b"
    proof (cases "\<exists>j. cached s j b")
      case True
      then obtain j where j: "cached s j b" by blast
      have "j = i \<longleftrightarrow> b = blockno (bufs s ! i)"
        using D(4) [OF j, of i] j dv iN by (auto simp: cached_def)
      then show ?thesis
        using blk_cached [OF inv j] blk_cached [OF inv', of j b] c' [of j b] j nth [of j] dv by (auto simp: upd_buf_def)
    next
      case False
      then have "b \<noteq> blockno (bufs s ! i)" using dv iN by (auto simp: cached_def)
      then show ?thesis
        using False blk_uncached [OF D(1), of b] blk_uncached [OF bio_invD(1) [OF inv'], of b] c' by (simp add: upd_buf_def)
    qed
  qed
qed

lemma find_SomeD: "find P xs = Some x \<Longrightarrow> x \<in> set xs \<and> P x"
  by (induction xs) (auto split: if_splits)

text \<open>What a successful \<^verbatim>\<open>bread\<close> leaves: one more locked buffer, which holds the block.\<close>

definition got_block :: "uint set \<Rightarrow> nat set \<Rightarrow> 'z bio_scheme \<Rightarrow> uint \<Rightarrow> nat \<Rightarrow> 'z bio_scheme \<Rightarrow> bool" where
  "got_block P H s bno i s' \<longleftrightarrow> i < NBUF \<and> i \<notin> H \<and> bio_inv P (insert i H) s' \<and> blockno (bufs s' ! i) = bno \<and>
     data (bufs s' ! i) = blk s bno \<and> blk s' = blk s \<and> (\<forall>j. j \<noteq> i \<longrightarrow> bufs s' ! j = bufs s ! j) \<and>
     s' = s\<lparr>bufs := bufs s'\<rparr>"

lemma got_blockI:
  assumes inv: "bio_inv P H s" and i: "i < NBUF" "i \<notin> H"
    and y: "dev y = ROOTDEV" "blockno y = bno" "valid y" "data y = blk s bno"
      "slocked (block_lock y)" "spid (block_lock y) = cur_pid s" "refcnt y = 1 + of_bool (bno \<in> P)"
    and alt: "cached s i bno \<or> (\<forall>j. \<not> cached s j bno) \<and> refcnt (bufs s ! i) = 0"
    and s': "s' = s\<lparr>bufs := (bufs s)[i := y]\<rparr>"
  shows "got_block P H s bno i s'"
  using replace_buf [OF inv i y alt s'] i y s' bio_invD(1) [OF inv] by (auto simp: got_block_def)

lemma bread_ok:
  assumes inv: "bio_inv P H s" and free: "\<And>i. i \<in> H \<Longrightarrow> blockno (bufs s ! i) \<noteq> bno"
  shows "endsR {''bget: no buffers''} (\<lambda>(i, s'). got_block P H s bno i s') (bread ROOTDEV bno s)"
proof -
  note D = bio_invD [OF inv]
  obtain xs where xs: "linked NBUF (nxt s, prv s) xs" "set xs = {..<NBUF}" using D(3) by blast
  then have len: "length xs \<le> NBUF" by (metis card_lessThan distinct_card linked_def order_refl)
  have lp: "lpath (nxt s) NBUF xs NBUF" "lpath (prv s) NBUF (rev xs) NBUF" "NBUF \<notin> set xs" using xs(1) by (simp_all add: linked_def)
  have sc1: "scan NBUF NBUF Q (nxt s) (nxt s NBUF) = Ok (find Q xs)" for Q
    by (rule scan_path [OF lp(1,3) len])
  have sc2: "scan NBUF NBUF Q (prv s) (prv s NBUF) = Ok (find Q (rev xs))" for Q
    using lp(3) len by (intro scan_path [OF lp(2)]) simp_all
  show ?thesis
  proof (cases "find (\<lambda>i. dev (bufs s ! i) = ROOTDEV \<and> blockno (bufs s ! i) = bno) xs")
    case (Some i)
    then have c: "cached s i bno" using find_SomeD [OF Some] xs by (auto simp: cached_def)
    then have i: "i < NBUF" "i \<notin> H" using free by (auto simp: cached_def)
    note ok = D(5) [OF i(1)]
    let ?b = "bufs s ! i"
    let ?c = "?b\<lparr>refcnt := refcnt ?b + 1, block_lock := (block_lock ?b)\<lparr>slocked := True, spid := cur_pid s\<rparr>\<rparr>"
    let ?y = "if valid ?b then ?c else ?c\<lparr>data := disk s bno, valid := True\<rparr>"
    have unl: "\<not> slocked (block_lock ?b)" "blockno ?b = bno" and lb: "i < length (bufs s)"
      using ok i c D(1) by (auto simp: buf_ok_def cached_def)
    have bg: "bget ROOTDEV bno s = Ok (i, s\<lparr>bufs := (bufs s)[i := ?b\<lparr>refcnt := refcnt ?b + 1,
        block_lock := (block_lock ?b)\<lparr>slocked := True, spid := cur_pid s\<rparr>\<rparr>]\<rparr>)"
      using Some unl lb by (simp add: bget_def sc1 lock_buf_def upd_buf_def acquiresleep_def)
    have "bread ROOTDEV bno s = Ok (i, s\<lparr>bufs := (bufs s)[i := ?y]\<rparr>)"
      using unl(2) lb by (cases "valid ?b") (simp_all add: bread_def bg virtio_disk_rw_def upd_buf_def)
    moreover have "got_block P H s bno i (s\<lparr>bufs := (bufs s)[i := ?y]\<rparr>)"
      using c blk_cached [OF inv c] ok i by (intro got_blockI [OF inv i]) (auto simp: cached_def buf_ok_def)
    ultimately show ?thesis by simp
  next
    case None
    then have nc: "\<not> cached s j bno" for j using xs(2) by (auto simp: find_None_iff cached_def)
    show ?thesis
    proof (cases "find (\<lambda>i. refcnt (bufs s ! i) = 0) (rev xs)")
      case F: None
      then show ?thesis using None by (simp add: bread_def bget_def sc1 sc2)
    next
      case S: (Some i)
      then have r: "refcnt (bufs s ! i) = 0" and i: "i < NBUF" using find_SomeD [OF S] xs by auto
      note ok = D(5) [OF i]
      have iH: "i \<notin> H" using ok r by (simp add: buf_ok_def of_bool_plus_zero)
      let ?b = "bufs s ! i"
      let ?y = "?b\<lparr>dev := ROOTDEV, blockno := bno, valid := False, refcnt := 1, block_lock := (block_lock ?b)\<lparr>slocked := True, spid := cur_pid s\<rparr>,
        data := disk s bno, valid := True\<rparr>"
      have nP: "bno \<notin> P" using D(6) [of bno] nc by auto
      have unl: "\<not> slocked (block_lock ?b)" and lb: "i < length (bufs s)" using ok i iH D(1) by (auto simp: buf_ok_def)
      have bg: "bget ROOTDEV bno s = Ok (i, s\<lparr>bufs := (bufs s)[i := ?b\<lparr>dev := ROOTDEV, blockno := bno, valid := False, refcnt := 1,
          block_lock := (block_lock ?b)\<lparr>slocked := True, spid := cur_pid s\<rparr>\<rparr>]\<rparr>)"
        using None S unl lb by (simp add: bget_def sc1 sc2 lock_buf_def upd_buf_def acquiresleep_def)
      have "bread ROOTDEV bno s = Ok (i, s\<lparr>bufs := (bufs s)[i := ?y]\<rparr>)"
        using lb by (simp add: bread_def bg virtio_disk_rw_def upd_buf_def)
      moreover have "got_block P H s bno i (s\<lparr>bufs := (bufs s)[i := ?y]\<rparr>)"
        using nc r nP blk_uncached [OF D(1) nc] by (intro got_blockI [OF inv i iH]) auto
      ultimately show ?thesis by simp
    qed
  qed
qed

definition released :: "uint set \<Rightarrow> nat set \<Rightarrow> 'z bio_scheme \<Rightarrow> nat \<Rightarrow> 'z bio_scheme \<Rightarrow> bool" where
  "released P H s i s' \<longleftrightarrow> bio_inv P (H - {i}) s' \<and> blk s' = blk s \<and> (\<forall>j. j \<noteq> i \<longrightarrow> bufs s' ! j = bufs s ! j) \<and>
     s' = s\<lparr>bufs := bufs s', nxt := nxt s', prv := prv s'\<rparr>"

lemma move_front:
  assumes "linked NBUF l xs" "set xs = {..<NBUF}" "i < NBUF"
  shows "\<exists>ys. linked NBUF (insert_front NBUF i (unlink i l)) ys \<and> set ys = {..<NBUF}"
proof -
  obtain as bs where xs: "xs = as @ i # bs" using assms(2,3) split_list [of i xs] by auto
  have d: "distinct xs" "NBUF \<notin> set xs" using assms(1) by (simp_all add: linked_def)
  have "linked NBUF (unlink i l) (as @ bs)" using unlink_linked [of NBUF "fst l" "snd l" as i bs] assms(1) xs by simp
  then have "linked NBUF (insert_front NBUF i (unlink i l)) (i # as @ bs)"
    using insert_front_linked [of NBUF "fst (unlink i l)" "snd (unlink i l)" "as @ bs" i] d xs by simp
  moreover have "set (i # as @ bs) = {..<NBUF}" using assms(2) xs by auto
  ultimately show ?thesis by blast
qed

lemma brelse_ok:
  assumes inv: "bio_inv P H s" and i: "i \<in> H"
    and clean: "blockno (bufs s ! i) \<in> P \<or> data (bufs s ! i) = disk s (blockno (bufs s ! i))"
  shows "\<exists>s'. brelse i s = Ok s' \<and> released P H s i s'"
proof -
  note D = bio_invD [OF inv]
  have iN: "i < NBUF" by (rule D(2) [OF i])
  note ok = D(5) [OF iN]
  let ?b = "bufs s ! i"
  let ?y = "?b\<lparr>block_lock := (block_lock ?b)\<lparr>slocked := False, spid := 0\<rparr>, refcnt := refcnt ?b - 1\<rparr>"
  let ?t = "s\<lparr>bufs := (bufs s)[i := ?y]\<rparr>"
  have lb: "i < length (bufs s)" using D(1) iN by simp
  have y: "buf_ok P (H - {i}) (cur_pid s) (disk s) i ?y"
    using ok i clean by (auto simp: buf_ok_def)
  obtain nx pv where l: "(nx, pv) = (if refcnt ?y = 0 then insert_front NBUF i (unlink i (nxt s, prv s)) else (nxt s, prv s))"
    by (metis surj_pair)
  let ?s = "?t\<lparr>nxt := nx, prv := pv\<rparr>"
  have run: "brelse i s = Ok ?s"
    using ok i lb l by (auto simp: brelse_def holdingsleep_def buf_ok_def upd_buf_def releasesleep_def split: if_splits prod.splits)
  have lk: "\<exists>xs. linked NBUF (nx, pv) xs \<and> set xs = {..<NBUF}"
    using D(3) move_front [of "(nxt s, prv s)" _ i] iN l by (auto split: if_splits)
  have "bio_inv P (H - {i}) ?s"
    by (rule change_buf [OF inv iN, where y = ?y and d' = "disk s", OF _ _ _ y _ _ _ _ lk]) (use D(2) in auto)
  moreover have "blk ?s = blk s"
  proof (rule blk_keys)
    have "key ?y = key ?b" by (simp add: key_def)
    then show "map key (bufs ?s) = map key (bufs s)" using lb by (simp add: map_update list_update_same_conv)
  qed simp
  ultimately have "released P H s i ?s" using lb by (auto simp: released_def)
  then show ?thesis using run by blast
qed

lemma bwrite_ok:
  assumes inv: "bio_inv P H s" and i: "i \<in> H"
  defines "b \<equiv> bufs s ! i"
  defines "s' \<equiv> s\<lparr>disk := (disk s)(blockno b := data b), dwrites := dwrites s @ [(blockno b, data b)]\<rparr>"
  shows "bwrite i s = Ok s'" "bio_inv P H s'" "blk s' = blk s"
proof -
  note D = bio_invD [OF inv]
  have iN: "i < NBUF" by (rule D(2) [OF i])
  note ok = D(5) [OF iN]
  show "bwrite i s = Ok s'" using ok i by (simp add: bwrite_def holdingsleep_def buf_ok_def virtio_disk_rw_def s'_def b_def Let_def)
  show inv': "bio_inv P H s'"
  proof (rule change_buf [OF inv iN, where y = b and d' = "(disk s)(blockno b := data b)"])
    show "buf_ok P H (cur_pid s) ((disk s)(blockno b := data b)) i b" using ok i by (auto simp: buf_ok_def b_def of_bool_plus_zero)
    show "\<And>c. c \<noteq> blockno b \<or> dev b \<noteq> ROOTDEV \<Longrightarrow> ((disk s)(blockno b := data b)) c = disk s c"
      using ok i by (auto simp: buf_ok_def b_def)
  qed (use D(2,3) in \<open>auto simp: s'_def b_def\<close>)
  have c: "cached s i (blockno b)" "valid b" "cached s' j k = cached s j k" for j k
    using ok i iN by (auto simp: buf_ok_def b_def cached_def s'_def)
  show "blk s' = blk s"
  proof
    fix k
    show "blk s' k = blk s k"
    proof (cases "\<exists>j. cached s j k")
      case True
      then obtain j where j: "cached s j k" by blast
      show ?thesis
      proof (cases "k = blockno b")
        case True
        then have "j = i" using D(4) [OF j, of i] c(1) by simp
        then show ?thesis using blk_cached [OF inv j] blk_cached [OF inv', of j k] j c by (simp add: s'_def b_def)
      next
        case False
        then show ?thesis using blk_cached [OF inv j] blk_cached [OF inv', of j k] j c by (simp add: s'_def)
      qed
    next
      case False
      then have "k \<noteq> blockno b" using c(1) by blast
      then show ?thesis
        using False blk_uncached [OF D(1), of k] blk_uncached [OF bio_invD(1) [OF inv'], of k] c(3) by (simp add: s'_def)
    qed
  qed
qed

lemma bpin_ok:
  assumes inv: "bio_inv P H s" and i: "i \<in> H" and b: "blockno (bufs s ! i) \<notin> P"
  shows "bio_inv (insert (blockno (bufs s ! i)) P) H (bpin i s)" "blk (bpin i s) = blk s"
proof -
  note D = bio_invD [OF inv]
  have iN: "i < NBUF" by (rule D(2) [OF i])
  note ok = D(5) [OF iN]
  let ?y = "(bufs s ! i)\<lparr>refcnt := refcnt (bufs s ! i) + 1\<rparr>"
  show "bio_inv (insert (blockno (bufs s ! i)) P) H (bpin i s)"
  proof (rule change_buf [OF inv iN, where y = ?y and d' = "disk s"])
    show "buf_ok (insert (blockno (bufs s ! i)) P) H (cur_pid s) (disk s) i ?y" using ok i b by (auto simp: buf_ok_def)
  qed (use D(2,3) ok i in \<open>auto simp: bpin_def upd_buf_def buf_ok_def\<close>)
  have "key ?y = key (bufs s ! i)" by (simp add: key_def)
  then show "blk (bpin i s) = blk s"
    using iN D(1) by (intro blk_keys) (simp_all add: bpin_def upd_buf_def map_update list_update_same_conv)
qed

lemma bunpin_ok:
  assumes inv: "bio_inv P H s" and i: "i \<in> H" and b: "blockno (bufs s ! i) \<in> P"
  shows "bio_inv (P - {blockno (bufs s ! i)}) H (bunpin i s)" "blk (bunpin i s) = blk s"
proof -
  note D = bio_invD [OF inv]
  have iN: "i < NBUF" by (rule D(2) [OF i])
  note ok = D(5) [OF iN]
  let ?y = "(bufs s ! i)\<lparr>refcnt := refcnt (bufs s ! i) - 1\<rparr>"
  show "bio_inv (P - {blockno (bufs s ! i)}) H (bunpin i s)"
  proof (rule change_buf [OF inv iN, where y = ?y and d' = "disk s"])
    show "buf_ok (P - {blockno (bufs s ! i)}) H (cur_pid s) (disk s) i ?y" using ok i b by (auto simp: buf_ok_def)
  qed (use D(2,3) ok i in \<open>auto simp: bunpin_def upd_buf_def buf_ok_def\<close>)
  have "key ?y = key (bufs s ! i)" by (simp add: key_def)
  then show "blk (bunpin i s) = blk s"
    using iN D(1) by (intro blk_keys) (simp_all add: bunpin_def upd_buf_def map_update list_update_same_conv)
qed

text \<open>What the two relations say, field by field.\<close>

lemma frame_bufs:
  assumes "s' = s\<lparr>bufs := bs, nxt := nx, prv := pv\<rparr>"
  shows "disk s' = disk s" "dwrites s' = dwrites s" "cur_pid s' = cur_pid s" "mem s' = mem s" "freelist s' = freelist s"
    "bio.more s' = bio.more s"
  by (simp_all add: assms)

lemma got_blockD:
  assumes "got_block P H s bno i s'"
  shows "i < NBUF" "i \<notin> H" "bio_inv P (insert i H) s'" "blockno (bufs s' ! i) = bno" "data (bufs s' ! i) = blk s bno"
    "blk s' = blk s" "j \<noteq> i \<Longrightarrow> bufs s' ! j = bufs s ! j" "s' = s\<lparr>bufs := bufs s', nxt := nxt s', prv := prv s'\<rparr>"
proof -
  have s': "s' = s\<lparr>bufs := bufs s'\<rparr>" using assms unfolding got_block_def by blast
  have "nxt s' = nxt s" "prv s' = prv s" by (subst s', simp)+
  then show "s' = s\<lparr>bufs := bufs s', nxt := nxt s', prv := prv s'\<rparr>" using s' by simp
qed (use assms in \<open>auto simp: got_block_def\<close>)

lemma releasedD:
  assumes "released P H s i s'"
  shows "bio_inv P (H - {i}) s'" "blk s' = blk s" "j \<noteq> i \<Longrightarrow> bufs s' ! j = bufs s ! j"
    "s' = s\<lparr>bufs := bufs s', nxt := nxt s', prv := prv s'\<rparr>"
  using assms unfolding released_def by blast+

text \<open>A block that is neither pinned nor held is the same in the cache and on disk.\<close>

lemma blk_clean:
  assumes inv: "bio_inv P H s" and "b \<notin> P" "\<And>i. i \<in> H \<Longrightarrow> blockno (bufs s ! i) \<noteq> b"
  shows "blk s b = disk s b"
proof (cases "\<exists>i. cached s i b")
  case True
  then obtain i where i: "cached s i b" by blast
  then have "i \<notin> H" "i < NBUF" using assms(3) by (auto simp: cached_def)
  then have "refcnt (bufs s ! i) = 0" "valid (bufs s ! i) \<Longrightarrow> data (bufs s ! i) = disk s b"
    using bio_invD(5) [OF inv, of i] assms(2) i by (auto simp: buf_ok_def cached_def)
  then show ?thesis using blk_cached [OF inv i] by auto
next
  case False
  then show ?thesis using blk_uncached [OF bio_invD(1) [OF inv]] by blast
qed

text \<open>A block that is in the cache, or a buffer that nobody refers to: then \<^verbatim>\<open>bread\<close> does not panic.\<close>

definition has_buffer :: "'z bio_scheme \<Rightarrow> uint \<Rightarrow> bool" where
  "has_buffer s b \<longleftrightarrow> (\<exists>i < NBUF. cached s i b \<or> refcnt (bufs s ! i) = 0)"

lemma bread_finds:
  assumes inv: "bio_inv P H s" and free: "\<And>i. i \<in> H \<Longrightarrow> blockno (bufs s ! i) \<noteq> bno" and has: "has_buffer s bno"
  shows "endsR {} (\<lambda>(i, s'). got_block P H s bno i s') (bread ROOTDEV bno s)"
proof -
  obtain xs where xs: "linked NBUF (nxt s, prv s) xs" "set xs = {..<NBUF}" using bio_invD(3) [OF inv] by blast
  then have len: "length xs \<le> NBUF" by (metis card_lessThan distinct_card linked_def order_refl)
  have lp: "lpath (nxt s) NBUF xs NBUF" "lpath (prv s) NBUF (rev xs) NBUF" "NBUF \<notin> set xs" using xs(1) by (simp_all add: linked_def)
  have sc: "scan NBUF NBUF Q (nxt s) (nxt s NBUF) = Ok (find Q xs)" "scan NBUF NBUF Q (prv s) (prv s NBUF) = Ok (find Q (rev xs))" for Q
    using scan_path [OF lp(1,3) len] scan_path [OF lp(2)] lp(3) len by simp_all
  have "find (\<lambda>i. dev (bufs s ! i) = ROOTDEV \<and> blockno (bufs s ! i) = bno) xs \<noteq> None \<or> find (\<lambda>i. refcnt (bufs s ! i) = 0) (rev xs) \<noteq> None"
    using has xs(2) by (auto simp: has_buffer_def cached_def find_None_iff)
  then have "bread ROOTDEV bno s \<noteq> Panic msg" for msg
    by (auto simp: bread_def bget_def lock_buf_def acquiresleep_def sc split: option.splits if_splits)
  then show ?thesis using bread_ok [OF inv free] by (cases "bread ROOTDEV bno s") auto
qed

text \<open>While fewer than \<open>NBUF\<close> buffers are held or pinned, there is one.\<close>

lemma bread_room:
  assumes inv: "bio_inv P H s" and free: "\<And>i. i \<in> H \<Longrightarrow> blockno (bufs s ! i) \<noteq> bno" and fin: "finite P"
    and room: "card H + card P < NBUF"
  shows "endsR {} (\<lambda>(i, s'). got_block P H s bno i s') (bread ROOTDEV bno s)"
proof -
  note D = bio_invD [OF inv]
  have finH: "finite H" using D(2) by (meson finite_lessThan finite_subset lessThan_iff subsetI)
  have "\<exists>i < NBUF. refcnt (bufs s ! i) = 0"
  proof (rule ccontr)
    assume "\<not> ?thesis"
    then have "i \<in> H \<or> (dev (bufs s ! i) = ROOTDEV \<and> blockno (bufs s ! i) \<in> P)" if "i < NBUF" for i
      using D(5) [OF that] that by (auto simp: buf_ok_def)
    then have sub: "{..<NBUF} - H \<subseteq> {i. cached s i (blockno (bufs s ! i)) \<and> blockno (bufs s ! i) \<in> P}" (is "_ \<subseteq> ?C")
      by (auto simp: cached_def)
    have "inj_on (\<lambda>i. blockno (bufs s ! i)) ?C" using D(4) by (auto intro!: inj_onI)
    then have "card ?C \<le> card P" by (intro card_inj_on_le [OF _ _ fin]) auto
    moreover have "finite ?C" by (rule finite_subset [of _ "{..<NBUF}"]) (auto simp: cached_def)
    ultimately have "card ({..<NBUF} - H) \<le> card P" using card_mono [OF _ sub] by linarith
    then show False using room diff_card_le_card_Diff [OF finH, of "{..<NBUF}"] by simp
  qed
  then have "has_buffer s bno" by (auto simp: has_buffer_def)
  from bread_finds [OF inv free this] show ?thesis .
qed

section \<open>Initialisation\<close>

lemma binit_loop_spec:
  "linked NBUF (nxt s, prv s) xs \<Longrightarrow> distinct bs \<Longrightarrow> set bs \<inter> set xs = {} \<Longrightarrow> set bs \<subseteq> {..<NBUF} \<Longrightarrow> length (bufs s) = NBUF \<Longrightarrow>
   \<exists>nx pv. linked NBUF (nx, pv) (rev bs @ xs) \<and>
     binit_loop bs s = s\<lparr>nxt := nx, prv := pv,
       bufs := map (\<lambda>i. if i \<in> set bs then (bufs s ! i)\<lparr>block_lock := initsleeplock\<rparr> else bufs s ! i) [0..<NBUF]\<rparr>"
proof (induction bs arbitrary: s xs)
  case Nil
  have "map (\<lambda>i. bufs s ! i) [0..<NBUF] = bufs s" using Nil.prems(5) by (metis map_nth)
  then show ?case using Nil by (intro exI [of _ "nxt s"] exI [of _ "prv s"]) simp
next
  case (Cons b bs)
  obtain nx pv where l: "insert_front NBUF b (nxt s, prv s) = (nx, pv)" by (metis surj_pair)
  let ?s = "upd_buf b (\<lambda>x. x\<lparr>block_lock := initsleeplock\<rparr>) (s\<lparr>nxt := nx, prv := pv\<rparr>)"
  have lk: "linked NBUF (nx, pv) (b # xs)"
    using insert_front_linked [OF Cons.prems(1), of b] l Cons.prems(3,4) by auto
  have "\<exists>nx pv. linked NBUF (nx, pv) (rev bs @ b # xs) \<and>
     binit_loop bs ?s = ?s\<lparr>nxt := nx, prv := pv,
       bufs := map (\<lambda>i. if i \<in> set bs then (bufs ?s ! i)\<lparr>block_lock := initsleeplock\<rparr> else bufs ?s ! i) [0..<NBUF]\<rparr>"
    by (rule Cons.IH) (use lk Cons.prems in \<open>auto simp: upd_buf_def\<close>)
  then obtain nx' pv' where IH: "linked NBUF (nx', pv') (rev bs @ b # xs)"
    "binit_loop bs ?s = ?s\<lparr>nxt := nx', prv := pv',
       bufs := map (\<lambda>i. if i \<in> set bs then (bufs ?s ! i)\<lparr>block_lock := initsleeplock\<rparr> else bufs ?s ! i) [0..<NBUF]\<rparr>" by blast
  have "map (\<lambda>i. if i \<in> set bs then (bufs ?s ! i)\<lparr>block_lock := initsleeplock\<rparr> else bufs ?s ! i) [0..<NBUF] =
      map (\<lambda>i. if i \<in> set (b # bs) then (bufs s ! i)\<lparr>block_lock := initsleeplock\<rparr> else bufs s ! i) [0..<NBUF]"
    using Cons.prems(2,4,5) by (intro map_cong) (auto simp: upd_buf_def nth_list_update)
  then show ?case using IH l by (intro exI [of _ nx'] exI [of _ pv']) (simp add: upd_buf_def)
qed

lemma binit_inv:
  assumes "length (bufs s) = NBUF" "\<forall>i < NBUF. dev (bufs s ! i) = 0 \<and> refcnt (bufs s ! i) = 0"
  shows "bio_inv {} {} (binit s)" "blk (binit s) = disk s" "disk (binit s) = disk s"
proof -
  let ?s = "s\<lparr>nxt := (nxt s)(NBUF := NBUF), prv := (prv s)(NBUF := NBUF)\<rparr>"
  have lk: "linked NBUF (nxt ?s, prv ?s) []" and sub: "set [0..<NBUF] \<subseteq> {..<NBUF}" and len: "length (bufs ?s) = NBUF"
    using assms(1) by (auto simp: linked_def)
  have "set [0..<NBUF] \<inter> set [] = {}" by simp
  from binit_loop_spec [OF lk distinct_upt this sub len] obtain nx pv where
    b: "linked NBUF (nx, pv) (rev [0..<NBUF] @ [])" "binit s = ?s\<lparr>nxt := nx, prv := pv,
       bufs := map (\<lambda>i. if i \<in> set [0..<NBUF] then (bufs ?s ! i)\<lparr>block_lock := initsleeplock\<rparr> else bufs ?s ! i) [0..<NBUF]\<rparr>"
    unfolding binit_def by blast
  have nth: "bufs (binit s) ! i = (bufs s ! i)\<lparr>block_lock := initsleeplock\<rparr>" if "i < NBUF" for i using that b(2) by simp
  have root: "ROOTDEV \<noteq> 0" by (simp add: ROOTDEV_def)
  have nc: "\<not> cached (binit s) i c" for i c using nth assms(2) root by (auto simp: cached_def)
  have len: "length (bufs (binit s)) = NBUF" using b(2) by simp
  show "bio_inv {} {} (binit s)"
  proof (rule bio_invI)
    show "\<exists>xs. linked NBUF (nxt (binit s), prv (binit s)) xs \<and> set xs = {..<NBUF}"
      using b by (intro exI [of _ "rev [0..<NBUF]"]) auto
    show "buf_ok {} {} (cur_pid (binit s)) (disk (binit s)) i (bufs (binit s) ! i)" if "i < NBUF" for i
      using nth [OF that] assms(2) that root by (simp add: buf_ok_def initsleeplock_def)
  qed (use len nc in auto)
  show "disk (binit s) = disk s" using b(2) by simp
  then show "blk (binit s) = disk s" using blk_uncached [OF len nc] by auto
qed

lemma brelse_keeps:
  assumes "brelse i s = Ok s'"
  shows "dev (bufs s' ! j) = dev (bufs s ! j)" "blockno (bufs s' ! j) = blockno (bufs s ! j)"
proof -
  let ?t = "upd_buf i (\<lambda>b. b\<lparr>refcnt := refcnt b - 1\<rparr>) (upd_buf i (\<lambda>b. b\<lparr>block_lock := releasesleep (block_lock b)\<rparr>) s)"
  have "bufs s' = bufs ?t"
    using assms unfolding brelse_def Let_def by (simp split: if_splits prod.splits) auto
  then show "dev (bufs s' ! j) = dev (bufs s ! j)" "blockno (bufs s' ! j) = blockno (bufs s ! j)"
    by (cases "j = i \<and> i < length (bufs s)"; force simp: upd_buf_def nth_list_update list_update_beyond)+
qed

section \<open>Properties\<close>

text \<open>
  C5. The cache is transparent: reading a block gives its current contents, whatever was recycled
  before; after a client has read a block, changed its data, written it through and released it,
  the disk and every later reader have the new contents, all other blocks are as before, and the
  cache is consistent again. It fails, with the panic, only when the block is not cached and every
  one of the \<open>NBUF\<close> buffers is referred to; the later reader never does.
\<close>

theorem buffer_cache_write_read:
  assumes "bio_inv P H s" "\<forall>i \<in> H. blockno (bufs s ! i) \<noteq> b"
  shows "endsR (if has_buffer s b then {} else {''bget: no buffers''})
    (\<lambda>(old, s'). old = blk s b \<and> bio_inv P H s' \<and> blk s' = (blk s)(b := d) \<and> disk s' = (disk s)(b := d) \<and>
       dwrites s' = dwrites s @ [(b, d)] \<and>
       endsR {} (\<lambda>(i, s''). data (bufs s'' ! i) = d) (bread ROOTDEV b s'))
    (bindR (bread ROOTDEV b s) (\<lambda>(i, s).
       let old = data (bufs s ! i); s = upd_buf i (\<lambda>x. x\<lparr>data := d\<rparr>) s in
       bindR (bwrite i s) (\<lambda>s. bindR (brelse i s) (\<lambda>s. Ok (old, s)))))"
proof (rule endsR_bindI [of _ "\<lambda>(i, s'). got_block P H s b i s'"])
  show "endsR (if has_buffer s b then {} else {''bget: no buffers''}) (\<lambda>(i, s'). got_block P H s b i s') (bread ROOTDEV b s)"
    using bread_ok [OF assms(1)] bread_finds [OF assms(1)] assms(2) by simp
  fix r assume "case r of (i, s') \<Rightarrow> got_block P H s b i s'"
  then obtain i s1 where r: "r = (i, s1)" and g: "got_block P H s b i s1" by (cases r) auto
  note i = got_blockD [OF g] and fr = frame_bufs [OF got_blockD(8) [OF g]]
  let ?s2 = "upd_buf i (\<lambda>x. x\<lparr>data := d\<rparr>) s1"
  have inv2: "bio_inv P (insert i H) ?s2" "blk ?s2 = (blk s)(b := d)" using set_data_ok [OF i(3), of i d] i by auto
  have b2: "blockno (bufs ?s2 ! i) = b" "data (bufs ?s2 ! i) = d" using i bio_invD(1) [OF i(3)] by (auto simp: upd_buf_def)
  let ?s3 = "?s2\<lparr>disk := (disk ?s2)(b := d), dwrites := dwrites ?s2 @ [(b, d)]\<rparr>"
  have w: "bwrite i ?s2 = Ok ?s3" "bio_inv P (insert i H) ?s3" "blk ?s3 = blk ?s2"
    using bwrite_ok [OF inv2(1), of i] b2 by auto
  obtain s4 where s4: "brelse i ?s3 = Ok s4" "released P (insert i H) ?s3 i s4"
    using brelse_ok [OF w(2), of i] b2 by auto
  note rel = releasedD [OF s4(2)] and fr4 = frame_bufs [OF releasedD(4) [OF s4(2)]]
  have dev_kept: "dev (bufs s4 ! i) = dev (bufs ?s3 ! i)" "blockno (bufs s4 ! i) = blockno (bufs ?s3 ! i)"
    by (rule brelse_keeps [OF s4(1)])+
  have inv4: "bio_inv P H s4" using rel(1) i(2) by (simp add: insert_Diff_if)
  have held: "blockno (bufs s4 ! j) \<noteq> b" if "j \<in> H" for j
  proof -
    have "j \<noteq> i" using that i(2) by blast
    then have "bufs s4 ! j = bufs s ! j" using rel(3) [of j] i(7) [of j] by (simp add: upd_buf_def)
    then show ?thesis using assms(2) that by simp
  qed
  have b4: "blk s4 = (blk s)(b := d)" using rel(2) w(3) inv2(2) by simp
  have "disk s4 = (disk s)(b := d)" "dwrites s4 = dwrites s @ [(b, d)]"
    using fr4(1,2) fr(1,2) by (simp_all add: upd_buf_def)
  moreover have "cached s4 i b"
  proof -
    have n: "i < NBUF" using bio_invD(2) [OF w(2)] by simp
    have "dev (bufs ?s3 ! i) = ROOTDEV" using bio_invD(5) [OF w(2) n] by (simp add: buf_ok_def)
    then show ?thesis using n dev_kept b2(1) by (simp add: cached_def)
  qed
  then have "has_buffer s4 b" by (auto simp: has_buffer_def cached_def)
  then have "endsR {} (\<lambda>(i, s''). data (bufs s'' ! i) = d) (bread ROOTDEV b s4)"
    by (intro endsR_mono [OF bread_finds [OF inv4 held]]) (use b4 in \<open>auto dest: got_blockD(5)\<close>)
  ultimately show "endsR (if has_buffer s b then {} else {''bget: no buffers''})
    (\<lambda>(old, s'). old = blk s b \<and> bio_inv P H s' \<and> blk s' = (blk s)(b := d) \<and> disk s' = (disk s)(b := d) \<and>
       dwrites s' = dwrites s @ [(b, d)] \<and>
       endsR {} (\<lambda>(i, s''). data (bufs s'' ! i) = d) (bread ROOTDEV b s'))
    (case r of (i, s) \<Rightarrow>
       let old = data (bufs s ! i); s = upd_buf i (\<lambda>x. x\<lparr>data := d\<rparr>) s in
       bindR (bwrite i s) (\<lambda>s. bindR (brelse i s) (\<lambda>s. Ok (old, s))))"
    using r i(5) w(1) s4(1) inv4 b4 by (simp add: Let_def)
qed

definition bio_example :: bio where
  "bio_example = binit \<lparr>mem = (\<lambda>x. 0), freelist = 0, cur_pid = 1,
     bufs = replicate NBUF \<lparr>valid = False, dev = 0, blockno = 0, block_lock = initsleeplock, refcnt = 0, data = (\<lambda>x. 0)\<rparr>,
     nxt = (\<lambda>x. 0), prv = (\<lambda>x. 0), disk = (\<lambda>b x. ucast b), dwrites = []\<rparr>"

lemma bio_example_inv: "bio_inv {} {} bio_example" "blk bio_example = (\<lambda>b x. ucast b)"
  unfolding bio_example_def by (subst binit_inv, simp_all)+

theorem buffer_cache_write_read_witness:
  "endsR {} (\<lambda>(old, s'). old = (\<lambda>x. 7) \<and> blk s' 7 = (\<lambda>x. 9) \<and> blk s' 8 = (\<lambda>x. 8))
    (bindR (bread ROOTDEV 7 bio_example) (\<lambda>(i, s).
       let old = data (bufs s ! i); s = upd_buf i (\<lambda>x. x\<lparr>data := (\<lambda>x. 9)\<rparr>) s in
       bindR (bwrite i s) (\<lambda>s. bindR (brelse i s) (\<lambda>s. Ok (old, s)))))"
proof -
  have "refcnt (bufs bio_example ! 0) = 0" using bio_invD(5) [OF bio_example_inv(1), of 0] by (simp add: buf_ok_def NBUF_def MAXOPBLOCKS_def)
  then have "has_buffer bio_example 7" unfolding has_buffer_def by (intro exI [of _ 0]) (simp add: NBUF_def MAXOPBLOCKS_def)
  then show ?thesis
    by (intro endsR_mono [OF buffer_cache_write_read [OF bio_example_inv(1)]]) (auto simp: bio_example_inv(2))
qed

end
