(* ===== verification/Log.thy ===== *)
theory Log
  imports Bio
begin

text \<open>
  \<^verbatim>\<open>kernel/log.c\<close>. The in-memory header is \<open>lhn\<close> and \<open>lhblock\<close>, an array of \<open>LOGSIZE\<close> entries; an
  access past it is undefined. Integers in a block are little-endian at byte offsets (\<open>get_le\<close>,
  \<open>put_le\<close>). A caller of \<^verbatim>\<open>begin_op\<close> that has to wait is \<open>Blocked\<close> and tries again when woken. The
  disk writes a commit makes are recorded in \<open>dwrites\<close>, so that what a crash leaves on disk is what
  a prefix of them gives.
\<close>

section \<open>Integers in a block\<close>

definition get_le :: "nat \<Rightarrow> block \<Rightarrow> nat \<Rightarrow> 'v::len word" where
  "get_le n d off = le_word n (\<lambda>i. d (off + i))"

definition put_le :: "nat \<Rightarrow> block \<Rightarrow> nat \<Rightarrow> 'v::len word \<Rightarrow> block" where
  "put_le n d off v = (\<lambda>x. if off \<le> x \<and> x < off + n then byte_of v (x - off) else d x)"

lemma get_put_same: "LENGTH('v::len) \<le> 8 * n \<Longrightarrow> get_le n (put_le n d off (v :: 'v word)) off = v"
proof -
  assume "LENGTH('v) \<le> 8 * n"
  moreover have "get_le n (put_le n d off v) off = (le_word n (byte_of v) :: 'v word)"
    unfolding get_le_def put_le_def by (rule le_word_cong) simp
  ultimately show ?thesis by (simp add: le_word_byte_of)
qed

lemma get_put_other: "off + n \<le> off' \<or> off' + k \<le> off \<Longrightarrow> get_le n (put_le k d off' v) off = get_le n d off"
  unfolding get_le_def put_le_def by (rule le_word_cong) auto

lemma get_le_cong: "(\<And>i. i < n \<Longrightarrow> d (off + i) = d' (off + i)) \<Longrightarrow> get_le n d off = get_le n d' off"
  unfolding get_le_def by (rule le_word_cong)

abbreviation get32 :: "block \<Rightarrow> nat \<Rightarrow> uint" where "get32 \<equiv> get_le 4"
abbreviation put32 :: "block \<Rightarrow> nat \<Rightarrow> uint \<Rightarrow> block" where "put32 \<equiv> put_le 4"
abbreviation get16 :: "block \<Rightarrow> nat \<Rightarrow> ushort" where "get16 \<equiv> get_le 2"
abbreviation put16 :: "block \<Rightarrow> nat \<Rightarrow> ushort \<Rightarrow> block" where "put16 \<equiv> put_le 2"

section \<open>The log\<close>

record log = bio +
  lstart :: uint
  lsize :: int
  outstanding :: int
  committing :: bool
  ldev :: uint
  lhn :: int
  lhblock :: "uint list"

fun install_loop :: "bool \<Rightarrow> nat list \<Rightarrow> 'z log_scheme \<Rightarrow> 'z log_scheme result" where
  "install_loop recovering [] s = Ok s"
| "install_loop recovering (tail # ts) s =
     bindR (bread (ldev s) (lstart s + of_nat tail + 1) s) (\<lambda>(lbuf, s).
       if tail \<ge> length (lhblock s) then Undef
       else bindR (bread (ldev s) (lhblock s ! tail) s) (\<lambda>(dbuf, s).
         let s = upd_buf dbuf (\<lambda>b. b\<lparr>data := data (bufs s ! lbuf)\<rparr>) s in
         bindR (bwrite dbuf s) (\<lambda>s.
           let s = (if \<not> recovering then bunpin dbuf s else s) in
           bindR (brelse lbuf s) (\<lambda>s. bindR (brelse dbuf s) (install_loop recovering ts)))))"

definition install_trans :: "bool \<Rightarrow> 'z log_scheme \<Rightarrow> 'z log_scheme result" where
  "install_trans recovering s = install_loop recovering [0..<nat (lhn s)] s"

fun read_head_loop :: "block \<Rightarrow> nat list \<Rightarrow> 'z log_scheme \<Rightarrow> 'z log_scheme result" where
  "read_head_loop d [] s = Ok s"
| "read_head_loop d (i # is) s =
     (if i \<ge> length (lhblock s) then Undef
      else read_head_loop d is (s\<lparr>lhblock := (lhblock s)[i := get32 d (4 + 4 * i)]\<rparr>))"

definition read_head :: "'z log_scheme \<Rightarrow> 'z log_scheme result" where
  "read_head s =
     bindR (bread (ldev s) (lstart s) s) (\<lambda>(i, s).
       let d = data (bufs s ! i);
           s = s\<lparr>lhn := sint (get32 d 0)\<rparr>
       in bindR (read_head_loop d [0..<nat (lhn s)] s) (brelse i))"

fun write_head_loop :: "uint list \<Rightarrow> nat list \<Rightarrow> block \<Rightarrow> block result" where
  "write_head_loop blocks [] d = Ok d"
| "write_head_loop blocks (i # is) d =
     (if i \<ge> length blocks then Undef
      else write_head_loop blocks is (put32 d (4 + 4 * i) (blocks ! i)))"

definition write_head :: "'z log_scheme \<Rightarrow> 'z log_scheme result" where
  "write_head s =
     bindR (bread (ldev s) (lstart s) s) (\<lambda>(i, s).
       bindR (write_head_loop (lhblock s) [0..<nat (lhn s)] (put32 (data (bufs s ! i)) 0 (of_int (lhn s)))) (\<lambda>d.
         bindR (bwrite i (upd_buf i (\<lambda>b. b\<lparr>data := d\<rparr>) s)) (brelse i)))"

definition recover_from_log :: "'z log_scheme \<Rightarrow> 'z log_scheme result" where
  "recover_from_log s =
     bindR (read_head s) (\<lambda>s. bindR (install_trans True s) (\<lambda>s. write_head (s\<lparr>lhn := 0\<rparr>)))"

definition initlog :: "uint \<Rightarrow> uint \<Rightarrow> uint \<Rightarrow> 'z log_scheme \<Rightarrow> 'z log_scheme result" where
  "initlog d logstart nlog s =
     (if 4 + 4 * LOGSIZE \<ge> BSIZE then Panic ''initlog: too big logheader''
      else recover_from_log (s\<lparr>lstart := logstart, lsize := sint nlog, ldev := d\<rparr>))"

definition begin_op :: "'z log_scheme \<Rightarrow> 'z log_scheme result" where
  "begin_op s =
     (if committing s then Blocked
      else if lhn s + (outstanding s + 1) * int MAXOPBLOCKS > int LOGSIZE then Blocked
      else Ok (s\<lparr>outstanding := outstanding s + 1\<rparr>))"

fun write_log_loop :: "nat list \<Rightarrow> 'z log_scheme \<Rightarrow> 'z log_scheme result" where
  "write_log_loop [] s = Ok s"
| "write_log_loop (tail # ts) s =
     bindR (bread (ldev s) (lstart s + of_nat tail + 1) s) (\<lambda>(to, s).
       if tail \<ge> length (lhblock s) then Undef
       else bindR (bread (ldev s) (lhblock s ! tail) s) (\<lambda>(from, s).
         bindR (bwrite to (upd_buf to (\<lambda>b. b\<lparr>data := data (bufs s ! from)\<rparr>) s)) (\<lambda>s.
           bindR (brelse from s) (\<lambda>s. bindR (brelse to s) (write_log_loop ts)))))"

definition write_log :: "'z log_scheme \<Rightarrow> 'z log_scheme result" where
  "write_log s = write_log_loop [0..<nat (lhn s)] s"

definition commit :: "'z log_scheme \<Rightarrow> 'z log_scheme result" where
  "commit s =
     (if lhn s > 0
      then bindR (write_log s) (\<lambda>s.
           bindR (write_head s) (\<lambda>s.
           bindR (install_trans False s) (\<lambda>s.
             write_head (s\<lparr>lhn := 0\<rparr>))))
      else Ok s)"

definition end_op :: "'z log_scheme \<Rightarrow> 'z log_scheme result" where
  "end_op s =
     (let s = s\<lparr>outstanding := outstanding s - 1\<rparr> in
      if committing s then Panic ''log.committing''
      else if outstanding s = 0
      then bindR (commit (s\<lparr>committing := True\<rparr>)) (\<lambda>s. Ok (s\<lparr>committing := False\<rparr>))
      else Ok s)"

text \<open>The search of \<^verbatim>\<open>log_write\<close>: the slot of the block, or \<open>lhn\<close>.\<close>

definition log_slot :: "uint \<Rightarrow> 'z log_scheme \<Rightarrow> nat" where
  "log_slot b s = (case first_idx ((=) b) (take (nat (lhn s)) (lhblock s)) of Some i \<Rightarrow> i | None \<Rightarrow> nat (lhn s))"

definition log_write :: "nat \<Rightarrow> 'z log_scheme \<Rightarrow> 'z log_scheme result" where
  "log_write i s =
     (if lhn s \<ge> int LOGSIZE \<or> lhn s \<ge> lsize s - 1 then Panic ''too big a transaction''
      else if outstanding s < 1 then Panic ''log_write outside of trans''
      else
        let b = blockno (bufs s ! i);
            k = log_slot b s;
            s = s\<lparr>lhblock := (lhblock s)[k := b]\<rparr>
        in
        if int k = lhn s then (let s = bpin i s in Ok (s\<lparr>lhn := lhn s + 1\<rparr>)) else Ok s)"

section \<open>The log invariant\<close>

lemma blk_cong: "bufs s' = bufs s \<Longrightarrow> disk s' = disk s \<Longrightarrow> blk s' = blk s"
  by (rule ext) (simp add: blk_def cong: option.case_cong)

lemma bio_inv_cong:
  "bufs s' = bufs s \<Longrightarrow> disk s' = disk s \<Longrightarrow> nxt s' = nxt s \<Longrightarrow> prv s' = prv s \<Longrightarrow> cur_pid s' = cur_pid s \<Longrightarrow>
   bio_inv P H s' = bio_inv P H s"
  by (simp add: bio_inv_def cached_def)

definition logged_list :: "'z log_scheme \<Rightarrow> uint list" where
  "logged_list s = take (nat (lhn s)) (lhblock s)"

definition log_inv :: "nat set \<Rightarrow> 'z log_scheme \<Rightarrow> bool" where
  "log_inv H s \<longleftrightarrow> bio_inv (set (logged_list s)) H s \<and> 0 \<le> lhn s \<and> lhn s \<le> int LOGSIZE \<and> length (lhblock s) = LOGSIZE \<and>
     distinct (logged_list s) \<and> ldev s = ROOTDEV"

lemma log_invD:
  assumes "log_inv H s"
  shows "bio_inv (set (logged_list s)) H s" "0 \<le> lhn s" "lhn s \<le> int LOGSIZE" "length (lhblock s) = LOGSIZE"
    "distinct (logged_list s)" "ldev s = ROOTDEV" "length (logged_list s) = nat (lhn s)"
  using assms by (auto simp: log_inv_def logged_list_def)

lemma log_slot_spec:
  assumes "log_inv H s"
  shows "if b \<in> set (logged_list s) then log_slot b s < nat (lhn s) \<and> lhblock s ! log_slot b s = b else log_slot b s = nat (lhn s)"
proof (cases "first_idx ((=) b) (logged_list s)")
  case None
  then have "b \<notin> set (logged_list s)" by (auto simp: first_idx_None)
  moreover have "log_slot b s = nat (lhn s)" using None by (simp add: log_slot_def logged_list_def)
  ultimately show ?thesis by simp
next
  case (Some i)
  then have "i < nat (lhn s)" "lhblock s ! i = b" "b \<in> set (logged_list s)"
    using log_invD(2-4,7) [OF assms] by (auto simp: first_idx_Some logged_list_def in_set_conv_nth)
  then show ?thesis using Some by (simp add: log_slot_def logged_list_def)
qed

text \<open>Logging a held buffer: its block joins the transaction, once.\<close>

lemma log_write_ok:
  assumes inv: "log_inv H s" and i: "i \<in> H"
  shows "endsR {''too big a transaction'', ''log_write outside of trans''}
    (\<lambda>s'. log_inv H s' \<and> blk s' = blk s \<and> set (logged_list s') = insert (blockno (bufs s ! i)) (set (logged_list s)) \<and>
       s' = s\<lparr>bufs := bufs s', lhn := lhn s', lhblock := lhblock s'\<rparr> \<and> map key (bufs s') = map key (bufs s) \<and>
       (\<forall>j. j \<noteq> i \<longrightarrow> bufs s' ! j = bufs s ! j)) (log_write i s)"
proof -
  note D = log_invD [OF inv]
  let ?b = "blockno (bufs s ! i)" and ?k = "log_slot (blockno (bufs s ! i)) s"
  note slot = log_slot_spec [OF inv, of ?b]
  show ?thesis
  proof (cases "lhn s \<ge> int LOGSIZE \<or> lhn s \<ge> lsize s - 1 \<or> outstanding s < 1")
    case True
    then show ?thesis by (auto simp: log_write_def)
  next
    case False
    show ?thesis
    proof (cases "?b \<in> set (logged_list s)")
      case True
      then have k: "?k < nat (lhn s)" "lhblock s ! ?k = ?b" using slot by auto
      then have "(lhblock s)[?k := ?b] = lhblock s" by (metis list_update_id)
      then have "s\<lparr>lhblock := (lhblock s)[?k := ?b]\<rparr> = s" by simp
      moreover have "int ?k \<noteq> lhn s" using k by auto
      ultimately have "log_write i s = Ok s" using False by (simp add: log_write_def Let_def)
      then show ?thesis using inv True by (simp add: insert_absorb)
    next
      case nb: False
      then have k: "?k = nat (lhn s)" using slot by simp
      let ?t = "s\<lparr>lhblock := (lhblock s)[nat (lhn s) := ?b]\<rparr>"
      let ?s = "(bpin i ?t)\<lparr>lhn := lhn s + 1\<rparr>"
      have run: "log_write i s = Ok ?s" using False k D(2) by (simp add: log_write_def Let_def bpin_def upd_buf_def)
      have lt: "nat (lhn s) < length (lhblock s)" using False D(2,4) by (simp add: nat_less_iff)
      have ll: "logged_list ?s = logged_list s @ [?b]"
        using lt D(2) by (simp add: logged_list_def bpin_def upd_buf_def nat_add_distrib take_Suc_conv_app_nth)
      have bt: "bio_inv (set (logged_list s)) H ?t" using D(1) by (simp add: bio_inv_def cached_def)
      have "bio_inv (set (logged_list ?s)) H (bpin i ?t)" using bpin_ok(1) [OF bt i] nb ll by simp
      then have "log_inv H ?s"
        using D False ll nb by (simp add: log_inv_def bio_inv_def cached_def bpin_def upd_buf_def)
      moreover have "blk ?s = blk s"
      proof -
        have "blk ?s = blk (bpin i ?t)" "blk ?t = blk s" by (rule blk_cong, simp_all add: bpin_def upd_buf_def)+
        then show ?thesis using bpin_ok(2) [OF bt i] nb by simp
      qed
      moreover have "map key (bufs ?s) = map key (bufs s)"
      proof -
        have "key ((bufs s ! i)\<lparr>refcnt := r\<rparr>) = key (bufs s ! i)" for r by (simp add: key_def)
        then show ?thesis using bio_invD(1,2) [OF D(1)] i
          by (simp add: bpin_def upd_buf_def map_update list_update_same_conv)
      qed
      ultimately show ?thesis using run ll by (auto simp: bpin_def upd_buf_def)
    qed
  qed
qed

section \<open>Copying blocks through the cache\<close>

lemma endsR_bind: "endsR ms Q m \<Longrightarrow> ms \<subseteq> ms' \<Longrightarrow> (\<And>x. m = Ok x \<Longrightarrow> Q x \<Longrightarrow> endsR ms' Q' (k x)) \<Longrightarrow> endsR ms' Q' (bindR m k)"
  by (cases m) auto

lemma endsR_emptyD: "endsR {} Q m \<Longrightarrow> \<exists>x. m = Ok x \<and> Q x"
  by (cases m) auto

definition disk_frame :: "'z bio_scheme \<Rightarrow> 'z bio_scheme \<Rightarrow> bool" where
  "disk_frame s s' \<longleftrightarrow> s' = s\<lparr>bufs := bufs s', nxt := nxt s', prv := prv s', disk := disk s', dwrites := dwrites s'\<rparr>"

lemma disk_frameI: "s' = s\<lparr>bufs := bs, nxt := nx, prv := pv, disk := d, dwrites := w\<rparr> \<Longrightarrow> disk_frame s s'"
  by (simp add: disk_frame_def)

lemma disk_frameE:
  assumes "disk_frame s s'"
  obtains bs nx pv d w where "s' = s\<lparr>bufs := bs, nxt := nx, prv := pv, disk := d, dwrites := w\<rparr>"
  using assms unfolding disk_frame_def by blast

lemma disk_frame_refl [simp]: "disk_frame s s"
  by (simp add: disk_frame_def)

lemma disk_frame_trans: "disk_frame s t \<Longrightarrow> disk_frame t u \<Longrightarrow> disk_frame s u"
proof -
  assume 1: "disk_frame s t" and 2: "disk_frame t u"
  obtain bs nx pv d w where "t = s\<lparr>bufs := bs, nxt := nx, prv := pv, disk := d, dwrites := w\<rparr>" using 1 by (rule disk_frameE)
  moreover obtain bs' nx' pv' d' w' where "u = t\<lparr>bufs := bs', nxt := nx', prv := pv', disk := d', dwrites := w'\<rparr>"
    using 2 by (rule disk_frameE)
  ultimately show ?thesis by (intro disk_frameI) simp
qed

lemma disk_frame_cache: "s' = s\<lparr>bufs := bs, nxt := nx, prv := pv\<rparr> \<Longrightarrow> disk_frame s s'"
  by (rule disk_frameI [where bs = bs and nx = nx and pv = pv and d = "disk s" and w = "dwrites s"]) simp

lemma disk_frame_log:
  fixes s s' :: "'z log_scheme"
  assumes "disk_frame s s'"
  shows "lstart s' = lstart s" "lsize s' = lsize s" "outstanding s' = outstanding s" "committing s' = committing s"
    "ldev s' = ldev s" "lhn s' = lhn s" "lhblock s' = lhblock s" "cur_pid s' = cur_pid s"
  using assms by (auto elim!: disk_frameE)

text \<open>What one copy achieves.\<close>

definition copied :: "uint set \<Rightarrow> uint \<Rightarrow> block \<Rightarrow> 'z bio_scheme \<Rightarrow> 'z bio_scheme \<Rightarrow> bool" where
  "copied P' a d s s' \<longleftrightarrow> bio_inv P' {} s' \<and> blk s' = (blk s)(a := d) \<and> disk s' = (disk s)(a := d) \<and>
     dwrites s' = dwrites s @ [(a, d)] \<and> disk_frame s s'"

text \<open>The pieces of a copy: two reads, a write through the cache, two releases.\<close>

lemma two_reads:
  assumes inv: "bio_inv P {} s" and ab: "a \<noteq> b" and P: "finite P" "card P + 2 \<le> NBUF"
  obtains i j s1 s2 where "bread ROOTDEV a s = Ok (i, s1)" "bread ROOTDEV b s1 = Ok (j, s2)" "i \<noteq> j" "bio_inv P {i, j} s2"
    "blockno (bufs s2 ! i) = a" "blockno (bufs s2 ! j) = b" "data (bufs s2 ! i) = blk s a" "data (bufs s2 ! j) = blk s b"
    "blk s2 = blk s" "disk s2 = disk s" "dwrites s2 = dwrites s" "disk_frame s s1" "disk_frame s s2"
proof -
  obtain i s1 where r1: "bread ROOTDEV a s = Ok (i, s1)" and g1: "got_block P {} s a i s1"
    using endsR_emptyD [OF bread_room [OF inv _ P(1)]] P(2) by force
  note G1 = got_blockD [OF g1]
  have "card {i} + card P < NBUF" using P(2) by simp
  then obtain j s2 where r2: "bread ROOTDEV b s1 = Ok (j, s2)" and g2: "got_block P {i} s1 b j s2"
    using endsR_emptyD [OF bread_room [OF G1(3) _ P(1)]] G1(4) ab by force
  note G2 = got_blockD [OF g2]
  have ij: "i \<noteq> j" using G2(2) by simp
  have bi: "bufs s2 ! i = bufs s1 ! i" using G2(7) [of i] ij by simp
  have H: "bio_inv P {i, j} s2" using G2(3) by (simp add: insert_commute)
  have fr: "disk_frame s s1" "disk_frame s1 s2" using disk_frame_cache G1(8) G2(8) by blast+
  show thesis
    by (rule that [OF r1 r2 ij H]) (use bi G1 G2 fr disk_frame_trans frame_bufs(1,2) [OF G1(8)] frame_bufs(1,2) [OF G2(8)] in auto)
qed

lemma write_through:
  assumes inv: "bio_inv P H s" and i: "i \<in> H"
  obtains s' where "bwrite i (upd_buf i (\<lambda>x. x\<lparr>data := d\<rparr>) s) = Ok s'" "bio_inv P H s'"
    "blk s' = (blk s)(blockno (bufs s ! i) := d)" "disk s' = (disk s)(blockno (bufs s ! i) := d)"
    "dwrites s' = dwrites s @ [(blockno (bufs s ! i), d)]" "\<And>j. j \<noteq> i \<Longrightarrow> bufs s' ! j = bufs s ! j"
    "data (bufs s' ! i) = d" "blockno (bufs s' ! i) = blockno (bufs s ! i)" "disk_frame s s'"
proof -
  let ?t = "upd_buf i (\<lambda>x. x\<lparr>data := d\<rparr>) s" and ?b = "blockno (bufs s ! i)"
  let ?s = "?t\<lparr>disk := (disk s)(?b := d), dwrites := dwrites s @ [(?b, d)]\<rparr>"
  have lb: "i < length (bufs s)" using bio_invD(1,2) [OF inv] i by simp
  note t = set_data_ok [OF inv i, of d]
  have b: "blockno (bufs ?t ! i) = ?b" "data (bufs ?t ! i) = d" "disk ?t = disk s" "dwrites ?t = dwrites s"
    using lb by (auto simp: upd_buf_def)
  note w = bwrite_ok [OF t(1) i, unfolded b]
  show thesis
    by (rule that [OF w(1,2)]) (use w(3) t(2) lb in \<open>auto simp: upd_buf_def disk_frame_def\<close>)
qed

lemma two_releases:
  assumes inv: "bio_inv P {i, j} s" and ij: "i \<noteq> j"
    and ci: "blockno (bufs s ! i) \<in> P \<or> data (bufs s ! i) = disk s (blockno (bufs s ! i))"
    and cj: "blockno (bufs s ! j) \<in> P \<or> data (bufs s ! j) = disk s (blockno (bufs s ! j))"
  obtains s1 s2 where "brelse i s = Ok s1" "brelse j s1 = Ok s2" "bio_inv P {} s2" "blk s2 = blk s" "disk s2 = disk s"
    "dwrites s2 = dwrites s" "disk_frame s s2"
proof -
  obtain s1 where r1: "brelse i s = Ok s1" "released P {i, j} s i s1" using brelse_ok [OF inv _ ci] by auto
  note R1 = releasedD [OF r1(2)]
  have i1: "bio_inv P {j} s1" using R1(1) ij by (simp add: insert_Diff_if)
  have bj: "bufs s1 ! j = bufs s ! j" using R1(3) [of j] ij by simp
  note f1 = frame_bufs [OF R1(4)]
  obtain s2 where r2: "brelse j s1 = Ok s2" "released P {j} s1 j s2" using brelse_ok [OF i1, of j] cj bj f1(1) by auto
  note R2 = releasedD [OF r2(2)]
  have "disk_frame s s1" "disk_frame s1 s2" using disk_frame_cache R1(4) R2(4) by blast+
  then have "disk_frame s s2" by (rule disk_frame_trans)
  with R2(1,2) R1(2) f1 frame_bufs(1,2) [OF R2(4)] show thesis by (intro that [OF r1(1) r2(1)]) auto
qed

lemma write_copy:
  assumes inv: "bio_inv P {} s" and ab: "a \<noteq> b" and P: "finite P" "card P + 2 \<le> NBUF"
  shows "\<exists>to s1 from s2 s3 s4 s5. bread ROOTDEV a s = Ok (to, s1) \<and> disk_frame s s1 \<and> bread ROOTDEV b s1 = Ok (from, s2) \<and>
    bwrite to (upd_buf to (\<lambda>x. x\<lparr>data := data (bufs s2 ! from)\<rparr>) s2) = Ok s3 \<and> brelse from s3 = Ok s4 \<and> brelse to s4 = Ok s5 \<and>
    copied P a (blk s b) s s5"
proof -
  obtain i j s1 s2 where r: "bread ROOTDEV a s = Ok (i, s1)" "bread ROOTDEV b s1 = Ok (j, s2)" "i \<noteq> j" "bio_inv P {i, j} s2"
    "blockno (bufs s2 ! i) = a" "blockno (bufs s2 ! j) = b" "data (bufs s2 ! i) = blk s a" "data (bufs s2 ! j) = blk s b"
    "blk s2 = blk s" "disk s2 = disk s" "dwrites s2 = dwrites s" "disk_frame s s1" "disk_frame s s2"
    by (rule two_reads [OF inv ab P]) (rule that)
  obtain s3 where w: "bwrite i (upd_buf i (\<lambda>x. x\<lparr>data := blk s b\<rparr>) s2) = Ok s3" "bio_inv P {i, j} s3"
    "blk s3 = (blk s2)(blockno (bufs s2 ! i) := blk s b)" "disk s3 = (disk s2)(blockno (bufs s2 ! i) := blk s b)"
    "dwrites s3 = dwrites s2 @ [(blockno (bufs s2 ! i), blk s b)]" "\<And>k. k \<noteq> i \<Longrightarrow> bufs s3 ! k = bufs s2 ! k"
    "data (bufs s3 ! i) = blk s b" "blockno (bufs s3 ! i) = blockno (bufs s2 ! i)" "disk_frame s2 s3"
    by (rule write_through [OF r(4), of i "blk s b"]) (simp, rule that)
  have bj: "bufs s3 ! j = bufs s2 ! j" using w(6) [of j] r(3) by simp
  have "b \<in> P \<or> blk s b = disk s b" using blk_clean [OF inv] by auto
  then have cj: "blockno (bufs s3 ! j) \<in> P \<or> data (bufs s3 ! j) = disk s3 (blockno (bufs s3 ! j))"
    using bj r(5,6,8,10) w(4) ab by auto
  have ci: "blockno (bufs s3 ! i) \<in> P \<or> data (bufs s3 ! i) = disk s3 (blockno (bufs s3 ! i))" using w(4,7,8) r(5) by simp
  have "bio_inv P {j, i} s3" using w(2) by (simp add: insert_commute)
  then obtain s4 s5 where q: "brelse j s3 = Ok s4" "brelse i s4 = Ok s5" "bio_inv P {} s5" "blk s5 = blk s3" "disk s5 = disk s3"
    "dwrites s5 = dwrites s3" "disk_frame s3 s5"
    by (rule two_releases [OF _ not_sym [OF r(3)] cj ci]) (rule that)
  have "disk_frame s s5" using r(13) w(9) q(7) disk_frame_trans by blast
  then have "copied P a (blk s b) s s5" using q w r by (simp add: copied_def)
  then show ?thesis using r(1,2,8,12) w(1) q(1,2) by auto
qed

lemma install_copy:
  assumes inv: "bio_inv P {} s" and ab: "a \<noteq> b" "a \<notin> P" and P: "finite P" "card P + 2 \<le> NBUF" and u: "unpin \<longrightarrow> b \<in> P"
  shows "\<exists>lbuf s1 dbuf s2 s3 s4 s5. bread ROOTDEV a s = Ok (lbuf, s1) \<and> disk_frame s s1 \<and> bread ROOTDEV b s1 = Ok (dbuf, s2) \<and>
    bwrite dbuf (upd_buf dbuf (\<lambda>x. x\<lparr>data := data (bufs s2 ! lbuf)\<rparr>) s2) = Ok s3 \<and>
    brelse lbuf (if unpin then bunpin dbuf s3 else s3) = Ok s4 \<and> brelse dbuf s4 = Ok s5 \<and>
    copied (if unpin then P - {b} else P) b (blk s a) s s5"
proof -
  obtain i j s1 s2 where r: "bread ROOTDEV a s = Ok (i, s1)" "bread ROOTDEV b s1 = Ok (j, s2)" "i \<noteq> j" "bio_inv P {i, j} s2"
    "blockno (bufs s2 ! i) = a" "blockno (bufs s2 ! j) = b" "data (bufs s2 ! i) = blk s a" "data (bufs s2 ! j) = blk s b"
    "blk s2 = blk s" "disk s2 = disk s" "dwrites s2 = dwrites s" "disk_frame s s1" "disk_frame s s2"
    by (rule two_reads [OF inv ab(1) P]) (rule that)
  let ?P = "if unpin then P - {b} else P"
  obtain s3 where w: "bwrite j (upd_buf j (\<lambda>x. x\<lparr>data := blk s a\<rparr>) s2) = Ok s3" "bio_inv P {i, j} s3"
    "blk s3 = (blk s2)(blockno (bufs s2 ! j) := blk s a)" "disk s3 = (disk s2)(blockno (bufs s2 ! j) := blk s a)"
    "dwrites s3 = dwrites s2 @ [(blockno (bufs s2 ! j), blk s a)]" "\<And>k. k \<noteq> j \<Longrightarrow> bufs s3 ! k = bufs s2 ! k"
    "data (bufs s3 ! j) = blk s a" "blockno (bufs s3 ! j) = blockno (bufs s2 ! j)" "disk_frame s2 s3"
    by (rule write_through [OF r(4), of j "blk s a"]) (simp, rule that)
  let ?t = "if unpin then bunpin j s3 else s3"
  have lj: "j < length (bufs s3)" using bio_invD(1,2) [OF w(2)] by simp
  have t: "bio_inv ?P {i, j} ?t" "blk ?t = blk s3" using bunpin_ok [OF w(2), of j] w(2,8) r(6) u by auto
  have bt: "data (bufs ?t ! k) = data (bufs s3 ! k)" "blockno (bufs ?t ! k) = blockno (bufs s3 ! k)" for k
    using lj by (cases "k = j"; simp add: bunpin_def upd_buf_def)+
  have dt: "disk ?t = disk s3" "dwrites ?t = dwrites s3" "disk_frame s3 ?t" by (auto simp: bunpin_def upd_buf_def disk_frame_def)
  have bi: "bufs s3 ! i = bufs s2 ! i" using w(6) [of i] r(3) by simp
  have ci: "blockno (bufs ?t ! i) \<in> ?P \<or> data (bufs ?t ! i) = disk ?t (blockno (bufs ?t ! i))"
    unfolding bt dt using bi r(5,6,7,10) w(4) ab blk_clean [OF inv ab(2)] by auto
  have cj: "blockno (bufs ?t ! j) \<in> ?P \<or> data (bufs ?t ! j) = disk ?t (blockno (bufs ?t ! j))"
    unfolding bt dt using w(4,7,8) r(6) by simp
  obtain s4 s5 where q: "brelse i ?t = Ok s4" "brelse j s4 = Ok s5" "bio_inv ?P {} s5" "blk s5 = blk ?t" "disk s5 = disk ?t"
    "dwrites s5 = dwrites ?t" "disk_frame ?t s5"
    by (rule two_releases [OF t(1) r(3) ci cj]) (rule that)
  have "disk_frame s s5" using r(13) w(9) q(7) dt(3) disk_frame_trans by blast
  then have "copied ?P b (blk s a) s s5" using q w r t dt by (simp add: copied_def)
  then show ?thesis using r(1,2,7,12) w(1) q(1,2) by auto
qed

section \<open>The loops of a commit\<close>

definition apply_writes :: "(uint \<times> block) list \<Rightarrow> (uint \<Rightarrow> block) \<Rightarrow> uint \<Rightarrow> block" where
  "apply_writes ws d = foldl (\<lambda>d (b, x). d(b := x)) d ws"

lemma apply_writes_simps [simp]:
  "apply_writes [] d = d" "apply_writes ((b, x) # ws) d = apply_writes ws (d(b := x))"
  "apply_writes (ws @ ws') d = apply_writes ws' (apply_writes ws d)"
  by (simp_all add: apply_writes_def)

lemma apply_writes_other: "b \<notin> fst ` set ws \<Longrightarrow> apply_writes ws d b = d b"
proof (induction ws arbitrary: d)
  case (Cons w ws)
  then show ?case by (cases w) simp
qed simp

lemma apply_writes_in: "distinct (map fst ws) \<Longrightarrow> (b, x) \<in> set ws \<Longrightarrow> apply_writes ws d b = x"
proof (induction ws arbitrary: d)
  case (Cons w ws)
  obtain c y where w: "w = (c, y)" by force
  show ?case
  proof (cases "(b, x) \<in> set ws")
    case True
    then show ?thesis using Cons w by simp
  next
    case False
    then have "b = c" "x = y" using Cons.prems(2) w by auto
    moreover have "c \<notin> fst ` set ws" using Cons.prems(1) w by auto
    ultimately show ?thesis using apply_writes_other [of c ws] w by simp
  qed
qed simp

text \<open>The address of a log block.\<close>

definition log_addr :: "uint \<Rightarrow> nat \<Rightarrow> uint" where
  "log_addr start t = start + of_nat t + 1"

lemma log_addr_alt: "log_addr start t = start + 1 + of_nat t" "log_addr start t = start + of_nat (Suc t)"
  by (simp_all add: log_addr_def)

lemma log_addr_inj: "t < LOGSIZE \<Longrightarrow> u < LOGSIZE \<Longrightarrow> log_addr start t = log_addr start u \<longleftrightarrow> t = u"
  unfolding log_addr_alt(1) by (rule word_add_of_nat_inj) (simp_all add: param_defs)

lemma log_addr_start: "t < LOGSIZE \<Longrightarrow> log_addr start t \<noteq> start"
  using word_add_of_nat_inj [of "Suc t" 0 start] unfolding log_addr_alt(2) by (auto simp: param_defs simp del: of_nat_Suc)

lemma write_log_loop_ok:
  fixes s :: "'z log_scheme"
  assumes "bio_inv P {} s" "finite P" "card P + 2 \<le> NBUF" "ldev s = ROOTDEV" "length (lhblock s) = LOGSIZE" "set ts \<subseteq> {..<LOGSIZE}"
    and "\<forall>t \<in> set ts. \<forall>u \<in> set ts. log_addr (lstart s) t \<noteq> lhblock s ! u"
  defines "ws \<equiv> map (\<lambda>t. (log_addr (lstart s) t, blk s (lhblock s ! t))) ts"
  shows "\<exists>s'. write_log_loop ts s = Ok s' \<and> bio_inv P {} s' \<and> blk s' = apply_writes ws (blk s) \<and> disk s' = apply_writes ws (disk s) \<and>
    dwrites s' = dwrites s @ ws \<and> disk_frame s s'"
  using assms(1,4-7) unfolding ws_def
proof (induction ts arbitrary: s)
  case Nil
  then show ?case by simp
next
  case (Cons t ts)
  let ?a = "log_addr (lstart s) t" and ?b = "lhblock s ! t"
  have "?a \<noteq> ?b" using Cons.prems(5) by simp
  from write_copy [OF Cons.prems(1) this assms(2,3)] obtain to s1 src s2 s3 s4 s5 where
    r: "bread ROOTDEV ?a s = Ok (to, s1)" "disk_frame s s1" "bread ROOTDEV ?b s1 = Ok (src, s2)"
    "bwrite to (upd_buf to (\<lambda>x. x\<lparr>data := data (bufs s2 ! src)\<rparr>) s2) = Ok s3" "brelse src s3 = Ok s4" "brelse to s4 = Ok s5"
    and c: "copied P ?a (blk s ?b) s s5" by blast
  note f1 = disk_frame_log [OF r(2)]
  have step: "write_log_loop (t # ts) s = write_log_loop ts s5"
    using r f1 Cons.prems(2,3,4) by (simp add: log_addr_def)
  have f5: "disk_frame s s5" using c by (simp add: copied_def)
  note F5 = disk_frame_log [OF f5]
  have b5: "blk s5 (lhblock s ! u) = blk s (lhblock s ! u)" if "u \<in> set ts" for u
    using c Cons.prems(5) that by (auto simp: copied_def)
  have "\<exists>s'. write_log_loop ts s5 = Ok s' \<and> bio_inv P {} s' \<and>
      blk s' = apply_writes (map (\<lambda>t. (log_addr (lstart s5) t, blk s5 (lhblock s5 ! t))) ts) (blk s5) \<and>
      disk s' = apply_writes (map (\<lambda>t. (log_addr (lstart s5) t, blk s5 (lhblock s5 ! t))) ts) (disk s5) \<and>
      dwrites s' = dwrites s5 @ map (\<lambda>t. (log_addr (lstart s5) t, blk s5 (lhblock s5 ! t))) ts \<and> disk_frame s5 s'"
    by (rule Cons.IH) (use c Cons.prems F5 in \<open>auto simp: copied_def\<close>)
  then obtain s' where IH: "write_log_loop ts s5 = Ok s'" "bio_inv P {} s'"
      "blk s' = apply_writes (map (\<lambda>t. (log_addr (lstart s5) t, blk s5 (lhblock s5 ! t))) ts) (blk s5)"
      "disk s' = apply_writes (map (\<lambda>t. (log_addr (lstart s5) t, blk s5 (lhblock s5 ! t))) ts) (disk s5)"
      "dwrites s' = dwrites s5 @ map (\<lambda>t. (log_addr (lstart s5) t, blk s5 (lhblock s5 ! t))) ts" "disk_frame s5 s'" by blast
  have eq: "map (\<lambda>t. (log_addr (lstart s5) t, blk s5 (lhblock s5 ! t))) ts = map (\<lambda>t. (log_addr (lstart s) t, blk s (lhblock s ! t))) ts"
    using F5 b5 by simp
  show ?case
    using IH c step f5 disk_frame_trans by (intro exI [of _ s']) (auto simp: eq copied_def)
qed

lemma install_loop_ok:
  fixes s :: "'z log_scheme"
  assumes "bio_inv P {} s" "finite P" "card P + 2 \<le> NBUF" "ldev s = ROOTDEV" "length (lhblock s) = LOGSIZE" "set ts \<subseteq> {..<LOGSIZE}"
    and "\<forall>t \<in> set ts. log_addr (lstart s) t \<notin> P \<and> (\<forall>u \<in> set ts. log_addr (lstart s) t \<noteq> lhblock s ! u)"
    and "\<not> recovering \<longrightarrow> distinct (map ((!) (lhblock s)) ts) \<and> (\<forall>t \<in> set ts. lhblock s ! t \<in> P)"
  defines "ws \<equiv> map (\<lambda>t. (lhblock s ! t, blk s (log_addr (lstart s) t))) ts"
  shows "\<exists>s'. install_loop recovering ts s = Ok s' \<and> bio_inv (if recovering then P else P - (!) (lhblock s) ` set ts) {} s' \<and>
    blk s' = apply_writes ws (blk s) \<and> disk s' = apply_writes ws (disk s) \<and> dwrites s' = dwrites s @ ws \<and> disk_frame s s'"
  using assms(1-8) unfolding ws_def
proof (induction ts arbitrary: s P)
  case Nil
  then show ?case by simp
next
  case (Cons t ts)
  let ?a = "log_addr (lstart s) t" and ?b = "lhblock s ! t"
  let ?P = "if \<not> recovering then P - {?b} else P"
  have ab: "?a \<noteq> ?b" "?a \<notin> P" "\<not> recovering \<longrightarrow> ?b \<in> P" using Cons.prems(7,8) by auto
  from install_copy [OF Cons.prems(1) ab(1,2) Cons.prems(2,3) ab(3)] obtain lbuf s1 dbuf s2 s3 s4 s5 where
    r: "bread ROOTDEV ?a s = Ok (lbuf, s1)" "disk_frame s s1" "bread ROOTDEV ?b s1 = Ok (dbuf, s2)"
    "bwrite dbuf (upd_buf dbuf (\<lambda>x. x\<lparr>data := data (bufs s2 ! lbuf)\<rparr>) s2) = Ok s3"
    "brelse lbuf (if \<not> recovering then bunpin dbuf s3 else s3) = Ok s4" "brelse dbuf s4 = Ok s5"
    and c: "copied ?P ?b (blk s ?a) s s5" by blast
  note f1 = disk_frame_log [OF r(2)]
  have step: "install_loop recovering (t # ts) s = install_loop recovering ts s5"
    using r f1 Cons.prems(4,5,6) by (simp add: log_addr_def Let_def)
  have f5: "disk_frame s s5" using c by (simp add: copied_def)
  note F5 = disk_frame_log [OF f5]
  have b5: "blk s5 (log_addr (lstart s) u) = blk s (log_addr (lstart s) u)" if "u \<in> set ts" for u
    using c Cons.prems(7) that by (auto simp: copied_def)
  let ?ws = "map (\<lambda>t. (lhblock s5 ! t, blk s5 (log_addr (lstart s5) t))) ts"
  have "\<exists>s'. install_loop recovering ts s5 = Ok s' \<and> bio_inv (if recovering then ?P else ?P - (!) (lhblock s5) ` set ts) {} s' \<and>
      blk s' = apply_writes ?ws (blk s5) \<and> disk s' = apply_writes ?ws (disk s5) \<and> dwrites s' = dwrites s5 @ ?ws \<and> disk_frame s5 s'"
  proof (rule Cons.IH)
    show "bio_inv ?P {} s5" using c by (simp add: copied_def)
    show "card ?P + 2 \<le> NBUF" using Cons.prems(2,3) card_Diff1_le [of P ?b] by auto
    show "\<not> recovering \<longrightarrow> distinct (map ((!) (lhblock s5)) ts) \<and> (\<forall>t \<in> set ts. lhblock s5 ! t \<in> ?P)"
      using Cons.prems(8) F5(7) by (auto simp: image_iff)
  qed (use Cons.prems F5 in auto)
  then obtain s' where IH: "install_loop recovering ts s5 = Ok s'" "bio_inv (if recovering then ?P else ?P - (!) (lhblock s5) ` set ts) {} s'"
      "blk s' = apply_writes ?ws (blk s5)" "disk s' = apply_writes ?ws (disk s5)" "dwrites s' = dwrites s5 @ ?ws" "disk_frame s5 s'" by blast
  have eq: "?ws = map (\<lambda>t. (lhblock s ! t, blk s (log_addr (lstart s) t))) ts"
    using F5 b5 by simp
  have "(if recovering then ?P else ?P - (!) (lhblock s5) ` set ts) = (if recovering then P else P - (!) (lhblock s) ` set (t # ts))"
    using F5 by auto
  with IH c step f5 show ?case
    by (intro exI [of _ s']) (auto simp: eq copied_def intro: disk_frame_trans)
qed

section \<open>The header block\<close>

definition head_block :: "uint list \<Rightarrow> nat \<Rightarrow> block \<Rightarrow> block" where
  "head_block blocks n d = fold (\<lambda>i d. put32 d (4 + 4 * i) (blocks ! i)) [0..<n] (put32 d 0 (of_nat n))"

lemma write_head_loop_ok:
  "set is \<subseteq> {..<length blocks} \<Longrightarrow> write_head_loop blocks is d = Ok (fold (\<lambda>i d. put32 d (4 + 4 * i) (blocks ! i)) is d)"
  by (induction "is" arbitrary: d) auto

lemma head_block_Suc: "head_block blocks (Suc n) d = put32 (fold (\<lambda>i d. put32 d (4 + 4 * i) (blocks ! i)) [0..<n] (put32 d 0 (of_nat (Suc n)))) (4 + 4 * n) (blocks ! n)"
  by (simp add: head_block_def)

lemma get_fold_put:
  "get32 (fold (\<lambda>i d. put32 d (4 + 4 * i) (blocks ! i)) [0..<n] d) 0 = get32 d 0"
  "i < n \<Longrightarrow> get32 (fold (\<lambda>i d. put32 d (4 + 4 * i) (blocks ! i)) [0..<n] d) (4 + 4 * i) = blocks ! i"
proof (induction n)
  case 0
  { case 1 then show ?case by simp next case 2 then show ?case by simp }
next
  case (Suc n)
  { case 1 then show ?case using Suc.IH(1) by (simp add: get_put_other)
  next
    case 2
    show ?case
    proof (cases "i = n")
      case True
      then show ?thesis by (simp add: get_put_same)
    next
      case False
      then have "i < n" using 2 by simp
      then have "get32 (put32 e (4 + 4 * n) v) (4 + 4 * i) = get32 e (4 + 4 * i)" for e v by (intro get_put_other) simp
      then show ?thesis using Suc.IH(2) [OF \<open>i < n\<close>] by simp
    qed }
qed

lemma head_block_get:
  "n < 2 ^ 32 \<Longrightarrow> unat (get32 (head_block blocks n d) 0) = n" "i < n \<Longrightarrow> get32 (head_block blocks n d) (4 + 4 * i) = blocks ! i"
  by (simp_all add: head_block_def get_fold_put get_put_same unat_of_nat_small)

lemma write_head_ok:
  fixes s :: "'z log_scheme"
  assumes inv: "bio_inv P {} s" and P: "finite P" "card P + 2 \<le> NBUF" and l: "ldev s = ROOTDEV" "length (lhblock s) = LOGSIZE"
    and n: "0 \<le> lhn s" "lhn s \<le> int LOGSIZE"
  shows "\<exists>s'. write_head s = Ok s' \<and> copied P (lstart s) (head_block (lhblock s) (nat (lhn s)) (blk s (lstart s))) s s'"
proof -
  obtain i s1 where r1: "bread ROOTDEV (lstart s) s = Ok (i, s1)" and g1: "got_block P {} s (lstart s) i s1"
    using endsR_emptyD [OF bread_room [OF inv _ P(1)]] P(2) by force
  note G1 = got_blockD [OF g1]
  have f1: "disk_frame s s1" using disk_frame_cache G1(8) by blast
  note F1 = disk_frame_log [OF f1] and D1 = frame_bufs(1,2) [OF G1(8)]
  let ?d = "head_block (lhblock s) (nat (lhn s)) (blk s (lstart s))"
  have hd: "write_head_loop (lhblock s) [0..<nat (lhn s)] (put32 (blk s (lstart s)) 0 (of_int (lhn s))) = Ok ?d"
    using n l by (subst write_head_loop_ok) (auto simp: head_block_def)
  have "i \<in> {i}" by simp
  then obtain s2 where w: "bwrite i (upd_buf i (\<lambda>x. x\<lparr>data := ?d\<rparr>) s1) = Ok s2" "bio_inv P {i} s2"
    "blk s2 = (blk s1)(blockno (bufs s1 ! i) := ?d)" "disk s2 = (disk s1)(blockno (bufs s1 ! i) := ?d)"
    "dwrites s2 = dwrites s1 @ [(blockno (bufs s1 ! i), ?d)]" "data (bufs s2 ! i) = ?d" "blockno (bufs s2 ! i) = blockno (bufs s1 ! i)"
    "disk_frame s1 s2"
    using write_through [OF G1(3), of i ?d] by (metis (no_types, lifting))
  obtain s3 where r3: "brelse i s2 = Ok s3" "released P {i} s2 i s3" using brelse_ok [OF w(2), of i] w by auto
  note R3 = releasedD [OF r3(2)]
  have "write_head s = Ok s3" using r1 l(1) F1 G1(5) hd w(1) r3(1) by (simp add: write_head_def)
  moreover have "disk_frame s s3" using f1 w(8) disk_frame_cache [OF R3(4)] disk_frame_trans by blast
  ultimately show ?thesis
    using R3(1,2) w G1 D1 frame_bufs(1,2) [OF R3(4)] by (intro exI [of _ s3]) (simp add: copied_def)
qed

text \<open>The blocks the log owns on disk: the header and \<open>LOGSIZE\<close> data blocks.\<close>

definition log_area :: "uint \<Rightarrow> uint set" where
  "log_area start = insert start (log_addr start ` {..<LOGSIZE})"

lemma log_areaI: "start \<in> log_area start" "t < LOGSIZE \<Longrightarrow> log_addr start t \<in> log_area start"
  by (auto simp: log_area_def)

section \<open>Commit\<close>

text \<open>The disk writes of a commit, in order.\<close>

definition log_copies :: "'z log_scheme \<Rightarrow> (uint \<times> block) list" where
  "log_copies s = map (\<lambda>t. (log_addr (lstart s) t, blk s (lhblock s ! t))) [0..<nat (lhn s)]"

definition home_copies :: "'z log_scheme \<Rightarrow> (uint \<times> block) list" where
  "home_copies s = map (\<lambda>b. (b, blk s b)) (logged_list s)"

definition commit_writes :: "'z log_scheme \<Rightarrow> (uint \<times> block) list" where
  "commit_writes s =
     (let h = head_block (lhblock s) (nat (lhn s)) (blk s (lstart s)) in
      log_copies s @ [(lstart s, h)] @ home_copies s @ [(lstart s, head_block (lhblock s) 0 h)])"

definition commit_pre :: "'z log_scheme \<Rightarrow> bool" where
  "commit_pre s \<longleftrightarrow> log_inv {} s \<and> lhn s + 2 \<le> int NBUF \<and> set (logged_list s) \<inter> log_area (lstart s) = {}"

lemma logged_nth: "length (lhblock s) = LOGSIZE \<Longrightarrow> 0 \<le> lhn s \<Longrightarrow> lhn s \<le> int LOGSIZE \<Longrightarrow> logged_list s = map ((!) (lhblock s)) [0..<nat (lhn s)]"
  unfolding logged_list_def by (rule nth_equalityI) auto

lemma commit_ok:
  assumes pre: "commit_pre s" and pos: "0 < lhn s"
  shows "\<exists>s'. commit s = Ok s' \<and> log_inv {} s' \<and> lhn s' = 0 \<and> dwrites s' = dwrites s @ commit_writes s \<and>
    disk s' = apply_writes (commit_writes s) (disk s) \<and> blk s' = apply_writes (commit_writes s) (blk s) \<and>
    lstart s' = lstart s \<and> outstanding s' = outstanding s \<and> committing s' = committing s"
proof -
  have inv: "log_inv {} s" using pre by (simp add: commit_pre_def)
  note D = log_invD [OF inv]
  let ?P = "set (logged_list s)" and ?ts = "[0..<nat (lhn s)]" and ?st = "lstart s" and ?n = "nat (lhn s)"
  have fin: "finite ?P" and card: "card ?P + 2 \<le> NBUF"
    using D(2,5,7) pre by (auto simp: commit_pre_def distinct_card nat_le_iff)
  have tsL: "set ?ts \<subseteq> {..<LOGSIZE}" using D(3) by auto
  have ll: "logged_list s = map ((!) (lhblock s)) ?ts" by (rule logged_nth [OF D(4,2,3)])
  have home: "lhblock s ! t \<in> ?P" if "t \<in> set ?ts" for t using that ll by simp
  have apart: "log_addr ?st t \<notin> ?P" "\<forall>u \<in> set ?ts. log_addr ?st t \<noteq> lhblock s ! u" if "t \<in> set ?ts" for t
  proof -
    have "log_addr ?st t \<in> log_area ?st" using that tsL by (intro log_areaI) auto
    then show "log_addr ?st t \<notin> ?P" using pre by (auto simp: commit_pre_def)
    then show "\<forall>u \<in> set ?ts. log_addr ?st t \<noteq> lhblock s ! u" using home by metis
  qed
  obtain s1 where s1: "write_log s = Ok s1" "bio_inv ?P {} s1" "blk s1 = apply_writes (log_copies s) (blk s)"
    "disk s1 = apply_writes (log_copies s) (disk s)" "dwrites s1 = dwrites s @ log_copies s" "disk_frame s s1"
    using write_log_loop_ok [OF D(1) fin card D(6,4) tsL] apart(2) unfolding write_log_def log_copies_def by blast
  note F1 = disk_frame_log [OF s1(6)]
  have b1: "blk s1 b = blk s b" if "b \<notin> log_area ?st \<or> b = ?st" for b
  proof -
    have "b \<noteq> log_addr ?st t" if "t \<in> set ?ts" for t
    proof -
      have "t < LOGSIZE" using that tsL by auto
      then show ?thesis using \<open>b \<notin> log_area ?st \<or> b = ?st\<close> log_areaI(2) [of t ?st] log_addr_start [of t ?st] by auto
    qed
    then have "\<forall>t \<in> set ?ts. b \<noteq> log_addr ?st t" by blast
    then have "b \<notin> fst ` set (log_copies s)" by (auto simp: log_copies_def)
    then show ?thesis using s1(3) apply_writes_other by metis
  qed
  let ?h = "head_block (lhblock s) ?n (blk s ?st)"
  obtain s2 where s2: "write_head s1 = Ok s2" and c2: "copied ?P ?st ?h s1 s2"
  proof -
    have "\<exists>s'. write_head s1 = Ok s' \<and> copied ?P (lstart s1) (head_block (lhblock s1) (nat (lhn s1)) (blk s1 (lstart s1))) s1 s'"
      using D F1 by (intro write_head_ok [OF s1(2) fin card]) simp_all
    then show thesis using that F1 b1 [of ?st] by auto
  qed
  have f2: "disk_frame s1 s2" using c2 by (simp add: copied_def)
  note F2 = disk_frame_log [OF f2]
  have i2: "bio_inv ?P {} s2" using c2 by (simp add: copied_def)
  have lc: "blk s2 (log_addr ?st t) = blk s (lhblock s ! t)" if t: "t \<in> set ?ts" for t
  proof -
    have "distinct (map fst (log_copies s))"
      using tsL log_addr_inj [of _ _ ?st] by (auto simp: log_copies_def distinct_map inj_on_def)
    moreover have "(log_addr ?st t, blk s (lhblock s ! t)) \<in> set (log_copies s)" using t by (auto simp: log_copies_def)
    ultimately have "blk s1 (log_addr ?st t) = blk s (lhblock s ! t)" using s1(3) apply_writes_in by metis
    moreover have "t < LOGSIZE" using t tsL by auto
    ultimately show ?thesis using c2 log_addr_start by (simp add: copied_def)
  qed
  have hc: "map (\<lambda>t. (lhblock s2 ! t, blk s2 (log_addr (lstart s2) t))) ?ts = home_copies s"
    using lc F1 F2 ll by (auto simp: home_copies_def)
  obtain s3 where s3: "install_trans False s2 = Ok s3" "bio_inv (?P - (!) (lhblock s) ` set ?ts) {} s3"
    "blk s3 = apply_writes (home_copies s) (blk s2)" "disk s3 = apply_writes (home_copies s) (disk s2)"
    "dwrites s3 = dwrites s2 @ home_copies s" "disk_frame s2 s3"
  proof -
    have "\<forall>t \<in> set ?ts. log_addr (lstart s2) t \<notin> ?P \<and> (\<forall>u \<in> set ?ts. log_addr (lstart s2) t \<noteq> lhblock s2 ! u)"
      using apart by (simp add: F1 F2)
    moreover have "\<not> False \<longrightarrow> distinct (map ((!) (lhblock s2)) ?ts) \<and> (\<forall>t \<in> set ?ts. lhblock s2 ! t \<in> ?P)"
      using D(5) ll home F1 F2 by simp
    moreover have "ldev s2 = ROOTDEV" "length (lhblock s2) = LOGSIZE" using D F1 F2 by simp_all
    ultimately have "\<exists>s'. install_loop False ?ts s2 = Ok s' \<and> bio_inv (if False then ?P else ?P - (!) (lhblock s2) ` set ?ts) {} s' \<and>
      blk s' = apply_writes (home_copies s) (blk s2) \<and> disk s' = apply_writes (home_copies s) (disk s2) \<and>
      dwrites s' = dwrites s2 @ home_copies s \<and> disk_frame s2 s'"
      using install_loop_ok [OF i2 fin card _ _ tsL, of False] unfolding hc by blast
    then show thesis using that F1 F2 by (auto simp: install_trans_def)
  qed
  note F3 = disk_frame_log [OF s3(6)]
  have "?P - (!) (lhblock s) ` set ?ts = {}" using ll by auto
  then have i3: "bio_inv {} {} s3" using s3(2) by (simp only:)
  let ?s3 = "s3\<lparr>lhn := 0\<rparr>"
  have "?st \<notin> fst ` set (home_copies s)" using pre log_areaI(1) [of ?st] by (auto simp: home_copies_def commit_pre_def)
  then have hs: "blk s3 ?st = ?h" using s3(3) c2 apply_writes_other by (metis copied_def fun_upd_same)
  have e3: "bio_inv {} {} ?s3" "blk ?s3 = blk s3" using i3 bio_inv_cong [of ?s3 s3] blk_cong [of ?s3 s3] by simp_all
  obtain s4 where s4: "write_head ?s3 = Ok s4" and c4: "copied {} ?st (head_block (lhblock s) 0 ?h) ?s3 s4"
  proof -
    have "\<exists>s'. write_head ?s3 = Ok s' \<and> copied {} (lstart ?s3) (head_block (lhblock ?s3) (nat (lhn ?s3)) (blk ?s3 (lstart ?s3))) ?s3 s'"
      using D F1 F2 F3 by (intro write_head_ok [OF e3(1)]) (simp_all add: param_defs)
    then show thesis using that F1 F2 F3 e3(2) hs by auto
  qed
  have f4: "disk_frame ?s3 s4" using c4 by (simp add: copied_def)
  note F4 = disk_frame_log [OF f4]
  have run: "commit s = Ok s4" using s1(1) s2 s3(1) s4 pos by (simp add: commit_def)
  have l4: "lhn s4 = 0" "ldev s4 = ROOTDEV" "length (lhblock s4) = LOGSIZE" "lstart s4 = ?st" "outstanding s4 = outstanding s" "committing s4 = committing s"
    using F1 F2 F3 F4 D by simp_all
  then have "log_inv {} s4" using c4 by (simp add: log_inv_def logged_list_def copied_def)
  moreover have "dwrites s4 = dwrites s @ commit_writes s" "disk s4 = apply_writes (commit_writes s) (disk s)"
      "blk s4 = apply_writes (commit_writes s) (blk s)"
    using c4 s3 c2 s1 e3(2) by (simp_all add: commit_writes_def Let_def copied_def)
  ultimately show ?thesis using run l4 by blast
qed

section \<open>Recovery\<close>

text \<open>What the header on a disk says, and the writes recovery makes on that disk.\<close>

definition head_n :: "uint \<Rightarrow> (uint \<Rightarrow> block) \<Rightarrow> nat" where
  "head_n start d = unat (get32 (d start) 0)"

definition recovery_writes :: "uint \<Rightarrow> (uint \<Rightarrow> block) \<Rightarrow> (uint \<times> block) list" where
  "recovery_writes start d = map (\<lambda>t. (get32 (d start) (4 + 4 * t), d (log_addr start t))) [0..<head_n start d]"

definition good_head :: "uint \<Rightarrow> (uint \<Rightarrow> block) \<Rightarrow> bool" where
  "good_head start d \<longleftrightarrow> head_n start d \<le> LOGSIZE \<and> (\<forall>t < head_n start d. get32 (d start) (4 + 4 * t) \<notin> log_area start)"

lemma sint_small: "unat x < 2 ^ 31 \<Longrightarrow> sint x = int (unat x)" for x :: uint
proof -
  assume "unat x < 2 ^ 31"
  then have "uint x < int (2 ^ 31)" by (simp only: uint_nat of_nat_less_iff)
  then have "signed_take_bit 31 (uint x) = uint x" using uint_ge_0 [of x] by (intro signed_take_bit_int_eq_self) (rule order_trans [OF _ uint_ge_0], simp_all)
  then show ?thesis by (simp add: sint_uint)
qed

lemma read_head_loop_ok:
  "set is \<subseteq> {..<LOGSIZE} \<Longrightarrow> length (lhblock s) = LOGSIZE \<Longrightarrow>
   \<exists>bs. read_head_loop d is s = Ok (s\<lparr>lhblock := bs\<rparr>) \<and> length bs = LOGSIZE \<and>
     (\<forall>t < LOGSIZE. bs ! t = (if t \<in> set is then get32 d (4 + 4 * t) else lhblock s ! t))"
proof (induction "is" arbitrary: s)
  case Nil
  then show ?case by (intro exI [of _ "lhblock s"]) simp
next
  case (Cons i ks)
  let ?s = "s\<lparr>lhblock := (lhblock s)[i := get32 d (4 + 4 * i)]\<rparr>"
  have "\<exists>bs. read_head_loop d ks ?s = Ok (?s\<lparr>lhblock := bs\<rparr>) \<and> length bs = LOGSIZE \<and>
     (\<forall>t < LOGSIZE. bs ! t = (if t \<in> set ks then get32 d (4 + 4 * t) else lhblock ?s ! t))"
    using Cons.prems by (intro Cons.IH) auto
  then obtain bs where bs: "read_head_loop d ks ?s = Ok (?s\<lparr>lhblock := bs\<rparr>)" "length bs = LOGSIZE"
     "\<forall>t < LOGSIZE. bs ! t = (if t \<in> set ks then get32 d (4 + 4 * t) else lhblock ?s ! t)" by blast
  then show ?case using Cons.prems by (intro exI [of _ bs]) auto
qed

lemma read_head_ok:
  fixes s :: "'z log_scheme"
  assumes inv: "bio_inv {} {} s" and l: "ldev s = ROOTDEV" "length (lhblock s) = LOGSIZE" and n: "head_n (lstart s) (blk s) \<le> LOGSIZE"
  shows "\<exists>s'. read_head s = Ok s' \<and> bio_inv {} {} s' \<and> blk s' = blk s \<and> disk s' = disk s \<and> dwrites s' = dwrites s \<and>
    lhn s' = int (head_n (lstart s) (blk s)) \<and> length (lhblock s') = LOGSIZE \<and> ldev s' = ROOTDEV \<and> lstart s' = lstart s \<and>
    (\<forall>t < head_n (lstart s) (blk s). lhblock s' ! t = get32 (blk s (lstart s)) (4 + 4 * t))"
proof -
  let ?st = "lstart s" and ?n = "head_n (lstart s) (blk s)"
  have "card ({} :: nat set) + card ({} :: uint set) < NBUF" by (simp add: param_defs)
  then obtain i s1 where r1: "bread ROOTDEV ?st s = Ok (i, s1)" and g1: "got_block {} {} s ?st i s1"
    using endsR_emptyD [OF bread_room [OF inv]] by force
  note G1 = got_blockD [OF g1] and D1 = frame_bufs [OF got_blockD(8) [OF g1]]
  have f1: "disk_frame s s1" using disk_frame_cache G1(8) by blast
  note F1 = disk_frame_log [OF f1]
  let ?d = "blk s ?st" and ?s2 = "s1\<lparr>lhn := int ?n\<rparr>"
  have nn: "sint (get32 ?d 0) = int ?n" using n sint_small [of "get32 ?d 0"] by (simp add: head_n_def param_defs)
  have ns: "set [0..<?n] \<subseteq> {..<LOGSIZE}" using n by auto
  obtain bs where bs: "read_head_loop ?d [0..<?n] ?s2 = Ok (?s2\<lparr>lhblock := bs\<rparr>)" "length bs = LOGSIZE"
     "\<forall>t < LOGSIZE. bs ! t = (if t \<in> set [0..<?n] then get32 ?d (4 + 4 * t) else lhblock ?s2 ! t)"
    using read_head_loop_ok [OF ns, of ?s2 ?d] F1(7) l(2) by auto
  let ?s3 = "?s2\<lparr>lhblock := bs\<rparr>"
  have e3: "bio_inv {} {i} ?s3" "blk ?s3 = blk s1" using G1(3) bio_inv_cong [of ?s3 s1] blk_cong [of ?s3 s1] by simp_all
  have "data (bufs ?s3 ! i) = disk ?s3 (blockno (bufs ?s3 ! i))" using G1(4,5) D1(1) blk_clean [OF inv] by simp
  then obtain s4 where r4: "brelse i ?s3 = Ok s4" "released {} {i} ?s3 i s4" using brelse_ok [OF e3(1), of i] by auto
  note R4 = releasedD [OF r4(2)]
  note F4 = disk_frame_log [OF disk_frame_cache [OF R4(4)]]
  have "read_head s = Ok s4" using r1 l(1) G1(5) nn bs(1) r4(1) by (simp add: read_head_def Let_def)
  moreover have "bio_inv {} {} s4" using R4(1) by simp
  moreover have "\<forall>t < ?n. bs ! t = get32 ?d (4 + 4 * t)" using bs(3) n by auto
  ultimately show ?thesis
    using R4(2) e3(2) G1(6) frame_bufs(1,2) [OF R4(4)] D1 F4 F1 bs(2) l(1) by (intro exI [of _ s4]) simp
qed

lemma recover_ok:
  fixes s :: "'z log_scheme"
  assumes inv: "bio_inv {} {} s" and l: "ldev s = ROOTDEV" "length (lhblock s) = LOGSIZE" and h: "good_head (lstart s) (disk s)"
  shows "\<exists>s' h0. recover_from_log s = Ok s' \<and> log_inv {} s' \<and> lhn s' = 0 \<and> blk s' = disk s' \<and>
    dwrites s' = dwrites s @ recovery_writes (lstart s) (disk s) @ [(lstart s, h0)] \<and> unat (get32 h0 0) = 0 \<and>
    disk s' = (apply_writes (recovery_writes (lstart s) (disk s)) (disk s))(lstart s := h0)"
proof -
  let ?st = "lstart s" and ?n = "head_n (lstart s) (disk s)" and ?R = "recovery_writes (lstart s) (disk s)"
  have clean: "blk t = disk t" if "bio_inv {} {} t" for t :: "'z log_scheme" using blk_clean [OF that] by auto
  note B = clean [OF inv]
  have n: "?n \<le> LOGSIZE" using h by (simp add: good_head_def)
  obtain s1 where s1: "read_head s = Ok s1" "bio_inv {} {} s1" "blk s1 = blk s" "disk s1 = disk s" "dwrites s1 = dwrites s"
    "lhn s1 = int ?n" "length (lhblock s1) = LOGSIZE" "ldev s1 = ROOTDEV" "lstart s1 = ?st"
    "\<forall>t < ?n. lhblock s1 ! t = get32 (disk s ?st) (4 + 4 * t)"
    using read_head_ok [OF inv l] n B by auto
  have tsL: "set [0..<?n] \<subseteq> {..<LOGSIZE}" using n by auto
  have ap: "log_addr ?st t \<noteq> lhblock s1 ! u" if "t < ?n" "u < ?n" for t u
    using h s1(10) that log_areaI(2) [of t ?st] n by (auto simp: good_head_def)
  have R: "map (\<lambda>t. (lhblock s1 ! t, blk s1 (log_addr (lstart s1) t))) [0..<?n] = ?R"
    using s1(3,9,10) B by (simp add: recovery_writes_def)
  have "\<exists>s'. install_loop True [0..<?n] s1 = Ok s' \<and> bio_inv (if True then {} else {} - (!) (lhblock s1) ` set [0..<?n]) {} s' \<and>
      blk s' = apply_writes ?R (blk s1) \<and> disk s' = apply_writes ?R (disk s1) \<and> dwrites s' = dwrites s1 @ ?R \<and> disk_frame s1 s'"
    using install_loop_ok [OF s1(2) _ _ s1(8,7) tsL, of True] ap s1(9) unfolding R by (simp add: param_defs)
  then obtain s2 where s2: "install_loop True [0..<?n] s1 = Ok s2" "bio_inv {} {} s2" "disk s2 = apply_writes ?R (disk s)"
      "dwrites s2 = dwrites s @ ?R" "disk_frame s1 s2" using s1 by auto
  note F2 = disk_frame_log [OF s2(5)]
  let ?s2 = "s2\<lparr>lhn := 0\<rparr>"
  have e2: "bio_inv {} {} ?s2" using s2(2) bio_inv_cong [of ?s2 s2] by simp
  let ?h0 = "head_block (lhblock ?s2) (nat (lhn ?s2)) (blk ?s2 (lstart ?s2))"
  obtain s3 where s3: "write_head ?s2 = Ok s3" and c3: "copied {} (lstart ?s2) ?h0 ?s2 s3"
    using write_head_ok [OF e2] F2 s1(7,8) by (fastforce simp: param_defs)
  note F3 = disk_frame_log [of ?s2 s3]
  have f3: "disk_frame ?s2 s3" using c3 by (simp add: copied_def)
  have run: "recover_from_log s = Ok s3" using s1(1,6) s2(1) s3 by (simp add: recover_from_log_def install_trans_def)
  have i3: "bio_inv {} {} s3" using c3 by (simp add: copied_def)
  have l3: "lhn s3 = 0" "ldev s3 = ROOTDEV" "length (lhblock s3) = LOGSIZE" using F3 [OF f3] F2 s1(7,8) by simp_all
  then have "log_inv {} s3" using i3 by (simp add: log_inv_def logged_list_def)
  moreover have "disk s3 = (apply_writes ?R (disk s))(?st := ?h0)" "dwrites s3 = dwrites s @ ?R @ [(?st, ?h0)]"
    using c3 s2 F2 s1(9) by (simp_all add: copied_def)
  moreover have "unat (get32 ?h0 0) = 0" using head_block_get(1) [of 0] by simp
  ultimately show ?thesis using run l3(1) clean [OF i3] by blast
qed

section \<open>Crashes\<close>

text \<open>A crash keeps a prefix of the writes of a commit.  Three cases: the header on disk is still
  the old one, it names the transaction, or it has been cleared again.\<close>

lemma apply_writes_cong: "d b = e b \<Longrightarrow> apply_writes ws d b = apply_writes ws e b"
proof (induction ws arbitrary: d e)
  case (Cons w ws)
  obtain c y where w: "w = (c, y)" by force
  show ?case unfolding w apply_writes_simps by (rule Cons.IH) (simp add: Cons.prems)
qed simp

lemma apply_writes_last: "b \<in> fst ` set ws \<Longrightarrow> apply_writes ws d b = apply_writes ws e b"
proof (induction ws arbitrary: d e)
  case (Cons w ws)
  obtain c y where w: "w = (c, y)" by force
  show ?case
  proof (cases "b \<in> fst ` set ws")
    case True
    then show ?thesis unfolding w apply_writes_simps by (rule Cons.IH)
  next
    case False
    then have "b = c" using Cons.prems w by simp
    then show ?thesis unfolding w apply_writes_simps by (intro apply_writes_cong) simp
  qed
qed simp

lemma apply_writes_prefix: "apply_writes ws (apply_writes (take j ws) d) = apply_writes ws d"
proof
  fix b
  have "apply_writes (take j ws) d b = d b" if "b \<notin> fst ` set ws"
    using that set_take_subset [of j ws] by (intro apply_writes_other) auto
  then show "apply_writes ws (apply_writes (take j ws) d) b = apply_writes ws d b"
    by (cases "b \<in> fst ` set ws") (rule apply_writes_last, assumption, rule apply_writes_cong, simp)
qed

lemma recovery_writes_nil: "head_n st d = 0 \<Longrightarrow> recovery_writes st d = [] \<and> good_head st d"
  by (simp add: recovery_writes_def good_head_def)

text \<open>\<open>recovers_to st d F\<close>: recovery of a disk \<open>d\<close> is well defined and gives \<open>F\<close> outside the log.\<close>

definition recovers_to :: "uint \<Rightarrow> (uint \<Rightarrow> block) \<Rightarrow> (uint \<Rightarrow> block) \<Rightarrow> bool" where
  "recovers_to st d F \<longleftrightarrow> good_head st d \<and> (\<forall>b. b \<notin> log_area st \<longrightarrow> apply_writes (recovery_writes st d) d b = F b)"

lemma recovers_before:
  assumes "head_n st d = 0" "fst ` set ws \<subseteq> log_addr st ` {..<LOGSIZE}"
  shows "recovers_to st (apply_writes ws d) d"
proof -
  have "st \<notin> fst ` set ws" using assms(2) log_addr_start [of _ st] by force
  then have "head_n st (apply_writes ws d) = 0" using assms(1) by (simp add: head_n_def apply_writes_other)
  moreover have "apply_writes ws d b = d b" if "b \<notin> log_area st" for b
    using that assms(2) by (intro apply_writes_other) (auto simp: log_area_def)
  ultimately show ?thesis using recovery_writes_nil by (simp add: recovers_to_def)
qed

lemma recovers_after:
  assumes "unat (get32 h 0) = 0" "\<forall>b. b \<notin> log_area st \<longrightarrow> d b = F b"
  shows "recovers_to st (d(st := h)) F"
proof -
  have "head_n st (d(st := h)) = 0" using assms(1) by (simp add: head_n_def)
  then show ?thesis using recovery_writes_nil assms(2) log_areaI(1) [of st] by (auto simp: recovers_to_def)
qed

text \<open>Interrupted recoveries can be repeated: recovering again gives what the first run would have.\<close>

lemma recovers_again:
  assumes r: "recovers_to st d F" and h: "unat (get32 h 0) = 0"
  shows "recovers_to st (apply_writes (take j (recovery_writes st d @ [(st, h)])) d) F"
proof (cases "j \<le> length (recovery_writes st d)")
  case True
  let ?R = "recovery_writes st d" and ?e = "apply_writes (take j (recovery_writes st d)) d"
  have g: "good_head st d" using r by (simp add: recovers_to_def)
  have "fst ` set ?R \<inter> log_area st = {}" using g by (auto simp: recovery_writes_def good_head_def)
  then have keep: "?e b = d b" if "b \<in> log_area st" for b
    using that set_take_subset [of j ?R] by (intro apply_writes_other) auto
  have n: "head_n st ?e = head_n st d" using keep [OF log_areaI(1)] by (simp add: head_n_def)
  have "\<forall>t < head_n st d. ?e (log_addr st t) = d (log_addr st t)"
    using g keep log_areaI(2) by (simp add: good_head_def)
  then have "recovery_writes st ?e = ?R" using n keep [OF log_areaI(1)] by (simp add: recovery_writes_def)
  moreover have "good_head st ?e" using g n keep [OF log_areaI(1)] by (simp add: good_head_def)
  ultimately show ?thesis using r True by (simp add: recovers_to_def apply_writes_prefix)
next
  case False
  then have "take j (recovery_writes st d @ [(st, h)]) = recovery_writes st d @ [(st, h)]" by simp
  then show ?thesis using recovers_after [OF h, of st "apply_writes (recovery_writes st d) d" F] r by (simp add: recovers_to_def)
qed

lemma crash_prefix:
  assumes pre: "commit_pre s" and pos: "0 < lhn s" and clean: "head_n (lstart s) (disk s) = 0"
  shows "recovers_to (lstart s) (apply_writes (take k (commit_writes s)) (disk s)) (if k \<le> nat (lhn s) then disk s else blk s)"
proof -
  let ?st = "lstart s" and ?n = "nat (lhn s)" and ?L = "log_copies s" and ?H = "home_copies s"
  let ?h = "head_block (lhblock s) (nat (lhn s)) (blk s (lstart s))"
  have inv: "log_inv {} s" using pre by (simp add: commit_pre_def)
  note D = log_invD [OF inv]
  have ll: "logged_list s = map ((!) (lhblock s)) [0..<?n]" by (rule logged_nth [OF D(4,2,3)])
  have n: "?n \<le> LOGSIZE" "?n < 2 ^ 32" using D(3) by (auto simp: param_defs)
  have lens: "length ?L = ?n" "length ?H = ?n" using D(7) by (simp_all add: log_copies_def home_copies_def)
  have Ls: "fst ` set ?L \<subseteq> log_addr ?st ` {..<LOGSIZE}" using n by (auto simp: log_copies_def)
  have Hs: "fst ` set ?H = set (logged_list s)" by (force simp: home_copies_def)
  have Ha: "set (logged_list s) \<inter> log_area ?st = {}" using pre by (simp add: commit_pre_def)
  let ?d1 = "(apply_writes ?L (disk s))(?st := ?h)"
  have d1: "?d1 b = disk s b" if "b \<notin> log_area ?st" for b
    using that Ls log_areaI(1) [of ?st] apply_writes_other [of b ?L "disk s"] by (auto simp: log_area_def)
  have home: "apply_writes ?H ?d1 b = blk s b" if "b \<notin> log_area ?st" for b
  proof (cases "b \<in> set (logged_list s)")
    case True
    then show ?thesis using D(5) by (intro apply_writes_in) (auto simp: home_copies_def o_def)
  next
    case False
    then have "blk s b = disk s b" using blk_clean [OF D(1) False] by simp
    then show ?thesis using False Hs d1 [OF that] apply_writes_other [of b ?H ?d1] by simp
  qed
  have mid: "recovers_to ?st ?d1 (blk s)" and R: "recovery_writes ?st ?d1 = ?H"
  proof -
    have hn: "head_n ?st ?d1 = ?n" using head_block_get(1) [OF n(2)] by (simp add: head_n_def)
    have hb: "get32 (?d1 ?st) (4 + 4 * t) = lhblock s ! t" if "t < ?n" for t using head_block_get(2) [OF that] by simp
    have "?d1 (log_addr ?st t) = blk s (lhblock s ! t)" if t: "t < ?n" for t
    proof -
      have "distinct (map fst ?L)" using n(1) log_addr_inj [of _ _ ?st] by (auto simp: log_copies_def distinct_map inj_on_def)
      moreover have "(log_addr ?st t, blk s (lhblock s ! t)) \<in> set ?L" using t by (auto simp: log_copies_def)
      moreover have "log_addr ?st t \<noteq> ?st" using t n(1) by (intro log_addr_start) simp
      ultimately show ?thesis by (simp add: apply_writes_in)
    qed
    then show R: "recovery_writes ?st ?d1 = ?H" using hn hb ll by (simp add: recovery_writes_def home_copies_def)
    have "lhblock s ! t \<in> set (logged_list s)" if "t < ?n" for t using that ll by simp
    then have "lhblock s ! t \<notin> log_area ?st" if "t < ?n" for t using that Ha by blast
    then have "good_head ?st ?d1" using hn hb n by (simp add: good_head_def)
    then show "recovers_to ?st ?d1 (blk s)" using home R by (simp add: recovers_to_def)
  qed
  have h0: "unat (get32 (head_block (lhblock s) 0 ?h) 0) = 0" using head_block_get(1) [of 0] by simp
  have cw: "commit_writes s = ?L @ [(?st, ?h)] @ ?H @ [(?st, head_block (lhblock s) 0 ?h)]" by (simp add: commit_writes_def Let_def)
  show ?thesis
  proof (cases "k \<le> ?n")
    case True
    then have "take k (commit_writes s) = take k ?L" using lens by (simp add: cw)
    moreover have "fst ` set (take k ?L) \<subseteq> log_addr ?st ` {..<LOGSIZE}" using Ls set_take_subset [of k ?L] by blast
    ultimately show ?thesis using recovers_before [OF clean] True by simp
  next
    case False
    then have "take k (commit_writes s) = ?L @ (?st, ?h) # take (k - ?n - 1) (?H @ [(?st, head_block (lhblock s) 0 ?h)])"
      using lens by (simp add: cw take_Cons')
    then show ?thesis using recovers_again [OF mid h0, of "k - ?n - 1"] False R by simp
  qed
qed

lemma binit_loop_log: "lhblock (binit_loop bs s) = lhblock s"
  by (induction bs arbitrary: s) (simp_all add: upd_buf_def split: prod.splits)

lemma binit_log: "lhblock (binit s) = lhblock s"
  by (simp add: binit_def binit_loop_log)

lemma end_op_commits:
  assumes pre: "commit_pre s" "0 < lhn s" "outstanding s = 1" "\<not> committing s" "head_n (lstart s) (disk s) = 0"
  shows "\<exists>s'. end_op s = Ok s' \<and> dwrites s' = dwrites s @ commit_writes s \<and> log_inv {} s' \<and> outstanding s' = 0 \<and>
      head_n (lstart s) (disk s') = 0 \<and> (\<forall>b. b \<notin> log_area (lstart s) \<longrightarrow> disk s' b = blk s b \<and> blk s' b = blk s b)"
proof -
  let ?s = "s\<lparr>outstanding := 0, committing := True\<rparr>"
  have e: "blk ?s = blk s" "commit_pre ?s" using pre(1) bio_inv_cong [of ?s s] blk_cong [of ?s s]
    by (simp_all add: commit_pre_def log_inv_def logged_list_def)
  have w: "commit_writes ?s = commit_writes s"
    using e(1) by (simp add: commit_writes_def log_copies_def home_copies_def logged_list_def)
  obtain s' where s': "commit ?s = Ok s'" "log_inv {} s'" "lhn s' = 0" "dwrites s' = dwrites s @ commit_writes s"
    "disk s' = apply_writes (commit_writes s) (disk s)" "outstanding s' = 0"
    using commit_ok [OF e(2)] pre(2) unfolding w by auto
  let ?t = "s'\<lparr>committing := False\<rparr>"
  have run: "end_op s = Ok ?t" using s'(1) pre(3,4) by (simp add: end_op_def Let_def)
  have t: "log_inv {} ?t" "blk ?t = blk s'" using s'(2) bio_inv_cong [of ?t s'] blk_cong [of ?t s'] by (simp_all add: log_inv_def logged_list_def)
  have "bio_inv {} {} s'" using log_invD(1) [OF s'(2)] s'(3) by (simp add: logged_list_def)
  then have c: "blk s' b = disk s' b" for b using blk_clean by blast
  have rec: "recovers_to (lstart s) (disk s') (blk s)"
    using crash_prefix [OF pre(1,2,5), of "length (commit_writes s)"] log_invD(7) [of "{}" s] pre(1) s'(5)
    by (simp add: commit_writes_def Let_def log_copies_def)
  have hn: "head_n (lstart s) (disk s') = 0"
    using head_block_get(1) [of 0] by (simp add: s'(5) commit_writes_def Let_def head_n_def)
  then have "\<forall>b. b \<notin> log_area (lstart s) \<longrightarrow> disk s' b = blk s b"
    using rec recovery_writes_nil by (simp add: recovers_to_def)
  then show ?thesis using run t c s' hn by (intro exI [of _ ?t]) simp
qed

section \<open>Blocks inside a transaction\<close>

text \<open>The pattern of the file system: \<^verbatim>\<open>bread\<close>, change the data, \<^verbatim>\<open>log_write\<close>, \<^verbatim>\<open>brelse\<close>.
  Nothing reaches the disk, and only the cache and the list of logged blocks change.\<close>

definition log_frame :: "'z log_scheme \<Rightarrow> 'z log_scheme \<Rightarrow> bool" where
  "log_frame s s' \<longleftrightarrow> (\<exists>bs nx pv n hb. s' = s\<lparr>bufs := bs, nxt := nx, prv := pv, lhn := n, lhblock := hb\<rparr>)"

abbreviation log_msgs :: "string set" where
  "log_msgs \<equiv> {''bget: no buffers'', ''too big a transaction'', ''log_write outside of trans''}"

lemma log_frameI: "s' = s\<lparr>bufs := bs, nxt := nx, prv := pv, lhn := n, lhblock := hb\<rparr> \<Longrightarrow> log_frame s s'"
  unfolding log_frame_def by blast

lemma log_frameE:
  assumes "log_frame s s'"
  obtains bs nx pv n hb where "s' = s\<lparr>bufs := bs, nxt := nx, prv := pv, lhn := n, lhblock := hb\<rparr>"
  using assms unfolding log_frame_def by blast

lemma log_frame_refl [simp]: "log_frame s s"
  by (rule log_frameI [where bs = "bufs s" and nx = "nxt s" and pv = "prv s" and n = "lhn s" and hb = "lhblock s"]) simp

lemma log_frame_trans: "log_frame s t \<Longrightarrow> log_frame t u \<Longrightarrow> log_frame s u"
  by (elim log_frameE) (rule log_frameI, simp)

lemma log_frameD:
  assumes "log_frame s s'"
  shows "lstart s' = lstart s" "lsize s' = lsize s" "outstanding s' = outstanding s" "committing s' = committing s"
    "ldev s' = ldev s" "cur_pid s' = cur_pid s" "disk s' = disk s" "dwrites s' = dwrites s" "mem s' = mem s" "log.more s' = log.more s"
  using assms by (auto elim!: log_frameE)

lemma cache_log_frame: "s' = s\<lparr>bufs := bs, nxt := nx, prv := pv\<rparr> \<Longrightarrow> log_frame s s' \<and> lhn s' = lhn s \<and> lhblock s' = lhblock s"
  by (auto intro!: log_frameI [where n = "lhn s" and hb = "lhblock s"])

lemma log_bread:
  fixes s :: "'z log_scheme"
  assumes inv: "log_inv H s" and free: "\<forall>i \<in> H. blockno (bufs s ! i) \<noteq> b"
  shows "endsR {''bget: no buffers''} (\<lambda>(i, s'). i \<notin> H \<and> log_inv (insert i H) s' \<and> blockno (bufs s' ! i) = b \<and>
     data (bufs s' ! i) = blk s b \<and> blk s' = blk s \<and> logged_list s' = logged_list s \<and> log_frame s s' \<and>
     (b \<in> set (logged_list s) \<or> blk s b = disk s b) \<and> (\<forall>j. j \<noteq> i \<longrightarrow> bufs s' ! j = bufs s ! j)) (bread ROOTDEV b s)"
proof -
  note D = log_invD [OF inv]
  have c: "b \<in> set (logged_list s) \<or> blk s b = disk s b" using blk_clean [OF D(1)] free by blast
  show ?thesis
  proof (rule endsR_mono [OF bread_ok [OF D(1)]], goal_cases)
    case (3 x)
    obtain i s' where x: "x = (i, s')" by force
    have g: "got_block (set (logged_list s)) H s b i s'" using 3(2) x by simp
    note G = got_blockD [OF g]
    have f: "log_frame s s'" "lhn s' = lhn s" "lhblock s' = lhblock s" using cache_log_frame [OF G(8)] by simp_all
    then have l: "logged_list s' = logged_list s" by (simp add: logged_list_def)
    then have "log_inv (insert i H) s'" using G(3) D f log_frameD(5) [OF f(1)] by (simp add: log_inv_def)
    then show ?case using x f(1) l c G by simp
  qed (use free in auto)
qed

lemma log_modify:
  fixes s :: "'z log_scheme"
  assumes inv: "log_inv H s" and i: "i \<in> H"
  shows "endsR log_msgs (\<lambda>s'. log_inv H s' \<and> blk s' = (blk s)(blockno (bufs s ! i) := f (data (bufs s ! i))) \<and>
     blockno (bufs s' ! i) = blockno (bufs s ! i) \<and> set (logged_list s') = insert (blockno (bufs s ! i)) (set (logged_list s)) \<and>
     log_frame s s' \<and> (\<forall>j. j \<noteq> i \<longrightarrow> bufs s' ! j = bufs s ! j)) (log_write i (upd_buf i (\<lambda>x. x\<lparr>data := f (data x)\<rparr>) s))"
proof -
  note D = log_invD [OF inv]
  let ?d = "f (data (bufs s ! i))" and ?s = "upd_buf i (\<lambda>x. x\<lparr>data := f (data x)\<rparr>) s"
  have same: "?s = upd_buf i (\<lambda>x. x\<lparr>data := ?d\<rparr>) s" by (simp add: upd_buf_def)
  have iN: "i < length (bufs s)" using bio_invD(1,2) [OF D(1)] i by auto
  note S = set_data_ok [OF D(1) i, of ?d, folded same]
  have li: "log_inv H ?s" using S(1) D by (simp add: log_inv_def logged_list_def upd_buf_def)
  have b: "blockno (bufs ?s ! i) = blockno (bufs s ! i)" "\<forall>j. j \<noteq> i \<longrightarrow> bufs ?s ! j = bufs s ! j" "length (bufs ?s) = length (bufs s)"
    using iN by (simp_all add: upd_buf_def)
  show ?thesis
  proof (rule endsR_mono [OF log_write_ok [OF li i]], goal_cases)
    case (2 s')
    have "s' = s\<lparr>bufs := bufs s', nxt := nxt s, prv := prv s, lhn := lhn s', lhblock := lhblock s'\<rparr>"
    proof -
      have "s' = ?s\<lparr>bufs := bufs s', lhn := lhn s', lhblock := lhblock s'\<rparr>" using 2 by blast
      then have "s' = s\<lparr>bufs := bufs s', lhn := lhn s', lhblock := lhblock s'\<rparr>" by (simp add: upd_buf_def)
      then show ?thesis by simp
    qed
    then have f: "log_frame s s'" by (rule log_frameI)
    have m: "map key (bufs s') = map key (bufs ?s)" using 2 by blast
    have "length (map key (bufs s')) = length (map key (bufs ?s))" by (simp only: m)
    then have len: "i < length (bufs s')" "i < length (bufs ?s)" using iN b(3) by simp_all
    have "map key (bufs s') ! i = map key (bufs ?s) ! i" by (simp only: m)
    then have "key (bufs s' ! i) = key (bufs ?s ! i)" using len by simp
    then have "blockno (bufs s' ! i) = blockno (bufs s ! i)" using b(1) by (simp add: key_def)
    moreover have "set (logged_list s') = insert (blockno (bufs s ! i)) (set (logged_list s))"
      using 2 b(1) by (simp add: logged_list_def upd_buf_def)
    moreover have "blk s' = (blk s)(blockno (bufs s ! i) := ?d)" using 2 S(2) by simp
    moreover have "\<forall>j. j \<noteq> i \<longrightarrow> bufs s' ! j = bufs s ! j" using 2 b(2) by simp
    ultimately show ?case using 2 f by blast
  qed auto
qed

lemma log_brelse:
  fixes s :: "'z log_scheme"
  assumes inv: "log_inv H s" and i: "i \<in> H" and b: "blockno (bufs s ! i) \<in> set (logged_list s) \<or> data (bufs s ! i) = disk s (blockno (bufs s ! i))"
  shows "\<exists>s'. brelse i s = Ok s' \<and> log_inv (H - {i}) s' \<and> blk s' = blk s \<and> logged_list s' = logged_list s \<and> log_frame s s' \<and>
    (\<forall>j. j \<noteq> i \<longrightarrow> bufs s' ! j = bufs s ! j)"
proof -
  note D = log_invD [OF inv]
  obtain s' where r: "brelse i s = Ok s'" "released (set (logged_list s)) H s i s'" using brelse_ok [OF D(1) i b] by blast
  note R = releasedD [OF r(2)]
  have f: "log_frame s s'" "lhn s' = lhn s" "lhblock s' = lhblock s" using cache_log_frame [OF R(4)] by simp_all
  then have l: "logged_list s' = logged_list s" by (simp add: logged_list_def)
  then have "log_inv (H - {i}) s'" using R(1) D f log_frameD(5) [OF f(1)] by (simp add: log_inv_def)
  then show ?thesis using r(1) R(2,3) f l by (intro exI [of _ s']) simp
qed

lemma read_block:
  fixes s :: "'z log_scheme"
  assumes inv: "log_inv H s" and free: "\<forall>i \<in> H. blockno (bufs s ! i) \<noteq> b"
  shows "endsR {''bget: no buffers''} (\<lambda>(x, s'). x = blk s b \<and> log_inv H s' \<and> blk s' = blk s \<and> logged_list s' = logged_list s \<and> log_frame s s' \<and>
      (\<forall>j \<in> H. bufs s' ! j = bufs s ! j))
    (bindR (bread ROOTDEV b s) (\<lambda>(i, s). let x = data (bufs s ! i) in bindR (brelse i s) (\<lambda>s. Ok (x, s))))"
proof (rule endsR_bindI [OF log_bread [OF inv free]], goal_cases)
  case (1 y)
  obtain i t where y: "y = (i, t)" by force
  have t: "i \<notin> H" "log_inv (insert i H) t" "blockno (bufs t ! i) = b" "data (bufs t ! i) = blk s b" "blk t = blk s" "log_frame s t"
     "logged_list t = logged_list s" "b \<in> set (logged_list s) \<or> blk s b = disk s b" "\<forall>j. j \<noteq> i \<longrightarrow> bufs t ! j = bufs s ! j" using 1(2) y by simp_all
  have "blockno (bufs t ! i) \<in> set (logged_list t) \<or> data (bufs t ! i) = disk t (blockno (bufs t ! i))"
    using t(3,4,7,8) log_frameD(7) [OF t(6)] by simp
  then obtain u where u: "brelse i t = Ok u" "log_inv (insert i H - {i}) u" "blk u = blk t" "logged_list u = logged_list t" "log_frame t u"
     "\<forall>j. j \<noteq> i \<longrightarrow> bufs u ! j = bufs t ! j"
    using log_brelse [OF t(2), of i] by auto
  have "insert i H - {i} = H" using t(1) by auto
  then show ?case using u t log_frame_trans [OF t(6) u(5)] y by auto
qed

lemma update_block:
  fixes s :: "'z log_scheme"
  assumes inv: "log_inv H s" and free: "\<forall>i \<in> H. blockno (bufs s ! i) \<noteq> b"
  shows "endsR log_msgs (\<lambda>s'. log_inv H s' \<and> blk s' = (blk s)(b := f (blk s b)) \<and> log_frame s s' \<and>
      set (logged_list s') = insert b (set (logged_list s)) \<and> (\<forall>j \<in> H. bufs s' ! j = bufs s ! j))
    (bindR (bread ROOTDEV b s) (\<lambda>(i, s). bindR (log_write i (upd_buf i (\<lambda>x. x\<lparr>data := f (data x)\<rparr>) s)) (brelse i)))"
proof (rule endsR_bind [OF log_bread [OF inv free]], goal_cases)
  case 1
  then show ?case by simp
next
  case (2 y)
  obtain i t where y: "y = (i, t)" by force
  have t: "i \<notin> H" "log_inv (insert i H) t" "blockno (bufs t ! i) = b" "data (bufs t ! i) = blk s b" "blk t = blk s" "log_frame s t"
     "logged_list t = logged_list s" "\<forall>j. j \<noteq> i \<longrightarrow> bufs t ! j = bufs s ! j" using 2(2) y by simp_all
  have "i \<in> insert i H" by simp
  note M = log_modify [OF t(2) this, of f]
  show ?case unfolding y split
  proof (rule endsR_bindI [OF M], goal_cases)
    case (1 u)
    then have u: "log_inv (insert i H) u" "blk u = (blk s)(b := f (blk s b))" "blockno (bufs u ! i) = b" "log_frame t u"
      "set (logged_list u) = insert b (set (logged_list s))" "\<forall>j. j \<noteq> i \<longrightarrow> bufs u ! j = bufs t ! j" using t by simp_all
    obtain v where v: "brelse i u = Ok v" "log_inv (insert i H - {i}) v" "blk v = blk u" "logged_list v = logged_list u" "log_frame u v"
       "\<forall>j. j \<noteq> i \<longrightarrow> bufs v ! j = bufs u ! j"
      using log_brelse [OF u(1), of i] u(3,5) by auto
    have "insert i H - {i} = H" "log_frame s v" using t(1,6) u(4) v(5) log_frame_trans by blast+
    then show ?case using v u t by auto
  qed
qed

text \<open>A machine that has just been powered on: the cache and the log header in zeroed kernel
  memory, the disk as it was left.\<close>

definition powered_on :: "(uint \<Rightarrow> block) \<Rightarrow> 'z log_scheme \<Rightarrow> bool" where
  "powered_on d r \<longleftrightarrow> disk r = d \<and> length (lhblock r) = LOGSIZE \<and> length (bufs r) = NBUF \<and>
     (\<forall>i < NBUF. dev (bufs r ! i) = 0 \<and> refcnt (bufs r ! i) = 0)"

definition boot_log :: "uint \<Rightarrow> uint \<Rightarrow> 'z log_scheme \<Rightarrow> 'z log_scheme result" where
  "boot_log logstart nlog r = initlog ROOTDEV logstart nlog (binit r)"

text \<open>Disks reachable from \<open>d\<close> by booting and losing power again before recovery has ended.\<close>

inductive crash_loop :: "uint \<Rightarrow> uint \<Rightarrow> (uint \<Rightarrow> block) \<Rightarrow> (uint \<Rightarrow> block) \<Rightarrow> bool" for start nlog d where
  none: "crash_loop start nlog d d"
| again: "\<lbrakk>crash_loop start nlog d e; powered_on e (r :: log); boot_log start nlog r = Ok r';
    dwrites r' = dwrites (binit r) @ ws\<rbrakk> \<Longrightarrow> crash_loop start nlog d (apply_writes (take j ws) e)"

lemma boot_log_ok:
  fixes r :: "'z log_scheme"
  assumes on: "powered_on d r" and h: "good_head start d"
  shows "\<exists>r' h0. boot_log start nlog r = Ok r' \<and> log_inv {} r' \<and> lhn r' = 0 \<and> blk r' = disk r' \<and>
    dwrites r' = dwrites (binit r) @ recovery_writes start d @ [(start, h0)] \<and> unat (get32 h0 0) = 0 \<and>
    disk r' = (apply_writes (recovery_writes start d) d)(start := h0)"
proof -
  have b: "bio_inv {} {} (binit r)" "disk (binit r) = d" "lhblock (binit r) = lhblock r"
    using on binit_inv [of r] by (auto simp: powered_on_def binit_log)
  let ?r = "(binit r)\<lparr>lstart := start, lsize := sint nlog, ldev := ROOTDEV\<rparr>"
  have i: "bio_inv {} {} ?r" using b(1) bio_inv_cong [of ?r "binit r"] by simp
  have run: "boot_log start nlog r = recover_from_log ?r" by (simp add: boot_log_def initlog_def param_defs BSIZE_def)
  have "length (lhblock ?r) = LOGSIZE" using on b(3) by (simp add: powered_on_def)
  then show ?thesis unfolding run using recover_ok [OF i] b(2) h by simp
qed

lemma crash_loop_recovers:
  assumes "crash_loop start nlog d e" "recovers_to start d F"
  shows "recovers_to start e F"
  using assms
proof (induction rule: crash_loop.induct)
  case (again e r r' ws j)
  then have e: "recovers_to start e F" by simp
  then have "good_head start e" by (simp add: recovers_to_def)
  then obtain h0 where "dwrites r' = dwrites (binit r) @ recovery_writes start e @ [(start, h0)]" "unat (get32 h0 0) = 0"
    using boot_log_ok [OF again.hyps(2), of start nlog] again.hyps(3) by auto
  then show ?case using recovers_again [OF e] again.hyps(4) by simp
qed

text \<open>C1. The log makes a transaction atomic across crashes.  Take any state in which the last
  operation of a transaction ends: \<^verbatim>\<open>end_op\<close> commits without a panic and leaves the file system
  equal to the contents the operations wrote.  If power is lost after any number \<open>k\<close> of the disk
  writes of the commit, and lost again any number of times at any point of the recoveries that
  follow, the boot that finally completes does not panic and leaves on disk, outside the log, either
  all of the old contents (when \<open>k\<close> does not reach the header write) or all of the new ones.\<close>

theorem crash_atomic:
  fixes s :: "'z log_scheme"
  assumes pre: "commit_pre s" "0 < lhn s" "outstanding s = 1" "\<not> committing s" "head_n (lstart s) (disk s) = 0"
    and crash: "crash_loop (lstart s) nlog (apply_writes (take k (commit_writes s)) (disk s)) d"
    and on: "powered_on d (r :: 'y log_scheme)"
  shows "(\<exists>s'. end_op s = Ok s' \<and> dwrites s' = dwrites s @ commit_writes s \<and> log_inv {} s' \<and> outstanding s' = 0 \<and>
      head_n (lstart s) (disk s') = 0 \<and> (\<forall>b. b \<notin> log_area (lstart s) \<longrightarrow> disk s' b = blk s b \<and> blk s' b = blk s b)) \<and>
    (\<exists>r'. boot_log (lstart s) nlog r = Ok r' \<and> log_inv {} r' \<and> head_n (lstart s) (disk r') = 0 \<and>
      (\<forall>b. b \<notin> log_area (lstart s) \<longrightarrow> blk r' b = (if k \<le> nat (lhn s) then disk s b else blk s b)))"
proof
  let ?F = "if k \<le> nat (lhn s) then disk s else blk s"
  have d: "recovers_to (lstart s) d ?F"
    by (rule crash_loop_recovers [OF crash crash_prefix [OF pre(1,2,5)]])
  then obtain r' h0 where r': "boot_log (lstart s) nlog r = Ok r'" "log_inv {} r'" "blk r' = disk r'" "unat (get32 h0 0) = 0"
      "disk r' = (apply_writes (recovery_writes (lstart s) d) d)(lstart s := h0)"
    using boot_log_ok [OF on] by (meson recovers_to_def)
  moreover have "\<forall>b. b \<notin> log_area (lstart s) \<longrightarrow> blk r' b = ?F b"
    using d r'(3,5) log_areaI(1) [of "lstart s"] by (auto simp: recovers_to_def)
  ultimately show "\<exists>r'. boot_log (lstart s) nlog r = Ok r' \<and> log_inv {} r' \<and> head_n (lstart s) (disk r') = 0 \<and>
      (\<forall>b. b \<notin> log_area (lstart s) \<longrightarrow> blk r' b = (if k \<le> nat (lhn s) then disk s b else blk s b))"
    by (intro exI [of _ r']) (simp add: head_n_def)
next
  show "\<exists>s'. end_op s = Ok s' \<and> dwrites s' = dwrites s @ commit_writes s \<and> log_inv {} s' \<and> outstanding s' = 0 \<and>
      head_n (lstart s) (disk s') = 0 \<and> (\<forall>b. b \<notin> log_area (lstart s) \<longrightarrow> disk s' b = blk s b \<and> blk s' b = blk s b)"
    by (rule end_op_commits [OF pre])
qed

text \<open>A machine with a zeroed disk, and a transaction on it that fills block 50 with nines.\<close>

definition power_example :: log where
  "power_example = \<lparr>mem = (\<lambda>x. 0), freelist = 0, cur_pid = 1,
     bufs = replicate NBUF \<lparr>valid = False, dev = 0, blockno = 0, block_lock = initsleeplock, refcnt = 0, data = (\<lambda>x. 0)\<rparr>,
     nxt = (\<lambda>x. 0), prv = (\<lambda>x. 0), disk = (\<lambda>b x. 0), dwrites = [], lstart = 2, lsize = 30, outstanding = 0,
     committing = False, ldev = ROOTDEV, lhn = 0, lhblock = replicate LOGSIZE 0\<rparr>"

definition write_example :: "log result" where
  "write_example = bindR (begin_op (binit power_example)) (\<lambda>s. bindR (bread ROOTDEV 50 s) (\<lambda>(i, s).
     bindR (log_write i (upd_buf i (\<lambda>x. x\<lparr>data := (\<lambda>d. (\<lambda>x. 9)) (data x)\<rparr>) s)) (brelse i)))"

lemma binit_loop_log_fields:
  "lstart (binit_loop bs s) = lstart s" "lsize (binit_loop bs s) = lsize s" "outstanding (binit_loop bs s) = outstanding s"
  "committing (binit_loop bs s) = committing s" "ldev (binit_loop bs s) = ldev s" "lhn (binit_loop bs s) = lhn s"
  "dwrites (binit_loop bs s) = dwrites s"
  by (induction bs arbitrary: s) (simp_all add: upd_buf_def split: prod.splits)

lemma log_write_runs: "lhn s < int LOGSIZE \<Longrightarrow> lhn s < lsize s - 1 \<Longrightarrow> 1 \<le> outstanding s \<Longrightarrow> log_write i s \<noteq> Panic msg"
  by (simp add: log_write_def Let_def)

lemma block_50: "(50 :: uint) \<notin> log_area 2"
proof
  assume "(50 :: uint) \<in> log_area 2"
  then obtain t where t: "t < LOGSIZE" "(50 :: uint) = 2 + of_nat t + 1" by (auto simp: log_area_def log_addr_def)
  then have "of_nat t = (50 :: uint) - 2 - 1" by (simp only:) simp
  then have "(47 :: uint) = of_nat t" by simp
  moreover have "unat (of_nat t :: uint) = t" using t(1) by (intro unat_of_nat_small) (simp add: param_defs)
  ultimately have "unat (47 :: uint) = t" by (simp only:)
  then show False using t(1) by (simp add: param_defs)
qed

lemma write_example_ok:
  "\<exists>s. write_example = Ok s \<and> commit_pre s \<and> lhn s = 1 \<and> outstanding s = 1 \<and> \<not> committing s \<and> lstart s = 2 \<and>
     disk s = (\<lambda>b x. 0) \<and> blk s 50 = (\<lambda>x. 9)"
proof -
  let ?s = "(binit power_example)\<lparr>outstanding := 1\<rparr>" and ?f = "\<lambda>d :: block. (\<lambda>x. 9) :: block"
  have b: "bio_inv {} {} (binit power_example)" "blk (binit power_example) = (\<lambda>b x. 0)" "disk (binit power_example) = (\<lambda>b x. 0)"
    using binit_inv [of power_example] by (simp_all add: power_example_def)
  have f: "lhn (binit power_example) = 0" "lhblock (binit power_example) = replicate LOGSIZE 0" "lsize (binit power_example) = 30"
    "outstanding (binit power_example) = 0" "\<not> committing (binit power_example)" "lstart (binit power_example) = 2" "ldev (binit power_example) = ROOTDEV"
    by (simp_all add: binit_def binit_loop_log_fields binit_loop_log power_example_def)
  have i: "bio_inv {} {} ?s" "blk ?s = (\<lambda>b x. 0)" using b bio_inv_cong [of ?s "binit power_example"] blk_cong [of ?s "binit power_example"] by simp_all
  have li: "log_inv {} ?s" using i f by (simp add: log_inv_def logged_list_def)
  have "begin_op (binit power_example) = Ok ?s" using f by (simp add: begin_op_def param_defs)
  then have run: "write_example = bindR (bread ROOTDEV 50 ?s) (\<lambda>(i, s). bindR (log_write i (upd_buf i (\<lambda>x. x\<lparr>data := ?f (data x)\<rparr>) s)) (brelse i))"
    by (simp add: write_example_def)
  have "card ({} :: nat set) + card ({} :: uint set) < NBUF" by (simp add: param_defs)
  then obtain j t where t: "bread ROOTDEV 50 ?s = Ok (j, t)" "got_block {} {} ?s 50 j t"
    using endsR_emptyD [OF bread_room [OF i(1)]] by force
  have fr: "log_frame ?s t" "lhn t = 0" using cache_log_frame [OF got_blockD(8) [OF t(2)]] f by simp_all
  have nopanic: "write_example \<noteq> Panic m" for m
  proof -
    let ?t = "upd_buf j (\<lambda>x. x\<lparr>data := ?f (data x)\<rparr>) t"
    have "log_write j ?t \<noteq> Panic m" for m
      using fr log_frameD(2,3) [OF fr(1)] f by (intro log_write_runs) (simp_all add: upd_buf_def param_defs)
    moreover have "brelse j u \<noteq> Panic m" if "log_write j ?t = Ok u" for u m
    proof -
      have l: "log_inv {j} t" using got_blockD(3) [OF t(2)] li fr log_frameD(5) [OF fr(1)] cache_log_frame [OF got_blockD(8) [OF t(2)]]
        by (simp add: log_inv_def logged_list_def)
      have "log_inv {j} u \<and> blockno (bufs u ! j) \<in> set (logged_list u)" using log_modify [OF l, of j ?f] that by simp
      then show ?thesis using log_brelse [of "{j}" u j] by auto
    qed
    ultimately show ?thesis unfolding run t(1) by (cases "log_write j ?t") auto
  qed
  have E: "endsR log_msgs (\<lambda>s'. log_inv {} s' \<and> blk s' = (blk ?s)(50 := ?f (blk ?s 50)) \<and> log_frame ?s s' \<and>
      set (logged_list s') = insert 50 (set (logged_list ?s)) \<and> (\<forall>j \<in> {}. bufs s' ! j = bufs ?s ! j)) write_example"
    unfolding run by (rule update_block [OF li]) simp
  from this nopanic obtain s where s0: "write_example = Ok s" by (cases write_example) simp_all
  note E = E [unfolded s0 endsR_simps]
  have s: "log_inv {} s" "blk s 50 = (\<lambda>x. 9)" "log_frame ?s s" "set (logged_list s) = {50}"
    using E f(1) by (simp_all add: logged_list_def)
  note s = s0 s
  note F = log_frameD [OF s(4)]
  have "length (logged_list s) = 1" using log_invD(5) [OF s(2)] s(5) distinct_card [of "logged_list s"] by simp
  then have n: "lhn s = 1" using log_invD(2,7) [OF s(2)] by simp
  have "(50 :: uint) \<notin> log_area 2" by (rule block_50)
  then have "commit_pre s" using s(2,5) n F(1) f(6) by (simp add: commit_pre_def param_defs)
  then show ?thesis using s n F f b(3) by (intro exI [of _ s]) simp
qed

theorem crash_atomic_witness:
  "\<exists>s r r'. write_example = Ok s \<and> disk s 50 = (\<lambda>x. 0) \<and> blk s 50 = (\<lambda>x. 9) \<and> (\<exists>s'. end_op s = Ok s' \<and> disk s' 50 = (\<lambda>x. 9)) \<and>
     boot_log 2 30 (power_example\<lparr>disk := apply_writes (take 1 (commit_writes s)) (disk s)\<rparr>) = Ok r \<and> blk r 50 = (\<lambda>x. 0) \<and>
     boot_log 2 30 (power_example\<lparr>disk := apply_writes (take 2 (commit_writes s)) (disk s)\<rparr>) = Ok r' \<and> blk r' 50 = (\<lambda>x. 9)"
proof -
  obtain s where s: "write_example = Ok s" "commit_pre s" "lhn s = 1" "outstanding s = 1" "\<not> committing s" "lstart s = 2"
     "disk s = (\<lambda>b x. 0)" "blk s 50 = (\<lambda>x. 9)" using write_example_ok by blast
  have b: "(50 :: uint) \<notin> log_area 2" by (rule block_50)
  have on: "powered_on d (power_example\<lparr>disk := d\<rparr>)" for d by (simp add: power_example_def powered_on_def)
  have h: "head_n (lstart s) (disk s) = 0" using s(6,7) by (simp add: head_n_def get_le_def)
  note C = crash_atomic [OF s(2) _ s(4,5) h crash_loop.none on, of 30]
  have "0 < lhn s" using s(3) by simp
  note C = C [OF this]
  obtain r where "boot_log 2 30 (power_example\<lparr>disk := apply_writes (take 1 (commit_writes s)) (disk s)\<rparr>) = Ok r \<and> blk r 50 = (\<lambda>x. 0)"
    using C [of 1] s b by auto
  moreover obtain r' where "boot_log 2 30 (power_example\<lparr>disk := apply_writes (take 2 (commit_writes s)) (disk s)\<rparr>) = Ok r' \<and> blk r' 50 = (\<lambda>x. 9)"
    using C [of 2] s b by auto
  moreover obtain s' where "end_op s = Ok s'" "disk s' 50 = (\<lambda>x. 9)" using C [of 2] s b by auto
  ultimately show ?thesis using s by auto
qed

end
