(* ===== verification/Fs.thy ===== *)
theory Fs
  imports Log
begin

text \<open>
  \<^verbatim>\<open>kernel/fs.c\<close>: blocks, inodes, directories and path names, on the logged buffer cache. The
  in-memory inode table is a list, and an inode pointer an index into it. \<^verbatim>\<open>itable.lock\<close> is held
  for whole functions only and leaves no trace. A kernel object that \<^verbatim>\<open>readi\<close> fills or \<^verbatim>\<open>writei\<close>
  reads (a directory entry, an ELF header) is passed as the list of its bytes; for user addresses
  the block goes through kernel memory at \<open>dataa bp\<close>, the address of the buffer's data, with
  \<^verbatim>\<open>copyout\<close> and \<^verbatim>\<open>copyin\<close> on the page table \<open>pt\<close> of the calling process. A path is the list of
  its bytes before the NUL, and \<^verbatim>\<open>name\<close> an array of at least \<open>DIRSIZ\<close> bytes.
\<close>

section \<open>The state\<close>

definition FSMAGIC :: uint where "FSMAGIC = 0x10203040"
definition NINODE :: nat where "NINODE = 50"
definition ROOTINO :: uint where "ROOTINO = 1"
definition NDIRECT :: nat where "NDIRECT = 12"
definition NINDIRECT :: nat where "NINDIRECT = BSIZE div 4"
definition MAXFILE :: nat where "MAXFILE = NDIRECT + NINDIRECT"
definition IPB :: nat where "IPB = BSIZE div 64"
definition BPB :: nat where "BPB = BSIZE * 8"
definition DIRSIZ :: nat where "DIRSIZ = 14"
definition T_DIR :: ushort where "T_DIR = 1"
definition T_FILE :: ushort where "T_FILE = 2"
definition T_DEVICE :: ushort where "T_DEVICE = 3"

lemmas fs_consts = BSIZE_def NINDIRECT_def NDIRECT_def MAXFILE_def IPB_def BPB_def DIRSIZ_def NINODE_def

record superblock =
  sb_magic :: uint
  sb_size :: uint
  sb_nblocks :: uint
  sb_ninodes :: uint
  sb_nlog :: uint
  sb_logstart :: uint
  sb_inodestart :: uint
  sb_bmapstart :: uint

record inode =
  i_dev :: uint
  i_inum :: uint
  i_ref :: int
  i_lock :: sleeplock
  i_valid :: bool
  i_type :: ushort
  i_major :: ushort
  i_minor :: ushort
  i_nlink :: ushort
  i_size :: uint
  i_addrs :: "uint list"

record fs = log +
  sb :: superblock
  itable :: "inode list"

definition upd_inode :: "nat \<Rightarrow> (inode \<Rightarrow> inode) \<Rightarrow> 'z fs_scheme \<Rightarrow> 'z fs_scheme" where
  "upd_inode ip f s = s\<lparr>itable := (itable s)[ip := f (itable s ! ip)]\<rparr>"

definition IBLOCK :: "uint \<Rightarrow> 'z fs_scheme \<Rightarrow> uint" where
  "IBLOCK i s = i div of_nat IPB + sb_inodestart (sb s)"

definition BBLOCK :: "uint \<Rightarrow> 'z fs_scheme \<Rightarrow> uint" where
  "BBLOCK b s = b div of_nat BPB + sb_bmapstart (sb s)"

section \<open>Blocks\<close>

definition readsb :: "uint \<Rightarrow> 'z fs_scheme \<Rightarrow> 'z fs_scheme result" where
  "readsb d s =
     bindR (bread d 1 s) (\<lambda>(bp, s).
       let x = data (bufs s ! bp) in
       brelse bp (s\<lparr>sb := \<lparr>sb_magic = get32 x 0, sb_size = get32 x 4, sb_nblocks = get32 x 8, sb_ninodes = get32 x 12,
         sb_nlog = get32 x 16, sb_logstart = get32 x 20, sb_inodestart = get32 x 24, sb_bmapstart = get32 x 28\<rparr>\<rparr>))"

definition fsinit :: "uint \<Rightarrow> 'z fs_scheme \<Rightarrow> 'z fs_scheme result" where
  "fsinit d s =
     bindR (readsb d s) (\<lambda>s.
       if sb_magic (sb s) \<noteq> FSMAGIC then Panic ''invalid file system''
       else initlog d (sb_logstart (sb s)) (sb_nlog (sb s)) s)"

definition bzero :: "uint \<Rightarrow> uint \<Rightarrow> 'z fs_scheme \<Rightarrow> 'z fs_scheme result" where
  "bzero d bno s =
     bindR (bread d bno s) (\<lambda>(bp, s).
       bindR (log_write bp (upd_buf bp (\<lambda>b. b\<lparr>data := (\<lambda>x. (\<lambda>i. if i < BSIZE then 0 else x i)) (data b)\<rparr>) s)) (brelse bp))"

definition bit_mask :: "nat \<Rightarrow> uchar" where
  "bit_mask bi = push_bit (bi mod 8) 1"

definition bitmap_free :: "block \<Rightarrow> nat \<Rightarrow> bool" where
  "bitmap_free x bi \<longleftrightarrow> x (bi div 8) AND bit_mask bi = 0"

definition bitmap_set :: "nat \<Rightarrow> block \<Rightarrow> block" where
  "bitmap_set bi x = x(bi div 8 := x (bi div 8) OR bit_mask bi)"

definition bitmap_clear :: "nat \<Rightarrow> block \<Rightarrow> block" where
  "bitmap_clear bi x = x(bi div 8 := x (bi div 8) AND NOT (bit_mask bi))"

text \<open>The two loops of \<^verbatim>\<open>balloc\<close>: over the bitmap blocks, at \<open>b = 0, BPB, \<dots>\<close>, and over the bits of one.\<close>

fun balloc_loop :: "uint \<Rightarrow> nat list \<Rightarrow> 'z fs_scheme \<Rightarrow> (uint \<times> 'z fs_scheme) result" where
  "balloc_loop d [] s = Ok (0, s)"
| "balloc_loop d (b # bs) s =
     bindR (bread d (BBLOCK (of_nat b) s) s) (\<lambda>(bp, s).
       case find (bitmap_free (data (bufs s ! bp))) [0..<min BPB (unat (sb_size (sb s)) - b)] of
         Some bi \<Rightarrow>
           bindR (log_write bp (upd_buf bp (\<lambda>x. x\<lparr>data := bitmap_set bi (data x)\<rparr>) s)) (\<lambda>s.
             bindR (brelse bp s) (\<lambda>s. bindR (bzero d (of_nat (b + bi)) s) (\<lambda>s. Ok (of_nat (b + bi), s))))
       | None \<Rightarrow> bindR (brelse bp s) (balloc_loop d bs))"

definition bitmap_starts :: "nat \<Rightarrow> nat list" where
  "bitmap_starts n = map (\<lambda>k. k * BPB) [0..<(n + BPB - 1) div BPB]"

definition balloc :: "uint \<Rightarrow> 'z fs_scheme \<Rightarrow> (uint \<times> 'z fs_scheme) result" where
  "balloc d s = balloc_loop d (bitmap_starts (unat (sb_size (sb s)))) s"

definition bfree :: "uint \<Rightarrow> uint \<Rightarrow> 'z fs_scheme \<Rightarrow> 'z fs_scheme result" where
  "bfree d b s =
     bindR (bread d (BBLOCK b s) s) (\<lambda>(bp, s).
       let bi = unat b mod BPB in
       if bitmap_free (data (bufs s ! bp)) bi then Panic ''freeing free block''
       else bindR (log_write bp (upd_buf bp (\<lambda>x. x\<lparr>data := bitmap_clear bi (data x)\<rparr>) s)) (brelse bp))"

section \<open>Inodes\<close>

definition iinit :: "'z fs_scheme \<Rightarrow> 'z fs_scheme" where
  "iinit s = s\<lparr>itable := map (\<lambda>ip. ip\<lparr>i_lock := initsleeplock\<rparr>) (itable s)\<rparr>"

text \<open>An on-disk inode at byte offset \<open>o\<close> of its block.\<close>

definition dinode_off :: "uint \<Rightarrow> nat" where
  "dinode_off inum = unat inum mod IPB * 64"

definition dinode_put :: "inode \<Rightarrow> nat \<Rightarrow> block \<Rightarrow> block" where
  "dinode_put ip off x =
     (let x = put16 x off (i_type ip);
          x = put16 x (off + 2) (i_major ip);
          x = put16 x (off + 4) (i_minor ip);
          x = put16 x (off + 6) (i_nlink ip);
          x = put32 x (off + 8) (i_size ip)
      in fold (\<lambda>k x. put32 x (off + 12 + 4 * k) (i_addrs ip ! k)) [0..<NDIRECT + 1] x)"

definition dinode_get :: "block \<Rightarrow> nat \<Rightarrow> inode \<Rightarrow> inode" where
  "dinode_get x off ip =
     ip\<lparr>i_type := get16 x off, i_major := get16 x (off + 2), i_minor := get16 x (off + 4), i_nlink := get16 x (off + 6),
       i_size := get32 x (off + 8), i_addrs := map (\<lambda>k. get32 x (off + 12 + 4 * k)) [0..<NDIRECT + 1]\<rparr>"

definition iget :: "uint \<Rightarrow> uint \<Rightarrow> 'z fs_scheme \<Rightarrow> (nat \<times> 'z fs_scheme) result" where
  "iget d inum s =
     (case first_idx (\<lambda>ip. i_ref ip > 0 \<and> i_dev ip = d \<and> i_inum ip = inum) (itable s) of
        Some ip \<Rightarrow> Ok (ip, upd_inode ip (\<lambda>x. x\<lparr>i_ref := i_ref x + 1\<rparr>) s)
      | None \<Rightarrow>
          case first_idx (\<lambda>ip. i_ref ip = 0) (itable s) of
            None \<Rightarrow> Panic ''iget: no inodes''
          | Some ip \<Rightarrow> Ok (ip, upd_inode ip (\<lambda>x. x\<lparr>i_dev := d, i_inum := inum, i_ref := 1, i_valid := False\<rparr>) s))"

fun ialloc_loop :: "uint \<Rightarrow> ushort \<Rightarrow> nat list \<Rightarrow> 'z fs_scheme \<Rightarrow> (nat option \<times> 'z fs_scheme) result" where
  "ialloc_loop d type [] s = Ok (None, s)"
| "ialloc_loop d type (inum # is) s =
     bindR (bread d (IBLOCK (of_nat inum) s) s) (\<lambda>(bp, s).
       let off = dinode_off (of_nat inum) in
       if get16 (data (bufs s ! bp)) off = 0 then
         bindR (log_write bp (upd_buf bp (\<lambda>b. b\<lparr>data := put16 (\<lambda>i. if off \<le> i \<and> i < off + 64 then 0 else data b i) off type\<rparr>) s)) (\<lambda>s.
           bindR (brelse bp s) (\<lambda>s. bindR (iget d (of_nat inum) s) (\<lambda>(ip, s). Ok (Some ip, s))))
       else bindR (brelse bp s) (ialloc_loop d type is))"

definition ialloc :: "uint \<Rightarrow> ushort \<Rightarrow> 'z fs_scheme \<Rightarrow> (nat option \<times> 'z fs_scheme) result" where
  "ialloc d type s = ialloc_loop d type [1..<unat (sb_ninodes (sb s))] s"

definition iupdate :: "nat \<Rightarrow> 'z fs_scheme \<Rightarrow> 'z fs_scheme result" where
  "iupdate ip s =
     (let x = itable s ! ip in
      bindR (bread (i_dev x) (IBLOCK (i_inum x) s) s) (\<lambda>(bp, s).
        bindR (log_write bp (upd_buf bp (\<lambda>b. b\<lparr>data := dinode_put x (dinode_off (i_inum x)) (data b)\<rparr>) s)) (brelse bp)))"

definition idup :: "nat \<Rightarrow> 'z fs_scheme \<Rightarrow> 'z fs_scheme" where
  "idup ip s = upd_inode ip (\<lambda>x. x\<lparr>i_ref := i_ref x + 1\<rparr>) s"

definition ilock :: "nat \<Rightarrow> 'z fs_scheme \<Rightarrow> 'z fs_scheme result" where
  "ilock ip s =
     (if i_ref (itable s ! ip) < 1 then Panic ''ilock''
      else bindR (acquiresleep (cur_pid s) (i_lock (itable s ! ip))) (\<lambda>lk.
        let s = upd_inode ip (\<lambda>x. x\<lparr>i_lock := lk\<rparr>) s; x = itable s ! ip in
        if i_valid x then Ok s
        else bindR (bread (i_dev x) (IBLOCK (i_inum x) s) s) (\<lambda>(bp, s).
          let s = upd_inode ip (dinode_get (data (bufs s ! bp)) (dinode_off (i_inum x))) s in
          bindR (brelse bp s) (\<lambda>s.
            let s = upd_inode ip (\<lambda>x. x\<lparr>i_valid := True\<rparr>) s in
            if i_type (itable s ! ip) = 0 then Panic ''ilock: no type'' else Ok s))))"

definition iunlock :: "nat \<Rightarrow> 'z fs_scheme \<Rightarrow> 'z fs_scheme result" where
  "iunlock ip s =
     (if \<not> holdingsleep (cur_pid s) (i_lock (itable s ! ip)) \<or> i_ref (itable s ! ip) < 1 then Panic ''iunlock''
      else Ok (upd_inode ip (\<lambda>x. x\<lparr>i_lock := releasesleep (i_lock x)\<rparr>) s))"

fun bfree_list :: "uint \<Rightarrow> uint list \<Rightarrow> 'z fs_scheme \<Rightarrow> 'z fs_scheme result" where
  "bfree_list d [] s = Ok s"
| "bfree_list d (b # bs) s = (if b \<noteq> 0 then bindR (bfree d b s) (bfree_list d bs) else bfree_list d bs s)"

text \<open>The loop of \<^verbatim>\<open>itrunc\<close> over the direct blocks.\<close>

fun itrunc_direct :: "nat \<Rightarrow> nat list \<Rightarrow> 'z fs_scheme \<Rightarrow> 'z fs_scheme result" where
  "itrunc_direct ip [] s = Ok s"
| "itrunc_direct ip (i # is) s =
     (let x = itable s ! ip in
      if i_addrs x ! i \<noteq> 0 then
        bindR (bfree (i_dev x) (i_addrs x ! i) s) (\<lambda>s.
          itrunc_direct ip is (upd_inode ip (\<lambda>x. x\<lparr>i_addrs := (i_addrs x)[i := 0]\<rparr>) s))
      else itrunc_direct ip is s)"

definition itrunc :: "nat \<Rightarrow> 'z fs_scheme \<Rightarrow> 'z fs_scheme result" where
  "itrunc ip s =
     bindR (itrunc_direct ip [0..<NDIRECT] s) (\<lambda>s.
       let x = itable s ! ip; ind = i_addrs x ! NDIRECT in
       bindR
         (if ind \<noteq> 0 then
            bindR (bread (i_dev x) ind s) (\<lambda>(bp, s).
              bindR (bfree_list (i_dev x) (map (\<lambda>j. get32 (data (bufs s ! bp)) (4 * j)) [0..<NINDIRECT]) s) (\<lambda>s.
                bindR (brelse bp s) (\<lambda>s. bindR (bfree (i_dev x) ind s) (\<lambda>s.
                  Ok (upd_inode ip (\<lambda>x. x\<lparr>i_addrs := (i_addrs x)[NDIRECT := 0]\<rparr>) s)))))
          else Ok s)
         (\<lambda>s. iupdate ip (upd_inode ip (\<lambda>x. x\<lparr>i_size := 0\<rparr>) s)))"

definition iput :: "nat \<Rightarrow> 'z fs_scheme \<Rightarrow> 'z fs_scheme result" where
  "iput ip s =
     (let x = itable s ! ip in
      bindR
        (if i_ref x = 1 \<and> i_valid x \<and> i_nlink x = 0 then
           bindR (acquiresleep (cur_pid s) (i_lock x)) (\<lambda>lk.
             bindR (itrunc ip (upd_inode ip (\<lambda>x. x\<lparr>i_lock := lk\<rparr>) s)) (\<lambda>s.
               bindR (iupdate ip (upd_inode ip (\<lambda>x. x\<lparr>i_type := 0\<rparr>) s)) (\<lambda>s.
                 Ok (upd_inode ip (\<lambda>x. x\<lparr>i_valid := False, i_lock := releasesleep (i_lock x)\<rparr>) s))))
         else Ok s)
        (\<lambda>s. Ok (upd_inode ip (\<lambda>x. x\<lparr>i_ref := i_ref x - 1\<rparr>) s)))"

definition iunlockput :: "nat \<Rightarrow> 'z fs_scheme \<Rightarrow> 'z fs_scheme result" where
  "iunlockput ip s = bindR (iunlock ip s) (iput ip)"

section \<open>Inode content\<close>

definition bmap :: "nat \<Rightarrow> nat \<Rightarrow> 'z fs_scheme \<Rightarrow> (uint \<times> 'z fs_scheme) result" where
  "bmap ip bn s =
     (let x = itable s ! ip in
      if bn < NDIRECT then
        (if i_addrs x ! bn = 0 then
           bindR (balloc (i_dev x) s) (\<lambda>(addr, s).
             if addr = 0 then Ok (0, s)
             else Ok (addr, upd_inode ip (\<lambda>x. x\<lparr>i_addrs := (i_addrs x)[bn := addr]\<rparr>) s))
         else Ok (i_addrs x ! bn, s))
      else if bn - NDIRECT < NINDIRECT then
        bindR
          (if i_addrs x ! NDIRECT = 0 then
             bindR (balloc (i_dev x) s) (\<lambda>(addr, s).
               if addr = 0 then Ok (0, s)
               else Ok (addr, upd_inode ip (\<lambda>x. x\<lparr>i_addrs := (i_addrs x)[NDIRECT := addr]\<rparr>) s))
           else Ok (i_addrs x ! NDIRECT, s))
          (\<lambda>(ind, s).
            if ind = 0 then Ok (0, s)
            else bindR (bread (i_dev x) ind s) (\<lambda>(bp, s).
              let k = 4 * (bn - NDIRECT); addr = get32 (data (bufs s ! bp)) k in
              if addr = 0 then
                bindR (balloc (i_dev x) s) (\<lambda>(addr, s).
                  bindR (if addr \<noteq> 0 then log_write bp (upd_buf bp (\<lambda>b. b\<lparr>data := put32 (data b) k addr\<rparr>) s) else Ok s) (\<lambda>s.
                    bindR (brelse bp s) (\<lambda>s. Ok (addr, s))))
              else bindR (brelse bp s) (\<lambda>s. Ok (addr, s))))
      else Panic ''bmap: out of range'')"

record stat =
  st_dev :: uint
  st_ino :: uint
  st_type :: ushort
  st_nlink :: ushort
  st_size :: uint64

definition stati :: "inode \<Rightarrow> stat" where
  "stati ip = \<lparr>st_dev = i_dev ip, st_ino = i_inum ip, st_type = i_type ip, st_nlink = i_nlink ip, st_size = ucast (i_size ip)\<rparr>"

text \<open>
  Where \<^verbatim>\<open>readi\<close> puts data and \<^verbatim>\<open>writei\<close> takes it from. A kernel destination is an address inside
  the object the caller passes, \<open>KernelDst pos\<close> being \<open>pos\<close> bytes from its start; the object is the
  list of its bytes written so far.
\<close>

datatype dest = UserDst uint64 | KernelDst nat
datatype source = UserSrc uint64 | KernelSrc "uchar list"

fun dest_add :: "dest \<Rightarrow> nat \<Rightarrow> dest" where
  "dest_add (UserDst va) m = UserDst (va + of_nat m)"
| "dest_add (KernelDst pos) m = KernelDst (pos + m)"

fun source_add :: "source \<Rightarrow> nat \<Rightarrow> source" where
  "source_add (UserSrc va) m = UserSrc (va + of_nat m)"
| "source_add (KernelSrc bs) m = KernelSrc (drop m bs)"

text \<open>A buffer's data in kernel memory.\<close>

definition put_block :: "uint64 \<Rightarrow> block \<Rightarrow> 'z fs_scheme \<Rightarrow> 'z fs_scheme" where
  "put_block a x s = s\<lparr>mem := (\<lambda>y. if unat (y - a) < BSIZE then x (unat (y - a)) else mem s y)\<rparr>"

definition get_block :: "uint64 \<Rightarrow> 'z fs_scheme \<Rightarrow> block \<Rightarrow> block" where
  "get_block a s x = (\<lambda>i. if i < BSIZE then mem s (a + of_nat i) else x i)"

definition put_at :: "nat \<Rightarrow> uchar list \<Rightarrow> uchar list \<Rightarrow> uchar list" where
  "put_at pos bs out = map (\<lambda>i. if pos \<le> i \<and> i < pos + length bs then bs ! (i - pos) else if i < length out then out ! i else 0)
     [0..<max (length out) (pos + length bs)]"

fun copy_out :: "uint64 \<Rightarrow> (nat \<Rightarrow> uint64) \<Rightarrow> dest \<Rightarrow> nat \<Rightarrow> nat \<Rightarrow> nat \<Rightarrow> uchar list \<Rightarrow> 'z fs_scheme \<Rightarrow> int \<times> uchar list \<times> 'z fs_scheme" where
  "copy_out pt dataa (UserDst va) bp off m out s =
     (case either_copyout pt True va (dataa bp + of_nat off) (of_nat m) (put_block (dataa bp) (data (bufs s ! bp)) s) of
        (r, s) \<Rightarrow> (r, out, s))"
| "copy_out pt dataa (KernelDst pos) bp off m out s = (0, put_at pos (map (\<lambda>i. data (bufs s ! bp) (off + i)) [0..<m]) out, s)"

fun copy_in :: "uint64 \<Rightarrow> (nat \<Rightarrow> uint64) \<Rightarrow> source \<Rightarrow> nat \<Rightarrow> nat \<Rightarrow> nat \<Rightarrow> 'z fs_scheme \<Rightarrow> int \<times> 'z fs_scheme" where
  "copy_in pt dataa (UserSrc va) bp off m s =
     (case either_copyin pt (dataa bp + of_nat off) True va (of_nat m) (put_block (dataa bp) (data (bufs s ! bp)) s) of
        (r, s) \<Rightarrow> (r, upd_buf bp (\<lambda>b. b\<lparr>data := get_block (dataa bp) s (data b)\<rparr>) s))"
| "copy_in pt dataa (KernelSrc bs) bp off m s =
     (0, upd_buf bp (\<lambda>b. b\<lparr>data := (\<lambda>i. if off \<le> i \<and> i < off + m then bs ! (i - off) else data b i)\<rparr>) s)"

function readi_loop :: "uint64 \<Rightarrow> (nat \<Rightarrow> uint64) \<Rightarrow> nat \<Rightarrow> dest \<Rightarrow> nat \<Rightarrow> nat \<Rightarrow> nat \<Rightarrow> uchar list \<Rightarrow> 'z fs_scheme \<Rightarrow>
    (cint \<times> uchar list \<times> 'z fs_scheme) result" where
  "readi_loop pt dataa ip dst off n tot out s =
     (if tot < n then
        bindR (bmap ip (off div BSIZE) s) (\<lambda>(addr, s).
          if addr = 0 then Ok (of_nat tot, out, s)
          else bindR (bread (i_dev (itable s ! ip)) addr s) (\<lambda>(bp, s).
            let m = min (n - tot) (BSIZE - off mod BSIZE);
                (r, out, s) = copy_out pt dataa dst bp (off mod BSIZE) m out s
            in
            if r = -1 then bindR (brelse bp s) (\<lambda>s. Ok (-1, out, s))
            else bindR (brelse bp s) (readi_loop pt dataa ip (dest_add dst m) (off + m) n (tot + m) out)))
      else Ok (of_nat tot, out, s))"
  by pat_completeness auto
termination
  by (relation "measure (\<lambda>(pt, dataa, ip, dst, off, n, tot, out, s). n - tot)") (auto simp: BSIZE_def)

declare readi_loop.simps [simp del]

definition readi :: "uint64 \<Rightarrow> (nat \<Rightarrow> uint64) \<Rightarrow> nat \<Rightarrow> dest \<Rightarrow> uint \<Rightarrow> uint \<Rightarrow> 'z fs_scheme \<Rightarrow> (cint \<times> uchar list \<times> 'z fs_scheme) result" where
  "readi pt dataa ip dst off n s =
     (let sz = i_size (itable s ! ip) in
      if off > sz \<or> off + n < off then Ok (0, [], s)
      else let n = (if off + n > sz then sz - off else n) in
        readi_loop pt dataa ip dst (unat off) (unat n) 0 [] s)"

function writei_loop :: "uint64 \<Rightarrow> (nat \<Rightarrow> uint64) \<Rightarrow> nat \<Rightarrow> source \<Rightarrow> nat \<Rightarrow> nat \<Rightarrow> nat \<Rightarrow> 'z fs_scheme \<Rightarrow> (nat \<times> nat \<times> 'z fs_scheme) result" where
  "writei_loop pt dataa ip src off n tot s =
     (if tot < n then
        bindR (bmap ip (off div BSIZE) s) (\<lambda>(addr, s).
          if addr = 0 then Ok (tot, off, s)
          else bindR (bread (i_dev (itable s ! ip)) addr s) (\<lambda>(bp, s).
            let m = min (n - tot) (BSIZE - off mod BSIZE);
                (r, s) = copy_in pt dataa src bp (off mod BSIZE) m s
            in
            if r = -1 then bindR (brelse bp s) (\<lambda>s. Ok (tot, off, s))
            else bindR (log_write bp s) (\<lambda>s. bindR (brelse bp s) (writei_loop pt dataa ip (source_add src m) (off + m) n (tot + m)))))
      else Ok (tot, off, s))"
  by pat_completeness auto
termination
  by (relation "measure (\<lambda>(pt, dataa, ip, src, off, n, tot, s). n - tot)") (auto simp: BSIZE_def)

declare writei_loop.simps [simp del]

definition writei :: "uint64 \<Rightarrow> (nat \<Rightarrow> uint64) \<Rightarrow> nat \<Rightarrow> source \<Rightarrow> uint \<Rightarrow> uint \<Rightarrow> 'z fs_scheme \<Rightarrow> (cint \<times> 'z fs_scheme) result" where
  "writei pt dataa ip src off n s =
     (if off > i_size (itable s ! ip) \<or> off + n < off then Ok (-1, s)
      else if off + n > of_nat (MAXFILE * BSIZE) then Ok (-1, s)
      else bindR (writei_loop pt dataa ip src (unat off) (unat n) 0 s) (\<lambda>(tot, off, s).
        let s = (if off > unat (i_size (itable s ! ip)) then upd_inode ip (\<lambda>x. x\<lparr>i_size := of_nat off\<rparr>) s else s) in
        bindR (iupdate ip s) (\<lambda>s. Ok (of_nat tot, s))))"

section \<open>Directories\<close>

text \<open>\<^verbatim>\<open>strncmp\<close> and \<^verbatim>\<open>strncpy\<close> on arrays of at least \<open>DIRSIZ\<close> bytes, or on strings that end earlier.\<close>

fun arr_ncmp :: "uchar list \<Rightarrow> uchar list \<Rightarrow> nat \<Rightarrow> int" where
  "arr_ncmp p q 0 = 0"
| "arr_ncmp p q (Suc n) =
     (let a = (case p of [] \<Rightarrow> 0 | x # _ \<Rightarrow> x); b = (case q of [] \<Rightarrow> 0 | x # _ \<Rightarrow> x) in
      if a \<noteq> 0 \<and> a = b then arr_ncmp (tl p) (tl q) n else uint a - uint b)"

definition namecmp :: "uchar list \<Rightarrow> uchar list \<Rightarrow> int" where
  "namecmp s t = arr_ncmp s t DIRSIZ"

definition dirent_name :: "uchar list \<Rightarrow> uchar list" where
  "dirent_name name = (let cs = takeWhile (\<lambda>c. c \<noteq> 0) (take DIRSIZ name) in cs @ replicate (DIRSIZ - length cs) 0)"

definition dirent_inum :: "uchar list \<Rightarrow> ushort" where
  "dirent_inum de = le_word 2 (\<lambda>i. de ! i)"

definition mk_dirent :: "ushort \<Rightarrow> uchar list \<Rightarrow> uchar list" where
  "mk_dirent inum name = map (byte_of inum) [0..<2] @ dirent_name name"

function dirlookup_loop :: "uint64 \<Rightarrow> (nat \<Rightarrow> uint64) \<Rightarrow> nat \<Rightarrow> uchar list \<Rightarrow> nat \<Rightarrow> 'z fs_scheme \<Rightarrow> ((nat \<times> nat) option \<times> 'z fs_scheme) result" where
  "dirlookup_loop pt dataa dp name off s =
     (if off < unat (i_size (itable s ! dp)) then
        bindR (readi pt dataa dp (KernelDst 0) (of_nat off) 16 s) (\<lambda>(r, de, s).
          if r \<noteq> 16 then Panic ''dirlookup read''
          else if dirent_inum de = 0 then dirlookup_loop pt dataa dp name (off + 16) s
          else if namecmp name (drop 2 de) = 0 then
            bindR (iget (i_dev (itable s ! dp)) (ucast (dirent_inum de)) s) (\<lambda>(ip, s). Ok (Some (ip, off), s))
          else dirlookup_loop pt dataa dp name (off + 16) s)
      else Ok (None, s))"
  by pat_completeness auto
termination
proof (relation "measure (\<lambda>(pt, dataa, dp, name, off, s). 2 ^ 32 - off)", goal_cases)
  case (2 pt dataa dp name off s)
  then show ?case using unat_lt2p [of "i_size (itable s ! dp)"] by simp
next
  case (3 pt dataa dp name off s)
  then show ?case using unat_lt2p [of "i_size (itable s ! dp)"] by simp
qed simp

declare dirlookup_loop.simps [simp del]

definition dirlookup :: "uint64 \<Rightarrow> (nat \<Rightarrow> uint64) \<Rightarrow> nat \<Rightarrow> uchar list \<Rightarrow> 'z fs_scheme \<Rightarrow> ((nat \<times> nat) option \<times> 'z fs_scheme) result" where
  "dirlookup pt dataa dp name s =
     (if i_type (itable s ! dp) \<noteq> T_DIR then Panic ''dirlookup not DIR'' else dirlookup_loop pt dataa dp name 0 s)"

function dirlink_loop :: "uint64 \<Rightarrow> (nat \<Rightarrow> uint64) \<Rightarrow> nat \<Rightarrow> nat \<Rightarrow> 'z fs_scheme \<Rightarrow> (nat \<times> 'z fs_scheme) result" where
  "dirlink_loop pt dataa dp off s =
     (if off < unat (i_size (itable s ! dp)) then
        bindR (readi pt dataa dp (KernelDst 0) (of_nat off) 16 s) (\<lambda>(r, de, s).
          if r \<noteq> 16 then Panic ''dirlink read''
          else if dirent_inum de = 0 then Ok (off, s)
          else dirlink_loop pt dataa dp (off + 16) s)
      else Ok (off, s))"
  by pat_completeness auto
termination
proof (relation "measure (\<lambda>(pt, dataa, dp, off, s). 2 ^ 32 - off)", goal_cases)
  case (2 pt dataa dp off s)
  then show ?case using unat_lt2p [of "i_size (itable s ! dp)"] by simp
qed simp

declare dirlink_loop.simps [simp del]

definition dirlink :: "uint64 \<Rightarrow> (nat \<Rightarrow> uint64) \<Rightarrow> nat \<Rightarrow> uchar list \<Rightarrow> uint \<Rightarrow> 'z fs_scheme \<Rightarrow> (int \<times> 'z fs_scheme) result" where
  "dirlink pt dataa dp name inum s =
     bindR (dirlookup pt dataa dp name s) (\<lambda>(r, s).
       case r of
         Some (ip, _) \<Rightarrow> bindR (iput ip s) (\<lambda>s. Ok (-1, s))
       | None \<Rightarrow>
           bindR (dirlink_loop pt dataa dp 0 s) (\<lambda>(off, s).
             bindR (writei pt dataa dp (KernelSrc (mk_dirent (ucast inum) name)) (of_nat off) 16 s) (\<lambda>(r, s).
               if r \<noteq> 16 then Ok (-1, s) else Ok (0, s))))"

section \<open>Paths\<close>

definition slash :: uchar where "slash = 47"

definition skipelem :: "uchar list \<Rightarrow> uchar list \<Rightarrow> (uchar list \<times> uchar list) option" where
  "skipelem path name =
     (let path = dropWhile (\<lambda>c. c = slash) path in
      if path = [] then None
      else
        let elem = takeWhile (\<lambda>c. c \<noteq> slash) path;
            path = dropWhile (\<lambda>c. c \<noteq> slash) path;
            len = length elem;
            name = (if len \<ge> DIRSIZ then take DIRSIZ elem @ drop DIRSIZ name else elem @ [0] @ drop (len + 1) name)
        in Some (dropWhile (\<lambda>c. c = slash) path, name))"

lemma skipelem_less: "skipelem path name = Some (path', name') \<Longrightarrow> length path' < length path"
proof -
  assume s: "skipelem path name = Some (path', name')"
  let ?p = "dropWhile (\<lambda>c. c = slash) path"
  have p: "?p \<noteq> []" "path' = dropWhile (\<lambda>c. c = slash) (dropWhile (\<lambda>c. c \<noteq> slash) ?p)" using s by (auto simp: skipelem_def Let_def split: if_splits)
  have h: "hd ?p \<noteq> slash" using p(1) hd_dropWhile [of "\<lambda>c. c = slash" path] by simp
  have "length path' \<le> length (dropWhile (\<lambda>c. c \<noteq> slash) ?p)" unfolding p(2) by (rule length_dropWhile_le)
  also have "\<dots> < length ?p" using p(1) h length_dropWhile_le [of "\<lambda>c. c \<noteq> slash" "tl ?p"] by (cases ?p) auto
  also have "\<dots> \<le> length path" by (rule length_dropWhile_le)
  finally show ?thesis .
qed

function namex_loop :: "uint64 \<Rightarrow> (nat \<Rightarrow> uint64) \<Rightarrow> bool \<Rightarrow> uchar list \<Rightarrow> uchar list \<Rightarrow> nat \<Rightarrow> 'z fs_scheme \<Rightarrow>
    (nat option \<times> uchar list \<times> 'z fs_scheme) result" where
  "namex_loop pt dataa parent path name ip s =
     (case skipelem path name of
        None \<Rightarrow> if parent then bindR (iput ip s) (\<lambda>s. Ok (None, name, s)) else Ok (Some ip, name, s)
      | Some (path, name) \<Rightarrow>
          bindR (ilock ip s) (\<lambda>s.
            if i_type (itable s ! ip) \<noteq> T_DIR then bindR (iunlockput ip s) (\<lambda>s. Ok (None, name, s))
            else if parent \<and> path = [] then bindR (iunlock ip s) (\<lambda>s. Ok (Some ip, name, s))
            else bindR (dirlookup pt dataa ip name s) (\<lambda>(r, s).
              case r of
                None \<Rightarrow> bindR (iunlockput ip s) (\<lambda>s. Ok (None, name, s))
              | Some (next, _) \<Rightarrow> bindR (iunlockput ip s) (namex_loop pt dataa parent path name next))))"
  by pat_completeness auto
termination
  by (relation "measure (\<lambda>(pt, dataa, parent, path, name, ip, s). length path)") (auto dest: skipelem_less)

declare namex_loop.simps [simp del]

definition namex :: "uint64 \<Rightarrow> (nat \<Rightarrow> uint64) \<Rightarrow> nat \<Rightarrow> uchar list \<Rightarrow> bool \<Rightarrow> uchar list \<Rightarrow> 'z fs_scheme \<Rightarrow>
    (nat option \<times> uchar list \<times> 'z fs_scheme) result" where
  "namex pt dataa cwd path parent name s =
     bindR (if path \<noteq> [] \<and> hd path = slash then iget ROOTDEV ROOTINO s else Ok (cwd, idup cwd s)) (\<lambda>(ip, s).
       namex_loop pt dataa parent path name ip s)"

definition namei :: "uint64 \<Rightarrow> (nat \<Rightarrow> uint64) \<Rightarrow> nat \<Rightarrow> uchar list \<Rightarrow> 'z fs_scheme \<Rightarrow> (nat option \<times> 'z fs_scheme) result" where
  "namei pt dataa cwd path s =
     bindR (namex pt dataa cwd path False (replicate DIRSIZ 0) s) (\<lambda>(r, _, s). Ok (r, s))"

definition nameiparent :: "uint64 \<Rightarrow> (nat \<Rightarrow> uint64) \<Rightarrow> nat \<Rightarrow> uchar list \<Rightarrow> uchar list \<Rightarrow> 'z fs_scheme \<Rightarrow>
    (nat option \<times> uchar list \<times> 'z fs_scheme) result" where
  "nameiparent pt dataa cwd path name s = namex pt dataa cwd path True name s"

end
