(* ===== verification/FsAlloc.thy ===== *)
theory FsAlloc
  imports Fs
begin

text \<open>
  The block allocator of \<^verbatim>\<open>kernel/fs.c\<close> against its contract: the free map on disk is a set of
  blocks in use, \<^verbatim>\<open>balloc\<close> adds its lowest missing element and \<^verbatim>\<open>bfree\<close> removes one. The lemmas
  hold while other buffers are locked, as \<^verbatim>\<open>bmap\<close> needs.
\<close>

section \<open>The free map\<close>

lemma bitmap_free_bit: "bitmap_free x bi \<longleftrightarrow> \<not> bit (x (bi div 8)) (bi mod 8)"
  by (simp add: bitmap_free_def bit_mask_def and_exp_eq_0_iff_not_bit)

lemma same_bit: "bi div 8 = bj div 8 \<Longrightarrow> bi mod 8 = bj mod 8 \<longleftrightarrow> bi = bj" for bi bj :: nat
  using div_mult_mod_eq [of bi 8] div_mult_mod_eq [of bj 8] by metis

lemma bitmap_set_free: "bitmap_free (bitmap_set bi x) bj \<longleftrightarrow> bi \<noteq> bj \<and> bitmap_free x bj"
  using same_bit [of bi bj]
  by (cases "bj div 8 = bi div 8") (auto simp: bitmap_free_bit bitmap_set_def bit_mask_def bit_or_iff bit_exp_iff)

lemma bitmap_clear_free: "bitmap_free (bitmap_clear bi x) bj \<longleftrightarrow> bi = bj \<or> bitmap_free x bj"
  using same_bit [of bi bj]
  by (cases "bj div 8 = bi div 8") (auto simp: bitmap_free_bit bitmap_clear_def bit_mask_def bit_and_iff bit_not_iff bit_exp_iff)

definition fs_blocks :: "'z fs_scheme \<Rightarrow> nat" where
  "fs_blocks s = unat (sb_size (sb s))"

definition in_use :: "'z fs_scheme \<Rightarrow> uint \<Rightarrow> bool" where
  "in_use s b \<longleftrightarrow> \<not> bitmap_free (blk s (BBLOCK b s)) (unat b mod BPB)"

definition bitmap_block :: "'z fs_scheme \<Rightarrow> uint \<Rightarrow> bool" where
  "bitmap_block s c \<longleftrightarrow> (\<exists>b. unat b < fs_blocks s \<and> c = BBLOCK b s)"

text \<open>Block 0 and the free map itself are in use, and block numbers do not wrap.\<close>

definition bitmap_ok :: "'z fs_scheme \<Rightarrow> bool" where
  "bitmap_ok s \<longleftrightarrow> 0 < fs_blocks s \<and> fs_blocks s < 2 ^ 31 \<and> unat (sb_bmapstart (sb s)) + fs_blocks s div BPB < fs_blocks s \<and>
     in_use s 0 \<and> (\<forall>c. bitmap_block s c \<longrightarrow> in_use s c)"

lemma log_frame_fs: "log_frame s s' \<Longrightarrow> sb s' = sb s \<and> itable s' = itable s \<and> fs.more s' = fs.more s"
  by (auto elim!: log_frameE)

lemma frame_blocks:
  assumes "log_frame s s'"
  shows "BBLOCK b s' = BBLOCK b s" "fs_blocks s' = fs_blocks s" "bitmap_block s' c = bitmap_block s c"
  using log_frame_fs [OF assms] by (simp_all add: BBLOCK_def fs_blocks_def bitmap_block_def)

lemma unat_BBLOCK:
  assumes "bitmap_ok s" "unat b < fs_blocks s"
  shows "unat (BBLOCK b s) = unat b div BPB + unat (sb_bmapstart (sb s))"
proof -
  have "unat (of_nat BPB :: uint) = BPB" by (simp add: fs_consts)
  moreover have "unat b div BPB \<le> fs_blocks s div BPB" using assms(2) by (intro div_le_mono) simp
  moreover have "unat (sb_bmapstart (sb s)) + fs_blocks s div BPB < 2 ^ 32" using assms(1) by (simp add: bitmap_ok_def)
  ultimately show ?thesis unfolding BBLOCK_def by (simp add: unat_word_ariths unat_div)
qed

lemma BBLOCK_less: "bitmap_ok s \<Longrightarrow> unat b < fs_blocks s \<Longrightarrow> unat (BBLOCK b s) < fs_blocks s"
proof -
  assume a: "bitmap_ok s" "unat b < fs_blocks s"
  have "unat b div BPB \<le> fs_blocks s div BPB" using a(2) by (intro div_le_mono) simp
  then show ?thesis using unat_BBLOCK [OF a] a(1) by (simp add: bitmap_ok_def)
qed

lemma BBLOCK_eq:
  assumes "bitmap_ok s" "unat b < fs_blocks s" "unat c < fs_blocks s"
  shows "BBLOCK b s = BBLOCK c s \<longleftrightarrow> unat b div BPB = unat c div BPB"
  using unat_BBLOCK [OF assms(1,2)] unat_BBLOCK [OF assms(1,3)] by (auto simp: word_unat_eq_iff)

lemma bit_position: "unat b div BPB = unat c div BPB \<Longrightarrow> unat b mod BPB = unat c mod BPB \<longleftrightarrow> b = c" for b c :: uint
  using div_mult_mod_eq [of "unat b" BPB] div_mult_mod_eq [of "unat c" BPB] by (metis word_unat_eq_iff)

section \<open>Setting and clearing a bit\<close>

lemma in_use_other_block:
  assumes ok: "bitmap_ok s" and f: "sb s' = sb s" and b: "unat b < fs_blocks s" and k: "unat c < fs_blocks s"
    and x: "blk s' = (blk s)(BBLOCK b s := g (blk s (BBLOCK b s)))"
    and g: "\<And>y bj. bitmap_free (g y) bj \<longleftrightarrow> (if bj = unat b mod BPB then v else bitmap_free y bj)"
  shows "in_use s' c \<longleftrightarrow> (if c = b then \<not> v else in_use s c)"
proof -
  have B: "BBLOCK c s' = BBLOCK c s" using f by (simp add: BBLOCK_def)
  show ?thesis
  proof (cases "BBLOCK c s = BBLOCK b s")
    case True
    then have "unat c div BPB = unat b div BPB" using BBLOCK_eq [OF ok k b] by simp
    then have "unat c mod BPB = unat b mod BPB \<longleftrightarrow> c = b" by (rule bit_position)
    then show ?thesis using True g by (simp add: in_use_def B x)
  next
    case False
    then show ?thesis by (auto simp: in_use_def B x)
  qed
qed

text \<open>What a call of \<^verbatim>\<open>balloc\<close> that returns \<open>b\<close> has done.\<close>

definition taken :: "'z fs_scheme \<Rightarrow> uint \<Rightarrow> 'z fs_scheme \<Rightarrow> bool" where
  "taken s b s' \<longleftrightarrow> b \<noteq> 0 \<and> unat b < fs_blocks s \<and> \<not> in_use s b \<and> (\<forall>c < b. in_use s c) \<and>
     (\<forall>c. unat c < fs_blocks s \<longrightarrow> in_use s' c \<longleftrightarrow> in_use s c \<or> c = b) \<and>
     (\<forall>i < BSIZE. blk s' b i = 0) \<and> (\<forall>c. c \<noteq> b \<longrightarrow> \<not> bitmap_block s c \<longrightarrow> blk s' c = blk s c)"

definition none_left :: "'z fs_scheme \<Rightarrow> 'z fs_scheme \<Rightarrow> bool" where
  "none_left s s' \<longleftrightarrow> (\<forall>c. unat c < fs_blocks s \<longrightarrow> in_use s c) \<and> blk s' = blk s"

definition balloc_post :: "nat set \<Rightarrow> 'z fs_scheme \<Rightarrow> uint \<times> 'z fs_scheme \<Rightarrow> bool" where
  "balloc_post H s r \<longleftrightarrow> (case r of (b, s') \<Rightarrow> log_inv H s' \<and> log_frame s s' \<and> (\<forall>j \<in> H. bufs s' ! j = bufs s ! j) \<and>
     (if b = 0 then none_left s s' else taken s b s'))"

definition held_apart :: "nat set \<Rightarrow> 'z fs_scheme \<Rightarrow> bool" where
  "held_apart H s \<longleftrightarrow> (\<forall>i \<in> H. \<not> bitmap_block s (blockno (bufs s ! i)) \<and> in_use s (blockno (bufs s ! i)))"

lemma bitmap_ok_taken: "bitmap_ok s \<Longrightarrow> log_frame s s' \<Longrightarrow> taken s b s' \<Longrightarrow> bitmap_ok s'"
  using log_frame_fs [of s s'] frame_blocks [of s s'] BBLOCK_less [of s]
  by (auto simp: bitmap_ok_def taken_def bitmap_block_def)

text \<open>The free bit of one bitmap block.\<close>

lemma take_bit_ok:
  fixes s :: "'z fs_scheme"
  assumes ok: "bitmap_ok s" and b: "unat b < fs_blocks s" "\<not> in_use s b" and low: "\<forall>c < b. in_use s c"
    and t: "blk t = (blk s)(BBLOCK b s := bitmap_set (unat b mod BPB) (blk s (BBLOCK b s)))" "log_frame s t"
    and u: "blk u = (blk t)(b := (\<lambda>i. if i < BSIZE then 0 else blk t b i))" "log_frame t u"
  shows "taken s b u"
proof -
  have nb: "\<not> bitmap_block s b" using ok b by (auto simp: bitmap_ok_def)
  have use_t: "in_use t c \<longleftrightarrow> (if c = b then \<not> False else in_use s c)" if "unat c < fs_blocks s" for c
    by (rule in_use_other_block [OF ok _ b(1) that, where g = "bitmap_set (unat b mod BPB)"]) (use t(1) log_frame_fs [OF t(2)] in \<open>auto simp: bitmap_set_free\<close>)
  have use_u: "in_use u c \<longleftrightarrow> in_use t c" if "unat c < fs_blocks s" for c
  proof -
    have "BBLOCK c u = BBLOCK c t" "BBLOCK c t = BBLOCK c s" using log_frame_fs [OF t(2)] log_frame_fs [OF u(2)] by (simp_all add: BBLOCK_def)
    moreover have "BBLOCK c s \<noteq> b" using nb that by (auto simp: bitmap_block_def)
    ultimately show ?thesis by (simp add: in_use_def u(1))
  qed
  have "b \<noteq> 0" using ok b by (auto simp: bitmap_ok_def)
  moreover have "blk u c = blk s c" if "c \<noteq> b" "\<not> bitmap_block s c" for c
    using that b(1) by (auto simp: u(1) t(1) bitmap_block_def)
  ultimately show ?thesis using b low use_t use_u by (simp add: taken_def u(1))
qed

section \<open>The allocator\<close>

lemma endsR_Ok_bind: "(\<exists>x. m = Ok x \<and> endsR ms Q (k x)) \<Longrightarrow> endsR ms Q (bindR m k)"
  by auto

lemma find_upt:
  "find P [0..<n] = Some i \<Longrightarrow> i < n \<and> P i \<and> (\<forall>j < i. \<not> P j)" "find P [0..<n] = None \<Longrightarrow> j < n \<Longrightarrow> \<not> P j"
  by (auto simp: find_Some_iff find_None_iff)

text \<open>The blocks one bitmap block speaks for.\<close>

lemma chunk_bits:
  fixes s :: "'z fs_scheme"
  assumes ok: "bitmap_ok s" and b: "k * BPB < fs_blocks s" and i: "i < min BPB (fs_blocks s - k * BPB)"
  shows "unat (of_nat (k * BPB + i) :: uint) = k * BPB + i" "BBLOCK (of_nat (k * BPB + i)) s = BBLOCK (of_nat (k * BPB)) s"
    "in_use s (of_nat (k * BPB + i)) \<longleftrightarrow> \<not> bitmap_free (blk s (BBLOCK (of_nat (k * BPB)) s)) i"
proof -
  have l: "k * BPB + i < fs_blocks s" "fs_blocks s < 2 ^ 31" using ok b i by (simp_all add: bitmap_ok_def less_diff_conv add.commute)
  show u: "unat (of_nat (k * BPB + i) :: uint) = k * BPB + i" using l by (intro unat_of_nat_small) simp
  have u0: "unat (of_nat (k * BPB) :: uint) = k * BPB" using l by (intro unat_of_nat_small) simp
  have d: "(k * BPB + i) div BPB = k" "(k * BPB + i) mod BPB = i" using i by (simp_all add: fs_consts)
  show B: "BBLOCK (of_nat (k * BPB + i)) s = BBLOCK (of_nat (k * BPB)) s"
    using BBLOCK_eq [OF ok, of "of_nat (k * BPB + i)" "of_nat (k * BPB)"] u u0 d(1) l b by (simp add: fs_consts)
  show "in_use s (of_nat (k * BPB + i)) \<longleftrightarrow> \<not> bitmap_free (blk s (BBLOCK (of_nat (k * BPB)) s)) i"
    by (simp only: in_use_def B u d(2))
qed

lemma bzero_ok:
  fixes s :: "'z fs_scheme"
  assumes "log_inv H s" "\<forall>i \<in> H. blockno (bufs s ! i) \<noteq> b"
  shows "endsR log_msgs (\<lambda>s'. log_inv H s' \<and> blk s' = (blk s)(b := (\<lambda>i. if i < BSIZE then 0 else blk s b i)) \<and> log_frame s s' \<and>
      (\<forall>j \<in> H. bufs s' ! j = bufs s ! j)) (bzero ROOTDEV b s)"
  unfolding bzero_def
  by (rule endsR_mono [OF update_block [OF assms, of "\<lambda>x i. if i < BSIZE then 0 else x i"]]) auto

lemma balloc_found:
  fixes s :: "'z fs_scheme"
  assumes ok: "bitmap_ok s" and held: "held_apart H s" and k: "k * BPB < fs_blocks s"
    and low: "\<forall>c. unat c < k * BPB \<longrightarrow> in_use s c"
    and bi: "find (bitmap_free (blk s (BBLOCK (of_nat (k * BPB)) s))) [0..<min BPB (fs_blocks s - k * BPB)] = Some bi"
    and g: "bp \<notin> H" "log_inv (insert bp H) s1" "blockno (bufs s1 ! bp) = BBLOCK (of_nat (k * BPB)) s" "data (bufs s1 ! bp) = blk s (BBLOCK (of_nat (k * BPB)) s)"
      "blk s1 = blk s" "log_frame s s1" "\<forall>j \<in> H. bufs s1 ! j = bufs s ! j"
  shows "endsR log_msgs (balloc_post H s)
    (bindR (log_write bp (upd_buf bp (\<lambda>x. x\<lparr>data := bitmap_set bi (data x)\<rparr>) s1)) (\<lambda>s.
       bindR (brelse bp s) (\<lambda>s. bindR (bzero ROOTDEV (of_nat (k * BPB + bi)) s) (\<lambda>s. Ok (of_nat (k * BPB + bi), s)))))"
proof -
  let ?b = "of_nat (k * BPB + bi) :: uint" and ?B = "BBLOCK (of_nat (k * BPB)) s"
  note F = find_upt(1) [OF bi]
  have bi': "bi < min BPB (fs_blocks s - k * BPB)" using F by blast
  note C = chunk_bits [OF ok k bi']
  have bs: "unat ?b < fs_blocks s" unfolding C(1) using bi' by (simp add: less_diff_conv add.commute)
  have nu: "\<not> in_use s ?b" using C(3) F by blast
  have lowb: "\<forall>c < ?b. in_use s c"
  proof (intro allI impI)
    fix c :: uint assume "c < ?b"
    then have cl: "unat c < k * BPB + bi" using C(1) by (simp only: word_less_nat_alt)
    show "in_use s c"
    proof (cases "unat c < k * BPB")
      case True
      then show ?thesis using low by blast
    next
      case False
      define j where "j = unat c - k * BPB"
      have j: "j < bi" "c = of_nat (k * BPB + j)" using False cl by (simp_all add: j_def)
      have "j < min BPB (fs_blocks s - k * BPB)" using j(1) bi' by simp
      from chunk_bits(3) [OF ok k this] show ?thesis using F j by blast
    qed
  qed
  have mem: "bp \<in> insert bp H" by simp
  have nH: "\<forall>i \<in> H. blockno (bufs s ! i) \<noteq> ?b" using held nu by (auto simp: held_apart_def)
  show ?thesis
  proof (rule endsR_bindI [OF log_modify [OF g(2) mem]], goal_cases)
    case (1 t)
    have t: "log_inv (insert bp H) t" "blk t = (blk s)(?B := bitmap_set bi (blk s ?B))" "blockno (bufs t ! bp) = ?B" "?B \<in> set (logged_list t)"
      "log_frame s1 t" "\<forall>j. j \<noteq> bp \<longrightarrow> bufs t ! j = bufs s1 ! j" using 1(2) g by simp_all
    obtain u where u: "brelse bp t = Ok u" "log_inv (insert bp H - {bp}) u" "blk u = blk t" "log_frame t u" "\<forall>j. j \<noteq> bp \<longrightarrow> bufs u ! j = bufs t ! j"
      using log_brelse [OF t(1) mem] t(3,4) by auto
    have iu: "log_inv H u" using u(2) g(1) by simp
    have fu: "log_frame s u" using g(6) t(5) u(4) log_frame_trans by blast
    have bu: "\<forall>j \<in> H. bufs u ! j = bufs s ! j" using g(1,7) t(6) u(5) by metis
    have "\<forall>i \<in> H. blockno (bufs u ! i) \<noteq> ?b" using nH bu by simp
    note Z = bzero_ok [OF iu this]
    have B: "?B = BBLOCK ?b s" "bi = unat ?b mod BPB" using C(1,2) bi' by (simp_all add: fs_consts)
    show ?case unfolding u(1) bindR.simps
    proof (rule endsR_bindI [OF Z], goal_cases)
      case (1 v)
      have "taken s ?b v"
        by (rule take_bit_ok [OF ok bs nu lowb, where t = u]) (use 1(2) fu t(2) u(3) B in simp_all)
      moreover have "log_frame s v" using 1(2) fu log_frame_trans by blast
      moreover have "?b \<noteq> 0" using calculation(1) by (simp add: taken_def)
      ultimately show ?case using 1(2) bu by (simp add: balloc_post_def del: of_nat_add of_nat_mult)
    qed
  qed
qed

lemma balloc_loop_ok:
  fixes s :: "'z fs_scheme"
  assumes "K = (fs_blocks s + BPB - 1) div BPB"
  shows "log_inv H s' \<Longrightarrow> log_frame s s' \<Longrightarrow> blk s' = blk s \<Longrightarrow> \<forall>j \<in> H. bufs s' ! j = bufs s ! j \<Longrightarrow> bitmap_ok s \<Longrightarrow> held_apart H s \<Longrightarrow>
    k \<le> K \<Longrightarrow> \<forall>c. unat c < k * BPB \<longrightarrow> unat c < fs_blocks s \<longrightarrow> in_use s c \<Longrightarrow>
    endsR log_msgs (balloc_post H s) (balloc_loop ROOTDEV (map (\<lambda>k. k * BPB) [k..<K]) s')"
proof (induction "K - k" arbitrary: k s')
  case 0
  then have k: "k = K" by simp
  have "fs_blocks s \<le> K * BPB" using assms by (simp add: fs_consts) 
  then have "none_left s s'" using 0 k by (simp add: none_left_def)
  then show ?case using 0 k by (simp add: balloc_post_def)
next
  case (Suc n)
  then have k: "k < K" by simp
  have kb: "k * BPB < fs_blocks s" using k assms by (simp add: fs_consts)
  have up: "[k..<K] = k # [Suc k..<K]" using k by (rule upt_conv_Cons)
  let ?b = "of_nat (k * BPB) :: uint" and ?B = "BBLOCK (of_nat (k * BPB)) s"
  have ok: "bitmap_ok s" by (rule Suc.prems(5))
  have ub: "unat ?b = k * BPB" using kb ok by (intro unat_of_nat_small) (simp add: bitmap_ok_def)
  have B': "BBLOCK ?b s' = ?B" using frame_blocks(1) [OF Suc.prems(2)] by simp
  have bb: "bitmap_block s ?B" unfolding bitmap_block_def using kb ub by (intro exI [of _ ?b]) simp
  have free: "\<forall>i \<in> H. blockno (bufs s' ! i) \<noteq> ?B" using Suc.prems(4,6) bb by (auto simp: held_apart_def)
  have low: "\<forall>c. unat c < k * BPB \<longrightarrow> in_use s c" using Suc.prems(8) kb by simp
  show ?case unfolding up list.map balloc_loop.simps B'
  proof (rule endsR_bind [OF log_bread [OF Suc.prems(1) free]], goal_cases)
    case 1
    then show ?case by simp
  next
    case (2 r)
    obtain bp s1 where r: "r = (bp, s1)" by force
    have g: "bp \<notin> H" "log_inv (insert bp H) s1" "blockno (bufs s1 ! bp) = ?B" "data (bufs s1 ! bp) = blk s ?B" "blk s1 = blk s" "log_frame s' s1"
      "logged_list s1 = logged_list s'" "?B \<in> set (logged_list s') \<or> blk s ?B = disk s' ?B" "\<forall>j. j \<noteq> bp \<longrightarrow> bufs s1 ! j = bufs s' ! j"
      using 2(2) r Suc.prems(3) by simp_all
    have f1: "log_frame s s1" using Suc.prems(2) g(6) log_frame_trans by blast
    have n1: "unat (sb_size (sb s1)) = fs_blocks s" using log_frame_fs [OF f1] by (simp add: fs_blocks_def)
    let ?fd = "find (bitmap_free (blk s ?B)) [0..<min BPB (fs_blocks s - k * BPB)]"
    show ?case
    proof (cases ?fd)
      case (Some bi)
      have i1: "\<forall>j \<in> H. bufs s1 ! j = bufs s ! j" using g(1,9) Suc.prems(4) by metis
      show ?thesis unfolding r split g(4) n1 Some option.case
        by (rule balloc_found [OF ok Suc.prems(6) kb low Some g(1-5) f1 i1])
    next
      case None
      have all: "\<forall>c. unat c < Suc k * BPB \<longrightarrow> unat c < fs_blocks s \<longrightarrow> in_use s c"
      proof (intro allI impI)
        fix c :: uint assume c: "unat c < Suc k * BPB" "unat c < fs_blocks s"
        show "in_use s c"
        proof (cases "unat c < k * BPB")
          case False
          define j where "j = unat c - k * BPB"
          have j: "j < min BPB (fs_blocks s - k * BPB)" "c = of_nat (k * BPB + j)" using False c by (auto simp: j_def)
          from chunk_bits(3) [OF ok kb j(1)] show ?thesis using find_upt(2) [OF None j(1)] j(2) by blast
        qed (use low in blast)
      qed
      have mem: "bp \<in> insert bp H" by simp
      have "blockno (bufs s1 ! bp) \<in> set (logged_list s1) \<or> data (bufs s1 ! bp) = disk s1 (blockno (bufs s1 ! bp))"
        using g(3,4,7,8) log_frameD(7) [OF g(6)] by simp
      then obtain u where u: "brelse bp s1 = Ok u" "log_inv (insert bp H - {bp}) u" "blk u = blk s1" "log_frame s1 u" "\<forall>j. j \<noteq> bp \<longrightarrow> bufs u ! j = bufs s1 ! j"
        using log_brelse [OF g(2) mem] by blast
      have iu: "log_inv H u" "blk u = blk s" using u(2,3) g(1,5) by simp_all
      have fu: "log_frame s u" using f1 u(4) log_frame_trans by blast
      have bu: "\<forall>j \<in> H. bufs u ! j = bufs s ! j" using g(1,9) u(5) Suc.prems(4) by metis
      have kk: "n = K - Suc k" "Suc k \<le> K" using Suc.hyps(2) k by simp_all
      show ?thesis unfolding r split g(4) n1 None option.case u(1) bindR.simps
        by (rule Suc.hyps(1) [OF kk(1) iu(1) fu iu(2) bu ok Suc.prems(6) kk(2) all])
    qed
  qed
qed

lemma balloc_ok:
  fixes s :: "'z fs_scheme"
  assumes "log_inv H s" "bitmap_ok s" "held_apart H s"
  shows "endsR log_msgs (balloc_post H s) (balloc ROOTDEV s)"
  using balloc_loop_ok [OF refl assms(1) log_frame_refl refl _ assms(2,3), of 0]
  by (simp add: balloc_def bitmap_starts_def fs_blocks_def)

definition freed :: "'z fs_scheme \<Rightarrow> uint \<Rightarrow> 'z fs_scheme \<Rightarrow> bool" where
  "freed s b s' \<longleftrightarrow> (\<forall>c. unat c < fs_blocks s \<longrightarrow> in_use s' c \<longleftrightarrow> in_use s c \<and> c \<noteq> b) \<and> (\<forall>c. \<not> bitmap_block s c \<longrightarrow> blk s' c = blk s c)"

lemma bfree_ok:
  fixes s :: "'z fs_scheme"
  assumes inv: "log_inv H s" and ok: "bitmap_ok s" and held: "held_apart H s" and b: "unat b < fs_blocks s"
  shows "endsR (if in_use s b then log_msgs else {''freeing free block'', ''bget: no buffers''})
    (\<lambda>s'. in_use s b \<and> log_inv H s' \<and> log_frame s s' \<and> (\<forall>j \<in> H. bufs s' ! j = bufs s ! j) \<and> freed s b s') (bfree ROOTDEV b s)"
proof -
  let ?B = "BBLOCK b s" and ?i = "unat b mod BPB"
  have "bitmap_block s ?B" using b by (auto simp: bitmap_block_def)
  then have free: "\<forall>i \<in> H. blockno (bufs s ! i) \<noteq> ?B" using held by (auto simp: held_apart_def)
  show ?thesis unfolding bfree_def
  proof (rule endsR_bind [OF log_bread [OF inv free]], goal_cases)
    case 1
    then show ?case by simp
  next
    case (2 r)
    obtain bp t where r: "r = (bp, t)" by force
    have g: "bp \<notin> H" "log_inv (insert bp H) t" "blockno (bufs t ! bp) = ?B" "data (bufs t ! bp) = blk s ?B" "blk t = blk s" "log_frame s t"
      "\<forall>j. j \<noteq> bp \<longrightarrow> bufs t ! j = bufs s ! j" using 2(2) r by simp_all
    have mem: "bp \<in> insert bp H" by simp
    show ?case
    proof (cases "in_use s b")
      case False
      then show ?thesis using r g(4) by (simp add: in_use_def Let_def)
    next
      case True
      have "endsR log_msgs (\<lambda>s'. log_inv H s' \<and> log_frame s s' \<and> (\<forall>j \<in> H. bufs s' ! j = bufs s ! j) \<and> freed s b s')
        (bindR (log_write bp (upd_buf bp (\<lambda>x. x\<lparr>data := bitmap_clear ?i (data x)\<rparr>) t)) (brelse bp))"
      proof (rule endsR_bindI [OF log_modify [OF g(2) mem]], goal_cases)
        case (1 u)
        have u: "log_inv (insert bp H) u" "blk u = (blk s)(?B := bitmap_clear ?i (blk s ?B))" "blockno (bufs u ! bp) = ?B" "?B \<in> set (logged_list u)"
          "log_frame t u" "\<forall>j. j \<noteq> bp \<longrightarrow> bufs u ! j = bufs t ! j" using 1(2) g by simp_all
        obtain v where v: "brelse bp u = Ok v" "log_inv (insert bp H - {bp}) v" "blk v = blk u" "log_frame u v" "\<forall>j. j \<noteq> bp \<longrightarrow> bufs v ! j = bufs u ! j"
          using log_brelse [OF u(1) mem] u(3,4) by auto
        have fv: "log_frame s v" using g(6) u(5) v(4) log_frame_trans by blast
        have "in_use v c \<longleftrightarrow> (if c = b then \<not> True else in_use s c)" if "unat c < fs_blocks s" for c
          by (rule in_use_other_block [OF ok _ b that, where g = "bitmap_clear ?i"])
            (use log_frame_fs [OF fv] u(2) v(3) in \<open>auto simp: bitmap_clear_free\<close>)
        moreover have "blk v c = blk s c" if "\<not> bitmap_block s c" for c using that \<open>bitmap_block s ?B\<close> u(2) v(3) by auto
        ultimately have "freed s b v" by (auto simp: freed_def)
        moreover have "\<forall>j \<in> H. bufs v ! j = bufs s ! j" using g(1,7) u(6) v(5) by metis
        ultimately show ?case using v(1,2) fv g(1) by simp
      qed
      then show ?thesis using True r g(4) by (simp add: in_use_def Let_def)
    qed
  qed
qed

text \<open>C6. The block allocator implements a set of used blocks on the free map.  Inside a
  transaction \<^verbatim>\<open>balloc\<close> returns the lowest free block, now in use and zeroed, or 0 exactly when no
  block is free; \<^verbatim>\<open>bfree\<close> makes a used block free and panics on a free one.  Neither changes any
  other block outside the free map or any other bit of it, and both keep the log and cache invariant.\<close>

theorem block_allocator_correct:
  fixes s :: "'z fs_scheme"
  assumes "log_inv {} s" "bitmap_ok s" "unat b < fs_blocks s"
  shows "endsR log_msgs (\<lambda>(r, s'). log_inv {} s' \<and> (if r = 0 then none_left s s' else taken s r s' \<and> bitmap_ok s')) (balloc ROOTDEV s) \<and>
    endsR (if in_use s b then log_msgs else {''freeing free block'', ''bget: no buffers''})
      (\<lambda>s'. in_use s b \<and> log_inv {} s' \<and> freed s b s') (bfree ROOTDEV b s)"
proof
  have h: "held_apart {} s" by (simp add: held_apart_def)
  show "endsR log_msgs (\<lambda>(r, s'). log_inv {} s' \<and> (if r = 0 then none_left s s' else taken s r s' \<and> bitmap_ok s')) (balloc ROOTDEV s)"
    by (rule endsR_mono [OF balloc_ok [OF assms(1,2) h]]) (auto simp: balloc_post_def intro: bitmap_ok_taken [OF assms(2)] split: if_splits)
  show "endsR (if in_use s b then log_msgs else {''freeing free block'', ''bget: no buffers''})
      (\<lambda>s'. in_use s b \<and> log_inv {} s' \<and> freed s b s') (bfree ROOTDEV b s)"
    by (rule endsR_mono [OF bfree_ok [OF assms(1,2) h assms(3)]]) auto
qed

text \<open>A file system of 2000 blocks whose free map, block 45, has the first 48 blocks in use.\<close>

definition fs_power :: fs where
  "fs_power = \<lparr>mem = (\<lambda>x. 0), freelist = 0, cur_pid = 1,
     bufs = replicate NBUF \<lparr>valid = False, dev = 0, blockno = 0, block_lock = initsleeplock, refcnt = 0, data = (\<lambda>x. 0)\<rparr>,
     nxt = (\<lambda>x. 0), prv = (\<lambda>x. 0), disk = (\<lambda>b x. if b = 45 \<and> x < 6 then 0xFF else 0), dwrites = [], lstart = 2, lsize = 30, outstanding = 1,
     committing = False, ldev = ROOTDEV, lhn = 0, lhblock = replicate LOGSIZE 0,
     sb = \<lparr>sb_magic = FSMAGIC, sb_size = 2000, sb_nblocks = 1954, sb_ninodes = 200, sb_nlog = 30, sb_logstart = 2, sb_inodestart = 32, sb_bmapstart = 45\<rparr>,
     itable = []\<rparr>"

definition fs_example :: fs where
  "fs_example = binit fs_power"

lemma binit_loop_fs: "sb (binit_loop bs s) = sb s" "itable (binit_loop bs s) = itable s"
  by (induction bs arbitrary: s) (simp_all add: upd_buf_def split: prod.splits)

lemma fs_example_fields: "sb fs_example = sb fs_power" "blk fs_example = disk fs_power" "log_inv {} fs_example"
proof -
  have b: "bio_inv {} {} fs_example" "blk fs_example = disk fs_power"
    unfolding fs_example_def using binit_inv [of fs_power] by (simp_all add: fs_power_def)
  show "sb fs_example = sb fs_power" by (simp add: fs_example_def binit_def binit_loop_fs)
  show "blk fs_example = disk fs_power" by (rule b(2))
  have "lhn fs_example = 0" "ldev fs_example = ROOTDEV" "lhblock fs_example = replicate LOGSIZE 0"
    by (simp_all add: fs_example_def binit_def binit_loop_log_fields binit_loop_log fs_power_def)
  then show "log_inv {} fs_example" using b(1) by (simp add: log_inv_def logged_list_def)
qed

lemma fs_example_ok: "bitmap_ok fs_example" "fs_blocks fs_example = 2000" "\<not> in_use fs_example 48" "in_use fs_example 45"
proof -
  show n: "fs_blocks fs_example = 2000" by (simp add: fs_blocks_def fs_example_fields fs_power_def)
  have B: "BBLOCK b fs_example = 45" if "unat b < 8192" for b
  proof -
    have "unat (b div of_nat BPB) = 0" using that by (simp add: unat_div fs_consts)
    then show ?thesis by (simp add: BBLOCK_def fs_example_fields fs_power_def unat_eq_zero)
  qed
  have u: "in_use fs_example b \<longleftrightarrow> \<not> bitmap_free (\<lambda>x. if x < 6 then 0xFF else 0) (unat b mod BPB)" if "unat b < 8192" for b
    using B [OF that] by (simp add: in_use_def fs_example_fields fs_power_def)
  show "\<not> in_use fs_example 48" "in_use fs_example 45" by (simp_all add: u bitmap_free_def bit_mask_def fs_consts)
  moreover have "in_use fs_example 0" by (simp add: u bitmap_free_def bit_mask_def fs_consts)
  moreover have "bitmap_block fs_example c \<Longrightarrow> c = 45" for c using B n by (auto simp: bitmap_block_def)
  ultimately show "bitmap_ok fs_example" using n by (auto simp: bitmap_ok_def fs_example_fields fs_power_def fs_consts)
qed

theorem block_allocator_correct_witness:
  "endsR log_msgs (\<lambda>(r, s'). r \<noteq> 0 \<and> taken fs_example r s') (balloc ROOTDEV fs_example) \<and>
   endsR log_msgs (\<lambda>s'. freed fs_example 45 s') (bfree ROOTDEV 45 fs_example)"
proof -
  have "unat (45 :: uint) < fs_blocks fs_example" by (simp add: fs_example_ok)
  note A = block_allocator_correct [OF fs_example_fields(3) fs_example_ok(1) this]
  have "\<not> none_left fs_example s'" for s' using fs_example_ok by (auto simp: none_left_def intro!: exI [of _ 48])
  then have "endsR log_msgs (\<lambda>(r, s'). r \<noteq> 0 \<and> taken fs_example r s') (balloc ROOTDEV fs_example)"
    by (intro endsR_mono [OF conjunct1 [OF A]]) (auto split: if_splits)
  moreover have "endsR log_msgs (\<lambda>s'. freed fs_example 45 s') (bfree ROOTDEV 45 fs_example)"
    using conjunct2 [OF A] fs_example_ok(4) by (auto intro: endsR_mono)
  ultimately show ?thesis by blast
qed

end
