(* ===== verification/FsRead.thy ===== *)
theory FsRead
  imports FsAlloc UserByte
begin

text \<open>
  Reading files and directories: \<open>file_byte\<close> is the content of an inode as the blocks its direct
  and indirect addresses name, \<^verbatim>\<open>readi\<close> copies a range of it, \<^verbatim>\<open>dirlookup\<close> finds the first matching
  entry in it, and \<^verbatim>\<open>skipelem\<close> walks over the elements of a path.
\<close>

section \<open>The content of an inode\<close>

definition file_block :: "'z fs_scheme \<Rightarrow> inode \<Rightarrow> nat \<Rightarrow> uint" where
  "file_block s x bn = (if bn < NDIRECT then i_addrs x ! bn else get32 (blk s (i_addrs x ! NDIRECT)) (4 * (bn - NDIRECT)))"

definition file_byte :: "'z fs_scheme \<Rightarrow> inode \<Rightarrow> nat \<Rightarrow> uchar" where
  "file_byte s x i = blk s (file_block s x (i div BSIZE)) (i mod BSIZE)"

definition mapped :: "'z fs_scheme \<Rightarrow> inode \<Rightarrow> bool" where
  "mapped s x \<longleftrightarrow> i_dev x = ROOTDEV \<and> (\<forall>i < unat (i_size x). i div BSIZE < MAXFILE \<and> file_block s x (i div BSIZE) \<noteq> 0 \<and>
     (NDIRECT \<le> i div BSIZE \<longrightarrow> i_addrs x ! NDIRECT \<noteq> 0))"

definition unchanged :: "'z fs_scheme \<Rightarrow> 'z fs_scheme \<Rightarrow> bool" where
  "unchanged s s' \<longleftrightarrow> log_inv {} s' \<and> blk s' = blk s \<and> lhn s' = lhn s \<and> log_frame s s'"

text \<open>Reading needs one buffer that the log has not pinned.\<close>

definition cache_msgs :: "'z log_scheme \<Rightarrow> string set" where
  "cache_msgs s = (if lhn s < int NBUF then {} else {''bget: no buffers''})"

lemma unchangedD:
  assumes "unchanged s s'"
  shows "log_inv {} s'" "blk s' = blk s" "itable s' = itable s" "file_byte s' x i = file_byte s x i" "file_block s' x k = file_block s x k"
    "cache_msgs s' = cache_msgs s" "mem s' = mem s"
  using assms log_frame_fs [of s s'] log_frameD(9) [of s s']
  by (simp_all add: unchanged_def file_byte_def file_block_def cache_msgs_def)

lemma unchanged_trans: "unchanged s t \<Longrightarrow> unchanged t u \<Longrightarrow> unchanged s u"
  using log_frame_trans by (auto simp: unchanged_def)

lemma unchanged_refl: "log_inv {} s \<Longrightarrow> unchanged s s"
  by (simp add: unchanged_def)

text \<open>Memory is not part of the cache.\<close>

lemma blk_mem [simp]: "blk (s\<lparr>mem := m\<rparr>) = blk s"
  by (rule blk_cong) simp_all

lemma mem_cache [simp]:
  "log_inv H (s\<lparr>mem := m\<rparr>) = log_inv H s" "file_block (t\<lparr>mem := m\<rparr>) x k = file_block t x k"
  "file_byte (t\<lparr>mem := m\<rparr>) x i = file_byte t x i" "mapped (t\<lparr>mem := m\<rparr>) x = mapped t x" "cache_msgs (s\<lparr>mem := m\<rparr>) = cache_msgs s"
  by (simp_all add: log_inv_def bio_inv_def cached_def logged_list_def cache_msgs_def file_block_def file_byte_def mapped_def)

lemma unchanged_mem: "unchanged s s' \<Longrightarrow> unchanged (s\<lparr>mem := m\<rparr>) (s'\<lparr>mem := m\<rparr>)"
proof -
  assume u: "unchanged s s'"
  have "log_frame (s\<lparr>mem := m\<rparr>) (s'\<lparr>mem := m\<rparr>)" if f: "log_frame s s'"
  proof -
    obtain bs nx pv n hb where "s' = s\<lparr>bufs := bs, nxt := nx, prv := pv, lhn := n, lhblock := hb\<rparr>" using f by (rule log_frameE)
    then have "s'\<lparr>mem := m\<rparr> = s\<lparr>mem := m, bufs := bs, nxt := nx, prv := pv, lhn := n, lhblock := hb\<rparr>" by (cases s) simp
    then show ?thesis by (rule log_frameI)
  qed
  then show ?thesis using u by (simp add: unchanged_def)
qed

lemma brelse_mem: "brelse i s = Ok s' \<Longrightarrow> brelse i (s\<lparr>mem := m\<rparr>) = Ok (s'\<lparr>mem := m\<rparr>)"
  by (auto simp: brelse_def upd_buf_def Let_def split: if_splits prod.splits)

lemma bread_room_msgs:
  assumes "log_inv {} s" "endsR {''bget: no buffers''} Q (bread ROOTDEV b s)"
  shows "endsR (cache_msgs s) Q (bread ROOTDEV b s)"
proof (cases "lhn s < int NBUF")
  case True
  have "card (set (logged_list s)) < NBUF"
    using card_length [of "logged_list s"] log_invD(7) [OF assms(1)] log_invD(2) [OF assms(1)] True by linarith
  then have "bread ROOTDEV b s \<noteq> Panic msg" for msg
    using bread_room [OF log_invD(1) [OF assms(1)], of b] by (cases "bread ROOTDEV b s") auto
  then show ?thesis using assms(2) by (cases "bread ROOTDEV b s") auto
next
  case False
  then show ?thesis using assms(2) by (simp add: cache_msgs_def)
qed

lemma bread_unchanged:
  fixes s :: "'z fs_scheme"
  assumes "log_inv {} s"
  shows "endsR (cache_msgs s) (\<lambda>(bp, s'). bp < NBUF \<and> data (bufs s' ! bp) = blk s b \<and> itable s' = itable s \<and> mem s' = mem s \<and>
    (\<exists>u. brelse bp s' = Ok u \<and> unchanged s u)) (bread ROOTDEV b s)"
proof (rule bread_room_msgs [OF assms], rule endsR_mono [OF log_bread [OF assms, of b]], goal_cases)
  case (3 r)
  obtain bp t where r: "r = (bp, t)" by force
  have g: "log_inv {bp} t" "blockno (bufs t ! bp) = b" "data (bufs t ! bp) = blk s b" "blk t = blk s" "logged_list t = logged_list s" "log_frame s t"
    "b \<in> set (logged_list s) \<or> blk s b = disk s b" using 3(2) r by simp_all
  have "blockno (bufs t ! bp) \<in> set (logged_list t) \<or> data (bufs t ! bp) = disk t (blockno (bufs t ! bp))"
    using g log_frameD(7) [OF g(6)] by simp
  then obtain u where u: "brelse bp t = Ok u" "log_inv ({bp} - {bp}) u" "blk u = blk t" "logged_list u = logged_list t" "log_frame t u"
    using log_brelse [OF g(1), of bp] by auto
  have "length (logged_list u) = length (logged_list s)" using u(4) g(5) by simp
  then have "lhn u = lhn s" using log_invD(2,7) [OF assms] log_invD(2,7) [OF u(2)] by simp
  then have "unchanged s u" using u g(4,6) log_frame_trans by (auto simp: unchanged_def)
  moreover have "bp < NBUF" using bio_invD(2) [OF log_invD(1) [OF g(1)]] by simp
  ultimately show ?case using r g(3) u(1) log_frame_fs [OF g(6)] log_frameD(9) [OF g(6)] by auto
qed auto

lemma bmap_mapped:
  fixes s :: "'z fs_scheme"
  assumes inv: "log_inv {} s" and x: "x = itable s ! ip" "mapped s x" and i: "i < unat (i_size x)"
  shows "endsR (cache_msgs s) (\<lambda>(a, s'). a = file_block s x (i div BSIZE) \<and> unchanged s s') (bmap ip (i div BSIZE) s)"
proof -
  let ?bn = "i div BSIZE"
  have m: "i_dev x = ROOTDEV" "?bn < MAXFILE" "file_block s x ?bn \<noteq> 0" "NDIRECT \<le> ?bn \<longrightarrow> i_addrs x ! NDIRECT \<noteq> 0"
    using x(2) i by (auto simp: mapped_def)
  show ?thesis
  proof (cases "?bn < NDIRECT")
    case True
    then show ?thesis using m x(1) unchanged_refl [OF inv] by (simp add: bmap_def file_block_def Let_def)
  next
    case False
    have ind: "i_addrs x ! NDIRECT \<noteq> 0" "?bn - NDIRECT < NINDIRECT" using False m by (auto simp: MAXFILE_def)
    have fb: "file_block s x ?bn = get32 (blk s (i_addrs x ! NDIRECT)) (4 * (?bn - NDIRECT))" using False by (simp add: file_block_def)
    have run: "bmap ip ?bn s = bindR (bread ROOTDEV (i_addrs x ! NDIRECT) s) (\<lambda>(bp, s).
              let k = 4 * (?bn - NDIRECT); addr = get32 (data (bufs s ! bp)) k in
              if addr = 0 then
                bindR (balloc (i_dev x) s) (\<lambda>(addr, s).
                  bindR (if addr \<noteq> 0 then log_write bp (upd_buf bp (\<lambda>b. b\<lparr>data := put32 (data b) k addr\<rparr>) s) else Ok s) (\<lambda>s.
                    bindR (brelse bp s) (\<lambda>s. Ok (addr, s))))
              else bindR (brelse bp s) (\<lambda>s. Ok (addr, s)))"
      using False ind m(1) unfolding bmap_def Let_def x(1) [symmetric] by simp
    show ?thesis unfolding run
    proof (rule endsR_bindI [OF bread_unchanged [OF inv]], goal_cases)
      case (1 r)
      then obtain bp t u where r: "r = (bp, t)" "data (bufs t ! bp) = blk s (i_addrs x ! NDIRECT)" "brelse bp t = Ok u" "unchanged s u" by (cases r) auto
      then show ?case using m(3) fb by (simp add: Let_def)
    qed
  qed
qed

section \<open>Reading a range\<close>

lemma chunk_divmod:
  fixes off i B :: nat
  assumes "off mod B + i < B"
  shows "(off + i) div B = off div B" "(off + i) mod B = off mod B + i"
proof -
  show m: "(off + i) mod B = off mod B + i" using mod_add_left_eq [of off B i] assms by simp
  have "(off + i) div B * B = off div B * B"
    using div_mult_mod_eq [of "off + i" B] div_mult_mod_eq [of off B] m by linarith
  then show "(off + i) div B = off div B" using assms by simp
qed

lemma chunk_bytes:
  assumes "m \<le> BSIZE - off mod BSIZE"
  shows "map (\<lambda>i. blk s (file_block s x (off div BSIZE)) (off mod BSIZE + i)) [0..<m] = map (file_byte s x) [off..<off + m]"
proof (rule nth_equalityI)
  fix i assume "i < length (map (\<lambda>i. blk s (file_block s x (off div BSIZE)) (off mod BSIZE + i)) [0..<m])"
  then have i: "i < m" by simp
  then have "off mod BSIZE + i < BSIZE" using assms by simp
  then have "(off + i) div BSIZE = off div BSIZE" "(off + i) mod BSIZE = off mod BSIZE + i" by (rule chunk_divmod)+
  then show "map (\<lambda>i. blk s (file_block s x (off div BSIZE)) (off mod BSIZE + i)) [0..<m] ! i = map (file_byte s x) [off..<off + m] ! i"
    using i by (simp add: file_byte_def)
qed simp

text \<open>
  What \<^verbatim>\<open>readi\<close> asks of a destination: \<open>I tot dst out s\<close> says that \<open>tot\<close> bytes of the content \<open>c\<close>
  have arrived and that \<open>dst\<close> is where the next one goes, and copying the next chunk out of a
  buffer brings \<open>m\<close> more bytes, or fails with -1 and \<open>F\<close>. It changes nothing but memory.
\<close>

locale read_target =
  fixes pt :: uint64 and dataa :: "nat \<Rightarrow> uint64" and n :: nat and c :: "nat \<Rightarrow> uchar"
    and I :: "nat \<Rightarrow> dest \<Rightarrow> uchar list \<Rightarrow> 'z fs_scheme \<Rightarrow> bool" and F :: "'z fs_scheme \<Rightarrow> bool"
  assumes I_mem: "I tot dst out s \<Longrightarrow> mem s' = mem s \<Longrightarrow> I tot dst out s'"
    and F_mem: "F s \<Longrightarrow> mem s' = mem s \<Longrightarrow> F s'"
    and step: "I tot dst out s \<Longrightarrow> bp < NBUF \<Longrightarrow> 0 < m \<Longrightarrow> off + m \<le> BSIZE \<Longrightarrow> tot + m \<le> n \<Longrightarrow>
      (\<And>i. i < m \<Longrightarrow> data (bufs s ! bp) (off + i) = c (tot + i)) \<Longrightarrow>
      \<exists>r out' m'. copy_out pt dataa dst bp off m out s = (r, out', s\<lparr>mem := m'\<rparr>) \<and>
        (if r = -1 then F (s\<lparr>mem := m'\<rparr>) else I (tot + m) (dest_add dst m) out' (s\<lparr>mem := m'\<rparr>))"
begin

lemma read_chunk:
  assumes "I tot dst out u" "bp < NBUF" "0 < m" "off + m \<le> BSIZE" "tot + m \<le> n"
    and "\<And>i. i < m \<Longrightarrow> data (bufs u ! bp) (off + i) = c (tot + i)" and "brelse bp u = Ok v" "unchanged t v"
  obtains r out' v' where "(case copy_out pt dataa dst bp off m out u of (r, out, s) \<Rightarrow>
        if r = -1 then bindR (brelse bp s) (\<lambda>s. Ok (-1, out, s)) else bindR (brelse bp s) (k out)) =
      (if r = (-1 :: int) then Ok (-1, out', v') else k out' v')"
    "if r = -1 then F v' else I (tot + m) (dest_add dst m) out' v'" "unchanged (t\<lparr>mem := mem v'\<rparr>) v'"
proof -
  obtain r out' m' where r: "copy_out pt dataa dst bp off m out u = (r, out', u\<lparr>mem := m'\<rparr>)"
    "if r = -1 then F (u\<lparr>mem := m'\<rparr>) else I (tot + m) (dest_add dst m) out' (u\<lparr>mem := m'\<rparr>)"
    using step [OF assms(1-6)] by blast
  have b: "brelse bp (u\<lparr>mem := m'\<rparr>) = Ok (v\<lparr>mem := m'\<rparr>)" by (rule brelse_mem [OF assms(7)])
  show thesis
  proof (rule that [of r out' "v\<lparr>mem := m'\<rparr>"])
    show "if r = -1 then F (v\<lparr>mem := m'\<rparr>) else I (tot + m) (dest_add dst m) out' (v\<lparr>mem := m'\<rparr>)"
      using r(2) by (auto intro: I_mem F_mem split: if_splits)
    show "unchanged (t\<lparr>mem := mem (v\<lparr>mem := m'\<rparr>)\<rparr>) (v\<lparr>mem := m'\<rparr>)" using unchanged_mem [OF assms(8)] by simp
  qed (simp add: r(1) b)
qed

lemma readi_loop_target:
  assumes x: "x = itable s ! ip" "mapped s x" and c: "\<And>i. i < n \<Longrightarrow> c i = file_byte s x (off0 + i)"
    and size: "off0 + n \<le> unat (i_size x)"
  shows "unchanged (s\<lparr>mem := mem s'\<rparr>) s' \<Longrightarrow> tot \<le> n \<Longrightarrow> I tot dst out s' \<Longrightarrow>
    endsR (cache_msgs s) (\<lambda>(r, out', t). unchanged (s\<lparr>mem := mem t\<rparr>) t \<and>
        (r = of_nat n \<and> (\<exists>dst'. I n dst' out' t) \<or> r = -1 \<and> F t))
      (readi_loop pt dataa ip dst (off0 + tot) n tot out s')"
proof (induction "n - tot" arbitrary: tot dst out s' rule: less_induct)
  case less
  let ?s = "s\<lparr>mem := mem s'\<rparr>" and ?o = "off0 + tot"
  note S = unchangedD [OF less.prems(1)]
  show ?case
  proof (cases "tot < n")
    case False
    then show ?thesis using less.prems by (subst readi_loop.simps) auto
  next
    case True
    let ?m = "min (n - tot) (BSIZE - ?o mod BSIZE)" and ?B = "file_block s x (?o div BSIZE)"
    have i: "?o < unat (i_size x)" using True size by simp
    have m: "0 < ?m" "?o mod BSIZE + ?m \<le> BSIZE" "tot + ?m \<le> n" using True by (simp_all add: BSIZE_def)
    have x': "x = itable s' ! ip" "mapped s' x" using x S by (simp_all add: mapped_def)
    have B: "?B \<noteq> 0" "i_dev x = ROOTDEV" using x(2) i by (auto simp: mapped_def)
    have cm: "cache_msgs s' = cache_msgs s" using S(6) by (simp add: cache_msgs_def)
    show ?thesis unfolding readi_loop.simps [of pt dataa ip dst ?o n tot out s'] if_P [OF True]
    proof (rule endsR_bindI [OF bmap_mapped [OF S(1) x' i, unfolded cm]], goal_cases)
      case (1 r)
      then obtain t where r: "r = (?B, t)" "unchanged s' t" using S(5) by (cases r) auto
      note T = unchangedD [OF r(2)]
      have dv: "i_dev (itable t ! ip) = ROOTDEV" using T(3) x'(1) B(2) by simp
      have cm': "cache_msgs t = cache_msgs s" using T(6) cm by simp
      show ?case unfolding r(1) split if_not_P [OF B(1)] dv
      proof (rule endsR_bindI [OF bread_unchanged [OF T(1), unfolded cm']], goal_cases)
        case (1 q)
        then obtain bp u v where q: "q = (bp, u)" "bp < NBUF" "data (bufs u ! bp) = blk s ?B" "mem u = mem t" "brelse bp u = Ok v" "unchanged t v"
          using T(2) S(2) by (cases q) auto
        have I: "I tot dst out u" using less.prems(3) q(4) T(7) by (auto intro: I_mem)
        have d: "data (bufs u ! bp) (?o mod BSIZE + i) = c (tot + i)" if "i < ?m" for i
        proof -
          have lt: "?o mod BSIZE + i < BSIZE" "tot + i < n" using that m(2,3) by linarith+
          then show ?thesis
            using chunk_divmod [OF lt(1)] c [OF lt(2)] by (simp add: q(3) file_byte_def add.assoc)
        qed
        obtain rr out' v' where k: "(case copy_out pt dataa dst bp (?o mod BSIZE) ?m out u of (r, out, s) \<Rightarrow>
            if r = -1 then bindR (brelse bp s) (\<lambda>s. Ok (-1, out, s))
            else bindR (brelse bp s) (readi_loop pt dataa ip (dest_add dst ?m) (?o + ?m) n (tot + ?m) out)) =
            (if rr = (-1 :: int) then Ok (-1, out', v') else readi_loop pt dataa ip (dest_add dst ?m) (?o + ?m) n (tot + ?m) out' v')"
          "if rr = -1 then F v' else I (tot + ?m) (dest_add dst ?m) out' v'" "unchanged (t\<lparr>mem := mem v'\<rparr>) v'"
        proof (rule read_chunk [OF I q(2) m d q(5,6), where k = "readi_loop pt dataa ip (dest_add dst ?m) (?o + ?m) n (tot + ?m)"], goal_cases)
          case (2 rr out' v')
          show thesis by (rule that [OF 2(2-4)])
        qed
        have "unchanged (?s\<lparr>mem := mem v'\<rparr>) (t\<lparr>mem := mem v'\<rparr>)"
          by (intro unchanged_mem unchanged_trans [OF less.prems(1) r(2)])
        then have u: "unchanged (s\<lparr>mem := mem v'\<rparr>) v'" using k(3) unchanged_trans by simp
        have "n - (tot + ?m) < n - tot" using m(1) True by simp
        note less.hyps [OF this u m(3)]
        then show ?case unfolding q(1) Let_def split k(1) using k(2) u by (simp add: add.assoc split: if_splits)
      qed
    qed
  qed
qed

end

subsection \<open>Kernel objects\<close>

definition kernel_got :: "memory \<Rightarrow> (nat \<Rightarrow> uchar) \<Rightarrow> nat \<Rightarrow> dest \<Rightarrow> uchar list \<Rightarrow> 'z fs_scheme \<Rightarrow> bool" where
  "kernel_got m0 c tot dst out s \<longleftrightarrow> dst = KernelDst tot \<and> out = map c [0..<tot] \<and> mem s = m0"

lemma put_at_end: "put_at (length out) bs out = out @ bs"
  by (rule nth_equalityI) (auto simp: put_at_def nth_append)

interpretation kernel: read_target pt dataa n c "kernel_got m0 c" "\<lambda>s :: 'z fs_scheme. False"
proof unfold_locales
  fix tot dst out bp m off and s :: "'z fs_scheme"
  assume i: "kernel_got m0 c tot dst out s" and d: "\<And>i. i < m \<Longrightarrow> data (bufs s ! bp) (off + i) = c (tot + i)"
  have "map (\<lambda>i. data (bufs s ! bp) (off + i)) [0..<m] = map c [tot..<tot + m]"
    using d by (auto simp: list_eq_iff_nth_eq)
  moreover have "[0..<tot + m] = [0..<tot] @ [tot..<tot + m]" by (rule upt_add_eq_append) simp
  ultimately show "\<exists>r out' m'. copy_out pt dataa dst bp off m out s = (r, out', s\<lparr>mem := m'\<rparr>) \<and>
      (if r = -1 then False else kernel_got m0 c (tot + m) (dest_add dst m) out' (s\<lparr>mem := m'\<rparr>))"
    using i put_at_end [of out] by (auto simp: kernel_got_def intro!: exI [of _ "mem s"])
qed (simp_all add: kernel_got_def)

subsection \<open>User buffers\<close>

text \<open>
  The data of the buffers lies apart from the page tables and from the user's buffer, whose
  bytes are distinct bytes of memory; part of it may be unmapped.
\<close>

definition clear_of :: "(nat \<Rightarrow> uint64) \<Rightarrow> uint64 \<Rightarrow> bool" where
  "clear_of dataa x \<longleftrightarrow> (\<forall>b < NBUF. BSIZE \<le> unat (x - dataa b))"

definition user_buf :: "uint64 set \<Rightarrow> uint64 \<Rightarrow> (nat \<Rightarrow> uint64) \<Rightarrow> uint64 \<Rightarrow> nat \<Rightarrow> 'z kmem_scheme \<Rightarrow> bool" where
  "user_buf R pt dataa va n s \<longleftrightarrow> pt \<in> R \<and> (\<forall>v. walkaddr pt v s < PHYSTOP) \<and>
     (\<forall>b < NBUF. unat (dataa b) + BSIZE < 2 ^ 64) \<and> (\<forall>x \<in> pages (tables (mem s) R). clear_of dataa x) \<and>
     (\<forall>i < n. \<forall>pa. user_pa s pt (va + of_nat i) = Some pa \<longrightarrow> pa \<notin> pages (tables (mem s) R) \<and> clear_of dataa pa) \<and>
     (\<forall>i < n. \<forall>j < n. \<forall>pa. user_pa s pt (va + of_nat i) = Some pa \<longrightarrow> user_pa s pt (va + of_nat j) = Some pa \<longrightarrow> i = j)"

definition written_only :: "'z kmem_scheme \<Rightarrow> uint64 \<Rightarrow> (nat \<Rightarrow> uint64) \<Rightarrow> uint64 \<Rightarrow> nat \<Rightarrow> 'z kmem_scheme \<Rightarrow> bool" where
  "written_only s0 pt dataa va n s \<longleftrightarrow>
     (\<forall>v. user_pa s pt v = user_pa s0 pt v) \<and> (\<forall>x. clear_of dataa x \<longrightarrow> x \<notin> written s0 pt va n \<longrightarrow> mem s x = mem s0 x)"

definition user_got :: "uint64 set \<Rightarrow> uint64 \<Rightarrow> (nat \<Rightarrow> uint64) \<Rightarrow> uint64 \<Rightarrow> nat \<Rightarrow> (nat \<Rightarrow> uchar) \<Rightarrow> 'z fs_scheme \<Rightarrow>
    nat \<Rightarrow> dest \<Rightarrow> uchar list \<Rightarrow> 'z fs_scheme \<Rightarrow> bool" where
  "user_got R pt dataa va n c s0 tot dst out s \<longleftrightarrow>
     dst = UserDst (va + of_nat tot) \<and> user_buf R pt dataa va n s \<and> written_only s0 pt dataa va n s \<and>
     user_range s0 pt va tot \<and> user_bytes s pt va tot = map c [0..<tot]"

lemma same_memory:
  assumes "mem s' = mem s"
  shows "user_pa s' r va = user_pa s r va" "walkaddr r va s' = walkaddr r va s"
  using user_pa_outside [of s "{r}" s' r va] walkaddr_outside [of s "{r}" s' r va] assms by simp_all

lemma user_buf_outside:
  assumes ok: "user_buf R pt dataa va n s" and out: "\<And>x. x \<in> pages (tables (mem s) R) \<Longrightarrow> mem s' x = mem s x"
  shows "user_buf R pt dataa va n s'" "user_pa s' pt v = user_pa s pt v" "tables (mem s') R = tables (mem s) R"
proof -
  have r: "pt \<in> R" using ok by (simp add: user_buf_def)
  have up: "user_pa s' pt v = user_pa s pt v" for v by (rule user_pa_outside [OF out r])
  then show "user_pa s' pt v = user_pa s pt v" .
  show tb: "tables (mem s') R = tables (mem s) R" by (rule tables_cong) (rule table_outside [OF out])
  have "walkaddr pt v s' = walkaddr pt v s" for v by (rule walkaddr_outside [OF out r])
  then show "user_buf R pt dataa va n s'" using ok up tb by (simp add: user_buf_def)
qed

lemma user_buf_copyout_ok:
  assumes ok: "user_buf R pt dataa va n s" and bp: "bp < NBUF" and m: "off + m \<le> BSIZE" "tot + m \<le> n"
  shows "copyout_ok R pt (va + of_nat tot) (dataa bp + of_nat off) m s"
proof -
  have b: "unat (dataa bp) + BSIZE < 2 ^ 64" using ok bp by (simp add: user_buf_def)
  then have "unat (of_nat off :: uint64) = off" using m(1) by (intro unat_of_nat_small) simp
  then have src: "unat (dataa bp + of_nat off) + m < 2 ^ 64"
    using b m(1) unat_plus_if_size [of "dataa bp" "of_nat off"] by (simp add: word_size)
  have sh: "va + of_nat tot + of_nat i = va + of_nat (tot + i)" for i by simp
  have far: "m \<le> unat (x - (dataa bp + of_nat off))" if "clear_of dataa x" for x
  proof -
    have "BSIZE \<le> unat (x - dataa bp)" using that bp by (simp add: clear_of_def)
    then show ?thesis using offset_split(3) [of off m x "dataa bp"] m(1) b by simp
  qed
  show ?thesis unfolding copyout_ok_def sh
  proof (intro conjI allI impI)
    fix i pa assume i: "i < m" "user_pa s pt (va + of_nat (tot + i)) = Some pa"
    then have "tot + i < n" using m(2) by simp
    then have "pa \<notin> pages (tables (mem s) R)" "clear_of dataa pa" using ok i(2) unfolding user_buf_def by blast+
    then show "pa \<notin> pages (tables (mem s) R)" "m \<le> unat (pa - (dataa bp + of_nat off))" using far by blast+
  next
    fix i j pa assume "i < m" "j < m" "user_pa s pt (va + of_nat (tot + i)) = Some pa" "user_pa s pt (va + of_nat (tot + j)) = Some pa"
    moreover have "tot + i < n" "tot + j < n" using \<open>i < m\<close> \<open>j < m\<close> m(2) by simp_all
    ultimately have "tot + i = tot + j" using ok unfolding user_buf_def by blast
    then show "i = j" by simp
  qed (use ok src in \<open>auto simp: user_buf_def\<close>)
qed

lemma put_block_user:
  fixes s :: "'z fs_scheme" and x :: block
  assumes ok: "user_buf R pt dataa va n s" and bp: "bp < NBUF"
  defines "s1 \<equiv> put_block (dataa bp) x s"
  shows "user_buf R pt dataa va n s1" "user_pa s1 pt v = user_pa s pt v" "\<And>y. clear_of dataa y \<Longrightarrow> mem s1 y = mem s y"
    "tables (mem s1) R = tables (mem s) R" "i < BSIZE \<Longrightarrow> mem s1 (dataa bp + of_nat i) = x i"
proof -
  show ap: "mem s1 y = mem s y" if "clear_of dataa y" for y
    using that bp by (auto simp: s1_def put_block_def clear_of_def not_less)
  have out: "mem s1 y = mem s y" if "y \<in> pages (tables (mem s) R)" for y
    using that ok by (intro ap) (auto simp: user_buf_def)
  show "user_buf R pt dataa va n s1" "user_pa s1 pt v = user_pa s pt v" "tables (mem s1) R = tables (mem s) R"
    using user_buf_outside [OF ok out] by blast+
  show "mem s1 (dataa bp + of_nat i) = x i" if "i < BSIZE"
  proof -
    have "unat (of_nat i :: uint64) = i" using that by (intro unat_of_nat_small) (simp add: BSIZE_def)
    then show ?thesis using that by (simp add: s1_def put_block_def)
  qed
qed

lemma written_chunk:
  assumes "tot + m \<le> n" "\<And>v. user_pa s pt v = user_pa s0 pt v"
  shows "written s pt (va + of_nat tot) m \<subseteq> written s0 pt va n"
proof
  fix x assume "x \<in> written s pt (va + of_nat tot) m"
  then obtain i where "i < m" "user_pa s0 pt (va + of_nat (tot + i)) = Some x" by (auto simp: written_def assms(2) add.assoc)
  moreover have "tot + i < n" using \<open>i < m\<close> assms(1) by simp
  ultimately show "x \<in> written s0 pt va n" unfolding written_def by blast
qed

lemma written_only_step:
  assumes "written_only s0 pt dataa va n s" "\<And>v. user_pa s' pt v = user_pa s pt v" "W \<subseteq> written s0 pt va n"
    and "\<And>x. clear_of dataa x \<Longrightarrow> x \<notin> W \<Longrightarrow> mem s' x = mem s x"
  shows "written_only s0 pt dataa va n s'"
  unfolding written_only_def
proof (intro conjI allI impI)
  fix x assume x: "clear_of dataa x" "x \<notin> written s0 pt va n"
  then have "mem s' x = mem s x" using assms(3) by (intro assms(4)) auto
  then show "mem s' x = mem s0 x" using x assms(1) by (simp add: written_only_def)
qed (use assms(1,2) in \<open>simp add: written_only_def\<close>)

lemma user_chunk:
  assumes g: "user_got R pt dataa va n c s0 tot dst out s" and bp: "bp < NBUF" and m: "off + m \<le> BSIZE" "tot + m \<le> n"
    and d: "\<And>i. i < m \<Longrightarrow> data (bufs s ! bp) (off + i) = c (tot + i)"
    and co: "user_range s pt (va + of_nat tot) m"
      "copied_out (put_block (dataa bp) (data (bufs s ! bp)) s) pt (va + of_nat tot) (dataa bp + of_nat off) m (mem s')"
    and s': "\<And>v. user_pa s' pt v = user_pa s pt v" "user_buf R pt dataa va n s'"
  shows "user_got R pt dataa va n c s0 (tot + m) (dest_add dst m) out' s'"
proof -
  let ?s1 = "put_block (dataa bp) (data (bufs s ! bp)) s"
  have G: "dst = UserDst (va + of_nat tot)" "user_buf R pt dataa va n s" "written_only s0 pt dataa va n s" "user_range s0 pt va tot"
    "user_bytes s pt va tot = map c [0..<tot]" using g by (simp_all add: user_got_def)
  note P = put_block_user [OF G(2) bp, where x = "data (bufs s ! bp)"]
  have up: "user_pa s pt v = user_pa s0 pt v" for v using G(3) by (simp add: written_only_def)
  have sh: "va + of_nat tot + of_nat i = va + of_nat (tot + i)" for i by simp
  have keep: "mem s' x = mem s x" if "clear_of dataa x" "x \<notin> written s pt (va + of_nat tot) m" for x
    using co(2) P(2,3) that by (simp add: copied_out_def written_def)
  have sub: "written s pt (va + of_nat tot) m \<subseteq> written s0 pt va n" by (rule written_chunk [OF m(2) up])
  have "user_range s0 pt (va + of_nat tot) m" using co(1) by (simp add: user_range_def up)
  then have rg: "user_range s0 pt va (tot + m)" using G(4) by (simp add: user_range_add)
  have byte: "mem s' (the (user_pa s' pt (va + of_nat i))) = c i" if i: "i < tot + m" for i
  proof (cases "i < tot")
    case True
    obtain pa where pa: "user_pa s pt (va + of_nat i) = Some pa" using G(4) True up by (auto simp: user_range_def)
    have "i < n" using i m(2) by simp
    then have ap: "clear_of dataa pa" using G(2) pa unfolding user_buf_def by blast
    have "pa \<notin> written s pt (va + of_nat tot) m"
    proof
      assume "pa \<in> written s pt (va + of_nat tot) m"
      then obtain j where j: "j < m" "user_pa s pt (va + of_nat (tot + j)) = Some pa" by (auto simp: written_def sh)
      have "i < n" "tot + j < n" using i j m(2) by simp_all
      then have "i = tot + j" using G(2) pa j(2) unfolding user_buf_def by blast
      then show False using True by simp
    qed
    then have "mem s' pa = mem s pa" using ap by (rule keep [rotated])
    moreover have "map c [0..<tot] ! i = user_bytes s pt va tot ! i" by (simp add: G(5))
    ultimately show ?thesis using True pa s'(1) by (simp add: user_bytes_def)
  next
    case False
    then have k: "i - tot < m" "va + of_nat tot + of_nat (i - tot) = va + of_nat i" using i unfolding sh by simp_all
    have "mem s' (the (user_pa s pt (va + of_nat i))) = mem ?s1 (dataa bp + of_nat (off + (i - tot)))"
      using co(2) k P(2) by (auto simp: copied_out_def add.assoc dest!: spec [of _ "i - tot"])
    also have "\<dots> = c i" using P(5) [of "off + (i - tot)"] d [OF k(1)] k(1) m(1) False by simp
    finally show ?thesis using s'(1) by simp
  qed
  have "user_bytes s' pt va (tot + m) = map c [0..<tot + m]"
    using byte by (simp add: user_bytes_def)
  moreover have "written_only s0 pt dataa va n s'"
    by (rule written_only_step [OF G(3) s'(1) sub keep])
  ultimately show ?thesis using G(1) rg s'(2) by (simp add: user_got_def add.assoc)
qed

definition user_failed :: "uint64 \<Rightarrow> (nat \<Rightarrow> uint64) \<Rightarrow> uint64 \<Rightarrow> nat \<Rightarrow> 'z fs_scheme \<Rightarrow> 'z fs_scheme \<Rightarrow> bool" where
  "user_failed pt dataa va n s0 s \<longleftrightarrow> written_only s0 pt dataa va n s \<and> \<not> user_range s0 pt va n"

lemma user_chunk_fails:
  assumes g: "user_got R pt dataa va n c s0 tot dst out s" and bp: "bp < NBUF" and m: "tot + m \<le> n"
    and co: "\<not> user_range s pt (va + of_nat tot) m" "\<And>v. user_pa s' pt v = user_pa s pt v"
      "\<And>x. clear_of dataa x \<Longrightarrow> x \<notin> written s pt (va + of_nat tot) m \<Longrightarrow> mem s' x = mem s x"
  shows "user_failed pt dataa va n s0 s'"
proof -
  have w: "written_only s0 pt dataa va n s" using g by (simp add: user_got_def)
  then have up: "user_pa s pt v = user_pa s0 pt v" for v by (simp add: written_only_def)
  obtain i where i: "i < m" "user_pa s0 pt (va + of_nat (tot + i)) = None"
    using co(1) by (auto simp: user_range_def up add.assoc)
  moreover have "tot + i < n" using i(1) m by simp
  ultimately have "\<not> user_range s0 pt va n" unfolding user_range_def by blast
  moreover have "written s pt (va + of_nat tot) m \<subseteq> written s0 pt va n" by (rule written_chunk [OF m up])
  from written_only_step [OF w co(2) this co(3)] have "written_only s0 pt dataa va n s'" .
  ultimately show ?thesis by (simp add: user_failed_def)
qed

interpretation user: read_target pt dataa n c "user_got R pt dataa va n c (s0 :: 'z fs_scheme)" "user_failed pt dataa va n s0"
proof unfold_locales
  fix tot dst out and s s' :: "'z fs_scheme"
  assume e: "mem s' = mem s"
  show "user_failed pt dataa va n s0 s'" if "user_failed pt dataa va n s0 s"
    using that same_memory(1) [OF e] e by (simp add: user_failed_def written_only_def)
  show "user_got R pt dataa va n c s0 tot dst out s'" if "user_got R pt dataa va n c s0 tot dst out s"
  proof -
    have "user_buf R pt dataa va n s' = user_buf R pt dataa va n s" "user_bytes s' pt va tot = user_bytes s pt va tot"
      "written_only s0 pt dataa va n s' = written_only s0 pt dataa va n s"
      by (simp_all only: user_buf_def user_bytes_def written_only_def same_memory [OF e] e)
    then show ?thesis using that by (simp add: user_got_def)
  qed
next
  fix tot dst out bp m off and s :: "'z fs_scheme"
  assume g: "user_got R pt dataa va n c s0 tot dst out s" and bp: "bp < NBUF" and m: "0 < m" "off + m \<le> BSIZE" "tot + m \<le> n"
    and d: "\<And>i. i < m \<Longrightarrow> data (bufs s ! bp) (off + i) = c (tot + i)"
  let ?s1 = "put_block (dataa bp) (data (bufs s ! bp)) s" and ?va = "va + of_nat tot"
  have G: "dst = UserDst ?va" "user_buf R pt dataa va n s" using g by (simp_all add: user_got_def)
  note P = put_block_user [OF G(2) bp, where x = "data (bufs s ! bp)"]
  have um: "unat (of_nat m :: uint64) = m" using m(2) by (intro unat_of_nat_small) (simp add: BSIZE_def)
  have ok: "copyout_ok R pt ?va (dataa bp + of_nat off) (unat (of_nat m :: uint64)) ?s1"
    unfolding um by (rule user_buf_copyout_ok [OF P(1) bp m(2,3)])
  obtain r s2 where r: "copyout pt ?va (dataa bp + of_nat off) (of_nat m) ?s1 = (r, s2)" by force
  have rg: "user_range ?s1 pt ?va k = user_range s pt ?va k" "written ?s1 pt ?va k = written s pt ?va k" for k
    by (simp_all add: user_range_def written_def P(2))
  have s2: "s2 = s\<lparr>mem := mem s2\<rparr>"
    using copyout_spec [OF ok] r by (auto simp: put_block_def split: if_splits)
  have same: "user_pa s2 pt v = user_pa s pt v" for v using copyout_keeps(2) [OF ok r] P(2) by simp
  have buf: "user_buf R pt dataa va n s2"
    using P(1) copyout_keeps [OF ok r] by (simp add: user_buf_def)
  have res: "if r = -1 then user_failed pt dataa va n s0 s2 else user_got R pt dataa va n c s0 (tot + m) (dest_add dst m) out s2"
  proof (cases "user_range s pt ?va m")
    case True
    then have co: "r = 0" "copied_out ?s1 pt ?va (dataa bp + of_nat off) m (mem s2)"
      using copyout_spec [OF ok] r by (auto simp: um rg)
    then show ?thesis using user_chunk [OF g bp m(2,3) d True co(2) same buf] by simp
  next
    case False
    then have co: "r = -1" "\<forall>x. x \<notin> written s pt ?va m \<longrightarrow> mem s2 x = mem ?s1 x"
      using copyout_spec [OF ok] r by (auto simp: um rg)
    then show ?thesis using P(3) by (auto intro!: user_chunk_fails [OF g bp m(3) False same])
  qed
  moreover have "copy_out pt dataa dst bp off m out s = (r, out, s\<lparr>mem := mem s2\<rparr>)"
    using G(1) r s2 by (simp add: either_copyout_def)
  ultimately show "\<exists>r out' m'. copy_out pt dataa dst bp off m out s = (r, out', s\<lparr>mem := m'\<rparr>) \<and>
      (if r = -1 then user_failed pt dataa va n s0 (s\<lparr>mem := m'\<rparr>)
       else user_got R pt dataa va n c s0 (tot + m) (dest_add dst m) out' (s\<lparr>mem := m'\<rparr>))"
    using s2 by metis
qed

subsection \<open>The whole call\<close>

definition read_len :: "inode \<Rightarrow> uint \<Rightarrow> uint \<Rightarrow> nat" where
  "read_len x off n = (if off > i_size x \<or> off + n < off then 0 else min (unat n) (unat (i_size x) - unat off))"

lemma unat_read_len: "unat (of_nat (read_len x off n) :: uint) = read_len x off n"
proof -
  have "read_len x off n < 2 ^ 32" using unat_lt2p [of n] by (simp add: read_len_def min_less_iff_disj)
  then show ?thesis by (intro unat_of_nat_small) simp
qed

lemma readi_range:
  shows "readi pt dataa ip dst off n s = (if off > i_size (itable s ! ip) \<or> off + n < off then Ok (0, [], s)
      else readi_loop pt dataa ip dst (unat off) (read_len (itable s ! ip) off n) 0 [] s)"
    and "read_len (itable s ! ip) off n \<noteq> 0 \<Longrightarrow> unat off + read_len (itable s ! ip) off n \<le> unat (i_size (itable s ! ip))"
proof -
  let ?x = "itable s ! ip" and ?N = "if off + n > i_size (itable s ! ip) then i_size (itable s ! ip) - off else n"
  have un: "unat ?N = read_len ?x off n" if ok: "\<not> (off > i_size ?x \<or> off + n < off)"
  proof -
    have "unat (off + n) = unat off + unat n" using ok by (simp add: unat_plus_simple not_less)
    then show ?thesis using ok by (auto simp: read_len_def word_less_nat_alt word_le_nat_alt unat_sub not_less)
  qed
  then show "readi pt dataa ip dst off n s = (if off > i_size ?x \<or> off + n < off then Ok (0, [], s)
      else readi_loop pt dataa ip dst (unat off) (read_len ?x off n) 0 [] s)"
    unfolding readi_def Let_def by (simp del: not_less)
  show "unat off + read_len ?x off n \<le> unat (i_size ?x)" if "read_len ?x off n \<noteq> 0"
    using that by (auto simp: read_len_def word_less_nat_alt not_less split: if_splits)
qed

lemma readi_ok:
  fixes s :: "'z fs_scheme"
  assumes inv: "log_inv {} s" and x: "mapped s (itable s ! ip)"
  shows "endsR (cache_msgs s) (\<lambda>(r, bs, s'). r = of_nat (read_len (itable s ! ip) off n) \<and>
      bs = map (file_byte s (itable s ! ip)) [unat off..<unat off + read_len (itable s ! ip) off n] \<and> unchanged s s')
    (readi pt dataa ip (KernelDst 0) off n s)"
proof (cases "read_len (itable s ! ip) off n = 0")
  case True
  then show ?thesis using unchanged_refl [OF inv] unfolding readi_range(1) by (subst readi_loop.simps) simp
next
  case False
  let ?k = "read_len (itable s ! ip) off n" and ?c = "\<lambda>i. file_byte s (itable s ! ip) (unat off + i)"
  have run: "readi pt dataa ip (KernelDst 0) off n s = readi_loop pt dataa ip (KernelDst 0) (unat off + 0) ?k 0 [] s"
    unfolding readi_range(1) using False by (auto simp: read_len_def split: if_splits)
  have u: "unchanged (s\<lparr>mem := mem s\<rparr>) s" using unchanged_refl [OF inv] by simp
  have g: "kernel_got (mem s) ?c 0 (KernelDst 0) [] s" by (simp add: kernel_got_def)
  have up: "map ?c [0..<?k] = map (file_byte s (itable s ! ip)) [unat off..<unat off + ?k]"
    by (auto simp: list_eq_iff_nth_eq)
  show ?thesis unfolding run
  proof (rule endsR_mono [OF kernel.readi_loop_target [OF refl x refl readi_range(2) [OF False] u le0 g]], goal_cases)
    case (2 q)
    then show ?case using up by (cases q) (auto simp: kernel_got_def)
  qed simp
qed

lemma readi_user_ok:
  fixes s :: "'z fs_scheme"
  assumes inv: "log_inv {} s" and x: "mapped s (itable s ! ip)" and buf: "user_buf R pt dataa va (read_len (itable s ! ip) off n) s"
  shows "endsR (cache_msgs s) (\<lambda>(r, bs, s'). unchanged (s\<lparr>mem := mem s'\<rparr>) s' \<and>
      written_only s pt dataa va (read_len (itable s ! ip) off n) s' \<and>
      (if user_range s pt va (read_len (itable s ! ip) off n)
       then r = of_nat (read_len (itable s ! ip) off n) \<and> user_bytes s' pt va (read_len (itable s ! ip) off n) =
         map (file_byte s (itable s ! ip)) [unat off..<unat off + read_len (itable s ! ip) off n]
       else r = -1))
    (readi pt dataa ip (UserDst va) off n s)"
proof -
  let ?k = "read_len (itable s ! ip) off n" and ?c = "\<lambda>i. file_byte s (itable s ! ip) (unat off + i)"
  have u: "unchanged (s\<lparr>mem := mem s\<rparr>) s" using unchanged_refl [OF inv] by simp
  have w: "written_only s pt dataa va ?k s" by (simp add: written_only_def)
  show ?thesis
  proof (cases "?k = 0")
    case True
    then show ?thesis using u w unfolding readi_range(1) by (subst readi_loop.simps) (simp add: user_range_def)
  next
    case False
    have run: "readi pt dataa ip (UserDst va) off n s = readi_loop pt dataa ip (UserDst va) (unat off + 0) ?k 0 [] s"
      unfolding readi_range(1) using False by (auto simp: read_len_def split: if_splits)
    have g: "user_got R pt dataa va ?k ?c s 0 (UserDst va) [] s" using buf w by (simp add: user_got_def user_range_def)
    have up: "map ?c [0..<?k] = map (file_byte s (itable s ! ip)) [unat off..<unat off + ?k]"
      by (auto simp: list_eq_iff_nth_eq)
    show ?thesis unfolding run
    proof (rule endsR_mono [OF user.readi_loop_target [OF refl x refl readi_range(2) [OF False] u le0 g]], goal_cases)
      case (2 q)
      then show ?case using up by (cases q) (auto simp: user_got_def user_failed_def)
    qed simp
  qed
qed

text \<open>
  C16. Reading a file gives its content. For an inode whose blocks up to its size are allocated,
  \<^verbatim>\<open>readi\<close> reads exactly the bytes from \<open>off\<close> on that its direct and indirect blocks hold, cut at
  the end of the file, and nothing when the range wraps or starts past the end. Into a kernel
  object they arrive from its start on, and memory is untouched; into a user buffer they arrive
  at consecutive addresses if all of these are mapped, the result being -1 otherwise, and of memory
  only the user's buffer and the block buffers change. In both cases no block and no inode
  changes, and the call can only fail when the log has pinned all buffers.
\<close>

theorem readi_returns_content:
  fixes s :: "'z fs_scheme" and off n :: uint
  assumes "log_inv {} s" "mapped s (itable s ! ip)"
  defines "k \<equiv> read_len (itable s ! ip) off n"
  defines "content \<equiv> map (file_byte s (itable s ! ip)) [unat off..<unat off + k]"
  shows "endsR (cache_msgs s) (\<lambda>(r, obj, s'). unat r = k \<and> obj = content \<and>
        mem s' = mem s \<and> log_inv {} s' \<and> blk s' = blk s \<and> itable s' = itable s)
      (readi pt dataa ip (KernelDst 0) off n s) \<and>
    (user_buf R pt dataa va k s \<longrightarrow>
      endsR (cache_msgs s) (\<lambda>(r, obj, s'). (if user_range s pt va k then unat r = k \<and> user_bytes s' pt va k = content else r = -1) \<and>
          written_only s pt dataa va k s' \<and> log_inv {} s' \<and> blk s' = blk s \<and> itable s' = itable s)
        (readi pt dataa ip (UserDst va) off n s))"
proof (intro conjI impI, goal_cases)
  case 1
  show ?case unfolding k_def content_def
    by (intro endsR_mono [OF readi_ok [OF assms(1,2)]]) (auto simp: unchangedD unat_read_len)
next
  case 2
  show ?case unfolding k_def content_def
  proof (rule endsR_mono [OF readi_user_ok [OF assms(1,2) 2 [unfolded k_def]]], goal_cases)
    case (2 q)
    obtain r bs t where q: "q = (r, bs, t)" by (cases q)
    have "unchanged (s\<lparr>mem := mem t\<rparr>) t" using 2(2) q by simp
    from unchangedD(1-3) [OF this] show ?case using 2(2) unfolding q split by (simp add: unat_read_len split: if_splits)
  qed simp
qed

section \<open>Directories\<close>

text \<open>The name in an array of \<open>n\<close> bytes, and the entries of a directory.\<close>

definition array_name :: "nat \<Rightarrow> uchar list \<Rightarrow> uchar list" where
  "array_name n p = takeWhile (\<lambda>c. c \<noteq> 0) (take n p)"

lemma arr_ncmp_zero: "arr_ncmp p q n = 0 \<longleftrightarrow> array_name n p = array_name n q"
proof (induction n arbitrary: p q)
  case 0
  then show ?case by (simp add: array_name_def)
next
  case (Suc n)
  show ?case using Suc.IH [of "tl p" "tl q"] by (cases p; cases q) (auto simp: array_name_def Let_def word_uint_eq_iff)
qed

definition dirent_at :: "'z fs_scheme \<Rightarrow> inode \<Rightarrow> nat \<Rightarrow> uchar list" where
  "dirent_at s x k = map (file_byte s x) [16 * k..<16 * k + 16]"

definition entry_matches :: "uchar list \<Rightarrow> uchar list \<Rightarrow> bool" where
  "entry_matches name de \<longleftrightarrow> dirent_inum de \<noteq> 0 \<and> array_name DIRSIZ (drop 2 de) = array_name DIRSIZ name"

definition find_entry :: "'z fs_scheme \<Rightarrow> inode \<Rightarrow> uchar list \<Rightarrow> nat option" where
  "find_entry s x name = find (\<lambda>k. entry_matches name (dirent_at s x k)) [0..<unat (i_size x) div 16]"

text \<open>
  Taking a reference to an inode: the table entry that is in use for it counts one more, or, when
  there is none, a free entry becomes the entry for it, with one reference and nothing loaded.
\<close>

definition in_use :: "uint \<Rightarrow> inode \<Rightarrow> bool" where
  "in_use inum x \<longleftrightarrow> 0 < i_ref x \<and> i_dev x = ROOTDEV \<and> i_inum x = inum"

definition took_ref :: "inode list \<Rightarrow> uint \<Rightarrow> nat \<Rightarrow> inode list \<Rightarrow> bool" where
  "took_ref tb inum ip tb' \<longleftrightarrow> ip < length tb \<and>
     (if \<exists>x \<in> set tb. in_use inum x
      then in_use inum (tb ! ip) \<and> tb' = tb[ip := (tb ! ip)\<lparr>i_ref := i_ref (tb ! ip) + 1\<rparr>]
      else i_ref (tb ! ip) = 0 \<and> tb' = tb[ip := (tb ! ip)\<lparr>i_dev := ROOTDEV, i_inum := inum, i_ref := 1, i_valid := False\<rparr>])"

definition iget_msgs :: "inode list \<Rightarrow> uint \<Rightarrow> string set" where
  "iget_msgs tb inum = (if \<exists>x \<in> set tb. in_use inum x \<or> i_ref x = 0 then {} else {''iget: no inodes''})"

lemma first_idxD: "first_idx P xs = Some i \<Longrightarrow> i < length xs \<and> P (xs ! i)"
  using first_idx_length [of P xs i] first_idx_sat [of P xs i] by simp

lemma iget_ok:
  "endsR (iget_msgs (itable s) inum) (\<lambda>(ip, s'). took_ref (itable s) inum ip (itable s') \<and> s' = s\<lparr>itable := itable s'\<rparr>) (iget ROOTDEV inum s)"
proof -
  have iu: "(\<lambda>x. 0 < i_ref x \<and> i_dev x = ROOTDEV \<and> i_inum x = inum) = in_use inum" by (simp add: fun_eq_iff in_use_def)
  show ?thesis
  proof (cases "first_idx (in_use inum) (itable s)")
    case (Some ip)
    then have ip: "ip < length (itable s)" "in_use inum (itable s ! ip)" using first_idxD [OF Some] by simp_all
    then have "\<exists>x \<in> set (itable s). in_use inum x" by (meson nth_mem)
    then show ?thesis using Some ip by (simp add: iget_def iu took_ref_def upd_inode_def)
  next
    case None
    then have no: "\<not> (\<exists>x \<in> set (itable s). in_use inum x)" by (simp add: first_idx_None)
    show ?thesis
    proof (cases "first_idx (\<lambda>ip. i_ref ip = 0) (itable s)")
      case (Some ip)
      then have "ip < length (itable s)" "i_ref (itable s ! ip) = 0" using first_idxD [OF Some] by simp_all
      then show ?thesis using None Some no by (simp add: iget_def iu took_ref_def upd_inode_def)
    next
      case None': None
      then have "\<not> (\<exists>x \<in> set (itable s). in_use inum x \<or> i_ref x = 0)" using no by (simp add: first_idx_None)
      then show ?thesis using None None' by (simp add: iget_def iu iget_msgs_def)
    qed
  qed
qed

text \<open>The panics a lookup may end in: nothing but a full inode table, and only if an entry was found.\<close>

definition lookup_msgs :: "'z fs_scheme \<Rightarrow> inode \<Rightarrow> nat option \<Rightarrow> string set" where
  "lookup_msgs s x found = cache_msgs s \<union>
     (case found of None \<Rightarrow> {} | Some k \<Rightarrow> iget_msgs (itable s) (ucast (dirent_inum (dirent_at s x k))))"

lemma dirlookup_loop_ok:
  fixes s :: "'z fs_scheme"
  assumes x: "x = itable s ! dp" "mapped s x" and n: "16 dvd unat (i_size x)"
  shows "unchanged s s' \<Longrightarrow> k \<le> unat (i_size x) div 16 \<Longrightarrow>
    endsR (lookup_msgs s x (find (\<lambda>k. entry_matches name (dirent_at s x k)) [k..<unat (i_size x) div 16]))
      (\<lambda>(r, s''). case find (\<lambda>k. entry_matches name (dirent_at s x k)) [k..<unat (i_size x) div 16] of
          None \<Rightarrow> r = None \<and> unchanged s s''
        | Some j \<Rightarrow> \<exists>ip t. r = Some (ip, 16 * j) \<and> took_ref (itable s) (ucast (dirent_inum (dirent_at s x j))) ip (itable s'') \<and>
            unchanged s t \<and> s'' = t\<lparr>itable := itable s''\<rparr>)
      (dirlookup_loop pt dataa dp name (16 * k) s')"
proof (induction "unat (i_size x) div 16 - k" arbitrary: k s')
  case 0
  then have "k = unat (i_size x) div 16" by simp
  then have k: "16 * k = unat (i_size x)" using n by simp
  show ?case using 0 k x(1) unchangedD(3) [OF 0(2)] by (subst dirlookup_loop.simps) simp
next
  case (Suc m)
  note S = unchangedD [OF Suc.prems(1)]
  let ?N = "unat (i_size x) div 16"
  have k: "k < ?N" using Suc.hyps(2) by simp
  then have k16: "16 * k + 16 \<le> unat (i_size x)" using n by (metis Suc_leI dvd_mult_div_cancel mult_Suc_right add.commute mult_le_mono2)
  have up: "[k..<?N] = k # [Suc k..<?N]" using k by (rule upt_conv_Cons)
  have cond: "16 * k < unat (i_size (itable s' ! dp))" using k16 S(3) x(1) by simp
  have x': "mapped s' (itable s' ! dp)" using x S by (simp add: mapped_def)
  let ?o = "of_nat (16 * k) :: uint"
  have uo: "unat ?o = 16 * k" using k16 unat_lt2p [of "i_size x"] by (intro unat_of_nat_small) simp
  have ox: "unat ?o + 16 \<le> unat (i_size x)" using uo k16 by simp
  have "unat (?o + 16) = unat ?o + 16" using ox unat_lt2p [of "i_size x"] by (simp add: unat_word_ariths del: of_nat_mult)
  then have rl: "read_len x ?o 16 = 16" using ox by (auto simp: read_len_def word_less_nat_alt)
  show ?case unfolding dirlookup_loop.simps [of pt dataa dp name "16 * k" s'] if_P [OF cond]
  proof (rule endsR_bind [OF readi_ok [OF S(1) x']], goal_cases)
    case 1
    then show ?case by (simp add: lookup_msgs_def S(6))
  next
    case (2 r)
    then obtain t where r: "r = (16, dirent_at s x k, t)" "unchanged s' t"
      using S x(1) rl uo by (cases r) (auto simp: dirent_at_def cong: map_cong)
    have st: "unchanged s t" by (rule unchanged_trans [OF Suc.prems(1) r(2)])
    note T = unchangedD [OF st]
    have nc: "namecmp name (drop 2 (dirent_at s x k)) = 0 \<longleftrightarrow> array_name DIRSIZ (drop 2 (dirent_at s x k)) = array_name DIRSIZ name"
      by (auto simp: namecmp_def arr_ncmp_zero)
    have dv: "i_dev (itable t ! dp) = ROOTDEV" using T(3) x by (simp add: mapped_def)
    show ?case
    proof (cases "entry_matches name (dirent_at s x k)")
      case True
      then have m: "dirent_inum (dirent_at s x k) \<noteq> 0" "namecmp name (drop 2 (dirent_at s x k)) = 0" using nc by (simp_all add: entry_matches_def)
      show ?thesis unfolding r(1) split up using m True dv
        by (simp add: endsR_bindR) (rule endsR_mono [OF iget_ok], use st T(3) in \<open>auto simp: lookup_msgs_def\<close>)
    next
      case False
      then have run: "(case r of (r, de, s) \<Rightarrow> if r \<noteq> 16 then Panic ''dirlookup read''
          else if dirent_inum de = 0 then dirlookup_loop pt dataa dp name (16 * k + 16) s
          else if namecmp name (drop 2 de) = 0 then bindR (iget (i_dev (itable s ! dp)) (ucast (dirent_inum de)) s) (\<lambda>(ip, s). Ok (Some (ip, 16 * k), s))
          else dirlookup_loop pt dataa dp name (16 * k + 16) s) = dirlookup_loop pt dataa dp name (16 * Suc k) t"
        using r(1) nc by (auto simp: entry_matches_def add.commute)
      have "m = ?N - Suc k" "Suc k \<le> ?N" using Suc.hyps(2) k by simp_all
      from Suc.hyps(1) [OF this(1) st this(2)] show ?thesis unfolding run up using False by simp
    qed
  qed
qed

lemma itable_blk: "s' = t\<lparr>itable := i\<rparr> \<Longrightarrow> blk s' = blk t"
  by (rule blk_cong) simp_all

text \<open>
  C18. Looking up a name in a directory. For an allocated directory of whole entries, \<^verbatim>\<open>dirlookup\<close>
  finds the first entry in use whose name, up to \<open>DIRSIZ\<close> bytes or its NUL, is the one sought. It
  returns the entry's offset and takes a reference to its inode: one more on the table entry in
  use for it, or the first on a free one. Without such an entry it returns nothing and the table
  is unchanged. No block and no memory changes. It panics only when the log has pinned all buffers,
  or when an entry was found and the table has neither an entry for the inode nor a free one.
\<close>

theorem dirlookup_finds_entry:
  fixes s :: "'z fs_scheme"
  assumes "log_inv {} s" "mapped s (itable s ! dp)" "16 dvd unat (i_size (itable s ! dp))" "i_type (itable s ! dp) = T_DIR"
  shows "endsR (lookup_msgs s (itable s ! dp) (find_entry s (itable s ! dp) name))
    (\<lambda>(r, s'). blk s' = blk s \<and> mem s' = mem s \<and>
      (case find_entry s (itable s ! dp) name of
         None \<Rightarrow> r = None \<and> itable s' = itable s
       | Some k \<Rightarrow> \<exists>ip. r = Some (ip, 16 * k) \<and>
           took_ref (itable s) (ucast (dirent_inum (dirent_at s (itable s ! dp) k))) ip (itable s')))
    (dirlookup pt dataa dp name s)"
proof -
  note L = dirlookup_loop_ok [OF refl assms(2,3) unchanged_refl [OF assms(1)], of 0 name pt dataa, folded find_entry_def]
  have run: "dirlookup pt dataa dp name s = dirlookup_loop pt dataa dp name (16 * 0) s" using assms(4) by (simp add: dirlookup_def)
  show ?thesis unfolding run
  proof (rule endsR_mono [OF L], goal_cases)
    case (3 q)
    obtain r s' where q: "q = (r, s')" by (cases q)
    show ?case
    proof (cases "find_entry s (itable s ! dp) name")
      case None
      then show ?thesis using 3(2) q by (auto simp: unchangedD)
    next
      case (Some k)
      then obtain ip t where t: "r = Some (ip, 16 * k)" "took_ref (itable s) (ucast (dirent_inum (dirent_at s (itable s ! dp) k))) ip (itable s')"
        "unchanged s t" "s' = t\<lparr>itable := itable s'\<rparr>" using 3(2) q by auto
      have "blk s' = blk t" "mem s' = mem t" using itable_blk [OF t(4)] arg_cong [OF t(4), of mem] by simp_all
      then show ?thesis using t(1,2) unchangedD(2,7) [OF t(3)] Some q by simp
    qed
  qed simp_all
qed

section \<open>Paths\<close>

text \<open>The elements of a path.\<close>

fun path_elems :: "uchar list \<Rightarrow> uchar list list" where
  "path_elems [] = [[]]"
| "path_elems (c # cs) = (if c = slash then [] # path_elems cs else case path_elems cs of [] \<Rightarrow> [[c]] | e # es \<Rightarrow> (c # e) # es)"

definition elements :: "uchar list \<Rightarrow> uchar list list" where
  "elements path = filter (\<lambda>e. e \<noteq> []) (path_elems path)"

lemma path_elems_nonempty: "path_elems cs \<noteq> []"
  by (cases cs) (auto split: list.splits)

lemma elements_slash: "elements (slash # cs) = elements cs"
  by (simp add: elements_def)

lemma elements_dropWhile: "elements (dropWhile (\<lambda>c. c = slash) cs) = elements cs"
  by (induction cs) (auto simp: elements_slash)

lemma path_elems_prefix: "slash \<notin> set e \<Longrightarrow> path_elems (e @ cs) = (case path_elems cs of [] \<Rightarrow> [] | f # fs \<Rightarrow> (e @ f) # fs)"
proof (induction e)
  case Nil
  then show ?case by (cases "path_elems cs") auto
next
  case (Cons c e)
  then show ?case using path_elems_nonempty [of cs] by (auto split: list.splits)
qed

lemma elements_first:
  assumes "e \<noteq> []" "slash \<notin> set e" "cs = [] \<or> hd cs = slash"
  shows "elements (e @ cs) = e # elements cs"
  using assms path_elems_prefix [OF assms(2), of cs] by (cases cs) (auto simp: elements_def)

lemma first_elem:
  assumes "q \<noteq> []" "hd q \<noteq> slash"
  shows "elements q = takeWhile (\<lambda>c. c \<noteq> slash) q # elements (dropWhile (\<lambda>c. c \<noteq> slash) q)"
proof -
  have "takeWhile (\<lambda>c. c \<noteq> slash) q \<noteq> []" "slash \<notin> set (takeWhile (\<lambda>c. c \<noteq> slash) q)"
    using assms by (cases q, auto dest: set_takeWhileD)
  moreover have "dropWhile (\<lambda>c. c \<noteq> slash) q = [] \<or> hd (dropWhile (\<lambda>c. c \<noteq> slash) q) = slash"
    using hd_dropWhile [of "\<lambda>c. c \<noteq> slash" q] by auto
  ultimately show ?thesis using elements_first [of "takeWhile (\<lambda>c. c \<noteq> slash) q" "dropWhile (\<lambda>c. c \<noteq> slash) q"] by simp
qed

lemma elements_Nil: "q = [] \<or> hd q \<noteq> slash \<Longrightarrow> q = [] \<longleftrightarrow> elements q = []"
  using first_elem [of q] by (cases q) (auto simp: elements_def)

lemma array_name_elem: "0 \<notin> set e \<Longrightarrow> array_name n (if length e \<ge> n then take n e @ xs else e @ [0] @ ys) = take n e"
proof -
  assume "0 \<notin> set e"
  then have e: "\<forall>c \<in> set e. c \<noteq> 0" by metis
  then have "\<forall>c \<in> set (take n e). c \<noteq> 0" by (meson in_set_takeD)
  then have "takeWhile (\<lambda>c. c \<noteq> 0) (take n e) = take n e" by (simp add: takeWhile_eq_all_conv)
  moreover have "takeWhile (\<lambda>c. c \<noteq> 0) (e @ 0 # zs) = e" for zs using e by (simp add: takeWhile_append2)
  ultimately show ?thesis by (simp add: array_name_def take_Cons')
qed

text \<open>C29. Walking a path.  \<^verbatim>\<open>skipelem\<close> yields the elements of a path one by one: it returns nothing
  exactly when none is left, and otherwise puts the next element, cut to \<open>DIRSIZ\<close> bytes, in the name
  array and returns the path of the remaining elements without leading slashes, empty exactly after
  the last one.\<close>

theorem skipelem_walks_elements:
  assumes "length name = DIRSIZ" "0 \<notin> set path"
  shows "case skipelem path name of
      None \<Rightarrow> elements path = []
    | Some (path', name') \<Rightarrow> \<exists>e. elements path = e # elements path' \<and> array_name DIRSIZ name' = take DIRSIZ e \<and>
        length name' = DIRSIZ \<and> (path' = [] \<longleftrightarrow> elements path' = []) \<and> (path' \<noteq> [] \<longrightarrow> hd path' \<noteq> slash)"
proof -
  let ?p = "dropWhile (\<lambda>c. c = slash) path"
  let ?e = "takeWhile (\<lambda>c. c \<noteq> slash) ?p" and ?r = "dropWhile (\<lambda>c. c \<noteq> slash) ?p"
  let ?q = "dropWhile (\<lambda>c. c = slash) ?r"
  have ep: "elements ?p = elements path" by (rule elements_dropWhile)
  show ?thesis
  proof (cases "?p = []")
    case True
    have "elements path = []" using ep unfolding True by (simp add: elements_def)
    then show ?thesis using True by (simp add: skipelem_def Let_def)
  next
    case False
    have h: "hd ?p \<noteq> slash" using False hd_dropWhile [of "\<lambda>c. c = slash" path] by simp
    have el: "elements path = ?e # elements ?q" using first_elem [OF False h] ep elements_dropWhile [of ?r] by simp
    have hq: "?q \<noteq> [] \<longrightarrow> hd ?q \<noteq> slash" using hd_dropWhile [of "\<lambda>c. c = slash" ?r] by blast
    have nq: "?q = [] \<longleftrightarrow> elements ?q = []" using hq by (intro elements_Nil) blast
    have e0: "0 \<notin> set ?e" using assms(2) by (auto dest!: set_takeWhileD set_dropWhileD)
    let ?nm = "if length ?e \<ge> DIRSIZ then take DIRSIZ ?e @ drop DIRSIZ name else ?e @ [0] @ drop (length ?e + 1) name"
    from e0 have an: "array_name DIRSIZ ?nm = take DIRSIZ ?e" by (rule array_name_elem)
    have ln: "length ?nm = DIRSIZ" using assms(1) by simp
    have "skipelem path name = Some (?q, ?nm)" using False by (simp only: skipelem_def Let_def if_False)
    then show ?thesis using el an ln nq hq by (simp only: option.case prod.case) blast
  qed
qed

theorem skipelem_walks_elements_witness:
  "\<exists>e. elements [47, 97, 47, 47, 98] = e # elements [98] \<and> skipelem [47, 97, 47, 47, 98] (replicate DIRSIZ 1) = Some ([98], [97, 0, 1, 1, 1, 1, 1, 1, 1, 1, 1, 1, 1, 1])"
proof -
  have s: "skipelem [47, 97, 47, 47, 98] (replicate DIRSIZ 1) = Some ([98], [97, 0, 1, 1, 1, 1, 1, 1, 1, 1, 1, 1, 1, 1])"
    by code_simp
  show ?thesis using skipelem_walks_elements [of "replicate DIRSIZ 1" "[47, 97, 47, 47, 98]"] unfolding s by auto
qed

section \<open>An example directory\<close>

text \<open>A root directory in block 46 with the entries \<^verbatim>\<open>.\<close> (inode 1) and \<^verbatim>\<open>a\<close> (inode 2).\<close>

definition root_inode :: inode where
  "root_inode = \<lparr>i_dev = ROOTDEV, i_inum = 1, i_ref = 1, i_lock = initsleeplock, i_valid = True, i_type = T_DIR, i_major = 0, i_minor = 0,
     i_nlink = 1, i_size = 32, i_addrs = 46 # replicate 12 0\<rparr>"

definition free_inode :: inode where
  "free_inode = root_inode\<lparr>i_inum := 0, i_ref := 0, i_valid := False\<rparr>"

definition dir_example :: fs where
  "dir_example = binit (fs_power\<lparr>disk := (\<lambda>b x. if b = 46 then (if x = 0 then 1 else if x = 2 then 46 else if x = 16 then 2 else if x = 18 then 97 else 0) else 0),
     itable := [root_inode, free_inode]\<rparr>)"

lemma dir_example_ok:
  "log_inv {} dir_example" "itable dir_example = [root_inode, free_inode]" "mapped dir_example root_inode" "cache_msgs dir_example = {}"
  "i < 1024 \<Longrightarrow> file_byte dir_example root_inode i = (if i = 0 then 1 else if i = 2 then 46 else if i = 16 then 2 else if i = 18 then 97 else 0)"
proof -
  let ?p = "fs_power\<lparr>disk := (\<lambda>b x. if b = 46 then (if x = 0 then 1 else if x = 2 then 46 else if x = 16 then 2 else if x = 18 then 97 else 0) else 0),
     itable := [root_inode, free_inode]\<rparr>"
  have b: "bio_inv {} {} (binit ?p)" "blk (binit ?p) = disk ?p" by (rule binit_inv; simp add: fs_power_def)+
  have l: "lhn (binit ?p) = 0" "ldev (binit ?p) = ROOTDEV" "lhblock (binit ?p) = replicate LOGSIZE 0"
    by (simp_all add: binit_def binit_loop_log_fields binit_loop_log fs_power_def)
  then show "log_inv {} dir_example" using b(1) by (simp add: dir_example_def log_inv_def logged_list_def)
  show "cache_msgs dir_example = {}" using l(1) by (simp add: dir_example_def cache_msgs_def NBUF_def MAXOPBLOCKS_def)
  show "itable dir_example = [root_inode, free_inode]" by (simp add: dir_example_def binit_def binit_loop_fs)
  have fb: "file_block dir_example root_inode 0 = 46" by (simp add: file_block_def root_inode_def fs_consts)
  then show "mapped dir_example root_inode" by (auto simp: mapped_def root_inode_def fs_consts)
  show "file_byte dir_example root_inode i = (if i = 0 then 1 else if i = 2 then 46 else if i = 16 then 2 else if i = 18 then 97 else 0)" if "i < 1024"
    using that fb b(2) by (simp add: file_byte_def dir_example_def BSIZE_def)
qed

text \<open>The same directory beside the page table of an example process, the buffers above both.\<close>

definition read_example :: fs where
  "read_example = dir_example\<lparr>mem := mem vm_example\<rparr>"

definition data_example :: "nat \<Rightarrow> uint64" where
  "data_example b = 0x80300000 + of_nat (1024 * b)"

lemma data_example_apart:
  assumes "unat x < 0x80204000"
  shows "clear_of data_example x"
  unfolding clear_of_def
proof (intro allI impI)
  fix b assume "b < NBUF"
  then have b: "1024 * b < 30720" by (simp add: NBUF_def MAXOPBLOCKS_def)
  then have "unat (of_nat (1024 * b) :: uint64) = 1024 * b" by (intro unat_of_nat_small) simp
  then have "unat (data_example b) = 0x80300000 + 1024 * b"
    using b unat_plus_if_size [of "0x80300000 :: uint64" "of_nat (1024 * b)"] by (simp add: data_example_def word_size del: of_nat_mult)
  then show "BSIZE \<le> unat (x - data_example b)"
    using assms b unat_sub_if_size [of x "data_example b"] by (simp add: word_size BSIZE_def)
qed

lemma read_example_user:
  "walkaddr 0x80200000 va read_example = walkaddr 0x80200000 va vm_example"
  "user_pa read_example 0x80200000 va = user_pa vm_example 0x80200000 va"
proof -
  have "mem read_example = mem vm_example" by (simp add: read_example_def)
  then show w: "walkaddr 0x80200000 va read_example = walkaddr 0x80200000 va vm_example" for va
    by (simp only: walkaddr_table)
  show "user_pa read_example 0x80200000 va = user_pa vm_example 0x80200000 va" by (simp add: user_pa_def w)
qed

lemma in_page_below: "x \<in> page t \<Longrightarrow> unat t \<le> 0x80203000 \<Longrightarrow> unat x < 0x80204000"
  using unat_plus_if_size [of t "x - t"] by (simp add: word_size)

lemma read_example_buf: "user_buf {0x80200000} 0x80200000 data_example 0 2 read_example"
proof -
  have tb: "tables (mem read_example) {0x80200000} = {0x80200000, 0x80201000, 0x80202000}"
    using vm_example_tables by (simp add: read_example_def)
  have pa: "user_pa read_example 0x80200000 (of_nat i) = Some (0x80203000 + of_nat i)" if "i < 2" for i
    using vm_example_user_pa [of i] that by (simp add: read_example_user)
  have "unat (0x80203000 + of_nat i :: uint64) < 0x80204000" if "i < 2" for i
    using that by (auto simp: less_2_cases_iff)
  then have ap: "clear_of data_example (0x80203000 + of_nat i)" if "i < 2" for i using that data_example_apart by blast
  have nt: "0x80203000 + of_nat i \<notin> pages {0x80200000, 0x80201000, 0x80202000 :: uint64}" if "i < 2" for i
    using that by (auto simp: less_2_cases_iff)
  have "unat (data_example b) + BSIZE < 2 ^ 64" if "b < NBUF" for b
  proof -
    have "1024 * b < 30720" using that by (simp add: NBUF_def MAXOPBLOCKS_def)
    then have "unat (data_example b) \<le> 0x80300000 + 30720"
      unfolding data_example_def using unat_plus_if_size [of "0x80300000 :: uint64" "of_nat (1024 * b)"]
        unat_of_nat_small [of "1024 * b", where 'a = 64] by (simp add: word_size del: of_nat_mult)
    then show ?thesis by (simp add: BSIZE_def)
  qed
  moreover have "clear_of data_example x" if "x \<in> pages {0x80200000, 0x80201000, 0x80202000 :: uint64}" for x
    using that in_page_below by (intro data_example_apart) auto
  ultimately show ?thesis
    using ap nt pa by (auto simp: user_buf_def tb read_example_user vm_example_walkaddr PHYSTOP_eq less_2_cases_iff)
qed

lemma read_example_ok:
  "log_inv {} read_example" "itable read_example = [root_inode, free_inode]" "mapped read_example root_inode" "cache_msgs read_example = {}"
  "i < 1024 \<Longrightarrow> file_byte read_example root_inode i = (if i = 0 then 1 else if i = 2 then 46 else if i = 16 then 2 else if i = 18 then 97 else 0)"
  using dir_example_ok by (simp_all add: read_example_def)

theorem readi_returns_content_witness:
  "(\<exists>s'. readi 0x80200000 data_example 0 (KernelDst 0) 16 2 read_example = Ok (2, [2, 0], s')) \<and>
   (\<exists>obj s'. readi 0x80200000 data_example 0 (UserDst 0) 16 2 read_example = Ok (2, obj, s') \<and> user_bytes s' 0x80200000 0 2 = [2, 0])"
proof -
  have m: "mapped read_example (itable read_example ! 0)" by (simp add: read_example_ok)
  have l: "read_len root_inode 16 2 = 2" by (simp add: read_len_def root_inode_def)
  have u: "map (file_byte read_example root_inode) [unat (16 :: uint)..<unat (16 :: uint) + 2] = [2, 0]"
    by (simp add: upt_rec read_example_ok)
  have two: "r = 2" if "unat r = 2" for r :: cint using that by (simp add: word_unat_eq_iff)
  have rg: "user_range read_example 0x80200000 0 2"
    using vm_example_user_pa by (auto simp: user_range_def read_example_user)
  note T = readi_returns_content [OF read_example_ok(1) m, of 16 2 "0x80200000" data_example "{0x80200000}" 0]
  have "endsR {} (\<lambda>(r, obj, s'). unat r = 2 \<and> obj = [2, 0]) (readi 0x80200000 data_example 0 (KernelDst 0) 16 2 read_example)"
    by (rule endsR_mono [OF conjunct1 [OF T]]) (auto simp: read_example_ok l u)
  moreover have "endsR {} (\<lambda>(r, obj, s'). unat r = 2 \<and> user_bytes s' 0x80200000 0 2 = [2, 0])
      (readi 0x80200000 data_example 0 (UserDst 0) 16 2 read_example)"
    by (rule endsR_mono [OF mp [OF conjunct2 [OF T]]]) (use read_example_buf rg in \<open>auto simp: read_example_ok l u\<close>)
  ultimately show ?thesis by (fastforce dest!: endsR_emptyD dest: two)
qed

theorem dirlookup_finds_entry_witness:
  "\<exists>s'. dirlookup 0 (\<lambda>i. 0) 0 (97 # replicate 13 0) dir_example = Ok (Some (1, 16), s') \<and>
     i_ref (itable s' ! 1) = 1 \<and> i_inum (itable s' ! 1) = 2"
proof -
  have m: "mapped dir_example (itable dir_example ! 0)" by (simp add: dir_example_ok)
  have t: "16 dvd unat (i_size (itable dir_example ! 0))" "i_type (itable dir_example ! 0) = T_DIR"
    by (simp_all add: dir_example_ok(2) root_inode_def)
  have d: "dirent_at dir_example root_inode 0 = 1 # 0 # 46 # replicate 13 0" "dirent_at dir_example root_inode (Suc 0) = 2 # 0 # 97 # replicate 13 0"
    by (simp_all add: dirent_at_def dir_example_ok upt_rec eval_nat_numeral)
  have i: "dirent_inum (1 # 0 # 46 # replicate 13 0) = 1" "dirent_inum (2 # 0 # 97 # replicate 13 0) = 2"
    by code_simp+
  have n: "unat (i_size root_inode) div 16 = 2" "[0..<2] = [0, 1 :: nat]" by (simp_all add: root_inode_def upt_rec)
  have f: "find_entry dir_example root_inode (97 # replicate 13 0) = Some 1"
    by (simp add: find_entry_def n d entry_matches_def i array_name_def DIRSIZ_def)
  have u: "\<not> in_use 2 root_inode" "\<not> in_use 2 free_inode" "i_ref root_inode \<noteq> 0" "i_ref free_inode = 0"
    by (simp_all add: in_use_def root_inode_def free_inode_def)
  have "ip = 1 \<and> i_ref (tb ! 1) = 1 \<and> i_inum (tb ! 1) = 2" if "took_ref [root_inode, free_inode] 2 ip tb" for ip tb
    using that u by (cases ip) (auto simp: took_ref_def)
  then have "endsR {} (\<lambda>(r, s'). r = Some (1, 16) \<and> i_ref (itable s' ! 1) = 1 \<and> i_inum (itable s' ! 1) = 2)
      (dirlookup 0 (\<lambda>i. 0) 0 (97 # replicate 13 0) dir_example)"
    using u by (intro endsR_mono [OF dirlookup_finds_entry [OF dir_example_ok(1) m t]])
      (auto simp: dir_example_ok f d i lookup_msgs_def iget_msgs_def)
  then show ?thesis by (auto dest!: endsR_emptyD)
qed

end
