(* ===== verification/Grep.thy ===== *)
theory Grep
  imports Prelude
begin

text \<open>
  \<^verbatim>\<open>user/grep.c\<close>: the pattern matcher and the loop that reads a file through a 1024-byte buffer.
  A C string is the list of its characters before the NUL; \<^verbatim>\<open>strchr\<close> is the one of
  \<^verbatim>\<open>user/ulib.c\<close>. The file is the list of its characters, and \<^verbatim>\<open>read\<close> returns at its \<open>i\<close>-th call
  up to \<open>sz i\<close> of them, never more than asked for. The lemmas give a pattern its meaning as a
  set of strings and show that the matcher decides it.
\<close>

section \<open>The program\<close>

abbreviation nul :: char where "nul \<equiv> CHR 0x00"
abbreviation newline :: char where "newline \<equiv> CHR 0x0A"

fun strchr :: "string \<Rightarrow> char \<Rightarrow> nat option" where
  "strchr [] c = None"
| "strchr (x # xs) c = (if x = nul then None else if x = c then Some 0 else map_option Suc (strchr xs c))"

function matchhere :: "string \<Rightarrow> string \<Rightarrow> bool" and matchstar :: "char \<Rightarrow> string \<Rightarrow> string \<Rightarrow> bool" where
  "matchhere re tx =
     (case re of
        [] \<Rightarrow> True
      | c # re' \<Rightarrow>
          if re' \<noteq> [] \<and> hd re' = CHR ''*'' then matchstar c (tl re') tx
          else if c = CHR ''$'' \<and> re' = [] then tx = []
          else (case tx of [] \<Rightarrow> False | t # ts \<Rightarrow> (c = CHR ''.'' \<or> c = t) \<and> matchhere re' ts))"
| "matchstar c re tx =
     (matchhere re tx \<or>
      (case tx of [] \<Rightarrow> False | t # ts \<Rightarrow> (t = c \<or> c = CHR ''.'') \<and> matchstar c re ts))"
  by pat_completeness auto
termination
proof (relation "inv_image (less_than <*lex*> less_than)
    (case_sum (\<lambda>(re, tx). (2 * length re, length tx)) (\<lambda>(c, re, tx). (2 * length re + 1, length tx)))", goal_cases)
  case (2 re tx c re')
  then show ?case by (cases re') auto
qed auto

declare matchhere.simps [simp del] matchstar.simps [simp del]

fun match_from :: "string \<Rightarrow> string \<Rightarrow> bool" where
  "match_from re [] = matchhere re []"
| "match_from re (t # ts) = (matchhere re (t # ts) \<or> match_from re ts)"

definition match :: "string \<Rightarrow> string \<Rightarrow> bool" where
  "match re tx = (if re \<noteq> [] \<and> hd re = CHR ''^'' then matchhere (tl re) tx else match_from re tx)"

text \<open>The inner loop of \<^verbatim>\<open>grep\<close>: what it writes, and the rest of the buffer at \<^verbatim>\<open>p\<close>.\<close>

lemma strchr_less: "strchr xs c = Some q \<Longrightarrow> q < length xs"
  by (induction xs arbitrary: q) (auto split: if_splits)

function grep_lines :: "string \<Rightarrow> string \<Rightarrow> string \<times> string" where
  "grep_lines pattern p =
     (case strchr p newline of
        None \<Rightarrow> ([], p)
      | Some q \<Rightarrow>
          let line = take q p;
              (out, rest) = grep_lines pattern (drop (q + 1) p)
          in ((if match pattern line then line @ [newline] else []) @ out, rest))"
  by pat_completeness auto
termination by (relation "measure (length \<circ> snd)") (auto dest: strchr_less)

declare grep_lines.simps [simp del]

function grep_loop :: "string \<Rightarrow> (nat \<Rightarrow> nat) \<Rightarrow> nat \<Rightarrow> string \<Rightarrow> string \<Rightarrow> string" where
  "grep_loop pattern sz i buf inp =
     (let n = min (sz i) (min (1024 - length buf - 1) (length inp)) in
      if n = 0 then []
      else case grep_lines pattern (buf @ take n inp) of
        (out, rest) \<Rightarrow> out @ grep_loop pattern sz (Suc i) rest (drop n inp))"
  by pat_completeness auto
termination by (relation "measure (\<lambda>(pattern, sz, i, buf, inp). length inp)") auto

declare grep_loop.simps [simp del]

definition grep :: "string \<Rightarrow> (nat \<Rightarrow> nat) \<Rightarrow> string \<Rightarrow> string" where
  "grep pattern sz inp = grep_loop pattern sz 0 [] inp"

section \<open>The meaning of a pattern\<close>

datatype item = One char | Many char

fun pattern_items :: "string \<Rightarrow> item list \<times> bool" where
  "pattern_items [] = ([], False)"
| "pattern_items (c # re) =
     (if re \<noteq> [] \<and> hd re = CHR ''*'' then apfst ((#) (Many c)) (pattern_items (tl re))
      else if c = CHR ''$'' \<and> re = [] then ([], True)
      else apfst ((#) (One c)) (pattern_items re))"

definition fits :: "char \<Rightarrow> char \<Rightarrow> bool" where
  "fits c x \<longleftrightarrow> c = CHR ''.'' \<or> x = c"

fun item_lang :: "item \<Rightarrow> string set" where
  "item_lang (One c) = {[x] | x. fits c x}"
| "item_lang (Many c) = {xs. \<forall>x \<in> set xs. fits c x}"

fun items_lang :: "item list \<Rightarrow> string set" where
  "items_lang [] = {[]}"
| "items_lang (i # is) = {xs @ ys | xs ys. xs \<in> item_lang i \<and> ys \<in> items_lang is}"

text \<open>A prefix of the text is in the language, and all of it when the pattern ends in \<^verbatim>\<open>$\<close>.\<close>

definition prefix_in :: "string \<Rightarrow> string \<Rightarrow> bool" where
  "prefix_in re tx \<longleftrightarrow>
     (\<exists>xs ys. tx = xs @ ys \<and> xs \<in> items_lang (fst (pattern_items re)) \<and> (snd (pattern_items re) \<longrightarrow> ys = []))"

definition denotes :: "string \<Rightarrow> string \<Rightarrow> bool" where
  "denotes re tx \<longleftrightarrow>
     (if re \<noteq> [] \<and> hd re = CHR ''^'' then prefix_in (tl re) tx
      else \<exists>us vs. tx = us @ vs \<and> prefix_in re vs)"

lemma prefix_in_Nil: "prefix_in [] tx"
  by (auto simp: prefix_in_def)

lemma prefix_in_dollar: "prefix_in ''$'' tx \<longleftrightarrow> tx = []"
  by (auto simp: prefix_in_def)

lemma prefix_in_One:
  assumes "\<not> (re \<noteq> [] \<and> hd re = CHR ''*'')" "\<not> (c = CHR ''$'' \<and> re = [])"
  shows "prefix_in (c # re) tx \<longleftrightarrow> (case tx of [] \<Rightarrow> False | t # ts \<Rightarrow> fits c t \<and> prefix_in re ts)"
proof -
  have it: "pattern_items (c # re) = apfst ((#) (One c)) (pattern_items re)"
    unfolding pattern_items.simps using assms by (auto simp del: pattern_items.simps)
  let ?L = "items_lang (fst (pattern_items re))" and ?e = "snd (pattern_items re)"
  have "xs \<in> items_lang (One c # is) \<longleftrightarrow> (\<exists>x ys. xs = x # ys \<and> fits c x \<and> ys \<in> items_lang is)" for xs "is"
    by (auto intro: exI [where x = "[x]" for x])
  then have "prefix_in (c # re) tx \<longleftrightarrow> (\<exists>x us ys. tx = x # us @ ys \<and> fits c x \<and> us \<in> ?L \<and> (?e \<longrightarrow> ys = []))"
    unfolding prefix_in_def it by (simp del: items_lang.simps) (metis append_Cons)
  then show ?thesis unfolding prefix_in_def by (cases tx) auto
qed

lemma prefix_in_Many:
  "prefix_in (c # CHR ''*'' # re) tx \<longleftrightarrow> prefix_in re tx \<or> (case tx of [] \<Rightarrow> False | t # ts \<Rightarrow> fits c t \<and> prefix_in (c # CHR ''*'' # re) ts)"
proof -
  let ?L = "items_lang (fst (pattern_items re))" and ?e = "snd (pattern_items re)"
  have it: "prefix_in (c # CHR ''*'' # re) t \<longleftrightarrow>
      (\<exists>as bs ys. t = as @ bs @ ys \<and> (\<forall>x \<in> set as. fits c x) \<and> bs \<in> ?L \<and> (?e \<longrightarrow> ys = []))" for t
  proof
    assume "prefix_in (c # CHR ''*'' # re) t"
    then obtain xs ys where x: "t = xs @ ys" "xs \<in> items_lang (Many c # fst (pattern_items re))" "?e \<longrightarrow> ys = []"
      by (auto simp: prefix_in_def)
    then obtain as bs where "xs = as @ bs" "\<forall>x \<in> set as. fits c x" "bs \<in> ?L" by auto
    note x(1,3) this
    then show "\<exists>as bs ys. t = as @ bs @ ys \<and> (\<forall>x \<in> set as. fits c x) \<and> bs \<in> ?L \<and> (?e \<longrightarrow> ys = [])"
      by (intro exI [of _ as] exI [of _ bs] exI [of _ ys]) simp
  next
    assume "\<exists>as bs ys. t = as @ bs @ ys \<and> (\<forall>x \<in> set as. fits c x) \<and> bs \<in> ?L \<and> (?e \<longrightarrow> ys = [])"
    then obtain as bs ys where t: "t = as @ bs @ ys" "\<forall>x \<in> set as. fits c x" "bs \<in> ?L" "?e \<longrightarrow> ys = []" by blast
    have "as @ bs \<in> items_lang (fst (pattern_items (c # CHR ''*'' # re)))" using t(2,3) by auto
    then show "prefix_in (c # CHR ''*'' # re) t"
      unfolding prefix_in_def using t(1,4) by (intro exI [of _ "as @ bs"] exI [of _ ys]) simp
  qed
  show ?thesis (is "?l \<longleftrightarrow> ?r")
  proof
    assume ?l
    then obtain as bs ys where t: "tx = as @ bs @ ys" "\<forall>x \<in> set as. fits c x" "bs \<in> ?L" "?e \<longrightarrow> ys = []" unfolding it by blast
    show ?r
    proof (cases as)
      case Nil
      then show ?thesis using t by (auto simp: prefix_in_def)
    next
      case (Cons a as')
      have "prefix_in (c # CHR ''*'' # re) (as' @ bs @ ys)" unfolding it using t Cons by auto
      then show ?thesis using t Cons by simp
    qed
  next
    assume ?r
    then show ?l
    proof
      assume "prefix_in re tx"
      then obtain bs ys where "tx = [] @ bs @ ys" "bs \<in> ?L" "?e \<longrightarrow> ys = []" by (auto simp: prefix_in_def)
      then show ?l unfolding it by (metis empty_iff empty_set)
    next
      assume "case tx of [] \<Rightarrow> False | t # ts \<Rightarrow> fits c t \<and> prefix_in (c # CHR ''*'' # re) ts"
      then obtain t ts where t: "tx = t # ts" "fits c t" "prefix_in (c # CHR ''*'' # re) ts" by (cases tx) auto
      then obtain as bs ys where "ts = as @ bs @ ys" "\<forall>x \<in> set as. fits c x" "bs \<in> ?L" "?e \<longrightarrow> ys = []" unfolding it by blast
      then have "tx = (t # as) @ bs @ ys" "\<forall>x \<in> set (t # as). fits c x" "bs \<in> ?L" "?e \<longrightarrow> ys = []" using t by auto
      then show ?l unfolding it by blast
    qed
  qed
qed

lemma matchhere_correct:
  "matchhere re tx \<longleftrightarrow> prefix_in re tx" "matchstar c re tx \<longleftrightarrow> prefix_in (c # CHR ''*'' # re) tx"
proof (induction re tx and c re tx rule: matchhere_matchstar.induct)
  case (1 re tx)
  show ?case
  proof (cases re)
    case Nil
    then show ?thesis by (simp add: matchhere.simps prefix_in_Nil)
  next
    case (Cons c re')
    consider "re' \<noteq> [] \<and> hd re' = CHR ''*''" | "\<not> (re' \<noteq> [] \<and> hd re' = CHR ''*'')" "c = CHR ''$''" "re' = []"
      | "\<not> (re' \<noteq> [] \<and> hd re' = CHR ''*'')" "\<not> (c = CHR ''$'' \<and> re' = [])" by blast
    then show ?thesis
    proof cases
      case 1
      then have "re' = CHR ''*'' # tl re'" by (cases re') auto
      then show ?thesis using "1.IH"(1) [OF Cons 1] Cons 1 by (subst matchhere.simps) simp
    next
      case 2
      then show ?thesis using Cons by (simp add: matchhere.simps prefix_in_dollar)
    next
      case 3
      then show ?thesis using "1.IH"(2) [OF Cons 3]
        by (subst matchhere.simps) (auto simp: Cons prefix_in_One [OF 3] fits_def split: list.splits)
    qed
  qed
next
  case (2 c re tx)
  then show ?case by (subst matchstar.simps, subst prefix_in_Many) (auto simp: fits_def split: list.splits)
qed

lemma match_from_correct: "match_from re tx \<longleftrightarrow> (\<exists>us vs. tx = us @ vs \<and> prefix_in re vs)"
proof (induction tx)
  case (Cons t ts)
  show ?case unfolding match_from.simps Cons.IH matchhere_correct
    by (metis append_Cons append_Nil append_eq_Cons_conv)
qed (simp add: matchhere_correct)

lemma match_correct: "match re tx \<longleftrightarrow> denotes re tx"
  by (simp add: match_def denotes_def matchhere_correct match_from_correct)

section \<open>Reading lines through a buffer\<close>

fun split_lines :: "string \<Rightarrow> string list \<times> string" where
  "split_lines [] = ([], [])"
| "split_lines (x # xs) =
     (case split_lines xs of
        (ls, r) \<Rightarrow> if x = newline then ([] # ls, r)
          else case ls of [] \<Rightarrow> ([], x # r) | l # ls' \<Rightarrow> ((x # l) # ls', r))"

lemma split_lines_free: "newline \<notin> set xs \<Longrightarrow> split_lines xs = ([], xs)"
  by (induction xs) auto

lemma split_lines_first: "newline \<notin> set xs \<Longrightarrow> split_lines (xs @ newline # ys) = apfst ((#) xs) (split_lines ys)"
  by (induction xs) (auto simp: apfst_def map_prod_def split: prod.splits)

lemma split_lines_rest: "newline \<notin> set (snd (split_lines xs))"
  by (induction xs) (auto split: prod.splits list.splits)

lemma split_lines_append: "split_lines (xs @ ys) = (case split_lines xs of (ls, r) \<Rightarrow> apfst ((@) ls) (split_lines (r @ ys)))"
proof (induction xs)
  case Nil
  show ?case by (simp add: apfst_def map_prod_def split: prod.splits)
next
  case (Cons x xs)
  obtain ls r where l: "split_lines xs = (ls, r)" by force
  obtain ms q where m: "split_lines (r @ ys) = (ms, q)" by force
  show ?case using Cons.IH l m by (auto split: list.splits)
qed

definition printed :: "string \<Rightarrow> string list \<Rightarrow> string" where
  "printed pattern ls = concat (map (\<lambda>l. l @ [newline]) (filter (denotes pattern) ls))"

lemma printed_append [simp]: "printed p (ls @ ms) = printed p ls @ printed p ms" "printed p [] = []"
  "printed p (l # ms) = (if denotes p l then l @ [newline] else []) @ printed p ms"
  by (simp_all add: printed_def)

lemma strchr_None: "nul \<notin> set xs \<Longrightarrow> strchr xs c = None \<longleftrightarrow> c \<notin> set xs"
  by (induction xs) auto

lemma strchr_Some: "strchr xs c = Some q \<Longrightarrow> c \<noteq> nul \<Longrightarrow> \<exists>as bs. xs = as @ c # bs \<and> c \<notin> set as \<and> q = length as"
proof (induction xs arbitrary: q)
  case (Cons x xs)
  show ?case
  proof (cases "x = c")
    case True
    then show ?thesis using Cons.prems by (intro exI [of _ "[]"] exI [of _ xs]) (auto split: if_splits)
  next
    case False
    then obtain r where "strchr xs c = Some r" "q = Suc r" using Cons.prems by (auto split: if_splits)
    then obtain as bs where "xs = as @ c # bs \<and> c \<notin> set as \<and> r = length as" using Cons.IH Cons.prems(2) by blast
    then show ?thesis using False \<open>q = Suc r\<close> by (intro exI [of _ "x # as"] exI [of _ bs]) auto
  qed
qed simp

lemma grep_lines_spec: "nul \<notin> set p \<Longrightarrow> grep_lines pattern p = (printed pattern (fst (split_lines p)), snd (split_lines p))"
proof (induction pattern p rule: grep_lines.induct)
  case (1 pattern p)
  show ?case
  proof (cases "strchr p newline")
    case None
    then have "newline \<notin> set p" using strchr_None 1(2) by blast
    then show ?thesis using None by (simp add: grep_lines.simps split_lines_free)
  next
    case (Some q)
    then obtain as bs where p: "p = as @ newline # bs" "newline \<notin> set as" "q = length as" using strchr_Some by fastforce
    have "grep_lines pattern (drop (q + 1) p) = (printed pattern (fst (split_lines bs)), snd (split_lines bs))"
      using "1.IH" [OF Some refl] p 1(2) by simp
    then show ?thesis using Some p(2,3) unfolding p(1)
      by (subst grep_lines.simps) (simp add: split_lines_first match_correct Let_def)
  qed
qed

text \<open>
  The lines that are read: the buffer has room for 1022 characters and the newline, and when a
  longer line fills it, \<^verbatim>\<open>read\<close> is asked for no bytes, which ends the loop.
\<close>

definition read_lines :: "string \<Rightarrow> string list" where
  "read_lines xs = takeWhile (\<lambda>l. length l \<le> 1022) (fst (split_lines xs))"

lemma split_lines_length: "length (snd (split_lines xs)) \<le> length xs" "l \<in> set (fst (split_lines xs)) \<Longrightarrow> length l < length xs"
proof -
  have "length (snd (split_lines xs)) \<le> length xs \<and> (\<forall>l \<in> set (fst (split_lines xs)). length l < length xs)"
  proof (induction xs)
    case (Cons x xs)
    then show ?case by (cases "split_lines xs") (auto split: list.splits intro: less_SucI)
  qed simp
  then show "length (snd (split_lines xs)) \<le> length xs" "l \<in> set (fst (split_lines xs)) \<Longrightarrow> length l < length xs" by blast+
qed

lemma read_lines_full:
  assumes r: "newline \<notin> set r" and len: "1023 \<le> length r"
  shows "read_lines (r @ xs) = []"
proof (cases "newline \<in> set xs")
  case True
  then obtain as bs where xs: "xs = as @ newline # bs" "newline \<notin> set as" using split_list_first by metis
  then have "split_lines (r @ xs) = apfst ((#) (r @ as)) (split_lines bs)" using split_lines_first [of "r @ as" bs] r by simp
  then show ?thesis using len by (simp add: read_lines_def)
next
  case False
  then have "split_lines (r @ xs) = ([], r @ xs)" using r by (intro split_lines_free) simp
  then show ?thesis by (simp add: read_lines_def)
qed

lemma read_lines_append:
  assumes "length xs \<le> 1023"
  shows "read_lines (xs @ ys) = fst (split_lines xs) @ read_lines (snd (split_lines xs) @ ys)"
proof -
  have "length l \<le> 1022" if "l \<in> set (fst (split_lines xs))" for l using split_lines_length(2) [OF that] assms by simp
  then have "takeWhile (\<lambda>l. length l \<le> 1022) (fst (split_lines xs) @ ls) = fst (split_lines xs) @ takeWhile (\<lambda>l. length l \<le> 1022) ls" for ls
    by (rule takeWhile_append2)
  moreover have "fst (split_lines (xs @ ys)) = fst (split_lines xs) @ fst (split_lines (snd (split_lines xs) @ ys))"
    using split_lines_append [of xs ys] by (cases "split_lines xs") (simp only: prod.case fst_apfst fst_conv snd_conv)
  ultimately show ?thesis by (simp only: read_lines_def)
qed

lemma grep_loop_spec:
  "(\<forall>i. 0 < sz i) \<Longrightarrow> nul \<notin> set (buf @ inp) \<Longrightarrow> newline \<notin> set buf \<Longrightarrow> length buf \<le> 1023 \<Longrightarrow>
    grep_loop pattern sz i buf inp = printed pattern (read_lines (buf @ inp))"
proof (induction pattern sz i buf inp rule: grep_loop.induct)
  case (1 pattern sz i buf inp)
  obtain n where nd: "n = min (sz i) (min (1024 - length buf - 1) (length inp))" by simp
  show ?case
  proof (cases "n = 0")
    case True
    then have "inp = [] \<or> 1023 \<le> length buf" using spec [OF 1(2), of i] unfolding nd by (auto simp: min_def split: if_splits)
    then have "read_lines (buf @ inp) = []" using read_lines_full [OF 1(4)] 1(4) by (auto simp: read_lines_def split_lines_free)
    then show ?thesis using True by (subst grep_loop.simps) (simp add: nd)
  next
    case False
    let ?b = "buf @ take n inp"
    have len: "length ?b \<le> 1023" using 1(5) unfolding nd by simp
    have sp: "read_lines (buf @ inp) = fst (split_lines ?b) @ read_lines (snd (split_lines ?b) @ drop n inp)"
      using read_lines_append [OF len, of "drop n inp"] by simp
    have free: "nul \<notin> set ?b" using 1(3) set_take_subset [of n inp] by auto
    note G = grep_lines_spec [OF free, of pattern]
    have sub: "set (snd (split_lines xs)) \<subseteq> set xs" for xs by (induction xs) (auto split: prod.splits list.splits)
    have "grep_loop pattern sz (Suc i) (snd (split_lines ?b)) (drop n inp) = printed pattern (read_lines (snd (split_lines ?b) @ drop n inp))"
    proof (rule "1.IH" [OF nd False G [symmetric]])
      show "\<forall>i. 0 < sz i" by (rule 1(2))
      show "nul \<notin> set (snd (split_lines ?b) @ drop n inp)" using sub [of ?b] free 1(3) set_drop_subset [of n inp] by auto
      show "newline \<notin> set (snd (split_lines ?b))" by (rule split_lines_rest)
      show "length (snd (split_lines ?b)) \<le> 1023" using split_lines_length(1) [of ?b] len by simp
    qed
    then show ?thesis using False
      by (subst grep_loop.simps) (simp only: Let_def nd [symmetric] G sp prod.case, simp)
  qed
qed



end
