(* ===== verification/Sh.thy ===== *)
theory Sh
  imports Grep
begin

text \<open>
  \<^verbatim>\<open>user/sh.c\<close>: the command parser of the shell. The command line is the list \<open>buf\<close> of the
  characters before the NUL, pointers into it are positions, and \<^verbatim>\<open>es\<close> is its length. A parsed
  command is a tree whose strings are pairs of positions, as \<^verbatim>\<open>argv\<close> and \<^verbatim>\<open>eargv\<close>, until
  \<^verbatim>\<open>nulterminate\<close> ends them in the buffer. \<^verbatim>\<open>panic\<close> ends the shell's child and is a \<open>Panic\<close>.
  The loops over tokens are total; the mutual recursion of the grammar carries a fuel, and
  \<open>line_fuel\<close> is shown to be always enough.
\<close>

section \<open>Commands\<close>

datatype cmd =
    EXEC "(nat \<times> nat) list"
  | REDIR cmd nat nat nat nat
  | PIPE cmd cmd
  | LIST cmd cmd
  | BACK cmd

definition MAXARGS :: nat where "MAXARGS = 10"

definition O_RDONLY :: nat where "O_RDONLY = 0x000"
definition O_WRONLY :: nat where "O_WRONLY = 0x001"
definition O_CREATE :: nat where "O_CREATE = 0x200"
definition O_TRUNC :: nat where "O_TRUNC = 0x400"

text \<open>Adding an argument reaches the \<^verbatim>\<open>execcmd\<close> that redirections have been wrapped around.\<close>

fun add_arg :: "nat \<times> nat \<Rightarrow> cmd \<Rightarrow> cmd" where
  "add_arg a (EXEC as) = EXEC (as @ [a])"
| "add_arg a (REDIR c file efile mode fd) = REDIR (add_arg a c) file efile mode fd"
| "add_arg a c = c"

section \<open>Tokens\<close>

definition whitespace :: string where
  "whitespace = [CHR '' '', CHR 0x09, CHR 0x0D, CHR 0x0A, CHR 0x0B]"

definition symbols :: string where
  "symbols = ''<|>&;()''"

definition char_at :: "string \<Rightarrow> nat \<Rightarrow> char" where
  "char_at buf s = (if s < length buf then buf ! s else nul)"

function skip_while :: "(char \<Rightarrow> bool) \<Rightarrow> string \<Rightarrow> nat \<Rightarrow> nat" where
  "skip_while P buf s = (if s < length buf \<and> P (buf ! s) then skip_while P buf (s + 1) else s)"
  by pat_completeness auto
termination by (relation "measure (\<lambda>(P, buf, s). length buf - s)") auto

declare skip_while.simps [simp del]

definition in_str :: "string \<Rightarrow> char \<Rightarrow> bool" where
  "in_str toks c \<longleftrightarrow> strchr toks c \<noteq> None"

definition gettoken :: "string \<Rightarrow> nat \<Rightarrow> char \<times> nat \<times> nat \<times> nat" where
  "gettoken buf s =
     (let q = skip_while (in_str whitespace) buf s;
          c = char_at buf q;
          (ret, eq) =
            (if c = nul then (c, q)
             else if c \<in> set ''|();&<'' then (c, q + 1)
             else if c = CHR ''>'' then
               (if char_at buf (q + 1) = CHR ''>'' then (CHR ''+'', q + 2) else (c, q + 1))
             else (CHR ''a'', skip_while (\<lambda>x. \<not> in_str whitespace x \<and> \<not> in_str symbols x) buf q))
      in (ret, q, eq, skip_while (in_str whitespace) buf eq))"

definition peek :: "string \<Rightarrow> string \<Rightarrow> nat \<Rightarrow> nat \<times> bool" where
  "peek buf toks s =
     (let s = skip_while (in_str whitespace) buf s in
      (s, char_at buf s \<noteq> nul \<and> in_str toks (char_at buf s)))"

lemma skip_while_ge: "s \<le> skip_while P buf s"
proof (induction P buf s rule: skip_while.induct)
  case (1 P buf s)
  then show ?case by (subst skip_while.simps) auto
qed

lemma skip_while_le: "s \<le> length buf \<Longrightarrow> skip_while P buf s \<le> length buf"
proof (induction P buf s rule: skip_while.induct)
  case (1 P buf s)
  then show ?case by (subst skip_while.simps) auto
qed

lemma char_at_nul: "char_at buf s \<noteq> nul \<Longrightarrow> s < length buf"
  by (auto simp: char_at_def split: if_splits)

lemma peek_pos: "s \<le> length buf \<Longrightarrow> s \<le> fst (peek buf toks s) \<and> fst (peek buf toks s) \<le> length buf"
  by (simp add: peek_def Let_def skip_while_ge skip_while_le)

lemma peek_less: "snd (peek buf toks s) \<Longrightarrow> fst (peek buf toks s) < length buf"
  by (auto simp: peek_def Let_def dest: char_at_nul)

text \<open>A token that is not the end of the line takes at least one character.\<close>

lemma in_str_spec: "nul \<notin> set toks \<Longrightarrow> in_str toks c \<longleftrightarrow> c \<in> set toks"
  using strchr_None [of toks c] by (simp add: in_str_def)

lemma in_white: "in_str whitespace c \<longleftrightarrow> c \<in> set whitespace"
  by (rule in_str_spec) (simp add: whitespace_def)

lemma in_symbols: "in_str symbols c \<longleftrightarrow> c \<in> set symbols"
  by (rule in_str_spec) (simp add: symbols_def)

lemma skip_while_stop: "skip_while P buf s < length buf \<Longrightarrow> \<not> P (buf ! skip_while P buf s)"
proof (induction P buf s rule: skip_while.induct)
  case (1 P buf s)
  show ?case
  proof (cases "s < length buf \<and> P (buf ! s)")
    case True
    then show ?thesis using 1 by (subst skip_while.simps, subst (asm) skip_while.simps) auto
  next
    case False
    then show ?thesis using 1(2) by (subst skip_while.simps, subst (asm) skip_while.simps) auto
  qed
qed

lemma gettoken_pos:
  assumes "gettoken buf s = (ret, q, eq, s')" "s \<le> length buf"
  shows "s \<le> s'" "s' \<le> length buf" "ret \<noteq> nul \<Longrightarrow> s < s'"
proof -
  let ?q = "skip_while (in_str whitespace) buf s" and ?W = "\<lambda>x. \<not> in_str whitespace x \<and> \<not> in_str symbols x"
  let ?c = "char_at buf ?q"
  have q: "s \<le> ?q" "?q \<le> length buf" using skip_while_ge skip_while_le [OF assms(2)] by simp_all
  have s': "s' = skip_while (in_str whitespace) buf eq" using assms(1) by (auto simp: gettoken_def Let_def split: prod.splits)
  have "?q \<le> eq \<and> eq \<le> length buf \<and> (ret \<noteq> nul \<longrightarrow> ?q < eq)"
  proof (cases "?c = nul")
    case True
    then show ?thesis using assms(1) q by (simp add: gettoken_def Let_def)
  next
    case False
    then have l: "?q < length buf" by (rule char_at_nul)
    consider "?c \<in> set ''|();&<''" | "?c \<notin> set ''|();&<''" "?c = CHR ''>''" | "?c \<notin> set ''|();&<''" "?c \<noteq> CHR ''>''" by blast
    then show ?thesis
    proof cases
      case 1
      then have "eq = ?q + 1" using assms(1) False unfolding gettoken_def Let_def by simp
      then show ?thesis using l by simp
    next
      case 2
      then have "eq = (if char_at buf (?q + 1) = CHR ''>'' then ?q + 2 else ?q + 1)"
        using assms(1) by (simp add: gettoken_def Let_def split: if_splits)
      then show ?thesis using l char_at_nul [of buf "?q + 1"] by (auto split: if_splits)
    next
      case 3
      then have eq: "eq = skip_while ?W buf ?q" using assms(1) False unfolding gettoken_def Let_def by (auto simp only: if_False prod.case prod.inject)
      have "?c \<notin> set symbols" using 3 by (auto simp: symbols_def)
      moreover have "?c \<notin> set whitespace" using skip_while_stop [OF l] l by (simp add: in_white char_at_def)
      ultimately have "?W ?c" by (simp add: in_symbols in_white)
      then have "skip_while ?W buf ?q = skip_while ?W buf (?q + 1)" using l by (subst skip_while.simps) (simp add: char_at_def)
      then show ?thesis using eq l skip_while_ge [of "?q + 1" ?W buf] skip_while_le [of "?q + 1" buf ?W] by simp
    qed
  qed
  then show "s \<le> s'" "s' \<le> length buf" "ret \<noteq> nul \<Longrightarrow> s < s'"
    using s' q skip_while_ge [of eq "in_str whitespace" buf] skip_while_le [of eq buf "in_str whitespace"] by auto
qed

section \<open>The parser\<close>

lemma peek_at:
  assumes "peek buf toks s = (s1, b)"
  shows "s \<le> s1" "skip_while (in_str whitespace) buf s1 = s1" "b \<longleftrightarrow> char_at buf s1 \<noteq> nul \<and> in_str toks (char_at buf s1)"
proof -
  have s1: "s1 = skip_while (in_str whitespace) buf s" using assms by (simp add: peek_def Let_def)
  show "s \<le> s1" unfolding s1 by (rule skip_while_ge)
  show "skip_while (in_str whitespace) buf s1 = s1" using skip_while_stop [of "in_str whitespace" buf s, folded s1]
    by (subst skip_while.simps) auto
  show "b \<longleftrightarrow> char_at buf s1 \<noteq> nul \<and> in_str toks (char_at buf s1)" using assms unfolding s1 by (simp add: peek_def Let_def)
qed

lemma gettoken_end: "gettoken buf s = (tok, q, eq, s') \<Longrightarrow> tok = nul \<longleftrightarrow> char_at buf q = nul"
  by (auto simp: gettoken_def Let_def split: if_splits)

lemma peek_gettoken:
  assumes "peek buf toks s = (s1, True)" "gettoken buf s1 = (tok, q, eq, s2)"
  shows "s \<le> s1" "s1 < s2" "s2 \<le> length buf"
proof -
  note p = peek_at [OF assms(1)]
  have l: "s1 < length buf" using p(3) char_at_nul by blast
  have "q = s1" using assms(2) p(2) by (simp add: gettoken_def Let_def split: prod.splits)
  then have "tok \<noteq> nul" using gettoken_end [OF assms(2)] p(3) by simp
  then show "s \<le> s1" "s1 < s2" "s2 \<le> length buf" using gettoken_pos [OF assms(2)] l p(1) by simp_all
qed

lemma peek_gettoken_less: "peek buf toks s = (s1, True) \<Longrightarrow> gettoken buf s1 = (tok, q, eq, s2) \<Longrightarrow> length buf - s2 < length buf - s"
  using peek_gettoken by fastforce

lemma redirs_progress:
  assumes "peek buf toks s = (s1, True)" "gettoken buf s1 = (tok, q, eq, s2)" "gettoken buf s2 = (tok', q', eq', s3)" "tok' = CHR ''a''"
  shows "length buf - s3 < length buf - s"
proof -
  have 1: "s1 < length buf" "s \<le> s1" using peek_less [of buf toks s] assms(1) skip_while_ge by (auto simp: peek_def Let_def)
  then have 2: "s1 \<le> s2" "s2 \<le> length buf" using gettoken_pos [OF assms(2)] by simp_all
  then show ?thesis using gettoken_pos [OF assms(3) 2(2)] assms(4) 1 by simp
qed

function parseredirs :: "string \<Rightarrow> cmd \<Rightarrow> nat \<Rightarrow> (cmd \<times> nat) result" where
  "parseredirs buf cmd s =
     (case peek buf ''<>'' s of
        (s, False) \<Rightarrow> Ok (cmd, s)
      | (s, True) \<Rightarrow>
          case gettoken buf s of (tok, _, _, s) \<Rightarrow>
          case gettoken buf s of (tok', q, eq, s) \<Rightarrow>
            if tok' \<noteq> CHR ''a'' then Panic ''missing file for redirection''
            else if tok = CHR ''<'' then parseredirs buf (REDIR cmd q eq O_RDONLY 0) s
            else if tok = CHR ''>'' then parseredirs buf (REDIR cmd q eq (O_WRONLY + O_CREATE + O_TRUNC) 1) s
            else if tok = CHR ''+'' then parseredirs buf (REDIR cmd q eq (O_WRONLY + O_CREATE) 1) s
            else parseredirs buf cmd s)"
  by pat_completeness auto
termination
  by (relation "measure (\<lambda>(buf, cmd, s). length buf - s)") (auto intro: redirs_progress [OF sym sym sym])

declare parseredirs.simps [simp del]

lemma parseredirs_pos: "parseredirs buf cmd s = Ok (c, s') \<Longrightarrow> s \<le> length buf \<Longrightarrow> s \<le> s' \<and> s' \<le> length buf"
proof (induction buf cmd s rule: parseredirs.induct)
  case (1 buf cmd s)
  obtain s1 b where p: "peek buf ''<>'' s = (s1, b)" by force
  have s1: "s \<le> s1" "s1 \<le> length buf" using peek_pos [OF 1(6), of "''<>''"] p by simp_all
  show ?case
  proof (cases b)
    case False
    then show ?thesis using 1(5) p s1 by (simp add: parseredirs.simps)
  next
    case True
    obtain tok a e s2 where g: "gettoken buf s1 = (tok, a, e, s2)" by (metis surj_pair)
    obtain tok' q eq s3 where g': "gettoken buf s2 = (tok', q, eq, s3)" by (metis surj_pair)
    have s2: "s1 \<le> s2" "s2 \<le> length buf" using gettoken_pos [OF g s1(2)] by simp_all
    have s3: "s2 \<le> s3" "s3 \<le> length buf" using gettoken_pos [OF g' s2(2)] by simp_all
    note IH = 1(1-4) [OF p [symmetric] eqTrueI [OF True] g [symmetric] refl refl g' [symmetric] refl refl]
    have "s3 \<le> s' \<and> s' \<le> length buf"
      using 1(5) s3(2) IH p True g g' by (subst (asm) parseredirs.simps) (auto split: if_splits)
    then show ?thesis using s1 s2 s3 by simp
  qed
qed

text \<open>The loop of \<^verbatim>\<open>parseexec\<close> over the arguments.\<close>

function parseargs :: "string \<Rightarrow> cmd \<Rightarrow> nat \<Rightarrow> nat \<Rightarrow> (cmd \<times> nat) result" where
  "parseargs buf ret argc s =
     (case peek buf ''|)&;'' s of
        (s, True) \<Rightarrow> Ok (ret, s)
      | (s, False) \<Rightarrow>
          case gettoken buf s of (tok, q, eq, s) \<Rightarrow>
            if tok = nul then Ok (ret, s)
            else if tok \<noteq> CHR ''a'' then Panic ''syntax''
            else if argc + 1 \<ge> MAXARGS then Panic ''too many args''
            else bindR (parseredirs buf (add_arg (q, eq) ret) s) (\<lambda>(ret, s). parseargs buf ret (argc + 1) s))"
  by pat_completeness auto
termination by (relation "measure (\<lambda>(buf, ret, argc, s). MAXARGS - argc)") auto

declare parseargs.simps [simp del]

text \<open>The loop of \<^verbatim>\<open>parseline\<close> over \<^verbatim>\<open>&\<close>.\<close>

function parseback :: "string \<Rightarrow> cmd \<Rightarrow> nat \<Rightarrow> cmd \<times> nat" where
  "parseback buf cmd s =
     (case peek buf ''&'' s of
        (s, False) \<Rightarrow> (cmd, s)
      | (s, True) \<Rightarrow> case gettoken buf s of (tok, q, eq, s) \<Rightarrow> parseback buf (BACK cmd) s)"
  by pat_completeness auto
termination
  by (relation "measure (\<lambda>(buf, cmd, s). length buf - s)") (auto intro: peek_gettoken_less [OF sym sym])

declare parseback.simps [simp del]

definition bindO :: "'a result option \<Rightarrow> ('a \<Rightarrow> 'b result option) \<Rightarrow> 'b result option" where
  "bindO m k = (case m of None \<Rightarrow> None | Some (Ok x) \<Rightarrow> k x | Some (Panic msg) \<Rightarrow> Some (Panic msg) | Some Blocked \<Rightarrow> Some Blocked | Some Undef \<Rightarrow> Some Undef)"

lemma bindO_Ok [simp]: "bindO (Some (Ok x)) k = k x"
  by (simp add: bindO_def)

lemma bindO_eq_Ok: "bindO m k = Some (Ok y) \<longleftrightarrow> (\<exists>x. m = Some (Ok x) \<and> k x = Some (Ok y))"
  by (auto simp: bindO_def split: option.splits result.splits)

lemma bindO_None: "m \<noteq> None \<Longrightarrow> (\<And>x. m = Some (Ok x) \<Longrightarrow> k x \<noteq> None) \<Longrightarrow> bindO m k \<noteq> None"
  by (auto simp: bindO_def split: option.splits result.splits)

fun parseline :: "nat \<Rightarrow> string \<Rightarrow> nat \<Rightarrow> (cmd \<times> nat) result option"
  and parsepipe :: "nat \<Rightarrow> string \<Rightarrow> nat \<Rightarrow> (cmd \<times> nat) result option"
  and parseexec :: "nat \<Rightarrow> string \<Rightarrow> nat \<Rightarrow> (cmd \<times> nat) result option"
  and parseblock :: "nat \<Rightarrow> string \<Rightarrow> nat \<Rightarrow> (cmd \<times> nat) result option" where
  "parseline 0 buf s = None"
| "parseline (Suc n) buf s =
     bindO (parsepipe n buf s) (\<lambda>(cmd, s).
       case parseback buf cmd s of (cmd, s) \<Rightarrow>
       case peek buf '';'' s of
         (s, False) \<Rightarrow> Some (Ok (cmd, s))
       | (s, True) \<Rightarrow>
           case gettoken buf s of (_, _, _, s) \<Rightarrow>
             bindO (parseline n buf s) (\<lambda>(cmd', s). Some (Ok (LIST cmd cmd', s))))"
| "parsepipe 0 buf s = None"
| "parsepipe (Suc n) buf s =
     bindO (parseexec n buf s) (\<lambda>(cmd, s).
       case peek buf ''|'' s of
         (s, False) \<Rightarrow> Some (Ok (cmd, s))
       | (s, True) \<Rightarrow>
           case gettoken buf s of (_, _, _, s) \<Rightarrow>
             bindO (parsepipe n buf s) (\<lambda>(cmd', s). Some (Ok (PIPE cmd cmd', s))))"
| "parseexec 0 buf s = None"
| "parseexec (Suc n) buf s =
     (case peek buf ''('' s of
        (s, True) \<Rightarrow> parseblock n buf s
      | (s, False) \<Rightarrow> Some (bindR (parseredirs buf (EXEC []) s) (\<lambda>(ret, s). parseargs buf ret 0 s)))"
| "parseblock 0 buf s = None"
| "parseblock (Suc n) buf s =
     (case peek buf ''('' s of
        (s, False) \<Rightarrow> Some (Panic ''parseblock'')
      | (s, True) \<Rightarrow>
          case gettoken buf s of (_, _, _, s) \<Rightarrow>
            bindO (parseline n buf s) (\<lambda>(cmd, s).
              case peek buf '')'' s of
                (s, False) \<Rightarrow> Some (Panic ''syntax - missing )'')
              | (s, True) \<Rightarrow> case gettoken buf s of (_, _, _, s) \<Rightarrow> Some (parseredirs buf cmd s)))"

declare parseline.simps [simp del] parsepipe.simps [simp del] parseexec.simps [simp del] parseblock.simps [simp del]

text \<open>Ending the strings in the buffer, which holds the line and its NUL.\<close>

fun nulterminate :: "cmd \<Rightarrow> string \<Rightarrow> string" where
  "nulterminate (EXEC as) m = fold (\<lambda>(q, eq) m. m[eq := nul]) as m"
| "nulterminate (REDIR c q eq mode fd) m = (nulterminate c m)[eq := nul]"
| "nulterminate (PIPE l r) m = nulterminate r (nulterminate l m)"
| "nulterminate (LIST l r) m = nulterminate r (nulterminate l m)"
| "nulterminate (BACK c) m = nulterminate c m"

definition line_fuel :: "string \<Rightarrow> nat" where
  "line_fuel buf = 4 * length buf + 4"

definition parsecmd :: "string \<Rightarrow> (cmd \<times> string) result option" where
  "parsecmd buf =
     bindO (parseline (line_fuel buf) buf 0) (\<lambda>(cmd, s).
       case peek buf [] s of (s, _) \<Rightarrow>
         if s \<noteq> length buf then Some (Panic ''syntax'')
         else Some (Ok (cmd, nulterminate cmd (buf @ [nul]))))"

section \<open>The parser always ends\<close>

lemma parseargs_pos: "parseargs buf ret argc s = Ok (c, s') \<Longrightarrow> s \<le> length buf \<Longrightarrow> s \<le> s' \<and> s' \<le> length buf"
proof (induction buf ret argc s arbitrary: c s' rule: parseargs.induct)
  case (1 buf ret argc s)
  obtain s1 b where p: "peek buf ''|)&;'' s = (s1, b)" by force
  obtain tok q eq s2 where g: "gettoken buf s1 = (tok, q, eq, s2)" by (metis surj_pair)
  have s1: "s \<le> s1" "s1 \<le> length buf" using peek_pos [OF 1(3), of "''|)&;''"] p by simp_all
  have s2: "s1 \<le> s2" "s2 \<le> length buf" using gettoken_pos [OF g s1(2)] by simp_all
  consider "b" | "\<not> b" "tok = nul" | "\<not> b" "tok \<noteq> nul" by blast
  then show ?case
  proof cases
    case 3
    then have r: "tok = CHR ''a''" "\<not> argc + 1 \<ge> MAXARGS"
      "bindR (parseredirs buf (add_arg (q, eq) ret) s2) (\<lambda>(ret, s). parseargs buf ret (argc + 1) s) = Ok (c, s')"
      using 1(2) p g by (auto simp: parseargs.simps [of buf ret argc s] split: if_splits)
    then obtain c1 s3 where c1: "parseredirs buf (add_arg (q, eq) ret) s2 = Ok (c1, s3)" "parseargs buf c1 (argc + 1) s3 = Ok (c, s')" by auto
    have s3: "s2 \<le> s3" "s3 \<le> length buf" using parseredirs_pos [OF c1(1) s2(2)] by simp_all
    have "s3 \<le> s' \<and> s' \<le> length buf"
      using 1(1) [OF p [symmetric] _ g [symmetric] refl refl] 3 r(1,2) c1 s3(2) by auto
    then show ?thesis using s1 s2 s3 by simp
  qed (use 1(2) p g s1 s2 in \<open>auto simp: parseargs.simps [of buf ret argc s]\<close>)
qed

lemma parseback_pos: "parseback buf cmd s = (c, s') \<Longrightarrow> s \<le> length buf \<Longrightarrow> s \<le> s' \<and> s' \<le> length buf"
proof (induction buf cmd s rule: parseback.induct)
  case (1 buf cmd s)
  obtain s1 b where p: "peek buf ''&'' s = (s1, b)" by force
  obtain tok q eq s2 where g: "gettoken buf s1 = (tok, q, eq, s2)" by (metis surj_pair)
  have s1: "s \<le> s1" "s1 \<le> length buf" using peek_pos [OF 1(3), of "''&''"] p by simp_all
  have s2: "s1 \<le> s2" "s2 \<le> length buf" using gettoken_pos [OF g s1(2)] by simp_all
  show ?case
  proof (cases b)
    case True
    then have "parseback buf (BACK cmd) s2 = (c, s')" using 1(2) p g by (simp add: parseback.simps [of buf cmd s])
    then have "s2 \<le> s' \<and> s' \<le> length buf" using 1(1) [OF p [symmetric] eqTrueI [OF True] g [symmetric] refl refl] s2(2) by simp
    then show ?thesis using s1 s2 by simp
  qed (use 1(2) p s1 in \<open>auto simp: parseback.simps [of buf cmd s]\<close>)
qed

definition advances :: "string \<Rightarrow> nat \<Rightarrow> (cmd \<times> nat) result option \<Rightarrow> bool" where
  "advances buf s m \<longleftrightarrow> (\<forall>c s'. m = Some (Ok (c, s')) \<longrightarrow> s \<le> s' \<and> s' \<le> length buf)"

lemma advances_bind:
  assumes "advances buf s m" "\<And>c s'. m = Some (Ok (c, s')) \<Longrightarrow> s \<le> s' \<Longrightarrow> s' \<le> length buf \<Longrightarrow> advances buf s (k (c, s'))"
  shows "advances buf s (bindO m k)"
  using assms unfolding advances_def by (auto simp: bindO_eq_Ok)

lemma advances_le: "advances buf s1 m \<Longrightarrow> s \<le> s1 \<Longrightarrow> advances buf s m"
  by (auto simp: advances_def)

lemma advances_Ok [simp]: "advances buf s (Some (Ok (c, s'))) \<longleftrightarrow> s \<le> s' \<and> s' \<le> length buf"
  "advances buf s None" "advances buf s (Some (Panic msg))"
  by (simp_all add: advances_def)

text \<open>After a symbol has been seen, the operator and what follows it.\<close>

lemma advances_after:
  assumes s: "s \<le> length buf" and n: "\<And>s1. peek buf toks s = (s1, False) \<Longrightarrow> advances buf s1 (no s1)"
    and y: "\<And>s2. s < s2 \<Longrightarrow> s2 \<le> length buf \<Longrightarrow> advances buf s2 (yes s2)"
  shows "advances buf s (case peek buf toks s of (s, False) \<Rightarrow> no s | (s, True) \<Rightarrow> case gettoken buf s of (_, _, _, s) \<Rightarrow> yes s)"
proof -
  obtain s1 b where p: "peek buf toks s = (s1, b)" by force
  obtain tok q eq s2 where g: "gettoken buf s1 = (tok, q, eq, s2)" by (metis surj_pair)
  have s1: "s \<le> s1" "s1 \<le> length buf" using peek_pos [OF s, of toks] p by simp_all
  show ?thesis
  proof (cases b)
    case True
    then have "s1 < s2" "s2 \<le> length buf" using peek_gettoken [of buf toks s s1 tok q eq s2] p g by simp_all
    then have "s < s2" "s2 \<le> length buf" using s1 by simp_all
    then show ?thesis using p g True advances_le [OF y] by simp
  next
    case False
    then show ?thesis using p advances_le [OF n s1(1)] by simp
  qed
qed

lemma parse_advances:
  "s \<le> length buf \<Longrightarrow> advances buf s (parseline n buf s)" "s \<le> length buf \<Longrightarrow> advances buf s (parsepipe n buf s)"
  "s \<le> length buf \<Longrightarrow> advances buf s (parseexec n buf s)" "s \<le> length buf \<Longrightarrow> advances buf s (parseblock n buf s)"
proof (induction n arbitrary: s)
  case 0
  { case 1 show ?case by (simp add: parseline.simps) next case 2 show ?case by (simp add: parsepipe.simps)
  next case 3 show ?case by (simp add: parseexec.simps) next case 4 show ?case by (simp add: parseblock.simps) }
next
  case (Suc n)
  {
    case 1
    show ?case unfolding parseline.simps
    proof (rule advances_bind [OF Suc.IH(2) [OF 1]], simp only: prod.case)
      fix c s' assume s': "s \<le> s'" "s' \<le> length buf"
      obtain c1 s1 where b: "parseback buf c s' = (c1, s1)" by force
      have s1: "s' \<le> s1" "s1 \<le> length buf" using parseback_pos [OF b s'(2)] by simp_all
      have "advances buf s1 (case peek buf '';'' s1 of (s, False) \<Rightarrow> Some (Ok (c1, s))
         | (s, True) \<Rightarrow> case gettoken buf s of (_, _, _, s) \<Rightarrow> bindO (parseline n buf s) (\<lambda>(cmd', s). Some (Ok (LIST c1 cmd', s))))"
        using peek_pos [OF s1(2), of "'';''"] by (intro advances_after [OF s1(2)] advances_bind [OF Suc.IH(1)]) auto
      then show "advances buf s (case parseback buf c s' of (cmd, s) \<Rightarrow> case peek buf '';'' s of (s, False) \<Rightarrow> Some (Ok (cmd, s))
         | (s, True) \<Rightarrow> case gettoken buf s of (_, _, _, s) \<Rightarrow> bindO (parseline n buf s) (\<lambda>(cmd', s). Some (Ok (LIST cmd cmd', s))))"
        using advances_le s' s1 b by simp
    qed
  next
    case 2
    show ?case unfolding parsepipe.simps
    proof (rule advances_bind [OF Suc.IH(3) [OF 2]], simp only: prod.case)
      fix c s' assume s': "s \<le> s'" "s' \<le> length buf"
      show "advances buf s (case peek buf ''|'' s' of (s, False) \<Rightarrow> Some (Ok (c, s))
         | (s, True) \<Rightarrow> case gettoken buf s of (_, _, _, s) \<Rightarrow> bindO (parsepipe n buf s) (\<lambda>(cmd', s). Some (Ok (PIPE c cmd', s))))"
        using peek_pos [OF s'(2), of "''|''"]
        by (intro advances_le [OF advances_after [OF s'(2)] s'(1)] advances_bind [OF Suc.IH(2)]) auto
    qed
  next
    case 3
    obtain s1 b where p: "peek buf ''('' s = (s1, b)" by force
    have s1: "s \<le> s1" "s1 \<le> length buf" using peek_pos [OF 3, of "''(''"] p by simp_all
    have "advances buf s1 (Some (bindR (parseredirs buf (EXEC []) s1) (\<lambda>(ret, s). parseargs buf ret 0 s)))"
      unfolding advances_def using s1(2) parseredirs_pos parseargs_pos by fastforce
    then show ?case using p advances_le s1 Suc.IH(4) [OF s1(2)] by (cases b) (simp_all add: parseexec.simps)
  next
    case 4
    have "advances buf s2 (bindO (parseline n buf s2) (\<lambda>(cmd, s). case peek buf '')'' s of (s, False) \<Rightarrow> Some (Panic ''syntax - missing )'')
              | (s, True) \<Rightarrow> case gettoken buf s of (_, _, _, s) \<Rightarrow> Some (parseredirs buf cmd s)))" if "s2 \<le> length buf" for s2
    proof (rule advances_bind [OF Suc.IH(1) [OF that]], simp only: prod.case)
      fix c s' assume s': "s2 \<le> s'" "s' \<le> length buf"
      show "advances buf s2 (case peek buf '')'' s' of (s, False) \<Rightarrow> Some (Panic ''syntax - missing )'')
              | (s, True) \<Rightarrow> case gettoken buf s of (_, _, _, s) \<Rightarrow> Some (parseredirs buf c s))"
        using parseredirs_pos by (intro advances_le [OF advances_after [OF s'(2)] s'(1)]) (auto simp: advances_def)
    qed
    then show ?case unfolding parseblock.simps by (intro advances_after [OF 4]) auto
  }
qed

text \<open>Enough fuel: every way back to \<open>parseline\<close> has taken a character.\<close>

lemma after_None:
  assumes "s \<le> length buf" "\<And>s1. no s1 \<noteq> None" "\<And>s2. s < s2 \<Longrightarrow> s2 \<le> length buf \<Longrightarrow> yes s2 \<noteq> None"
  shows "(case peek buf toks s of (s, False) \<Rightarrow> no s | (s, True) \<Rightarrow> case gettoken buf s of (_, _, _, s) \<Rightarrow> yes s) \<noteq> None"
proof -
  obtain s1 b where p: "peek buf toks s = (s1, b)" by force
  obtain tok q eq s2 where g: "gettoken buf s1 = (tok, q, eq, s2)" by (metis surj_pair)
  show ?thesis
  proof (cases b)
    case True
    then have "s \<le> s1" "s1 < s2" "s2 \<le> length buf" using peek_gettoken [of buf toks s s1 tok q eq s2] p g by simp_all
    then show ?thesis using p g True assms(3) by simp
  next
    case False
    then show ?thesis using p assms(2) by simp
  qed
qed

lemma parse_fuel:
  "s \<le> length buf \<Longrightarrow> 4 * (length buf - s) + 4 \<le> n \<Longrightarrow> parseline n buf s \<noteq> None"
  "s \<le> length buf \<Longrightarrow> 4 * (length buf - s) + 3 \<le> n \<Longrightarrow> parsepipe n buf s \<noteq> None"
  "s \<le> length buf \<Longrightarrow> 4 * (length buf - s) + 2 \<le> n \<Longrightarrow> parseexec n buf s \<noteq> None"
  "s \<le> length buf \<Longrightarrow> 4 * (length buf - s) + 1 \<le> n \<Longrightarrow> parseblock n buf s \<noteq> None"
proof (induction n arbitrary: s)
  case 0
  { case 1 then show ?case by simp next case 2 then show ?case by simp next case 3 then show ?case by simp next case 4 then show ?case by simp }
next
  case (Suc n)
  {
    case 1
    show ?case unfolding parseline.simps
    proof (rule bindO_None)
      show "parsepipe n buf s \<noteq> None" using 1 by (intro Suc.IH(2)) simp_all
      fix x assume "parsepipe n buf s = Some (Ok x)"
      then obtain c s' where x: "x = (c, s')" "s \<le> s'" "s' \<le> length buf" using parse_advances(2) [OF 1(1), of n] by (cases x) (auto simp: advances_def)
      obtain c1 s1 where b: "parseback buf c s' = (c1, s1)" by force
      have s1: "s \<le> s1" "s1 \<le> length buf" using parseback_pos [OF b x(3)] x(2) by simp_all
      have "parseline n buf s2 \<noteq> None" if "s1 < s2" "s2 \<le> length buf" for s2 using 1 s1 that by (intro Suc.IH(1)) simp_all
      then have "(case peek buf '';'' s1 of (s, False) \<Rightarrow> Some (Ok (c1, s))
         | (s, True) \<Rightarrow> case gettoken buf s of (_, _, _, s) \<Rightarrow> bindO (parseline n buf s) (\<lambda>(cmd', s). Some (Ok (LIST c1 cmd', s)))) \<noteq> None"
        by (intro after_None [OF s1(2)] bindO_None) auto
      then show "(case x of (cmd, s) \<Rightarrow> case parseback buf cmd s of (cmd, s) \<Rightarrow> case peek buf '';'' s of (s, False) \<Rightarrow> Some (Ok (cmd, s))
         | (s, True) \<Rightarrow> case gettoken buf s of (_, _, _, s) \<Rightarrow> bindO (parseline n buf s) (\<lambda>(cmd', s). Some (Ok (LIST cmd cmd', s)))) \<noteq> None"
        using x(1) b by simp
    qed
  next
    case 2
    show ?case unfolding parsepipe.simps
    proof (rule bindO_None)
      show "parseexec n buf s \<noteq> None" using 2 by (intro Suc.IH(3)) simp_all
      fix x assume "parseexec n buf s = Some (Ok x)"
      then obtain c s' where x: "x = (c, s')" "s \<le> s'" "s' \<le> length buf" using parse_advances(3) [OF 2(1), of n] by (cases x) (auto simp: advances_def)
      have "parsepipe n buf s2 \<noteq> None" if "s' < s2" "s2 \<le> length buf" for s2 using 2 x that by (intro Suc.IH(2)) simp_all
      then have "(case peek buf ''|'' s' of (s, False) \<Rightarrow> Some (Ok (c, s))
         | (s, True) \<Rightarrow> case gettoken buf s of (_, _, _, s) \<Rightarrow> bindO (parsepipe n buf s) (\<lambda>(cmd', s). Some (Ok (PIPE c cmd', s)))) \<noteq> None"
        by (intro after_None [OF x(3)] bindO_None) auto
      then show "(case x of (cmd, s) \<Rightarrow> case peek buf ''|'' s of (s, False) \<Rightarrow> Some (Ok (cmd, s))
         | (s, True) \<Rightarrow> case gettoken buf s of (_, _, _, s) \<Rightarrow> bindO (parsepipe n buf s) (\<lambda>(cmd', s). Some (Ok (PIPE cmd cmd', s)))) \<noteq> None"
        using x(1) by simp
    qed
  next
    case 3
    obtain s1 b where p: "peek buf ''('' s = (s1, b)" by force
    have s1: "s \<le> s1" "s1 \<le> length buf" using peek_pos [OF 3(1), of "''(''"] p by simp_all
    have "parseblock n buf s1 \<noteq> None" using s1 3 by (intro Suc.IH(4)) simp_all
    then show ?case using p by (cases b) (simp_all add: parseexec.simps)
  next
    case 4
    have "bindO (parseline n buf s2) (\<lambda>(cmd, s). case peek buf '')'' s of (s, False) \<Rightarrow> Some (Panic ''syntax - missing )'')
              | (s, True) \<Rightarrow> case gettoken buf s of (_, _, _, s) \<Rightarrow> Some (parseredirs buf cmd s)) \<noteq> None" if "s < s2" "s2 \<le> length buf" for s2
    proof (rule bindO_None)
      show "parseline n buf s2 \<noteq> None" using 4 that by (intro Suc.IH(1)) simp_all
    qed (auto split: prod.splits bool.splits)
    then show ?case unfolding parseblock.simps by (intro after_None [OF 4(1)]) auto
  }
qed

section \<open>Reading back a printed command\<close>

text \<open>Commands with their strings, and a printer that puts parentheses around every operand.\<close>

datatype direction = From | Onto | Append

datatype command =
    Exec "string list"
  | Redir command string direction
  | Pipe command command
  | Seq command command
  | Back command

fun arrow :: "direction \<Rightarrow> string" where
  "arrow From = ''<''"
| "arrow Onto = ''>''"
| "arrow Append = ''>>''"

fun mode_fd :: "direction \<Rightarrow> nat \<times> nat" where
  "mode_fd From = (O_RDONLY, 0)"
| "mode_fd Onto = (O_WRONLY + O_CREATE + O_TRUNC, 1)"
| "mode_fd Append = (O_WRONLY + O_CREATE, 1)"

fun render :: "command \<Rightarrow> string" where
  "render (Exec ws) = concat (map (\<lambda>w. w @ '' '') ws)"
| "render (Redir c w d) = ''('' @ render c @ '')'' @ arrow d @ w"
| "render (Pipe l r) = ''('' @ render l @ '')|('' @ render r @ '')''"
| "render (Seq l r) = ''('' @ render l @ '');('' @ render r @ '')''"
| "render (Back c) = ''('' @ render c @ '')&''"

definition word_char :: "char \<Rightarrow> bool" where
  "word_char c \<longleftrightarrow> c \<noteq> nul \<and> c \<notin> set whitespace \<and> c \<notin> set symbols"

definition is_word :: "string \<Rightarrow> bool" where
  "is_word w \<longleftrightarrow> w \<noteq> [] \<and> list_all word_char w"

fun wf_command :: "command \<Rightarrow> bool" where
  "wf_command (Exec ws) \<longleftrightarrow> list_all is_word ws \<and> length ws < MAXARGS"
| "wf_command (Redir c w d) \<longleftrightarrow> wf_command c \<and> is_word w"
| "wf_command (Pipe l r) \<longleftrightarrow> wf_command l \<and> wf_command r"
| "wf_command (Seq l r) \<longleftrightarrow> wf_command l \<and> wf_command r"
| "wf_command (Back c) \<longleftrightarrow> wf_command c"

text \<open>The string a program sees at a position of the buffer, and the command a tree stands for.\<close>

definition cstr_at :: "string \<Rightarrow> nat \<Rightarrow> string" where
  "cstr_at m q = takeWhile (\<lambda>c. c \<noteq> nul) (drop q m)"

fun reads :: "string \<Rightarrow> cmd \<Rightarrow> command \<Rightarrow> bool" where
  "reads m (EXEC as) (Exec ws) \<longleftrightarrow> map (cstr_at m \<circ> fst) as = ws"
| "reads m (REDIR t q eq mode fd) (Redir c w d) \<longleftrightarrow> reads m t c \<and> cstr_at m q = w \<and> (mode, fd) = mode_fd d"
| "reads m (PIPE t u) (Pipe l r) \<longleftrightarrow> reads m t l \<and> reads m u r"
| "reads m (LIST t u) (Seq l r) \<longleftrightarrow> reads m t l \<and> reads m u r"
| "reads m (BACK t) (Back c) \<longleftrightarrow> reads m t c"
| "reads m _ _ \<longleftrightarrow> False"

text \<open>Before the strings are ended: each is a maximal word of the line.\<close>

definition word_span :: "string \<Rightarrow> nat \<times> nat \<Rightarrow> string \<Rightarrow> bool" where
  "word_span buf p w \<longleftrightarrow> is_word w \<and> (\<exists>rest. drop (fst p) buf = w @ rest \<and> (rest = [] \<or> \<not> word_char (hd rest))) \<and>
     fst p + length w = snd p \<and> snd p \<le> length buf"

fun spans :: "string \<Rightarrow> cmd \<Rightarrow> command \<Rightarrow> bool" where
  "spans buf (EXEC as) (Exec ws) \<longleftrightarrow> list_all2 (word_span buf) as ws"
| "spans buf (REDIR t q eq mode fd) (Redir c w d) \<longleftrightarrow> spans buf t c \<and> word_span buf (q, eq) w \<and> (mode, fd) = mode_fd d"
| "spans buf (PIPE t u) (Pipe l r) \<longleftrightarrow> spans buf t l \<and> spans buf u r"
| "spans buf (LIST t u) (Seq l r) \<longleftrightarrow> spans buf t l \<and> spans buf u r"
| "spans buf (BACK t) (Back c) \<longleftrightarrow> spans buf t c"
| "spans buf _ _ \<longleftrightarrow> False"

fun ends_of :: "cmd \<Rightarrow> nat set" where
  "ends_of (EXEC as) = snd ` set as"
| "ends_of (REDIR t q eq mode fd) = insert eq (ends_of t)"
| "ends_of (PIPE t u) = ends_of t \<union> ends_of u"
| "ends_of (LIST t u) = ends_of t \<union> ends_of u"
| "ends_of (BACK t) = ends_of t"

lemma nul_upd: "i < length m \<Longrightarrow> m[e := nul] ! i = (if i = e then nul else m ! i)"
  by (cases "i = e") auto

lemma fold_nul:
  "length (fold (\<lambda>(q, eq) m. m[eq := nul]) as m) = length m"
  "i < length m \<Longrightarrow> fold (\<lambda>(q, eq) m. m[eq := nul]) as m ! i = (if i \<in> snd ` set as then nul else m ! i)"
  by (induction as arbitrary: m) (auto simp: nul_upd, force)

lemma nulterminate_at:
  "length (nulterminate t m) = length m"
  "i < length m \<Longrightarrow> nulterminate t m ! i = (if i \<in> ends_of t then nul else m ! i)"
proof (induction t arbitrary: m)
  case (EXEC as)
  { case 1 show ?case by (simp add: fold_nul) next case 2 then show ?case by (simp add: fold_nul) }
next
  case (REDIR t q eq mode fd)
  { case 1 show ?case by (simp add: REDIR.IH(1)) next case 2 then show ?case using REDIR.IH by (auto simp: nul_upd) }
next
  case (PIPE t u)
  { case 1 show ?case by (simp add: PIPE.IH(1,3)) next case 2 then show ?case using PIPE.IH by auto }
next
  case (LIST t u)
  { case 1 show ?case by (simp add: LIST.IH(1,3)) next case 2 then show ?case using LIST.IH by auto }
next
  case (BACK t)
  { case 1 show ?case by (simp add: BACK.IH(1)) next case 2 then show ?case using BACK.IH by auto }
qed

text \<open>All ends of words lie outside words, so ending one string does not damage another.\<close>

definition outside_words :: "string \<Rightarrow> nat \<Rightarrow> bool" where
  "outside_words buf e \<longleftrightarrow> e \<le> length buf \<and> (e < length buf \<longrightarrow> \<not> word_char (buf ! e))"

lemma word_span_end: "word_span buf p w \<Longrightarrow> outside_words buf (snd p)"
proof -
  assume "word_span buf p w"
  then obtain rest where r: "drop (fst p) buf = w @ rest" "rest = [] \<or> \<not> word_char (hd rest)" "fst p + length w = snd p" "snd p \<le> length buf"
    by (auto simp: word_span_def)
  have "drop (snd p) buf = rest" using r(1,3) by (metis add.commute append_eq_conv_conj drop_drop)
  then show ?thesis using r(2,4) by (auto simp: outside_words_def hd_drop_conv_nth)
qed

lemma spans_ends: "spans buf t c \<Longrightarrow> e \<in> ends_of t \<Longrightarrow> outside_words buf e"
  by (induction buf t c rule: spans.induct)
    (auto simp: list_all2_conv_all_nth in_set_conv_nth dest: word_span_end, metis word_span_end snd_conv)

lemma word_after_nul:
  assumes w: "word_span buf (q, eq) w" and m: "length m = length buf + 1" "\<And>i. i < length buf + 1 \<Longrightarrow> m ! i = (if i \<in> E then nul else (buf @ [nul]) ! i)"
    and E: "\<And>e. e \<in> E \<Longrightarrow> outside_words buf e" "eq \<in> E"
  shows "cstr_at m q = w"
proof -
  obtain rest where r: "drop q buf = w @ rest" "q + length w = eq" "eq \<le> length buf" "list_all word_char w"
    using w by (auto simp: word_span_def is_word_def)
  have wi: "buf ! (q + i) = w ! i" if "i < length w" for i
  proof -
    have "drop q buf ! i = w ! i" using that r(1) by (simp add: nth_append)
    then show ?thesis using r(2,3) that by simp
  qed
  have in_w: "m ! (q + i) = w ! i" if "i < length w" for i
  proof -
    have wc: "word_char (w ! i)" using r(4) that by (simp add: list_all_length)
    have "q + i \<notin> E" using E(1) [of "q + i"] wc wi [OF that] r(2,3) that by (auto simp: outside_words_def)
    then show ?thesis using m(2) [of "q + i"] wi [OF that] r(2,3) that by (simp add: nth_append)
  qed
  have "m ! (q + length w) = nul" using m(2) [of eq] E(2) r(2,3) by simp
  moreover have "drop q m = w @ nul # drop (Suc eq) m"
  proof (rule nth_equalityI)
    show "length (drop q m) = length (w @ nul # drop (Suc eq) m)" using m(1) r(2,3) by simp
    fix i assume i: "i < length (drop q m)"
    consider "i < length w" | "i = length w" | k where "i = length w + Suc k" using less_imp_Suc_add [of "length w" i] by fastforce
    then show "drop q m ! i = (w @ nul # drop (Suc eq) m) ! i"
    proof cases
      case (3 k)
      then show ?thesis using i r(2) m(1) by (simp add: nth_append ac_simps)
    qed (use in_w calculation i in \<open>simp_all add: nth_append\<close>)
  qed
  moreover have "takeWhile (\<lambda>c. c \<noteq> nul) (w @ nul # xs) = w" for xs
    using r(4) by (simp add: takeWhile_tail list_all_iff word_char_def)
  ultimately show ?thesis by (simp add: cstr_at_def)
qed

lemma spans_reads:
  assumes m: "length m = length buf + 1" "\<And>i. i < length buf + 1 \<Longrightarrow> m ! i = (if i \<in> E then nul else (buf @ [nul]) ! i)"
    and E: "\<And>e. e \<in> E \<Longrightarrow> outside_words buf e"
  shows "spans buf t c \<Longrightarrow> ends_of t \<subseteq> E \<Longrightarrow> reads m t c"
proof (induction t arbitrary: c)
  case (EXEC as)
  then obtain ws where c: "c = Exec ws" and w: "list_all2 (word_span buf) as ws" by (cases c) auto
  have "list_all2 (\<lambda>a w. cstr_at m (fst a) = w) as ws"
    using w
  proof (rule list.rel_mono_strong)
    fix a w assume "a \<in> set as" "word_span buf a w"
    moreover from this have "snd a \<in> E" using EXEC.prems(2) by force
    ultimately show "cstr_at m (fst a) = w" using word_after_nul [OF _ m E, of "fst a" "snd a" w] by simp
  qed
  then show ?case using c by (auto simp: list_all2_conv_all_nth intro: nth_equalityI)
next
  case (REDIR t q eq mode fd)
  then obtain c' w d where c: "c = Redir c' w d" "spans buf t c'" "word_span buf (q, eq) w" "(mode, fd) = mode_fd d" by (cases c) auto
  moreover have "cstr_at m q = w" using REDIR.prems(2) by (intro word_after_nul [OF c(3) m E]) auto
  ultimately show ?case using REDIR by simp
next
  case (PIPE t u)
  then show ?case by (cases c) auto
next
  case (LIST t u)
  then show ?case by (cases c) auto
next
  case (BACK t)
  then show ?case by (cases c) auto
qed

lemma spans_nulterminate: "spans buf t c \<Longrightarrow> reads (nulterminate t (buf @ [nul])) t c"
  by (rule spans_reads [where E = "ends_of t" and buf = buf]) (auto simp: nulterminate_at intro: spans_ends)

text \<open>The tokens at a position, read off the rest of the line.\<close>

lemma skip_while_drop:
  "drop s buf = xs @ rest \<Longrightarrow> list_all P xs \<Longrightarrow> rest = [] \<or> \<not> P (hd rest) \<Longrightarrow> s \<le> length buf \<Longrightarrow> skip_while P buf s = s + length xs"
proof (induction xs arbitrary: s)
  case Nil
  then show ?case by (subst skip_while.simps) (auto simp: hd_drop_conv_nth)
next
  case (Cons x xs)
  have l: "s < length buf" using Cons.prems(1) by (metis drop_all list.distinct(1) append_Cons not_less)
  then have "buf ! s = x" "drop (s + 1) buf = xs @ rest" using Cons.prems(1) Cons_nth_drop_Suc [OF l] by auto
  then show ?case using Cons l by (subst skip_while.simps) simp
qed

lemma char_at_drop: "char_at buf s = (case drop s buf of [] \<Rightarrow> nul | c # _ \<Rightarrow> c)"
  by (cases "s < length buf") (auto simp: char_at_def Cons_nth_drop_Suc [symmetric])

definition blank_free :: "string \<Rightarrow> bool" where
  "blank_free rest \<longleftrightarrow> rest = [] \<or> hd rest \<notin> set whitespace"

lemma white_skip: "drop s buf = rest \<Longrightarrow> blank_free rest \<Longrightarrow> s \<le> length buf \<Longrightarrow> skip_while (in_str whitespace) buf s = s"
  using skip_while_drop [of s buf "[]" rest "in_str whitespace"] by (auto simp: blank_free_def in_white)

lemma peek_drop:
  assumes "drop s buf = rest" "blank_free rest" "s \<le> length buf" "nul \<notin> set toks"
  shows "peek buf toks s = (s, rest \<noteq> [] \<and> hd rest \<noteq> nul \<and> hd rest \<in> set toks)"
  using assms by (auto simp: peek_def white_skip in_str_spec char_at_drop split: list.splits)

lemma gettoken_symbol:
  assumes "drop s buf = c # rest" "c \<in> set ''|();&<'' \<or> c = CHR ''>'' \<and> (rest = [] \<or> hd rest \<noteq> CHR ''>'')" "blank_free rest" "s \<le> length buf"
  shows "gettoken buf s = (c, s, s + 1, s + 1)"
proof -
  have l: "s < length buf" using assms(1) by (metis drop_all list.distinct(1) not_less)
  then have n: "drop (s + 1) buf = rest" using assms(1) Cons_nth_drop_Suc [OF l] by auto
  have b: "blank_free (c # rest)" using assms(2) by (auto simp: blank_free_def whitespace_def)
  have e: "skip_while (in_str whitespace) buf (s + 1) = s + 1" using white_skip [OF n assms(3)] l by simp
  have "char_at buf (s + 1) \<noteq> CHR ''>''" if "c = CHR ''>''" using that assms(2) n by (auto simp: char_at_drop split: list.splits)
  then show ?thesis using assms(2) white_skip [OF assms(1) b assms(4)] e char_at_drop [of buf s] assms(1) by (auto simp: gettoken_def Let_def)
qed

lemma gettoken_append:
  assumes "drop s buf = CHR ''>'' # CHR ''>'' # rest" "blank_free rest" "s \<le> length buf"
  shows "gettoken buf s = (CHR ''+'', s, s + 2, s + 2)"
proof -
  have n: "drop (s + 1) buf = CHR ''>'' # rest" "drop (s + 2) buf = rest"
    using assms(1) by (metis drop_drop add.commute drop0 drop_Suc_Cons One_nat_def, metis drop_drop add.commute drop0 drop_Suc_Cons numeral_2_eq_2)
  have "length (drop s buf) = length rest + 2" using assms(1) by simp
  then have e: "skip_while (in_str whitespace) buf (s + 2) = s + 2" using white_skip [OF n(2) assms(2)] by simp
  have b: "blank_free (CHR ''>'' # CHR ''>'' # rest)" by (auto simp: blank_free_def whitespace_def)
  show ?thesis using white_skip [OF assms(1) b assms(3)] e char_at_drop [of buf s] char_at_drop [of buf "s + 1"] n assms(1)
    by (auto simp: gettoken_def Let_def)
qed

lemma gettoken_word:
  assumes d: "drop s buf = w @ sp @ rest" and w: "is_word w" and sp: "list_all (in_str whitespace) sp" and r: "blank_free rest"
    and stop: "sp @ rest = [] \<or> \<not> word_char (hd (sp @ rest))" "nul \<notin> set buf" and s: "s \<le> length buf"
  shows "gettoken buf s = (CHR ''a'', s, s + length w, s + length w + length sp)" "word_span buf (s, s + length w) w"
proof -
  obtain c w' where cw: "w = c # w'" using w by (cases w) (auto simp: is_word_def)
  then have c: "word_char c" using w by (simp add: is_word_def)
  have b: "blank_free (w @ sp @ rest)" using c cw by (simp add: blank_free_def word_char_def)
  note q = white_skip [OF d b s]
  have at: "char_at buf s = c" using char_at_drop [of buf s] d cw by simp
  let ?W = "\<lambda>x. \<not> in_str whitespace x \<and> \<not> in_str symbols x"
  have W: "?W x \<longleftrightarrow> word_char x" if "x \<noteq> nul" for x using that by (simp add: in_white in_symbols word_char_def)
  have "list_all ?W w" using w W by (auto simp: is_word_def list_all_iff word_char_def in_white in_symbols)
  moreover have "sp @ rest = [] \<or> \<not> ?W (hd (sp @ rest))"
  proof (cases "sp @ rest = []")
    case False
    then have "hd (sp @ rest) \<in> set (sp @ rest)" by (rule hd_in_set)
    also have "set (sp @ rest) \<subseteq> set (drop s buf)" unfolding d by auto
    finally have "hd (sp @ rest) \<in> set buf" using set_drop_subset [of s buf] by blast
    then have "hd (sp @ rest) \<noteq> nul" using stop(2) by metis
    then show ?thesis using W [of "hd (sp @ rest)"] stop(1) False by blast
  qed blast
  ultimately have e: "skip_while ?W buf s = s + length w" by (rule skip_while_drop [OF d _ _ s])
  have len: "length buf = s + length w + length sp + length rest" using arg_cong [OF d, of length] s by simp
  have d2: "drop (s + length w) buf = sp @ rest" using d by (metis add.commute append_eq_conv_conj drop_drop)
  have f: "skip_while (in_str whitespace) buf (s + length w) = s + length w + length sp"
    using skip_while_drop [OF d2 sp] r len by (auto simp: blank_free_def in_white)
  have "c \<noteq> nul" "c \<notin> set ''|();&<''" "c \<noteq> CHR ''>''" using c by (auto simp: word_char_def symbols_def)
  then show "gettoken buf s = (CHR ''a'', s, s + length w, s + length w + length sp)"
    unfolding gettoken_def Let_def q at using e f by (simp only: if_False prod.case)
  show "word_span buf (s, s + length w) w" unfolding word_span_def using w d stop(1) len by (auto intro!: exI [of _ "sp @ rest"])
qed

text \<open>Whole commands. A printed command is followed by the end of the line or by \<^verbatim>\<open>)\<close>.\<close>

definition closes :: "string \<Rightarrow> bool" where
  "closes rest \<longleftrightarrow> rest = [] \<or> hd rest = CHR '')''"

lemma closes_blank_free: "closes rest \<Longrightarrow> blank_free rest"
  by (auto simp: closes_def blank_free_def whitespace_def)

lemma drop_further: "drop s buf = xs @ ys \<Longrightarrow> drop (s + length xs) buf = ys"
  by (metis add.commute append_eq_conv_conj drop_drop)

lemma drop_length: "drop s buf = xs @ ys \<Longrightarrow> s \<le> length buf \<Longrightarrow> s + length xs \<le> length buf"
proof -
  assume d: "drop s buf = xs @ ys" and s: "s \<le> length buf"
  have "length (drop s buf) = length xs + length ys" by (simp only: d length_append)
  then show ?thesis using s by simp
qed

lemma parseredirs_none:
  assumes "drop s buf = rest" "blank_free rest" "s \<le> length buf" "rest = [] \<or> hd rest \<notin> set ''<>''"
  shows "parseredirs buf t s = Ok (t, s)"
  using peek_drop [OF assms(1-3), of "''<>''"] assms(4) by (subst parseredirs.simps) auto

lemma parseredirs_one:
  assumes d: "drop s buf = arrow dir @ w @ rest" and w: "is_word w" and r: "closes rest" and n: "nul \<notin> set buf" and s: "s \<le> length buf"
  shows "\<exists>q eq mode fd. parseredirs buf t s = Ok (REDIR t q eq mode fd, s + length (arrow dir) + length w) \<and> word_span buf (q, eq) w \<and> (mode, fd) = mode_fd dir"
proof -
  let ?a = "arrow dir" and ?s1 = "s + length (arrow dir)"
  have d1: "drop ?s1 buf = w @ [] @ rest" using drop_further [OF d] by simp
  have l1: "?s1 \<le> length buf" by (rule drop_length [OF d s])
  have d2: "drop (?s1 + length w) buf = rest" using drop_further [of ?s1 buf w rest] d1 by simp
  have l2: "?s1 + length w \<le> length buf" using drop_length [of ?s1 buf w rest] d1 l1 by simp
  have hw: "w \<noteq> []" "word_char (hd w)" using w by (cases w, auto simp: is_word_def)+
  have b: "blank_free (w @ rest)" using hw by (auto simp: blank_free_def word_char_def)
  have g: "hd (w @ rest) \<noteq> CHR ''>''" using hw by (auto simp: word_char_def symbols_def)
  have "blank_free (?a @ w @ rest)" by (cases dir) (auto simp: blank_free_def whitespace_def)
  then have p: "peek buf ''<>'' s = (s, True)" using peek_drop [OF d _ s, of "''<>''"] by (cases dir) auto
  have nw: "\<not> word_char (CHR '')'')" by (simp add: word_char_def symbols_def)
  have stop: "[] @ rest = [] \<or> \<not> word_char (hd ([] @ rest))" using r nw by (auto simp: closes_def)
  note T = gettoken_word [OF d1 w _ closes_blank_free [OF r] stop n l1]
  have tw: "gettoken buf ?s1 = (CHR ''a'', ?s1, ?s1 + length w, ?s1 + length w)" using T(1) by simp
  have ws: "word_span buf (?s1, ?s1 + length w) w" using T(2) by simp
  have nr: "parseredirs buf u (?s1 + length w) = Ok (u, ?s1 + length w)" for u
    using r by (intro parseredirs_none [OF d2 closes_blank_free [OF r] l2]) (auto simp: closes_def)
  have t: "gettoken buf s = (case dir of From \<Rightarrow> CHR ''<'' | Onto \<Rightarrow> CHR ''>'' | Append \<Rightarrow> CHR ''+'', s, ?s1, ?s1)"
  proof (cases dir)
    case From
    then show ?thesis using gettoken_symbol [of s buf "CHR ''<''" "w @ rest"] d b s by simp
  next
    case Onto
    then show ?thesis using gettoken_symbol [of s buf "CHR ''>''" "w @ rest"] d b s g by simp
  next
    case Append
    then show ?thesis using gettoken_append [of s buf "w @ rest"] d b s by simp
  qed
  show ?thesis using p t tw nr ws by (cases dir) (subst parseredirs.simps, simp)+
qed

lemma parseargs_words:
  assumes n: "nul \<notin> set buf" and r: "closes rest"
  shows "drop s buf = concat (map (\<lambda>w. w @ '' '') ws) @ rest \<Longrightarrow> s \<le> length buf \<Longrightarrow> list_all is_word ws \<Longrightarrow> argc + length ws < MAXARGS \<Longrightarrow>
    list_all2 (word_span buf) as us \<Longrightarrow>
    \<exists>bs. parseargs buf (EXEC as) argc s = Ok (EXEC bs, s + length (concat (map (\<lambda>w. w @ '' '') ws))) \<and> list_all2 (word_span buf) bs (us @ ws)"
proof (induction ws arbitrary: s argc as us)
  case Nil
  have d: "drop s buf = rest" using Nil.prems(1) by simp
  note p = peek_drop [OF d closes_blank_free [OF r] Nil.prems(2), of "''|)&;''"]
  show ?case
  proof (cases "rest = []")
    case True
    have "skip_while (in_str whitespace) buf s = s" using white_skip [OF d closes_blank_free [OF r] Nil.prems(2)] .
    then have "gettoken buf s = (nul, s, s, s)" using d True char_at_drop [of buf s] by (simp add: gettoken_def Let_def)
    then show ?thesis using p True Nil.prems(5) by (subst parseargs.simps) simp
  next
    case False
    then have "hd rest = CHR '')''" using r by (simp add: closes_def)
    then show ?thesis using p False Nil.prems(5) by (subst parseargs.simps) simp
  qed
next
  case (Cons w ws)
  let ?R = "concat (map (\<lambda>w. w @ '' '') ws) @ rest" and ?s = "s + length w + 1"
  have d: "drop s buf = w @ '' '' @ ?R" using Cons.prems(1) by simp
  have w: "is_word w" using Cons.prems(3) by simp
  have hw: "w \<noteq> []" "word_char (hd w)" using w by (cases w, auto simp: is_word_def)+
  have bR: "blank_free ?R" "?R = [] \<or> hd ?R \<notin> set ''<>''"
  proof -
    have "blank_free ?R \<and> (?R = [] \<or> hd ?R \<notin> set ''<>'')"
    proof (cases ws)
      case Nil
      then show ?thesis using closes_blank_free [OF r] r by (auto simp: closes_def)
    next
      case (Cons v vs)
      then have "v \<noteq> []" "word_char (hd v)" using Cons.prems(3) by (cases v, auto simp: is_word_def)+
      then show ?thesis using Cons by (auto simp: blank_free_def word_char_def symbols_def)
    qed
    then show "blank_free ?R" "?R = [] \<or> hd ?R \<notin> set ''<>''" by simp_all
  qed
  have sp: "list_all (in_str whitespace) '' ''" unfolding list_all_iff in_white by (simp add: whitespace_def)
  have nw: "'' '' @ ?R = [] \<or> \<not> word_char (hd ('' '' @ ?R))" by (simp add: word_char_def whitespace_def)
  note T = gettoken_word [OF d w sp bR(1) nw n Cons.prems(2)]
  have ds: "drop ?s buf = ?R" using drop_further [of s buf "w @ '' ''" ?R] d by (simp add: add.assoc)
  have ls: "?s \<le> length buf" using drop_length [of s buf "w @ '' ''" ?R] d Cons.prems(2) by (simp add: add.assoc)
  have "blank_free (w @ '' '' @ ?R)" using hw by (auto simp: blank_free_def word_char_def)
  then have p: "peek buf ''|)&;'' s = (s, False)" using peek_drop [OF d _ Cons.prems(2), of "''|)&;''"] hw by (auto simp: word_char_def symbols_def)
  note nr = parseredirs_none [OF ds bR(1) ls bR(2)]
  have l2: "list_all2 (word_span buf) (as @ [(s, s + length w)]) (us @ [w])" using Cons.prems(5) T(2) by (intro list_all2_appendI) simp_all
  obtain bs where bs: "parseargs buf (EXEC (as @ [(s, s + length w)])) (argc + 1) ?s = Ok (EXEC bs, ?s + length (concat (map (\<lambda>w. w @ '' '') ws)))"
      "list_all2 (word_span buf) bs ((us @ [w]) @ ws)"
    using Cons.IH [OF ds ls _ _ l2, of "argc + 1"] Cons.prems(3,4) by auto
  have "parseargs buf (EXEC as) argc s = parseargs buf (EXEC (as @ [(s, s + length w)])) (argc + 1) ?s"
    using p T(1) nr Cons.prems(4) by (subst parseargs.simps) simp
  then show ?case using bs by (intro exI [of _ bs]) simp
qed

definition parses :: "string \<Rightarrow> command \<Rightarrow> bool" where
  "parses buf c \<longleftrightarrow> (\<forall>s rest n. drop s buf = render c @ rest \<longrightarrow> s \<le> length buf \<longrightarrow> closes rest \<longrightarrow> 4 * (length buf - s) + 4 \<le> n \<longrightarrow>
     (\<exists>t. parseline n buf s = Some (Ok (t, s + length (render c))) \<and> spans buf t c))"

text \<open>A parenthesised command, up to the redirections that may follow it.\<close>

lemma parse_block:
  assumes c: "parses buf c" and d: "drop s buf = ''('' @ render c @ '')'' @ rest" and s: "s \<le> length buf" and b: "blank_free rest"
    and fb: "blank_free (render c @ '')'' @ rest)" and n: "4 * (length buf - s) + 2 \<le> n"
  shows "\<exists>t. parseexec n buf s = Some (parseredirs buf t (s + length (render c) + 2)) \<and> spans buf t c"
proof -
  have "2 \<le> n" using n by simp
  then obtain k where "n = 2 + k" using le_Suc_ex by blast
  then have k: "n = Suc (Suc k)" by simp
  let ?s1 = "s + 1" and ?s2 = "s + 1 + length (render c)"
  have d1: "drop ?s1 buf = render c @ '')'' @ rest" using drop_further [OF d] by simp
  have l1: "?s1 \<le> length buf" using drop_length [OF d s] by simp
  have d2: "drop ?s2 buf = '')'' @ rest" using drop_further [OF d1] by (simp add: add.assoc)
  have l2: "?s2 \<le> length buf" using drop_length [OF d1 l1] by simp
  have p: "peek buf ''('' s = (s, True)" using peek_drop [OF d _ s, of "''(''"] by (simp add: blank_free_def whitespace_def)
  have g: "gettoken buf s = (CHR ''('', s, ?s1, ?s1)" using gettoken_symbol [of s buf "CHR ''(''"] d fb s by simp
  have p2: "peek buf '')'' ?s2 = (?s2, True)" using peek_drop [OF d2 _ l2, of "'')''"] by (simp add: blank_free_def whitespace_def)
  have g2: "gettoken buf ?s2 = (CHR '')'', ?s2, ?s2 + 1, ?s2 + 1)" using gettoken_symbol [of ?s2 buf "CHR '')''" rest] d2 b l2 by simp
  have "4 * (length buf - ?s1) + 4 \<le> k" using n k l1 by simp
  then obtain t where t: "parseline k buf ?s1 = Some (Ok (t, ?s2))" "spans buf t c"
    using c d1 l1 unfolding parses_def by (metis append_Cons append_Nil closes_def list.sel(1))
  have "parseexec n buf s = Some (parseredirs buf t (?s2 + 1))" using p g t(1) p2 g2 by (simp add: k parseexec.simps parseblock.simps)
  then show ?thesis using t(2) by (intro exI [of _ t]) (simp add: add.commute add.left_commute)
qed

lemma parse_block_plain:
  assumes "parses buf c" "drop s buf = ''('' @ render c @ '')'' @ rest" "s \<le> length buf" "blank_free rest"
    "blank_free (render c @ '')'' @ rest)" "rest = [] \<or> hd rest \<notin> set ''<>''" "4 * (length buf - s) + 2 \<le> n"
  shows "\<exists>t. parseexec n buf s = Some (Ok (t, s + length (render c) + 2)) \<and> spans buf t c"
proof -
  have d: "drop (s + length (render c) + 2) buf = rest" using drop_further [of s buf "''('' @ render c @ '')''" rest] assms(2) by (simp add: add.assoc)
  have l: "s + length (render c) + 2 \<le> length buf" using drop_length [of s buf "''('' @ render c @ '')''" rest] assms(2,3) by (simp add: add.assoc)
  show ?thesis using parse_block [OF assms(1-5,7)] parseredirs_none [OF d assms(4) l assms(6)] by auto
qed

lemma render_start: "wf_command c \<Longrightarrow> closes rest \<Longrightarrow> blank_free (render c @ rest)"
proof (cases c)
  case (Exec ws)
  assume c: "wf_command c" "closes rest"
  show ?thesis
  proof (cases ws)
    case Nil
    then show ?thesis using Exec c closes_blank_free by simp
  next
    case (Cons w vs)
    then have "w \<noteq> []" "word_char (hd w)" using Exec c by (cases w, auto simp: is_word_def)+
    then show ?thesis using Exec Cons by (auto simp: blank_free_def word_char_def)
  qed
qed (auto simp: blank_free_def whitespace_def)

text \<open>The rest of the line after one pipeline stage: no pipe, no \<^verbatim>\<open>&\<close>, no \<^verbatim>\<open>;\<close>.\<close>

lemma line_end:
  assumes d: "drop s buf = rest" and s: "s \<le> length buf" and r: "closes rest" and e: "parsepipe n buf s0 = Some (Ok (t, s))"
  shows "parseline (Suc n) buf s0 = Some (Ok (t, s))"
proof -
  note b = closes_blank_free [OF r]
  have "peek buf ''&'' s = (s, False)" "peek buf '';'' s = (s, False)"
    using peek_drop [OF d b s, of "''&''"] peek_drop [OF d b s, of "'';''"] r by (auto simp: closes_def)
  then show ?thesis using e by (simp add: parseline.simps parseback.simps [of buf t s])
qed

lemma pipe_end:
  assumes d: "drop s buf = rest" and s: "s \<le> length buf" and b: "blank_free rest" and r: "rest = [] \<or> hd rest \<noteq> CHR ''|''"
    and e: "parseexec n buf s0 = Some (Ok (t, s))"
  shows "parsepipe (Suc n) buf s0 = Some (Ok (t, s))"
proof -
  have "peek buf ''|'' s = (s, False)" using peek_drop [OF d b s, of "''|''"] r by auto
  then show ?thesis using e by (simp add: parsepipe.simps)
qed

lemma parse_block_pipe:
  assumes c: "wf_command c" "parses buf c" and d: "drop s buf = ''('' @ render c @ '')'' @ rest" and s: "s \<le> length buf" and b: "blank_free rest"
    and r: "rest = [] \<or> hd rest \<notin> set ''<>|''" and n: "4 * (length buf - s) + 3 \<le> n"
  shows "\<exists>t. parsepipe n buf s = Some (Ok (t, s + length (render c) + 2)) \<and> spans buf t c"
proof -
  obtain k where k: "n = Suc k" using n by (cases n) auto
  have fb: "blank_free (render c @ '')'' @ rest)" using c by (intro render_start) (auto simp: closes_def)
  have "rest = [] \<or> hd rest \<notin> set ''<>''" "4 * (length buf - s) + 2 \<le> k" using r n k by auto
  then obtain t where t: "parseexec k buf s = Some (Ok (t, s + length (render c) + 2))" "spans buf t c"
    using parse_block_plain [OF c(2) d s b fb] by blast
  have d': "drop (s + length (render c) + 2) buf = rest" using drop_further [of s buf "''('' @ render c @ '')''" rest] d by (simp add: add.assoc)
  have l': "s + length (render c) + 2 \<le> length buf" using drop_length [of s buf "''('' @ render c @ '')''" rest] d s by (simp add: add.assoc)
  show ?thesis using pipe_end [OF d' l' b _ t(1)] r t(2) k by auto
qed

lemma parses_Exec: "wf_command (Exec ws) \<Longrightarrow> nul \<notin> set buf \<Longrightarrow> parses buf (Exec ws)"
  unfolding parses_def
proof (intro allI impI)
  fix s rest n
  assume wf: "wf_command (Exec ws)" and nn: "nul \<notin> set buf" and d: "drop s buf = render (Exec ws) @ rest" and s: "s \<le> length buf"
    and r: "closes rest" and n: "4 * (length buf - s) + 4 \<le> n"
  have "4 \<le> n" using n by simp
  then obtain k where "n = 4 + k" using le_Suc_ex by blast
  then have k: "n = Suc (Suc (Suc (Suc k)))" by simp
  have b: "blank_free (render (Exec ws) @ rest)" by (rule render_start [OF wf r])
  have hd: "render (Exec ws) @ rest = [] \<or> hd (render (Exec ws) @ rest) = CHR '')'' \<or> word_char (hd (render (Exec ws) @ rest))"
  proof (cases ws)
    case Nil
    then show ?thesis using r by (auto simp: closes_def)
  next
    case (Cons w vs)
    then have "w \<noteq> []" "word_char (hd w)" using wf by (cases w, auto simp: is_word_def)+
    then show ?thesis using Cons by simp
  qed
  have sym: "\<not> word_char (CHR ''('')" "\<not> word_char (CHR ''<'')" "\<not> word_char (CHR ''>'')" by (simp_all add: word_char_def symbols_def)
  have p: "peek buf ''('' s = (s, False)" using peek_drop [OF d b s, of "''(''"] hd sym by auto
  have nr: "parseredirs buf (EXEC []) s = Ok (EXEC [], s)" using hd sym by (intro parseredirs_none [OF d b s]) auto
  have d0: "drop s buf = concat (map (\<lambda>w. w @ '' '') ws) @ rest" using d by simp
  have "list_all is_word ws" "0 + length ws < MAXARGS" using wf by simp_all
  from parseargs_words [OF nn r d0 s this, of "[]" "[]"] obtain bs where
    bs: "parseargs buf (EXEC []) 0 s = Ok (EXEC bs, s + length (render (Exec ws)))" "list_all2 (word_span buf) bs ws" by auto
  let ?s = "s + length (render (Exec ws))"
  have d1: "drop ?s buf = rest" and l1: "?s \<le> length buf" using drop_further [OF d] drop_length [OF d s] by simp_all
  have e: "parseexec (Suc (Suc k)) buf s = Some (Ok (EXEC bs, ?s))" using p nr bs(1) by (simp add: parseexec.simps)
  have "rest = [] \<or> hd rest \<noteq> CHR ''|''" using r by (auto simp: closes_def)
  from line_end [OF d1 l1 r pipe_end [OF d1 l1 closes_blank_free [OF r] this e]]
  show "\<exists>t. parseline n buf s = Some (Ok (t, ?s)) \<and> spans buf t (Exec ws)" using bs(2) k by auto
qed

lemma parses_Redir: "wf_command (Redir c w dir) \<Longrightarrow> nul \<notin> set buf \<Longrightarrow> parses buf c \<Longrightarrow> parses buf (Redir c w dir)"
  unfolding parses_def [of buf "Redir c w dir"]
proof (intro allI impI)
  fix s rest n
  assume wf: "wf_command (Redir c w dir)" and nn: "nul \<notin> set buf" and c: "parses buf c" and d: "drop s buf = render (Redir c w dir) @ rest"
    and s: "s \<le> length buf" and r: "closes rest" and n: "4 * (length buf - s) + 4 \<le> n"
  have "4 \<le> n" using n by simp
  then obtain k where "n = 4 + k" using le_Suc_ex by blast
  then have k: "n = Suc (Suc (Suc (Suc k)))" by simp
  let ?R = "arrow dir @ w @ rest" and ?s1 = "s + length (render c) + 2"
  have dd: "drop s buf = ''('' @ render c @ '')'' @ ?R" using d by simp
  have b: "blank_free ?R" by (cases dir) (auto simp: blank_free_def whitespace_def)
  have fb: "blank_free (render c @ '')'' @ ?R)" using wf by (intro render_start) (auto simp: closes_def)
  have "4 * (length buf - s) + 2 \<le> Suc (Suc k)" using n k by simp
  from parse_block [OF c dd s b fb this] obtain t where t: "parseexec (Suc (Suc k)) buf s = Some (parseredirs buf t ?s1)" "spans buf t c" by blast
  have d1: "drop ?s1 buf = ?R" using drop_further [of s buf "''('' @ render c @ '')''" ?R] dd by (simp add: add.assoc)
  have l1: "?s1 \<le> length buf" using drop_length [of s buf "''('' @ render c @ '')''" ?R] dd s by (simp add: add.assoc)
  have w: "is_word w" using wf by simp
  from parseredirs_one [OF d1 w r nn l1, of t] obtain q eq mode fd where
    q: "parseredirs buf t ?s1 = Ok (REDIR t q eq mode fd, ?s1 + length (arrow dir) + length w)" "word_span buf (q, eq) w" "(mode, fd) = mode_fd dir" by blast
  let ?s = "s + length (render (Redir c w dir))"
  have es: "?s1 + length (arrow dir) + length w = ?s" by simp
  have d2: "drop ?s buf = rest" and l2: "?s \<le> length buf" using drop_further [OF d] drop_length [OF d s] by simp_all
  have e: "parseexec (Suc (Suc k)) buf s = Some (Ok (REDIR t q eq mode fd, ?s))" using t(1) q(1) es by simp
  have "rest = [] \<or> hd rest \<noteq> CHR ''|''" using r by (auto simp: closes_def)
  from line_end [OF d2 l2 r pipe_end [OF d2 l2 closes_blank_free [OF r] this e]]
  show "\<exists>t. parseline n buf s = Some (Ok (t, ?s)) \<and> spans buf t (Redir c w dir)" using t(2) q(2,3) k by auto
qed

text \<open>Two operands around an operator \<open>o\<close>: positions after the first operand and after the operator.\<close>

lemma binary_drop:
  assumes "drop s buf = ''('' @ render l @ '')'' @ [c] @ ''('' @ render r @ '')'' @ rest" "s \<le> length buf"
  shows "drop (s + length (render l) + 2) buf = c # ''('' @ render r @ '')'' @ rest" "s + length (render l) + 2 \<le> length buf"
    "drop (s + length (render l) + 3) buf = ''('' @ render r @ '')'' @ rest" "s + length (render l) + 3 \<le> length buf"
  using drop_further [of s buf "''('' @ render l @ '')''" "[c] @ ''('' @ render r @ '')'' @ rest"]
    drop_length [of s buf "''('' @ render l @ '')''" "[c] @ ''('' @ render r @ '')'' @ rest"]
    drop_further [of s buf "''('' @ render l @ '')'' @ [c]" "''('' @ render r @ '')'' @ rest"]
    drop_length [of s buf "''('' @ render l @ '')'' @ [c]" "''('' @ render r @ '')'' @ rest"] assms
  by (simp_all add: add.assoc eval_nat_numeral)

lemma parses_Pipe: "wf_command (Pipe l r) \<Longrightarrow> parses buf l \<Longrightarrow> parses buf r \<Longrightarrow> parses buf (Pipe l r)"
  unfolding parses_def [of buf "Pipe l r"]
proof (intro allI impI)
  fix s rest n
  assume wf: "wf_command (Pipe l r)" and lr: "parses buf l" "parses buf r" and d: "drop s buf = render (Pipe l r) @ rest"
    and s: "s \<le> length buf" and r: "closes rest" and n: "4 * (length buf - s) + 4 \<le> n"
  have "4 \<le> n" using n by simp
  then obtain k where "n = 4 + k" using le_Suc_ex by blast
  then have k: "n = Suc (Suc (Suc (Suc k)))" by simp
  let ?R = "CHR ''|'' # ''('' @ render r @ '')'' @ rest" and ?s1 = "s + length (render l) + 2" and ?s = "s + length (render (Pipe l r))"
  have dd: "drop s buf = ''('' @ render l @ '')'' @ ?R" using d by simp
  note B = binary_drop [of s buf l "CHR ''|''" r rest, OF _ s]
  have wl: "wf_command l" "wf_command r" using wf by simp_all
  have b: "blank_free ?R" by (simp add: blank_free_def whitespace_def)
  have fb: "blank_free (render l @ '')'' @ ?R)" using wl by (intro render_start) (auto simp: closes_def)
  have "?R = [] \<or> hd ?R \<notin> set ''<>''" "4 * (length buf - s) + 2 \<le> Suc (Suc k)" using n k by simp_all
  from parse_block_plain [OF lr(1) dd s b fb this]
  obtain t where t: "parseexec (Suc (Suc k)) buf s = Some (Ok (t, ?s1))" "spans buf t l" by blast
  have p: "peek buf ''|'' ?s1 = (?s1, True)" using peek_drop [OF B(1) b B(2), of "''|''"] dd by simp
  have "blank_free (''('' @ render r @ '')'' @ rest)" by (simp add: blank_free_def whitespace_def)
  then have g: "gettoken buf ?s1 = (CHR ''|'', ?s1, ?s1 + 1, ?s1 + 1)" using gettoken_symbol [OF B(1) _ _ B(2)] dd by simp
  have es: "?s1 + 1 = s + length (render l) + 3" "s + length (render l) + 3 + length (render r) + 2 = ?s" by simp_all
  have db: "drop (s + length (render l) + 3) buf = ''('' @ render r @ '')'' @ rest" "s + length (render l) + 3 \<le> length buf" using B(3,4) dd by simp_all
  have "rest = [] \<or> hd rest \<notin> set ''<>|''" using r by (auto simp: closes_def)
  moreover have "4 * (length buf - (s + length (render l) + 3)) + 3 \<le> Suc (Suc k)" using n k db(2) by simp
  ultimately obtain u where u: "parsepipe (Suc (Suc k)) buf (?s1 + 1) = Some (Ok (u, ?s))" "spans buf u r"
    using parse_block_pipe [OF wl(2) lr(2) db closes_blank_free [OF r]] unfolding es by blast
  have pp: "parsepipe (Suc (Suc (Suc k))) buf s = Some (Ok (PIPE t u, ?s))" using t(1) p g u(1) by (subst parsepipe.simps) simp
  have d2: "drop ?s buf = rest" and l2: "?s \<le> length buf" using drop_further [OF d] drop_length [OF d s] by simp_all
  from line_end [OF d2 l2 r pp] show "\<exists>t. parseline n buf s = Some (Ok (t, ?s)) \<and> spans buf t (Pipe l r)" using t(2) u(2) k by auto
qed

lemma parses_Seq: "wf_command (Seq l r) \<Longrightarrow> parses buf l \<Longrightarrow> parses buf r \<Longrightarrow> parses buf (Seq l r)"
  unfolding parses_def [of buf "Seq l r"]
proof (intro allI impI)
  fix s rest n
  assume wf: "wf_command (Seq l r)" and lr: "parses buf l" "parses buf r" and d: "drop s buf = render (Seq l r) @ rest"
    and s: "s \<le> length buf" and r: "closes rest" and n: "4 * (length buf - s) + 4 \<le> n"
  have "4 \<le> n" using n by simp
  then obtain k where "n = 4 + k" using le_Suc_ex by blast
  then have k: "n = Suc (Suc (Suc (Suc k)))" by simp
  let ?R = "CHR '';'' # ''('' @ render r @ '')'' @ rest" and ?s1 = "s + length (render l) + 2" and ?s = "s + length (render (Seq l r))"
  have dd: "drop s buf = ''('' @ render l @ '')'' @ ?R" using d by simp
  note B = binary_drop [of s buf l "CHR '';''" r rest, OF _ s]
  have wl: "wf_command l" "wf_command r" using wf by simp_all
  have b: "blank_free ?R" by (simp add: blank_free_def whitespace_def)
  have "?R = [] \<or> hd ?R \<notin> set ''<>|''" "4 * (length buf - s) + 3 \<le> Suc (Suc (Suc k))" using n k by simp_all
  from parse_block_pipe [OF wl(1) lr(1) dd s b this]
  obtain t where t: "parsepipe (Suc (Suc (Suc k))) buf s = Some (Ok (t, ?s1))" "spans buf t l" by blast
  have p: "peek buf ''&'' ?s1 = (?s1, False)" "peek buf '';'' ?s1 = (?s1, True)"
    using peek_drop [OF B(1) b B(2), of "''&''"] peek_drop [OF B(1) b B(2), of "'';''"] dd by simp_all
  have "blank_free (''('' @ render r @ '')'' @ rest)" by (simp add: blank_free_def whitespace_def)
  then have g: "gettoken buf ?s1 = (CHR '';'', ?s1, ?s1 + 1, ?s1 + 1)" using gettoken_symbol [OF B(1) _ _ B(2)] dd by simp
  have es: "?s1 + 1 = s + length (render l) + 3" "s + length (render l) + 3 + length (render r) + 2 = ?s" by simp_all
  have d2: "drop ?s buf = rest" and l2: "?s \<le> length buf" using drop_further [OF d] drop_length [OF d s] by simp_all
  have db: "drop (s + length (render l) + 3) buf = ''('' @ render r @ '')'' @ rest" "s + length (render l) + 3 \<le> length buf" using B(3,4) dd by simp_all
  have "rest = [] \<or> hd rest \<notin> set ''<>|''" using r by (auto simp: closes_def)
  moreover have "4 * (length buf - (s + length (render l) + 3)) + 3 \<le> Suc (Suc k)" using n k db(2) by simp
  ultimately obtain u where u: "parsepipe (Suc (Suc k)) buf (?s1 + 1) = Some (Ok (u, ?s))" "spans buf u r"
    using parse_block_pipe [OF wl(2) lr(2) db closes_blank_free [OF r]] unfolding es by blast
  have "parseline (Suc (Suc (Suc k))) buf (?s1 + 1) = Some (Ok (u, ?s))" by (rule line_end [OF d2 l2 r u(1)])
  then have "parseline n buf s = Some (Ok (LIST t u, ?s))" using t(1) p g unfolding k by (subst parseline.simps) (simp add: parseback.simps)
  then show "\<exists>t. parseline n buf s = Some (Ok (t, ?s)) \<and> spans buf t (Seq l r)" using t(2) u(2) by auto
qed

lemma parses_Back: "wf_command (Back c) \<Longrightarrow> parses buf c \<Longrightarrow> parses buf (Back c)"
  unfolding parses_def [of buf "Back c"]
proof (intro allI impI)
  fix s rest n
  assume wf: "wf_command (Back c)" and c: "parses buf c" and d: "drop s buf = render (Back c) @ rest"
    and s: "s \<le> length buf" and r: "closes rest" and n: "4 * (length buf - s) + 4 \<le> n"
  have "4 \<le> n" using n by simp
  then obtain k where "n = 4 + k" using le_Suc_ex by blast
  then have k: "n = Suc (Suc (Suc (Suc k)))" by simp
  let ?s1 = "s + length (render c) + 2" and ?s = "s + length (render (Back c))"
  have dd: "drop s buf = ''('' @ render c @ '')'' @ CHR ''&'' # rest" using d by simp
  have b: "blank_free (CHR ''&'' # rest)" by (simp add: blank_free_def whitespace_def)
  have d1: "drop ?s1 buf = CHR ''&'' # rest" using drop_further [of s buf "''('' @ render c @ '')''" "CHR ''&'' # rest"] dd by (simp add: add.assoc)
  have l1: "?s1 \<le> length buf" using drop_length [of s buf "''('' @ render c @ '')''" "CHR ''&'' # rest"] dd s by (simp add: add.assoc)
  have d2: "drop ?s buf = rest" and l2: "?s \<le> length buf" using drop_further [OF d] drop_length [OF d s] by simp_all
  have wc: "wf_command c" using wf by simp
  have "CHR ''&'' # rest = [] \<or> hd (CHR ''&'' # rest) \<notin> set ''<>|''" "4 * (length buf - s) + 3 \<le> Suc (Suc (Suc k))" using n k by simp_all
  from parse_block_pipe [OF wc c dd s b this]
  obtain t where t: "parsepipe (Suc (Suc (Suc k))) buf s = Some (Ok (t, ?s1))" "spans buf t c" by blast
  have p: "peek buf ''&'' ?s1 = (?s1, True)" using peek_drop [OF d1 b l1, of "''&''"] by simp
  have g: "gettoken buf ?s1 = (CHR ''&'', ?s1, ?s, ?s)" using gettoken_symbol [OF d1 _ closes_blank_free [OF r] l1] by simp
  have p2: "peek buf ''&'' ?s = (?s, False)" "peek buf '';'' ?s = (?s, False)"
    using peek_drop [OF d2 closes_blank_free [OF r] l2, of "''&''"] peek_drop [OF d2 closes_blank_free [OF r] l2, of "'';''"] r
    by (auto simp: closes_def)
  have "parseback buf t ?s1 = (BACK t, ?s)" using p g p2(1) by (subst parseback.simps) (simp add: parseback.simps [of buf "BACK t"])
  then have "parseline n buf s = Some (Ok (BACK t, ?s))" using t(1) p2(2) unfolding k by (subst parseline.simps) simp
  then show "\<exists>t. parseline n buf s = Some (Ok (t, ?s)) \<and> spans buf t (Back c)" using t(2) by auto
qed

lemma parses_all: "wf_command c \<Longrightarrow> nul \<notin> set buf \<Longrightarrow> parses buf c"
  by (induction c) (auto intro: parses_Exec parses_Redir parses_Pipe parses_Seq parses_Back)

lemma word_no_nul: "is_word w \<Longrightarrow> nul \<notin> set w"
  by (auto simp: is_word_def list_all_iff word_char_def)

lemma render_no_nul: "wf_command c \<Longrightarrow> nul \<notin> set (render c)"
proof (induction c)
  case (Exec ws)
  then show ?case using word_no_nul by (auto simp: list_all_iff)
next
  case (Redir c w d)
  then show ?case using word_no_nul by (cases d) auto
qed auto

text \<open>C19. The shell's parser reads back every printed command.  For every command tree built
  from pipes, lists, background jobs, redirections and at most nine arguments, parsing its printed
  form succeeds, and after the strings have been ended in the buffer the resulting tree denotes
  exactly that command: every argument and file name is the NUL-terminated string at its pointer,
  and every redirection has its mode and descriptor.\<close>

theorem parse_printed_command:
  assumes "wf_command c"
  shows "\<exists>t m. parsecmd (render c) = Some (Ok (t, m)) \<and> reads m t c"
proof -
  let ?buf = "render c"
  note n = render_no_nul [OF assms]
  have "drop 0 ?buf = render c @ []" "closes []" "4 * (length ?buf - 0) + 4 \<le> line_fuel ?buf" by (simp_all add: closes_def line_fuel_def)
  then obtain t where t: "parseline (line_fuel ?buf) ?buf 0 = Some (Ok (t, length ?buf))" "spans ?buf t c"
    using parses_all [OF assms n] unfolding parses_def by fastforce
  have "peek ?buf [] (length ?buf) = (length ?buf, False)" using peek_drop [of "length ?buf" ?buf "[]" "[]"] by (simp add: blank_free_def)
  then have "parsecmd ?buf = Some (Ok (t, nulterminate t (?buf @ [nul])))" using t(1) by (simp add: parsecmd_def)
  then show ?thesis using spans_nulterminate [OF t(2)] by blast
qed

theorem parse_printed_command_witness:
  "\<exists>t m. parsecmd ''((grep x )<in)|(wc )'' = Some (Ok (t, m)) \<and> reads m t (Pipe (Redir (Exec [''grep'', ''x'']) ''in'' From) (Exec [''wc'']))"
proof -
  have "wf_command (Pipe (Redir (Exec [''grep'', ''x'']) ''in'' From) (Exec [''wc'']))"
    by (simp add: is_word_def word_char_def whitespace_def symbols_def MAXARGS_def)
  from parse_printed_command [OF this] show ?thesis by simp
qed

text \<open>C20. The parser ends on every input line: the recursion of the grammar needs at most four
  calls for each character, so the fuel given by \<open>parsecmd\<close> is never exhausted, and the outcome is
  a command or one of the shell's error messages.\<close>

theorem parsecmd_terminates:
  "\<exists>r. parsecmd buf = Some r"
proof -
  have "parseline (line_fuel buf) buf 0 \<noteq> None" by (rule parse_fuel(1)) (simp_all add: line_fuel_def)
  then have "parsecmd buf \<noteq> None" unfolding parsecmd_def by (rule bindO_None) (auto split: prod.splits)
  then show ?thesis by blast
qed

end
