(* ===== verification/File.thy ===== *)
theory File
  imports Fs Pipe
begin

text \<open>
  \<^verbatim>\<open>kernel/file.c\<close>, with the allocation of a pipe's two ends from \<^verbatim>\<open>kernel/pipe.c\<close>. The file
  table is a list and a \<^verbatim>\<open>struct file\<close> pointer an index into it; the pipes are a map from the
  address of their page. A call that wakes a pipe's channels returns them. \<open>layout\<close> holds the
  addresses that the linker and the kernel stack give: the end of the kernel image, the data of
  each buffer, and the locals whose address the code takes. The device switch \<open>devsw\<close>, a table of
  function pointers that drivers fill at run time, is a parameter.
\<close>

record layout =
  k_end :: uint64
  k_buf :: "nat \<Rightarrow> uint64"
  k_local :: uint64
  k_tramp :: uint64
  k_forkret :: uint64
  k_initcode :: uint64
  k_xstate :: "nat \<Rightarrow> uint64"

datatype fdtype = FD_NONE | FD_PIPE | FD_INODE | FD_DEVICE

record kfile =
  f_type :: fdtype
  f_ref :: int
  readable :: bool
  writable :: bool
  f_pipe :: uint64
  f_ip :: nat
  f_off :: uint
  f_major :: ushort

record ftab = fs +
  ftable :: "kfile list"
  pipes :: "uint64 \<Rightarrow> pipe"

type_synonym woken = "(uint64 \<times> pipe_chan) list"

definition upd_file :: "nat \<Rightarrow> (kfile \<Rightarrow> kfile) \<Rightarrow> 'z ftab_scheme \<Rightarrow> 'z ftab_scheme" where
  "upd_file f g s = s\<lparr>ftable := (ftable s)[f := g (ftable s ! f)]\<rparr>"

section \<open>Allocation and reference counts\<close>

definition filealloc :: "'z ftab_scheme \<Rightarrow> nat option \<times> 'z ftab_scheme" where
  "filealloc s =
     (case first_idx (\<lambda>f. f_ref f = 0) (ftable s) of
        Some f \<Rightarrow> (Some f, upd_file f (\<lambda>x. x\<lparr>f_ref := 1\<rparr>) s)
      | None \<Rightarrow> (None, s))"

definition filedup :: "nat \<Rightarrow> 'z ftab_scheme \<Rightarrow> 'z ftab_scheme result" where
  "filedup f s =
     (if f_ref (ftable s ! f) < 1 then Panic ''filedup''
      else Ok (upd_file f (\<lambda>x. x\<lparr>f_ref := f_ref x + 1\<rparr>) s))"

definition fileclose :: "layout \<Rightarrow> nat \<Rightarrow> 'z ftab_scheme \<Rightarrow> (woken \<times> 'z ftab_scheme) result" where
  "fileclose k f s =
     (if f_ref (ftable s ! f) < 1 then Panic ''fileclose''
      else
        let s = upd_file f (\<lambda>x. x\<lparr>f_ref := f_ref x - 1\<rparr>) s in
        if f_ref (ftable s ! f) > 0 then Ok ([], s)
        else
          let ff = ftable s ! f;
              s = upd_file f (\<lambda>x. x\<lparr>f_ref := 0, f_type := FD_NONE\<rparr>) s
          in
          if f_type ff = FD_PIPE then
            bindR (pipeclose (k_end k) (f_pipe ff) (writable ff) (pipes s (f_pipe ff)) s) (\<lambda>(ch, pi, s).
              Ok ([(f_pipe ff, ch)], s\<lparr>pipes := (pipes s)(f_pipe ff := pi)\<rparr>))
          else if f_type ff = FD_INODE \<or> f_type ff = FD_DEVICE then
            bindR (begin_op s) (\<lambda>s. bindR (iput (f_ip ff) s) (\<lambda>s. bindR (end_op s) (\<lambda>s. Ok ([], s))))
          else Ok ([], s))"

text \<open>
  \<^verbatim>\<open>pipealloc\<close>: the two ends of a new pipe, or nothing. The pipe's buffer is not initialised: it
  holds what the page at offset 24, behind the lock, holds.
\<close>

definition pipealloc :: "layout \<Rightarrow> 'z ftab_scheme \<Rightarrow> ((nat \<times> nat) option \<times> 'z ftab_scheme) result" where
  "pipealloc k s =
     (case filealloc s of
        (None, s) \<Rightarrow> Ok (None, s)
      | (Some f0, s) \<Rightarrow>
          case filealloc s of
            (None, s) \<Rightarrow> bindR (fileclose k f0 s) (\<lambda>(_, s). Ok (None, s))
          | (Some f1, s) \<Rightarrow>
              let (pi, s) = kalloc s in
              if pi = 0 then
                bindR (fileclose k f0 s) (\<lambda>(_, s). bindR (fileclose k f1 s) (\<lambda>(_, s). Ok (None, s)))
              else
                let s = s\<lparr>pipes := (pipes s)(pi := pipe_init (bytes_at (mem s) (pi + 24) PIPESIZE))\<rparr>;
                    s = upd_file f0 (\<lambda>x. x\<lparr>f_type := FD_PIPE, readable := True, writable := False, f_pipe := pi\<rparr>) s;
                    s = upd_file f1 (\<lambda>x. x\<lparr>f_type := FD_PIPE, readable := False, writable := True, f_pipe := pi\<rparr>) s
                in Ok (Some (f0, f1), s))"

section \<open>Reading and writing\<close>

text \<open>The local \<^verbatim>\<open>struct stat\<close>: \<^verbatim>\<open>dev\<close>, \<^verbatim>\<open>ino\<close>, \<^verbatim>\<open>type\<close>, \<^verbatim>\<open>nlink\<close>, four bytes of padding, \<^verbatim>\<open>size\<close>.\<close>

definition put_stat :: "uint64 \<Rightarrow> stat \<Rightarrow> memory \<Rightarrow> memory" where
  "put_stat a st m =
     (let m = store_le 4 m a (st_dev st);
          m = store_le 4 m (a + 4) (st_ino st);
          m = store_le 2 m (a + 8) (st_type st);
          m = store_le 2 m (a + 10) (st_nlink st)
      in store64 m (a + 16) (st_size st))"

definition filestat :: "layout \<Rightarrow> uint64 \<Rightarrow> nat \<Rightarrow> uint64 \<Rightarrow> 'z ftab_scheme \<Rightarrow> (int \<times> 'z ftab_scheme) result" where
  "filestat k pt f addr s =
     (let ff = ftable s ! f in
      if f_type ff = FD_INODE \<or> f_type ff = FD_DEVICE then
        bindR (ilock (f_ip ff) s) (\<lambda>s.
          let s = s\<lparr>mem := put_stat (k_local k) (stati (itable s ! f_ip ff)) (mem s)\<rparr> in
          bindR (iunlock (f_ip ff) s) (\<lambda>s.
            let (r, s) = copyout pt addr (k_local k) 24 s in
            if r < 0 then Ok (-1, s) else Ok (0, s)))
      else Ok (-1, s))"

text \<open>
  What a device function returns is what it returns at once or that it sleeps, as for a pipe.
  \<^verbatim>\<open>f->major\<close> is a signed \<^verbatim>\<open>short\<close>.
\<close>

type_synonym 'z devfun = "uint64 \<Rightarrow> cint \<Rightarrow> 'z ftab_scheme \<Rightarrow> (pipe_out \<times> woken \<times> 'z ftab_scheme) result"

definition dev_ok :: "kfile \<Rightarrow> bool" where
  "dev_ok f \<longleftrightarrow> 0 \<le> sint (f_major f) \<and> sint (f_major f) < int NDEV"

definition fileread :: "layout \<Rightarrow> (nat \<Rightarrow> 'z devfun option) \<Rightarrow> uint64 \<Rightarrow> bool \<Rightarrow> nat \<Rightarrow> uint64 \<Rightarrow> cint \<Rightarrow> 'z ftab_scheme \<Rightarrow>
    (pipe_out \<times> woken \<times> 'z ftab_scheme) result" where
  "fileread k devread pt killed f addr n s =
     (let ff = ftable s ! f in
      if \<not> readable ff then Ok (PRet (-1), [], s)
      else case f_type ff of
        FD_PIPE \<Rightarrow>
          let (out, chs, pi, s) = piperead pt (k_local k) killed addr n (pipes s (f_pipe ff)) s in
          Ok (out, map (Pair (f_pipe ff)) chs, s\<lparr>pipes := (pipes s)(f_pipe ff := pi)\<rparr>)
      | FD_DEVICE \<Rightarrow>
          if \<not> dev_ok ff then Ok (PRet (-1), [], s)
          else (case devread (nat (sint (f_major ff))) of None \<Rightarrow> Ok (PRet (-1), [], s) | Some rd \<Rightarrow> rd addr n s)
      | FD_INODE \<Rightarrow>
          bindR (ilock (f_ip ff) s) (\<lambda>s.
            bindR (readi pt (k_buf k) (f_ip ff) (UserDst addr) (f_off ff) n s) (\<lambda>(r, _, s).
              let s = (if sint r > 0 then upd_file f (\<lambda>x. x\<lparr>f_off := f_off x + r\<rparr>) s else s) in
              bindR (iunlock (f_ip ff) s) (\<lambda>s. Ok (PRet (sint r), [], s))))
      | FD_NONE \<Rightarrow> Panic ''fileread'')"

definition write_max :: nat where
  "write_max = (MAXOPBLOCKS - 1 - 1 - 2) div 2 * BSIZE"

function filewrite_loop :: "layout \<Rightarrow> uint64 \<Rightarrow> nat \<Rightarrow> uint64 \<Rightarrow> int \<Rightarrow> int \<Rightarrow> 'z ftab_scheme \<Rightarrow> (int \<times> 'z ftab_scheme) result" where
  "filewrite_loop k pt f addr n i s =
     (if i < n then
        let n1 = (if n - i > int write_max then int write_max else n - i);
            ip = f_ip (ftable s ! f)
        in
        bindR (begin_op s) (\<lambda>s. bindR (ilock ip s) (\<lambda>s.
          bindR (writei pt (k_buf k) ip (UserSrc (addr + of_int i)) (f_off (ftable s ! f)) (of_int n1) s) (\<lambda>(r, s).
            let s = (if sint r > 0 then upd_file f (\<lambda>x. x\<lparr>f_off := f_off x + r\<rparr>) s else s) in
            bindR (iunlock ip s) (\<lambda>s. bindR (end_op s) (\<lambda>s.
              if sint r \<noteq> n1 then Ok (i, s) else filewrite_loop k pt f addr n (i + sint r) s)))))
      else Ok (i, s))"
  by pat_completeness auto
termination
  by (relation "measure (\<lambda>(k, pt, f, addr, n, i, s). nat (n - i))") (auto simp: write_max_def MAXOPBLOCKS_def BSIZE_def split: if_splits)

declare filewrite_loop.simps [simp del]

definition filewrite :: "layout \<Rightarrow> (nat \<Rightarrow> 'z devfun option) \<Rightarrow> uint64 \<Rightarrow> bool \<Rightarrow> nat \<Rightarrow> uint64 \<Rightarrow> cint \<Rightarrow> 'z ftab_scheme \<Rightarrow>
    (pipe_out \<times> woken \<times> 'z ftab_scheme) result" where
  "filewrite k devwrite pt killed f addr n s =
     (let ff = ftable s ! f in
      if \<not> writable ff then Ok (PRet (-1), [], s)
      else case f_type ff of
        FD_PIPE \<Rightarrow>
          let (out, chs, pi, s) = pipewrite pt (k_local k) killed addr n (pipes s (f_pipe ff)) s in
          Ok (out, map (Pair (f_pipe ff)) chs, s\<lparr>pipes := (pipes s)(f_pipe ff := pi)\<rparr>)
      | FD_DEVICE \<Rightarrow>
          if \<not> dev_ok ff then Ok (PRet (-1), [], s)
          else (case devwrite (nat (sint (f_major ff))) of None \<Rightarrow> Ok (PRet (-1), [], s) | Some wr \<Rightarrow> wr addr n s)
      | FD_INODE \<Rightarrow>
          bindR (filewrite_loop k pt f addr (sint n) 0 s) (\<lambda>(i, s).
            Ok (PRet (if i = sint n then sint n else -1), [], s))
      | FD_NONE \<Rightarrow> Panic ''filewrite'')"

end
