(* ===== verification/Proc.thy ===== *)
theory Proc
  imports File Sched
begin

text \<open>
  The life cycle of processes in \<^verbatim>\<open>kernel/proc.c\<close>: the process table with its pids, allocation and
  release of a process, its page table, \<^verbatim>\<open>fork\<close>, \<^verbatim>\<open>exit\<close>, \<^verbatim>\<open>wait\<close> and \<^verbatim>\<open>waitx\<close>. The calling
  process is the index \<open>me\<close>. A call runs until it returns or gives up the CPU: \<open>WSleep\<close> says that
  \<^verbatim>\<open>wait\<close> went to sleep, to run its loop again when woken, and \<^verbatim>\<open>exit\<close> ends in the state in which it
  calls \<^verbatim>\<open>sched\<close> for the last time. \<^verbatim>\<open>freewalk\<close> may not return, so neither may its callers: that
  is \<^const>\<open>None\<close>, and \<open>bindN\<close> composes such calls. \<open>pbs\<close> tells whether the kernel is built with
  the priority scheduler.
\<close>

primrec bindN :: "'a result option \<Rightarrow> ('a \<Rightarrow> 'b result option) \<Rightarrow> 'b result option" where
  "bindN None f = None"
| "bindN (Some m) f = (case m of Ok a \<Rightarrow> f a | Panic msg \<Rightarrow> Some (Panic msg) | Blocked \<Rightarrow> Some Blocked | Undef \<Rightarrow> Some Undef)"

declare bindN.simps(2) [simp del]

lemma bindN_simps [simp]:
  "bindN (Some (Ok a)) f = f a" "bindN (Some (Panic msg)) f = Some (Panic msg)" "bindN (Some Blocked) f = Some Blocked"
  "bindN (Some Undef) f = Some Undef"
  by (simp_all add: bindN.simps)

lemma bindN_Some_Ok [simp]: "bindN m f = Some (Ok y) \<longleftrightarrow> (\<exists>x. m = Some (Ok x) \<and> f x = Some (Ok y))"
  by (cases m) (auto simp: bindN.simps split: result.splits)

abbreviation bindS :: "'a result \<Rightarrow> ('a \<Rightarrow> 'b result option) \<Rightarrow> 'b result option" where
  "bindS m f \<equiv> bindN (Some m) f"

record kern = ftab +
  procs :: "proc list"
  nextpid :: int
  initproc :: "nat option"
  kticks :: uint

text \<open>The tables of the kernel as its image has them: every byte is zero, and \<^verbatim>\<open>nextpid\<close> is 1.\<close>

definition zero_proc :: proc where
  "zero_proc =
     \<lparr>state = UNUSED, chan = NoChan, killed = False, xstate = 0, pid = 0, ctime = 0, etime = 0, wtime = 0,
      rtime = 0, nrun = 0, spriority = 0, niceness = 0, parent = None, kstack = 0, sz = 0, pagetable = 0,
      trapframe = 0, pcontext = \<lparr>ra = 0, sp = 0, sregs = replicate 12 0\<rparr>, ofile = replicate NOFILE None, cwd = None,
      pname = [], trace_mask = 0, queue = 0, ticks_in_curr_slice = 0, qticks = replicate 5 0, last_exec = 0\<rparr>"

definition zero_file :: kfile where
  "zero_file = \<lparr>f_type = FD_NONE, f_ref = 0, readable = False, writable = False, f_pipe = 0, f_ip = 0, f_off = 0, f_major = 0\<rparr>"

definition zero_inode :: inode where
  "zero_inode = \<lparr>i_dev = 0, i_inum = 0, i_ref = 0, i_lock = initsleeplock, i_valid = False, i_type = 0, i_major = 0,
     i_minor = 0, i_nlink = 0, i_size = 0, i_addrs = replicate (NDIRECT + 1) 0\<rparr>"

definition zero_kern :: kern where
  "zero_kern =
     \<lparr>mem = (\<lambda>_. 0), freelist = 0, cur_pid = 0, bufs = [], nxt = (\<lambda>_. 0), prv = (\<lambda>_. 0), disk = (\<lambda>_ _. 0), dwrites = [],
      lstart = 0, lsize = 0, outstanding = 0, committing = False, ldev = 0, lhn = 0, lhblock = [],
      sb = \<lparr>sb_magic = 0, sb_size = 0, sb_nblocks = 0, sb_ninodes = 0, sb_nlog = 0, sb_logstart = 0, sb_inodestart = 0,
        sb_bmapstart = 0\<rparr>,
      itable = replicate NINODE zero_inode, ftable = replicate NFILE zero_file, pipes = (\<lambda>_. pipe_init []),
      procs = replicate NPROC zero_proc, nextpid = 1, initproc = None, kticks = 0\<rparr>"

definition example_layout :: layout where
  "example_layout =
     \<lparr>k_end = 0x80022000, k_buf = (\<lambda>i. 0x80010000 + 1120 * of_nat i), k_local = 0x80009000, k_tramp = 0x80007000,
      k_forkret = 0x80002000, k_initcode = 0x80008000, k_xstate = (\<lambda>i. 0x80018000 + 400 * of_nat i)\<rparr>"

definition upd_proc :: "nat \<Rightarrow> (proc \<Rightarrow> proc) \<Rightarrow> 'z kern_scheme \<Rightarrow> 'z kern_scheme" where
  "upd_proc i f s = s\<lparr>procs := (procs s)[i := f (procs s ! i)]\<rparr>"

text \<open>\<^verbatim>\<open>&pi->nread\<close> and \<^verbatim>\<open>&pi->nwrite\<close>, behind the lock and the data of the pipe.\<close>

fun pipe_chan_at :: "uint64 \<times> pipe_chan \<Rightarrow> chan" where
  "pipe_chan_at (pi, NREAD) = ChAddr (pi + 536)"
| "pipe_chan_at (pi, NWRITE) = ChAddr (pi + 540)"

definition wake_pipes :: "nat \<Rightarrow> woken \<Rightarrow> 'z kern_scheme \<Rightarrow> 'z kern_scheme" where
  "wake_pipes me w s = s\<lparr>procs := fold (\<lambda>ch. wakeup (Some me) (pipe_chan_at ch)) w (procs s)\<rparr>"

section \<open>The table\<close>

definition procinit :: "'z kern_scheme \<Rightarrow> 'z kern_scheme" where
  "procinit s = s\<lparr>procs := map (\<lambda>(i, p). p\<lparr>state := UNUSED, kstack := KSTACK i\<rparr>) (enumerate 0 (procs s))\<rparr>"

text \<open>Overflow of the \<^verbatim>\<open>int\<close> \<^verbatim>\<open>nextpid\<close> is undefined.\<close>

definition allocpid :: "'z kern_scheme \<Rightarrow> (int \<times> 'z kern_scheme) result" where
  "allocpid s = (if nextpid s + 1 \<ge> 2 ^ 31 then Undef else Ok (nextpid s, s\<lparr>nextpid := nextpid s + 1\<rparr>))"

definition proc_pagetable :: "layout \<Rightarrow> uint64 \<Rightarrow> 'z kmem_scheme \<Rightarrow> (uint64 \<times> 'z kmem_scheme) result option" where
  "proc_pagetable k tf s =
     (let (pt, s) = uvmcreate s in
      if pt = 0 then Some (Ok (0, s))
      else bindS (mappages pt TRAMPOLINE PGSIZE (k_tramp k) (ucast (PTE_R OR PTE_X)) s) (\<lambda>(r, s).
        if r < 0 then bindN (uvmfree (k_end k) pt 0 s) (\<lambda>s. Some (Ok (0, s)))
        else bindS (mappages pt TRAPFRAME PGSIZE tf (ucast (PTE_R OR PTE_W)) s) (\<lambda>(r, s).
          if r < 0 then
            bindS (uvmunmap (k_end k) pt TRAMPOLINE 1 False s) (\<lambda>s.
              bindN (uvmfree (k_end k) pt 0 s) (\<lambda>s. Some (Ok (0, s))))
          else Some (Ok (pt, s)))))"

definition proc_freepagetable :: "layout \<Rightarrow> uint64 \<Rightarrow> uint64 \<Rightarrow> 'z kmem_scheme \<Rightarrow> 'z kmem_scheme result option" where
  "proc_freepagetable k pt len s =
     bindS (uvmunmap (k_end k) pt TRAMPOLINE 1 False s) (\<lambda>s.
       bindS (uvmunmap (k_end k) pt TRAPFRAME 1 False s) (\<lambda>s. uvmfree (k_end k) pt len s))"

definition freeproc :: "layout \<Rightarrow> nat \<Rightarrow> 'z kern_scheme \<Rightarrow> 'z kern_scheme result option" where
  "freeproc k i s =
     bindS (if trapframe (procs s ! i) \<noteq> 0 then kfree (k_end k) (trapframe (procs s ! i)) s else Ok s) (\<lambda>s.
       let s = upd_proc i (\<lambda>p. p\<lparr>trapframe := 0\<rparr>) s in
       bindN (if pagetable (procs s ! i) \<noteq> 0
              then proc_freepagetable k (pagetable (procs s ! i)) (sz (procs s ! i)) s else Some (Ok s)) (\<lambda>s.
         Some (Ok (upd_proc i (\<lambda>p. p\<lparr>pagetable := 0, sz := 0, pid := 0, parent := None, pname := [], chan := NoChan,
           killed := False, xstate := 0, state := UNUSED\<rparr>) s))))"

definition allocproc :: "layout \<Rightarrow> bool \<Rightarrow> 'z kern_scheme \<Rightarrow> (nat option \<times> 'z kern_scheme) result option" where
  "allocproc k pbs s =
     (case first_idx (\<lambda>p. state p = UNUSED) (procs s) of
        None \<Rightarrow> Some (Ok (None, s))
      | Some i \<Rightarrow>
          bindS (allocpid s) (\<lambda>(pd, s).
            let s = upd_proc i (\<lambda>p. p\<lparr>pid := pd, state := USED, ctime := kticks s\<rparr>) s;
                s = (if pbs then upd_proc i (\<lambda>p. p\<lparr>rtime := 0, wtime := 0, niceness := 5, spriority := 60, nrun := 0\<rparr>) s else s);
                (tf, s) = kalloc s;
                s = upd_proc i (\<lambda>p. p\<lparr>trapframe := tf\<rparr>) s
            in
            if tf = 0 then bindN (freeproc k i s) (\<lambda>s. Some (Ok (None, s)))
            else bindN (proc_pagetable k tf s) (\<lambda>(pt, s).
              let s = upd_proc i (\<lambda>p. p\<lparr>pagetable := pt\<rparr>) s in
              if pt = 0 then bindN (freeproc k i s) (\<lambda>s. Some (Ok (None, s)))
              else Some (Ok (Some i, upd_proc i (\<lambda>p.
                p\<lparr>pcontext := \<lparr>ra = k_forkret k, sp = kstack p + PGSIZE, sregs = replicate 12 0\<rparr>,
                  rtime := 0, etime := 0, ctime := kticks s\<rparr>) s)))))"

text \<open>\<^verbatim>\<open>userinit\<close>; when \<^verbatim>\<open>allocproc\<close> fails it follows a null pointer. At boot no process runs, and the
  absolute path needs no current directory.\<close>

definition userinit :: "layout \<Rightarrow> bool \<Rightarrow> 'z kern_scheme \<Rightarrow> 'z kern_scheme result option" where
  "userinit k pbs s =
     bindN (allocproc k pbs s) (\<lambda>(r, s).
       let s = s\<lparr>initproc := r\<rparr> in
       case r of
         None \<Rightarrow> Some Undef
       | Some i \<Rightarrow>
           bindS (uvmfirst (pagetable (procs s ! i)) (k_initcode k) 52 s) (\<lambda>s.
             let s = upd_proc i (\<lambda>p. p\<lparr>sz := PGSIZE\<rparr>) s;
                 tf = trapframe (procs s ! i);
                 s = s\<lparr>mem := store64 (store64 (mem s) (tf + 24) 0) (tf + 48) PGSIZE\<rparr>;
                 s = upd_proc i (\<lambda>p. p\<lparr>pname := ''initcode''\<rparr>) s
             in
             bindS (namei 0 (k_buf k) 0 [slash] s) (\<lambda>(ip, s).
               Some (Ok (upd_proc i (\<lambda>p. p\<lparr>cwd := ip, state := RUNNABLE\<rparr>) s)))))"

definition growproc :: "layout \<Rightarrow> nat \<Rightarrow> cint \<Rightarrow> 'z kern_scheme \<Rightarrow> (int \<times> 'z kern_scheme) result" where
  "growproc k me n s =
     (let p = procs s ! me in
      if sint n > 0 then
        bindR (uvmalloc (k_end k) (pagetable p) (sz p) (sz p + scast n) (ucast PTE_W) s) (\<lambda>(sz', s).
          if sz' = 0 then Ok (-1, s) else Ok (0, upd_proc me (\<lambda>p. p\<lparr>sz := sz'\<rparr>) s))
      else if sint n < 0 then
        bindR (uvmdealloc (k_end k) (pagetable p) (sz p) (sz p + scast n) s) (\<lambda>(sz', s).
          Ok (0, upd_proc me (\<lambda>p. p\<lparr>sz := sz'\<rparr>) s))
      else Ok (0, upd_proc me (\<lambda>q. q\<lparr>sz := sz p\<rparr>) s))"

section \<open>Fork, exit and wait\<close>

text \<open>The loop of \<^verbatim>\<open>fork\<close> over the open files of the parent, and that of \<^verbatim>\<open>exit\<close>.\<close>

fun fork_files :: "nat \<Rightarrow> nat \<Rightarrow> nat list \<Rightarrow> 'z kern_scheme \<Rightarrow> 'z kern_scheme result" where
  "fork_files me np [] s = Ok s"
| "fork_files me np (fd # fds) s =
     (case ofile (procs s ! me) ! fd of
        None \<Rightarrow> fork_files me np fds s
      | Some f \<Rightarrow> bindR (filedup f s) (\<lambda>s. fork_files me np fds (upd_proc np (\<lambda>p. p\<lparr>ofile := (ofile p)[fd := Some f]\<rparr>) s)))"

definition fork :: "layout \<Rightarrow> bool \<Rightarrow> nat \<Rightarrow> 'z kern_scheme \<Rightarrow> (int \<times> 'z kern_scheme) result option" where
  "fork k pbs me s =
     bindN (allocproc k pbs s) (\<lambda>(r, s).
       case r of
         None \<Rightarrow> Some (Ok (-1, s))
       | Some np \<Rightarrow>
           bindS (uvmcopy (k_end k) (pagetable (procs s ! me)) (pagetable (procs s ! np)) (sz (procs s ! me)) s) (\<lambda>(r, s).
             if r < 0 then bindN (freeproc k np s) (\<lambda>s. Some (Ok (-1, s)))
             else
               let p = procs s ! me;
                   s = upd_proc np (\<lambda>q. q\<lparr>sz := sz p\<rparr>) s;
                   tf = trapframe (procs s ! np);
                   s = s\<lparr>mem := memmove (mem s) tf (trapframe p) 288\<rparr>;
                   s = upd_proc np (\<lambda>q. q\<lparr>trace_mask := trace_mask p\<rparr>) s;
                   s = s\<lparr>mem := store64 (mem s) (tf + 112) 0\<rparr>
               in
               bindS (fork_files me np [0..<NOFILE] s) (\<lambda>s.
                 case cwd (procs s ! me) of
                   None \<Rightarrow> Some Undef
                 | Some ip \<Rightarrow>
                     let s = upd_proc np (\<lambda>q. q\<lparr>cwd := Some ip\<rparr>) (idup ip s);
                         s = upd_proc np (\<lambda>q. q\<lparr>pname := take 15 (pname p)\<rparr>) s;
                         pd = pid (procs s ! np);
                         s = upd_proc np (\<lambda>q. q\<lparr>parent := Some me\<rparr>) s;
                         s = upd_proc np (\<lambda>q. q\<lparr>state := RUNNABLE\<rparr>) s
                     in Some (Ok (pd, s)))))"

fun exit_files :: "layout \<Rightarrow> nat \<Rightarrow> nat list \<Rightarrow> 'z kern_scheme \<Rightarrow> 'z kern_scheme result" where
  "exit_files k me [] s = Ok s"
| "exit_files k me (fd # fds) s =
     (case ofile (procs s ! me) ! fd of
        None \<Rightarrow> exit_files k me fds s
      | Some f \<Rightarrow>
          bindR (fileclose k f s) (\<lambda>(w, s).
            exit_files k me fds (upd_proc me (\<lambda>p. p\<lparr>ofile := (ofile p)[fd := None]\<rparr>) (wake_pipes me w s))))"

definition exit :: "layout \<Rightarrow> nat \<Rightarrow> cint \<Rightarrow> 'z kern_scheme \<Rightarrow> 'z kern_scheme result" where
  "exit k me status s =
     (if initproc s = Some me then Panic ''init exiting''
      else bindR (exit_files k me [0..<NOFILE] s) (\<lambda>s.
        bindR (begin_op s) (\<lambda>s.
          case (cwd (procs s ! me), initproc s) of
            (Some ip, Some ini) \<Rightarrow>
              bindR (iput ip s) (\<lambda>s. bindR (end_op s) (\<lambda>s.
                let s = upd_proc me (\<lambda>p. p\<lparr>cwd := None\<rparr>) s;
                    s = s\<lparr>procs := reparent ini me (procs s)\<rparr>;
                    s = s\<lparr>procs := wakeup (Some me)
                          (case parent (procs s ! me) of None \<Rightarrow> NoChan | Some j \<Rightarrow> ChProc j) (procs s)\<rparr>
                in Ok (upd_proc me (\<lambda>p. p\<lparr>xstate := status, state := ZOMBIE, etime := kticks s\<rparr>) s)))
          | _ \<Rightarrow> Undef)))"

datatype wait_out = WRet int | WSleep

text \<open>
  What \<^verbatim>\<open>wait\<close> and \<^verbatim>\<open>waitx\<close> do with a zombie child \<open>i\<close>: \<^verbatim>\<open>copyout\<close> of its exit status, which lies in
  the process table at \<open>k_xstate k i\<close>, then \<^verbatim>\<open>freeproc\<close>.
\<close>

definition wait_child :: "layout \<Rightarrow> nat \<Rightarrow> uint64 \<Rightarrow> nat \<Rightarrow> 'z kern_scheme \<Rightarrow> (wait_out \<times> 'z kern_scheme) result option" where
  "wait_child k me addr i s =
     (let pd = pid (procs s ! i);
          s = s\<lparr>mem := store_le 4 (mem s) (k_xstate k i) (xstate (procs s ! i))\<rparr>;
          (r, s) = (if addr \<noteq> 0 then copyout (pagetable (procs s ! me)) addr (k_xstate k i) 4 s else (0, s))
      in if r < 0 then Some (Ok (WRet (-1), s)) else bindN (freeproc k i s) (\<lambda>s. Some (Ok (WRet pd, s))))"

definition is_zombie_of :: "nat \<Rightarrow> proc \<Rightarrow> bool" where
  "is_zombie_of me p \<longleftrightarrow> parent p = Some me \<and> state p = ZOMBIE"

definition wait_idle :: "nat \<Rightarrow> 'z kern_scheme \<Rightarrow> wait_out \<times> 'z kern_scheme" where
  "wait_idle me s =
     (if \<not> list_ex (\<lambda>p. parent p = Some me) (procs s) \<or> killed (procs s ! me) then (WRet (-1), s)
      else (WSleep, upd_proc me (sleep_on (ChProc me)) s))"

definition wait :: "layout \<Rightarrow> nat \<Rightarrow> uint64 \<Rightarrow> 'z kern_scheme \<Rightarrow> (wait_out \<times> 'z kern_scheme) result option" where
  "wait k me addr s =
     (case first_idx (is_zombie_of me) (procs s) of
        Some i \<Rightarrow> wait_child k me addr i s
      | None \<Rightarrow> Some (Ok (wait_idle me s)))"

text \<open>\<^verbatim>\<open>waitx\<close> also writes the two times of the child through its pointers: \<^verbatim>\<open>*wtime\<close> and \<^verbatim>\<open>*rtime\<close>.\<close>

definition waitx :: "layout \<Rightarrow> nat \<Rightarrow> uint64 \<Rightarrow> 'z kern_scheme \<Rightarrow>
    (wait_out \<times> (uint \<times> uint) option \<times> 'z kern_scheme) result option" where
  "waitx k me addr s =
     (case first_idx (is_zombie_of me) (procs s) of
        Some i \<Rightarrow>
          let np = procs s ! i in
          bindN (wait_child k me addr i s) (\<lambda>(r, s). Some (Ok (r, Some (etime np - ctime np - rtime np, rtime np), s)))
      | None \<Rightarrow> let (r, s) = wait_idle me s in Some (Ok (r, None, s)))"

end
