(* ===== verification/Sysproc.thy ===== *)
theory Sysproc
  imports Proc
begin

text \<open>
  How the kernel fetches the arguments of a system call (\<^verbatim>\<open>kernel/syscall.c\<close>), and the system calls
  of \<^verbatim>\<open>kernel/sysproc.c\<close>. The saved user registers lie in the trapframe page of the calling process
  \<open>me\<close>: \<^verbatim>\<open>a0\<close> to \<^verbatim>\<open>a7\<close> at the offsets 112 to 168. A system call returns a value, or has given up
  the CPU in the middle (\<open>SSleep\<close>), or does not return (\<open>SGone\<close>, after \<^verbatim>\<open>exit\<close>).
\<close>

datatype sys_out = SRet uint64 | SSleep | SGone

type_synonym 'z sys_result = "(sys_out \<times> 'z kern_scheme) result option"

abbreviation sys_ret :: "uint64 \<Rightarrow> 'z kern_scheme \<Rightarrow> 'z sys_result" where
  "sys_ret v s \<equiv> Some (Ok (SRet v, s))"

section \<open>Arguments\<close>

definition argraw :: "nat \<Rightarrow> nat \<Rightarrow> 'z kern_scheme \<Rightarrow> uint64 result" where
  "argraw me n s = (if n \<le> 5 then Ok (load64 (mem s) (trapframe (procs s ! me) + 112 + 8 * of_nat n)) else Panic ''argraw'')"

definition argint :: "nat \<Rightarrow> nat \<Rightarrow> 'z kern_scheme \<Rightarrow> cint result" where
  "argint me n s = bindR (argraw me n s) (\<lambda>x. Ok (ucast x))"

definition argaddr :: "nat \<Rightarrow> nat \<Rightarrow> 'z kern_scheme \<Rightarrow> uint64 result" where
  "argaddr me n s = argraw me n s"

text \<open>\<open>ip\<close> and \<open>buf\<close> are the kernel addresses the value goes to.\<close>

definition fetchaddr :: "nat \<Rightarrow> uint64 \<Rightarrow> uint64 \<Rightarrow> 'z kern_scheme \<Rightarrow> int \<times> 'z kern_scheme" where
  "fetchaddr me addr ip s =
     (let p = procs s ! me in
      if addr \<ge> sz p \<or> addr + 8 > sz p then (-1, s)
      else let (r, s) = copyin (pagetable p) ip addr 8 s in if r \<noteq> 0 then (-1, s) else (0, s))"

definition fetchstr :: "nat \<Rightarrow> uint64 \<Rightarrow> uint64 \<Rightarrow> cint \<Rightarrow> 'z kern_scheme \<Rightarrow> (int \<times> 'z kern_scheme) result" where
  "fetchstr me addr buf mx s =
     (let (r, s) = copyinstr (pagetable (procs s ! me)) buf addr (scast mx) s in
      if r < 0 then Ok (-1, s)
      else case strlen (mem s) buf of None \<Rightarrow> Undef | Some n \<Rightarrow> Ok (int n, s))"

definition argstr :: "nat \<Rightarrow> nat \<Rightarrow> uint64 \<Rightarrow> cint \<Rightarrow> 'z kern_scheme \<Rightarrow> (int \<times> 'z kern_scheme) result" where
  "argstr me n buf mx s = bindR (argaddr me n s) (\<lambda>addr. fetchstr me addr buf mx s)"

section \<open>The calls\<close>

definition sys_exit :: "layout \<Rightarrow> nat \<Rightarrow> 'z kern_scheme \<Rightarrow> 'z sys_result" where
  "sys_exit k me s = bindS (argint me 0 s) (\<lambda>n. bindS (exit k me n s) (\<lambda>s. Some (Ok (SGone, s))))"

definition sys_getpid :: "nat \<Rightarrow> 'z kern_scheme \<Rightarrow> 'z sys_result" where
  "sys_getpid me s = sys_ret (of_int (pid (procs s ! me))) s"

definition sys_fork :: "layout \<Rightarrow> bool \<Rightarrow> nat \<Rightarrow> 'z kern_scheme \<Rightarrow> 'z sys_result" where
  "sys_fork k pbs me s = bindN (fork k pbs me s) (\<lambda>(r, s). sys_ret (of_int r) s)"

definition sys_wait :: "layout \<Rightarrow> nat \<Rightarrow> 'z kern_scheme \<Rightarrow> 'z sys_result" where
  "sys_wait k me s =
     bindS (argaddr me 0 s) (\<lambda>p. bindN (wait k me p s) (\<lambda>(r, s).
       case r of WSleep \<Rightarrow> Some (Ok (SSleep, s)) | WRet v \<Rightarrow> sys_ret (of_int v) s))"

text \<open>
  The locals \<^verbatim>\<open>wtime\<close> and \<^verbatim>\<open>rtime\<close> at \<open>k_local k\<close> and four bytes behind; when \<^verbatim>\<open>waitx\<close> fails before it
  has found a child they keep what the stack held.
\<close>

definition sys_waitx :: "layout \<Rightarrow> nat \<Rightarrow> 'z kern_scheme \<Rightarrow> 'z sys_result" where
  "sys_waitx k me s =
     bindS (argaddr me 0 s) (\<lambda>addr. bindS (argaddr me 1 s) (\<lambda>addr1. bindS (argaddr me 2 s) (\<lambda>addr2.
       bindN (waitx k me addr s) (\<lambda>(r, times, s).
         case r of
           WSleep \<Rightarrow> Some (Ok (SSleep, s))
         | WRet v \<Rightarrow>
             let w = k_local k;
                 s = (case times of
                        None \<Rightarrow> s
                      | Some (wt, rt) \<Rightarrow> s\<lparr>mem := store_le 4 (store_le 4 (mem s) w wt) (w + 4) rt\<rparr>);
                 (r1, s) = copyout (pagetable (procs s ! me)) addr1 w 4 s
             in
             if r1 < 0 then sys_ret (-1) s
             else
               let (r2, s) = copyout (pagetable (procs s ! me)) addr2 (w + 4) 4 s in
               if r2 < 0 then sys_ret (-1) s else sys_ret (of_int v) s))))"

definition sys_sbrk :: "layout \<Rightarrow> nat \<Rightarrow> 'z kern_scheme \<Rightarrow> 'z sys_result" where
  "sys_sbrk k me s =
     bindS (argint me 0 s) (\<lambda>n.
       let addr = sz (procs s ! me) in
       bindS (growproc k me n s) (\<lambda>(r, s). if r < 0 then sys_ret (-1) s else sys_ret addr s))"

text \<open>
  The loop of \<^verbatim>\<open>sys_sleep\<close> from one test of its condition to the next sleep; the comparison is
  unsigned. \<open>ChAddr ticksa\<close> is the channel \<^verbatim>\<open>&ticks\<close>, and \<open>ticks0\<close> the time at the call.
\<close>

definition sleep_test :: "uint64 \<Rightarrow> nat \<Rightarrow> uint \<Rightarrow> cint \<Rightarrow> 'z kern_scheme \<Rightarrow> sys_out \<times> 'z kern_scheme" where
  "sleep_test ticksa me ticks0 n s =
     (if kticks s - ticks0 < n
      then if killed (procs s ! me) then (SRet (-1), s) else (SSleep, upd_proc me (sleep_on (ChAddr ticksa)) s)
      else (SRet 0, s))"

definition sys_sleep :: "uint64 \<Rightarrow> nat \<Rightarrow> 'z kern_scheme \<Rightarrow> 'z sys_result" where
  "sys_sleep ticksa me s = bindS (argint me 0 s) (\<lambda>n. Some (Ok (sleep_test ticksa me (kticks s) n s)))"

definition sys_kill :: "nat \<Rightarrow> 'z kern_scheme \<Rightarrow> 'z sys_result" where
  "sys_kill me s =
     bindS (argint me 0 s) (\<lambda>pd. let (r, ps) = kill (sint pd) (procs s) in sys_ret (of_int r) (s\<lparr>procs := ps\<rparr>))"

definition sys_uptime :: "'z kern_scheme \<Rightarrow> 'z sys_result" where
  "sys_uptime s = sys_ret (ucast (kticks s)) s"

definition sys_trace :: "nat \<Rightarrow> 'z kern_scheme \<Rightarrow> 'z sys_result" where
  "sys_trace me s = bindS (argint me 0 s) (\<lambda>m. sys_ret 0 (upd_proc me (\<lambda>p. p\<lparr>trace_mask := m\<rparr>) s))"

text \<open>The loop of \<^verbatim>\<open>set_priority\<close> is compiled for the priority scheduler only.\<close>

definition sys_set_priority :: "bool \<Rightarrow> nat \<Rightarrow> 'z kern_scheme \<Rightarrow> 'z sys_result" where
  "sys_set_priority pbs me s =
     bindS (argint me 0 s) (\<lambda>prio. bindS (argint me 1 s) (\<lambda>pd.
       let (r, ps) = (if pbs then set_priority (sint prio) (sint pd) (procs s) else (0, procs s))
       in sys_ret (of_int r) (s\<lparr>procs := ps\<rparr>)))"

end
