(* ===== verification/Exec.thy ===== *)
theory Exec
  imports Proc
begin

text \<open>
  \<^verbatim>\<open>kernel/exec.c\<close>. The ELF header and the program headers are lists of bytes as \<^verbatim>\<open>readi\<close>
  delivers them. \<^verbatim>\<open>argv\<close> is the list of the kernel addresses of the argument strings, without the
  null pointer that ends it. The local array \<^verbatim>\<open>ustack\<close> has the address \<open>k_local k\<close>. The three
  parts of \<^verbatim>\<open>exec\<close> (loading the segments, pushing the argument strings, switching the image) are one
  definition each; \<open>exec_bad\<close> is the code at the label \<^verbatim>\<open>bad\<close>.
\<close>

definition ELF_MAGIC :: uint where "ELF_MAGIC = 0x464C457F"
definition ELF_PROG_LOAD :: uint where "ELF_PROG_LOAD = 1"

definition field :: "nat \<Rightarrow> uchar list \<Rightarrow> nat \<Rightarrow> 'v::len word" where
  "field n bs off = le_word n (\<lambda>i. bs ! (off + i))"

record elfhdr =
  e_magic :: uint
  e_entry :: uint64
  e_phoff :: uint64
  e_phnum :: ushort

record proghdr =
  p_type :: uint
  p_flags :: uint
  p_off :: uint64
  p_vaddr :: uint64
  p_filesz :: uint64
  p_memsz :: uint64

definition elfhdr_of :: "uchar list \<Rightarrow> elfhdr" where
  "elfhdr_of bs = \<lparr>e_magic = field 4 bs 0, e_entry = field 8 bs 24, e_phoff = field 8 bs 32, e_phnum = field 2 bs 56\<rparr>"

definition proghdr_of :: "uchar list \<Rightarrow> proghdr" where
  "proghdr_of bs = \<lparr>p_type = field 4 bs 0, p_flags = field 4 bs 4, p_off = field 8 bs 8, p_vaddr = field 8 bs 16,
     p_filesz = field 8 bs 32, p_memsz = field 8 bs 40\<rparr>"

definition flags2perm :: "uint \<Rightarrow> cint" where
  "flags2perm flags =
     (let perm = (if flags AND 1 \<noteq> 0 then ucast PTE_X else 0)
      in if flags AND 2 \<noteq> 0 then perm OR ucast PTE_W else perm)"

text \<open>The bytes \<^verbatim>\<open>readi\<close> copies to the kernel address \<open>a\<close>.\<close>

definition put_bytes :: "uint64 \<Rightarrow> uchar list \<Rightarrow> memory \<Rightarrow> memory" where
  "put_bytes a bs m = (\<lambda>x. if unat (x - a) < length bs then bs ! unat (x - a) else m x)"

text \<open>
  The loop of \<^verbatim>\<open>loadseg\<close>. Its counter is a \<^verbatim>\<open>uint\<close> that wraps around for a segment of almost 4 GB,
  so it need not end.
\<close>

partial_function (option) loadseg_loop :: "layout \<Rightarrow> uint64 \<Rightarrow> uint64 \<Rightarrow> nat \<Rightarrow> uint \<Rightarrow> uint \<Rightarrow> uint \<Rightarrow> 'z fs_scheme \<Rightarrow>
    (int \<times> 'z fs_scheme) result option" where
  "loadseg_loop k pt va ip offset len i s =
     (if i < len then
        let pa = walkaddr pt (va + ucast i) s in
        if pa = 0 then Some (Panic ''loadseg: address should exist'')
        else
          let n = (if len - i < ucast PGSIZE then len - i else ucast PGSIZE) in
          case readi pt (k_buf k) ip (KernelDst 0) (offset + i) n s of
            Ok (r, bs, s) \<Rightarrow>
              let s = s\<lparr>mem := put_bytes pa bs (mem s)\<rparr> in
              if r \<noteq> n then Some (Ok (-1, s)) else loadseg_loop k pt va ip offset len (i + ucast PGSIZE) s
          | Panic msg \<Rightarrow> Some (Panic msg)
          | Blocked \<Rightarrow> Some Blocked
          | Undef \<Rightarrow> Some Undef
      else Some (Ok (0, s)))"

definition loadseg :: "layout \<Rightarrow> uint64 \<Rightarrow> uint64 \<Rightarrow> nat \<Rightarrow> uint \<Rightarrow> uint \<Rightarrow> 'z fs_scheme \<Rightarrow> (int \<times> 'z fs_scheme) result option" where
  "loadseg k pt va ip offset len s = loadseg_loop k pt va ip offset len 0 s"

text \<open>
  The loop over the program headers, with the number of headers that are left: whether all were
  loaded, and the size reached.
\<close>

fun exec_load :: "layout \<Rightarrow> uint64 \<Rightarrow> nat \<Rightarrow> nat \<Rightarrow> cint \<Rightarrow> uint64 \<Rightarrow> 'z fs_scheme \<Rightarrow> (bool \<times> uint64 \<times> 'z fs_scheme) result option" where
  "exec_load k pt ip 0 off len s = Some (Ok (True, len, s))"
| "exec_load k pt ip (Suc n) off len s =
     bindS (readi pt (k_buf k) ip (KernelDst 0) off 56 s) (\<lambda>(r, bs, s).
       let ph = proghdr_of bs in
       if r \<noteq> 56 then Some (Ok (False, len, s))
       else if p_type ph \<noteq> ELF_PROG_LOAD then exec_load k pt ip n (off + 56) len s
       else if p_memsz ph < p_filesz ph then Some (Ok (False, len, s))
       else if p_vaddr ph + p_memsz ph < p_vaddr ph then Some (Ok (False, len, s))
       else if p_vaddr ph mod PGSIZE \<noteq> 0 then Some (Ok (False, len, s))
       else bindS (uvmalloc (k_end k) pt len (p_vaddr ph + p_memsz ph) (flags2perm (p_flags ph)) s) (\<lambda>(sz1, s).
         if sz1 = 0 then Some (Ok (False, len, s))
         else bindN (loadseg k pt (p_vaddr ph) ip (ucast (p_off ph)) (ucast (p_filesz ph)) s) (\<lambda>(r, s).
           if r < 0 then Some (Ok (False, sz1, s)) else exec_load k pt ip n (off + 56) sz1 s)))"

text \<open>
  The loop that pushes the argument strings; it returns the stack pointer and the addresses of the
  copies, or that it failed. Reading a string without end is undefined.
\<close>

fun exec_args :: "uint64 \<Rightarrow> uint64 \<Rightarrow> uint64 list \<Rightarrow> nat \<Rightarrow> uint64 \<Rightarrow> uint64 list \<Rightarrow> 'z kmem_scheme \<Rightarrow>
    ((uint64 \<times> uint64 list) option \<times> 'z kmem_scheme) result" where
  "exec_args pt stackbase [] argc sp' ustack s = Ok (Some (sp', ustack), s)"
| "exec_args pt stackbase (a # argv) argc sp' ustack s =
     (if argc \<ge> MAXARG then Ok (None, s)
      else case strlen (mem s) a of
        None \<Rightarrow> Undef
      | Some l \<Rightarrow>
          let sp' = sp' - (of_nat l + 1); sp' = sp' - sp' mod 16 in
          if sp' < stackbase then Ok (None, s)
          else
            let (r, s) = copyout pt sp' a (of_nat l + 1) s in
            if r < 0 then Ok (None, s) else exec_args pt stackbase argv (Suc argc) sp' (ustack @ [sp']) s)"

fun store_words :: "memory \<Rightarrow> uint64 \<Rightarrow> uint64 list \<Rightarrow> memory" where
  "store_words m a [] = m"
| "store_words m a (x # xs) = store_words (store64 m a x) (a + 8) xs"

definition exec_bad :: "layout \<Rightarrow> uint64 \<Rightarrow> uint64 \<Rightarrow> nat option \<Rightarrow> 'z fs_scheme \<Rightarrow> (int \<times> 'z fs_scheme) result option" where
  "exec_bad k pt len ipo s =
     bindN (if pt \<noteq> 0 then proc_freepagetable k pt len s else Some (Ok s)) (\<lambda>s.
       case ipo of
         None \<Rightarrow> Some (Ok (-1, s))
       | Some ip \<Rightarrow> bindS (iunlockput ip s) (\<lambda>s. bindS (end_op s) (\<lambda>s. Some (Ok (-1, s)))))"

text \<open>What follows the last \<^verbatim>\<open>/\<close> of the path, which becomes the name of the process.\<close>

definition last_elem :: "uchar list \<Rightarrow> uchar list" where
  "last_elem path = rev (takeWhile (\<lambda>c. c \<noteq> slash) (rev path))"

definition exec_commit :: "layout \<Rightarrow> nat \<Rightarrow> uchar list \<Rightarrow> uint64 \<Rightarrow> uint64 \<Rightarrow> uint64 \<Rightarrow> uint64 \<Rightarrow> nat \<Rightarrow> 'z kern_scheme \<Rightarrow>
    (int \<times> 'z kern_scheme) result option" where
  "exec_commit k me path pt len sp' entry argc s =
     (let p = procs s ! me;
          s = s\<lparr>mem := store64 (mem s) (trapframe p + 120) sp'\<rparr>;
          s = upd_proc me (\<lambda>q. q\<lparr>pname := take 15 (map (\<lambda>c. char_of (unat c)) (last_elem path)), pagetable := pt, sz := len\<rparr>) s;
          s = s\<lparr>mem := store64 (store64 (mem s) (trapframe p + 24) entry) (trapframe p + 48) sp'\<rparr>
      in bindN (proc_freepagetable k (pagetable p) (sz p) s) (\<lambda>s. Some (Ok (int argc, s))))"

definition exec_image :: "layout \<Rightarrow> nat \<Rightarrow> uchar list \<Rightarrow> uint64 list \<Rightarrow> uint64 \<Rightarrow> uint64 \<Rightarrow> uint64 \<Rightarrow> 'z kern_scheme \<Rightarrow>
    (int \<times> 'z kern_scheme) result option" where
  "exec_image k me path argv entry pt len s =
     (let len = PGROUNDUP len in
      bindS (uvmalloc (k_end k) pt len (len + 2 * PGSIZE) (ucast PTE_W) s) (\<lambda>(sz1, s).
        if sz1 = 0 then exec_bad k pt len None s
        else bindS (uvmclear pt (sz1 - 2 * PGSIZE) s) (\<lambda>s.
          let stackbase = sz1 - PGSIZE in
          bindS (exec_args pt stackbase argv 0 sz1 [] s) (\<lambda>(r, s).
            case r of
              None \<Rightarrow> exec_bad k pt sz1 None s
            | Some (sp', ustack) \<Rightarrow>
                if length ustack \<ge> MAXARG then Some Undef
                else
                  let argc = length ustack;
                      s = s\<lparr>mem := store_words (mem s) (k_local k) (ustack @ [0])\<rparr>;
                      sp' = sp' - of_nat (argc + 1) * 8;
                      sp' = sp' - sp' mod 16
                  in
                  if sp' < stackbase then exec_bad k pt sz1 None s
                  else
                    let (r, s) = copyout pt sp' (k_local k) (of_nat (argc + 1) * 8) s in
                    if r < 0 then exec_bad k pt sz1 None s
                    else exec_commit k me path pt sz1 sp' entry argc s))))"

definition exec :: "layout \<Rightarrow> nat \<Rightarrow> uchar list \<Rightarrow> uint64 list \<Rightarrow> 'z kern_scheme \<Rightarrow> (int \<times> 'z kern_scheme) result option" where
  "exec k me path argv s =
     (case cwd (procs s ! me) of
        None \<Rightarrow> Some Undef
      | Some cw \<Rightarrow>
          let pt0 = pagetable (procs s ! me) in
          bindS (begin_op s) (\<lambda>s. bindS (namei pt0 (k_buf k) cw path s) (\<lambda>(r, s).
            case r of
              None \<Rightarrow> bindS (end_op s) (\<lambda>s. Some (Ok (-1, s)))
            | Some ip \<Rightarrow>
                bindS (ilock ip s) (\<lambda>s.
                bindS (readi pt0 (k_buf k) ip (KernelDst 0) 0 64 s) (\<lambda>(r, bs, s).
                  let elf = elfhdr_of bs in
                  if r \<noteq> 64 \<or> e_magic elf \<noteq> ELF_MAGIC then exec_bad k 0 0 (Some ip) s
                  else bindN (proc_pagetable k (trapframe (procs s ! me)) s) (\<lambda>(pt, s).
                    if pt = 0 then exec_bad k 0 0 (Some ip) s
                    else bindN (exec_load k pt ip (unat (e_phnum elf)) (ucast (e_phoff elf)) 0 s) (\<lambda>(loaded, len, s).
                      if \<not> loaded then exec_bad k pt len (Some ip) s
                      else bindS (iunlockput ip s) (\<lambda>s. bindS (end_op s) (\<lambda>s.
                        exec_image k me path argv (e_entry elf) pt len s)))))))))"

end
