(* ===== verification/Sysfile.thy ===== *)
theory Sysfile
  imports Sysproc Exec
begin

text \<open>
  \<^verbatim>\<open>kernel/sysfile.c\<close>: the system calls on files. Path arguments are fetched to the local buffers at
  \<open>k_local k\<close> and \<open>MAXPATH\<close> bytes behind it, and then passed on as the bytes before the NUL. The local
  array \<^verbatim>\<open>name\<close> that \<^verbatim>\<open>nameiparent\<close> fills is a list of \<open>DIRSIZ\<close> bytes. A running process has a current
  directory; following the null pointer it would be otherwise is undefined.
\<close>

definition O_WRONLY :: cint where "O_WRONLY = 1"
definition O_RDWR :: cint where "O_RDWR = 2"
definition O_CREATE :: cint where "O_CREATE = 0x200"
definition O_TRUNC :: cint where "O_TRUNC = 0x400"

type_synonym 'z call_result = "(int \<times> 'z kern_scheme) result"

definition cstr_at :: "memory \<Rightarrow> uint64 \<Rightarrow> uchar list" where
  "cstr_at m a = takeWhile (\<lambda>c. c \<noteq> 0) (bytes_at m a MAXPATH)"

definition cwd_of :: "nat \<Rightarrow> 'z kern_scheme \<Rightarrow> nat result" where
  "cwd_of me s = (case cwd (procs s ! me) of None \<Rightarrow> Undef | Some ip \<Rightarrow> Ok ip)"

definition namei_of :: "layout \<Rightarrow> nat \<Rightarrow> uchar list \<Rightarrow> 'z kern_scheme \<Rightarrow> (nat option \<times> 'z kern_scheme) result" where
  "namei_of k me path s = bindR (cwd_of me s) (\<lambda>cw. namei (pagetable (procs s ! me)) (k_buf k) cw path s)"

definition nameiparent_of :: "layout \<Rightarrow> nat \<Rightarrow> uchar list \<Rightarrow> 'z kern_scheme \<Rightarrow> (nat option \<times> uchar list \<times> 'z kern_scheme) result" where
  "nameiparent_of k me path s =
     bindR (cwd_of me s) (\<lambda>cw. nameiparent (pagetable (procs s ! me)) (k_buf k) cw path (replicate DIRSIZ 0) s)"

text \<open>\<open>end_op\<close> and return.\<close>

definition end_ret :: "int \<Rightarrow> 'z kern_scheme \<Rightarrow> 'z call_result" where
  "end_ret v s = bindR (end_op s) (\<lambda>s. Ok (v, s))"

section \<open>Descriptors\<close>

definition argfd :: "nat \<Rightarrow> nat \<Rightarrow> 'z kern_scheme \<Rightarrow> (nat \<times> nat) option result" where
  "argfd me n s =
     bindR (argint me n s) (\<lambda>fd.
       if sint fd < 0 \<or> sint fd \<ge> int NOFILE then Ok None
       else case ofile (procs s ! me) ! nat (sint fd) of None \<Rightarrow> Ok None | Some f \<Rightarrow> Ok (Some (nat (sint fd), f)))"

definition fdalloc :: "nat \<Rightarrow> nat \<Rightarrow> 'z kern_scheme \<Rightarrow> nat option \<times> 'z kern_scheme" where
  "fdalloc me f s =
     (case first_idx (\<lambda>x. x = None) (ofile (procs s ! me)) of
        None \<Rightarrow> (None, s)
      | Some fd \<Rightarrow> (Some fd, upd_proc me (\<lambda>p. p\<lparr>ofile := (ofile p)[fd := Some f]\<rparr>) s))"

definition fd_clear :: "nat \<Rightarrow> nat \<Rightarrow> 'z kern_scheme \<Rightarrow> 'z kern_scheme" where
  "fd_clear me fd s = upd_proc me (\<lambda>p. p\<lparr>ofile := (ofile p)[fd := None]\<rparr>) s"

definition fclose :: "layout \<Rightarrow> nat \<Rightarrow> nat \<Rightarrow> 'z kern_scheme \<Rightarrow> 'z kern_scheme result" where
  "fclose k me f s = bindR (fileclose k f s) (\<lambda>(w, s). Ok (wake_pipes me w s))"

definition sys_dup :: "nat \<Rightarrow> 'z kern_scheme \<Rightarrow> 'z call_result" where
  "sys_dup me s =
     bindR (argfd me 0 s) (\<lambda>a.
       case a of
         None \<Rightarrow> Ok (-1, s)
       | Some (_, f) \<Rightarrow>
           case fdalloc me f s of
             (None, s) \<Rightarrow> Ok (-1, s)
           | (Some fd, s) \<Rightarrow> bindR (filedup f s) (\<lambda>s. Ok (int fd, s)))"

text \<open>A process that has to wait for a pipe sleeps on the pipe's channel; a device puts it to sleep itself.\<close>

definition io_done :: "nat \<Rightarrow> nat \<Rightarrow> pipe_out \<times> woken \<times> 'z kern_scheme \<Rightarrow> sys_out \<times> 'z kern_scheme" where
  "io_done me f r =
     (case r of (out, w, s) \<Rightarrow>
        let s = wake_pipes me w s; ff = ftable s ! f in
        case out of
          PRet v \<Rightarrow> (SRet (of_int v), s)
        | PSleep ch _ \<Rightarrow> (SSleep, if f_type ff = FD_PIPE then upd_proc me (sleep_on (pipe_chan_at (f_pipe ff, ch))) s else s))"

definition sys_read :: "layout \<Rightarrow> (nat \<Rightarrow> 'z kern_ext devfun option) \<Rightarrow> nat \<Rightarrow> 'z kern_scheme \<Rightarrow> (sys_out \<times> 'z kern_scheme) result" where
  "sys_read k devread me s =
     bindR (argaddr me 1 s) (\<lambda>p. bindR (argint me 2 s) (\<lambda>n. bindR (argfd me 0 s) (\<lambda>a.
       case a of
         None \<Rightarrow> Ok (SRet (-1), s)
       | Some (_, f) \<Rightarrow>
           bindR (fileread k devread (pagetable (procs s ! me)) (killed (procs s ! me)) f p n s) (\<lambda>r. Ok (io_done me f r)))))"

definition sys_write :: "layout \<Rightarrow> (nat \<Rightarrow> 'z kern_ext devfun option) \<Rightarrow> nat \<Rightarrow> 'z kern_scheme \<Rightarrow> (sys_out \<times> 'z kern_scheme) result" where
  "sys_write k devwrite me s =
     bindR (argaddr me 1 s) (\<lambda>p. bindR (argint me 2 s) (\<lambda>n. bindR (argfd me 0 s) (\<lambda>a.
       case a of
         None \<Rightarrow> Ok (SRet (-1), s)
       | Some (_, f) \<Rightarrow>
           bindR (filewrite k devwrite (pagetable (procs s ! me)) (killed (procs s ! me)) f p n s) (\<lambda>r. Ok (io_done me f r)))))"

definition sys_close :: "layout \<Rightarrow> nat \<Rightarrow> 'z kern_scheme \<Rightarrow> 'z call_result" where
  "sys_close k me s =
     bindR (argfd me 0 s) (\<lambda>a.
       case a of
         None \<Rightarrow> Ok (-1, s)
       | Some (fd, f) \<Rightarrow> bindR (fclose k me f (fd_clear me fd s)) (\<lambda>s. Ok (0, s)))"

definition sys_fstat :: "layout \<Rightarrow> nat \<Rightarrow> 'z kern_scheme \<Rightarrow> 'z call_result" where
  "sys_fstat k me s =
     bindR (argaddr me 1 s) (\<lambda>st. bindR (argfd me 0 s) (\<lambda>a.
       case a of None \<Rightarrow> Ok (-1, s) | Some (_, f) \<Rightarrow> filestat k (pagetable (procs s ! me)) f st s))"

definition sys_pipe :: "layout \<Rightarrow> nat \<Rightarrow> 'z kern_scheme \<Rightarrow> 'z call_result" where
  "sys_pipe k me s =
     bindR (argaddr me 0 s) (\<lambda>fdarray. bindR (pipealloc k s) (\<lambda>(r, s).
       case r of
         None \<Rightarrow> Ok (-1, s)
       | Some (fr, fw) \<Rightarrow>
           let close2 = (\<lambda>s. bindR (fclose k me fr s) (\<lambda>s. bindR (fclose k me fw s) (\<lambda>s. Ok (-1, s)))) in
           case fdalloc me fr s of
             (None, s) \<Rightarrow> close2 s
           | (Some fd0, s) \<Rightarrow>
               case fdalloc me fw s of
                 (None, s) \<Rightarrow> close2 (fd_clear me fd0 s)
               | (Some fd1, s) \<Rightarrow>
                   let pt = pagetable (procs s ! me);
                       s = s\<lparr>mem := store_le 4 (store_le 4 (mem s) (k_local k) (of_nat fd0 :: cint)) (k_local k + 4) (of_nat fd1 :: cint)\<rparr>;
                       (r0, s) = copyout pt fdarray (k_local k) 4 s;
                       (r1, s) = (if r0 < 0 then (-1, s) else copyout pt (fdarray + 4) (k_local k + 4) 4 s)
                   in if r1 < 0 then close2 (fd_clear me fd1 (fd_clear me fd0 s)) else Ok (0, s)))"

section \<open>Names\<close>

definition upd_update :: "nat \<Rightarrow> (inode \<Rightarrow> inode) \<Rightarrow> 'z fs_scheme \<Rightarrow> 'z fs_scheme result" where
  "upd_update ip f s = iupdate ip (upd_inode ip f s)"

definition link_bad :: "nat \<Rightarrow> 'z kern_scheme \<Rightarrow> 'z call_result" where
  "link_bad ip s =
     bindR (ilock ip s) (\<lambda>s. bindR (upd_update ip (\<lambda>x. x\<lparr>i_nlink := i_nlink x - 1\<rparr>) s) (\<lambda>s.
       bindR (iunlockput ip s) (end_ret (-1))))"

definition sys_link :: "layout \<Rightarrow> nat \<Rightarrow> 'z kern_scheme \<Rightarrow> 'z call_result" where
  "sys_link k me s =
     (let olda = k_local k; newa = k_local k + of_nat MAXPATH; pt = pagetable (procs s ! me) in
      bindR (argstr me 0 olda (of_nat MAXPATH) s) (\<lambda>(r, s).
        if r < 0 then Ok (-1, s)
        else bindR (argstr me 1 newa (of_nat MAXPATH) s) (\<lambda>(r, s).
          if r < 0 then Ok (-1, s)
          else bindR (begin_op s) (\<lambda>s. bindR (namei_of k me (cstr_at (mem s) olda) s) (\<lambda>(r, s).
            case r of
              None \<Rightarrow> end_ret (-1) s
            | Some ip \<Rightarrow>
                bindR (ilock ip s) (\<lambda>s.
                  if i_type (itable s ! ip) = T_DIR then bindR (iunlockput ip s) (end_ret (-1))
                  else bindR (upd_update ip (\<lambda>x. x\<lparr>i_nlink := i_nlink x + 1\<rparr>) s) (\<lambda>s.
                    bindR (iunlock ip s) (\<lambda>s.
                      bindR (nameiparent_of k me (cstr_at (mem s) newa) s) (\<lambda>(r, name, s).
                        case r of
                          None \<Rightarrow> link_bad ip s
                        | Some dp \<Rightarrow>
                            bindR (ilock dp s) (\<lambda>s.
                              bindR (if i_dev (itable s ! dp) \<noteq> i_dev (itable s ! ip) then Ok (-1, s)
                                     else dirlink pt (k_buf k) dp name (i_inum (itable s ! ip)) s) (\<lambda>(r, s).
                                bindR (iunlockput dp s) (\<lambda>s.
                                  if r < 0 then link_bad ip s else bindR (iput ip s) (end_ret 0)))))))))))))"

function isdirempty_loop :: "uint64 \<Rightarrow> (nat \<Rightarrow> uint64) \<Rightarrow> nat \<Rightarrow> nat \<Rightarrow> 'z fs_scheme \<Rightarrow> (bool \<times> 'z fs_scheme) result" where
  "isdirempty_loop pt dataa dp off s =
     (if off < unat (i_size (itable s ! dp)) then
        bindR (readi pt dataa dp (KernelDst 0) (of_nat off) 16 s) (\<lambda>(r, de, s).
          if r \<noteq> 16 then Panic ''isdirempty: readi''
          else if dirent_inum de \<noteq> 0 then Ok (False, s)
          else isdirempty_loop pt dataa dp (off + 16) s)
      else Ok (True, s))"
  by pat_completeness auto
termination
proof (relation "measure (\<lambda>(pt, dataa, dp, off, s). 2 ^ 32 - off)", goal_cases)
  case (2 pt dataa dp off s)
  then show ?case using unat_lt2p [of "i_size (itable s ! dp)"] by simp
qed simp

declare isdirempty_loop.simps [simp del]

definition isdirempty :: "uint64 \<Rightarrow> (nat \<Rightarrow> uint64) \<Rightarrow> nat \<Rightarrow> 'z fs_scheme \<Rightarrow> (bool \<times> 'z fs_scheme) result" where
  "isdirempty pt dataa dp s = isdirempty_loop pt dataa dp 32 s"

text \<open>\<^verbatim>\<open>sys_unlink\<close> from the point where it holds the locks of the directory \<open>dp\<close> and of its entry \<open>ip\<close>.\<close>

definition unlink_entry :: "uint64 \<Rightarrow> (nat \<Rightarrow> uint64) \<Rightarrow> nat \<Rightarrow> nat \<Rightarrow> nat \<Rightarrow> 'z kern_scheme \<Rightarrow> 'z call_result" where
  "unlink_entry pt dataa dp ip off s =
     bindR (writei pt dataa dp (KernelSrc (replicate 16 0)) (of_nat off) 16 s) (\<lambda>(r, s).
       if r \<noteq> 16 then Panic ''unlink: writei''
       else
         bindR (if i_type (itable s ! ip) = T_DIR then upd_update dp (\<lambda>x. x\<lparr>i_nlink := i_nlink x - 1\<rparr>) s else Ok s) (\<lambda>s.
           bindR (iunlockput dp s) (\<lambda>s. bindR (upd_update ip (\<lambda>x. x\<lparr>i_nlink := i_nlink x - 1\<rparr>) s) (\<lambda>s.
             bindR (iunlockput ip s) (end_ret 0)))))"

definition dot :: "uchar list" where "dot = [46]"
definition dotdot :: "uchar list" where "dotdot = [46, 46]"

definition sys_unlink :: "layout \<Rightarrow> nat \<Rightarrow> 'z kern_scheme \<Rightarrow> 'z call_result" where
  "sys_unlink k me s =
     (let pt = pagetable (procs s ! me) in
      bindR (argstr me 0 (k_local k) (of_nat MAXPATH) s) (\<lambda>(r, s).
        if r < 0 then Ok (-1, s)
        else bindR (begin_op s) (\<lambda>s. bindR (nameiparent_of k me (cstr_at (mem s) (k_local k)) s) (\<lambda>(r, name, s).
          case r of
            None \<Rightarrow> end_ret (-1) s
          | Some dp \<Rightarrow>
              let bad = (\<lambda>s. bindR (iunlockput dp s) (end_ret (-1))) in
              bindR (ilock dp s) (\<lambda>s.
                if namecmp name dot = 0 \<or> namecmp name dotdot = 0 then bad s
                else bindR (dirlookup pt (k_buf k) dp name s) (\<lambda>(r, s).
                  case r of
                    None \<Rightarrow> bad s
                  | Some (ip, off) \<Rightarrow>
                      bindR (ilock ip s) (\<lambda>s.
                        if sint (i_nlink (itable s ! ip)) < 1 then Panic ''unlink: nlink < 1''
                        else bindR (if i_type (itable s ! ip) = T_DIR then isdirempty pt (k_buf k) ip s else Ok (True, s)) (\<lambda>(empty, s).
                          if \<not> empty then bindR (iunlockput ip s) bad
                          else unlink_entry pt (k_buf k) dp ip off s))))))))"

definition create_fail :: "nat \<Rightarrow> nat \<Rightarrow> 'z kern_scheme \<Rightarrow> (nat option \<times> 'z kern_scheme) result" where
  "create_fail ip dp s =
     bindR (upd_update ip (\<lambda>x. x\<lparr>i_nlink := 0\<rparr>) s) (\<lambda>s.
       bindR (iunlockput ip s) (\<lambda>s. bindR (iunlockput dp s) (\<lambda>s. Ok (None, s))))"

text \<open>The part of \<^verbatim>\<open>create\<close> that makes a new inode in the locked directory \<open>dp\<close>.\<close>

definition create_new :: "layout \<Rightarrow> uint64 \<Rightarrow> nat \<Rightarrow> uchar list \<Rightarrow> ushort \<Rightarrow> ushort \<Rightarrow> ushort \<Rightarrow> 'z kern_scheme \<Rightarrow>
    (nat option \<times> 'z kern_scheme) result" where
  "create_new k pt dp name type major minor s =
     bindR (ialloc (i_dev (itable s ! dp)) type s) (\<lambda>(r, s).
       case r of
         None \<Rightarrow> bindR (iunlockput dp s) (\<lambda>s. Ok (None, s))
       | Some ip \<Rightarrow>
           bindR (ilock ip s) (\<lambda>s.
             bindR (upd_update ip (\<lambda>x. x\<lparr>i_major := major, i_minor := minor, i_nlink := 1\<rparr>) s) (\<lambda>s.
               bindR (if type = T_DIR then
                        bindR (dirlink pt (k_buf k) ip dot (i_inum (itable s ! ip)) s) (\<lambda>(r, s).
                          if r < 0 then Ok (-1, s) else dirlink pt (k_buf k) ip dotdot (i_inum (itable s ! dp)) s)
                      else Ok (0, s)) (\<lambda>(r, s).
                 if r < 0 then create_fail ip dp s
                 else bindR (dirlink pt (k_buf k) dp name (i_inum (itable s ! ip)) s) (\<lambda>(r, s).
                   if r < 0 then create_fail ip dp s
                   else bindR (if type = T_DIR then upd_update dp (\<lambda>x. x\<lparr>i_nlink := i_nlink x + 1\<rparr>) s else Ok s) (\<lambda>s.
                     bindR (iunlockput dp s) (\<lambda>s. Ok (Some ip, s))))))))"

definition create :: "layout \<Rightarrow> nat \<Rightarrow> uchar list \<Rightarrow> ushort \<Rightarrow> ushort \<Rightarrow> ushort \<Rightarrow> 'z kern_scheme \<Rightarrow>
    (nat option \<times> 'z kern_scheme) result" where
  "create k me path type major minor s =
     (let pt = pagetable (procs s ! me) in
      bindR (nameiparent_of k me path s) (\<lambda>(r, name, s).
        case r of
          None \<Rightarrow> Ok (None, s)
        | Some dp \<Rightarrow>
            bindR (ilock dp s) (\<lambda>s. bindR (dirlookup pt (k_buf k) dp name s) (\<lambda>(r, s).
              case r of
                None \<Rightarrow> create_new k pt dp name type major minor s
              | Some (ip, _) \<Rightarrow>
                  bindR (iunlockput dp s) (\<lambda>s. bindR (ilock ip s) (\<lambda>s.
                    if type = T_FILE \<and> (i_type (itable s ! ip) = T_FILE \<or> i_type (itable s ! ip) = T_DEVICE) then Ok (Some ip, s)
                    else bindR (iunlockput ip s) (\<lambda>s. Ok (None, s))))))))"

section \<open>Opening files, directories and devices\<close>

text \<open>The first half of \<^verbatim>\<open>sys_open\<close>: the inode, locked.\<close>

definition open_inode :: "layout \<Rightarrow> nat \<Rightarrow> uchar list \<Rightarrow> cint \<Rightarrow> 'z kern_scheme \<Rightarrow> (nat option \<times> 'z kern_scheme) result" where
  "open_inode k me path omode s =
     (if omode AND O_CREATE \<noteq> 0 then create k me path T_FILE 0 0 s
      else bindR (namei_of k me path s) (\<lambda>(r, s).
        case r of
          None \<Rightarrow> Ok (None, s)
        | Some ip \<Rightarrow>
            bindR (ilock ip s) (\<lambda>s.
              if i_type (itable s ! ip) = T_DIR \<and> omode \<noteq> 0 then bindR (iunlockput ip s) (\<lambda>s. Ok (None, s))
              else Ok (Some ip, s))))"

definition open_file :: "nat \<Rightarrow> cint \<Rightarrow> nat \<Rightarrow> 'z kern_scheme \<Rightarrow> 'z kern_scheme" where
  "open_file f omode ip s =
     (let x = itable s ! ip;
          s = (if i_type x = T_DEVICE then upd_file f (\<lambda>y. y\<lparr>f_type := FD_DEVICE, f_major := i_major x\<rparr>) s
               else upd_file f (\<lambda>y. y\<lparr>f_type := FD_INODE, f_off := 0\<rparr>) s)
      in upd_file f (\<lambda>y. y\<lparr>f_ip := ip, readable := (omode AND O_WRONLY = 0),
           writable := (omode AND O_WRONLY \<noteq> 0 \<or> omode AND O_RDWR \<noteq> 0)\<rparr>) s)"

definition sys_open :: "layout \<Rightarrow> nat \<Rightarrow> 'z kern_scheme \<Rightarrow> 'z call_result" where
  "sys_open k me s =
     bindR (argint me 1 s) (\<lambda>omode. bindR (argstr me 0 (k_local k) (of_nat MAXPATH) s) (\<lambda>(r, s).
       if r < 0 then Ok (-1, s)
       else bindR (begin_op s) (\<lambda>s. bindR (open_inode k me (cstr_at (mem s) (k_local k)) omode s) (\<lambda>(r, s).
         case r of
           None \<Rightarrow> end_ret (-1) s
         | Some ip \<Rightarrow>
             let x = itable s ! ip; fail = (\<lambda>s. bindR (iunlockput ip s) (end_ret (-1))) in
             if i_type x = T_DEVICE \<and> (sint (i_major x) < 0 \<or> sint (i_major x) \<ge> int NDEV) then fail s
             else case filealloc s of
               (None, s) \<Rightarrow> fail s
             | (Some f, s) \<Rightarrow>
                 case fdalloc me f s of
                   (None, s) \<Rightarrow> bindR (fclose k me f s) fail
                 | (Some fd, s) \<Rightarrow>
                     bindR (if omode AND O_TRUNC \<noteq> 0 \<and> i_type x = T_FILE then itrunc ip (open_file f omode ip s)
                            else Ok (open_file f omode ip s)) (\<lambda>s.
                       bindR (iunlock ip s) (end_ret (int fd)))))))"

definition sys_mkdir :: "layout \<Rightarrow> nat \<Rightarrow> 'z kern_scheme \<Rightarrow> 'z call_result" where
  "sys_mkdir k me s =
     bindR (begin_op s) (\<lambda>s. bindR (argstr me 0 (k_local k) (of_nat MAXPATH) s) (\<lambda>(r, s).
       if r < 0 then end_ret (-1) s
       else bindR (create k me (cstr_at (mem s) (k_local k)) T_DIR 0 0 s) (\<lambda>(r, s).
         case r of None \<Rightarrow> end_ret (-1) s | Some ip \<Rightarrow> bindR (iunlockput ip s) (end_ret 0))))"

definition sys_mknod :: "layout \<Rightarrow> nat \<Rightarrow> 'z kern_scheme \<Rightarrow> 'z call_result" where
  "sys_mknod k me s =
     bindR (begin_op s) (\<lambda>s. bindR (argint me 1 s) (\<lambda>major. bindR (argint me 2 s) (\<lambda>minor.
       bindR (argstr me 0 (k_local k) (of_nat MAXPATH) s) (\<lambda>(r, s).
         if r < 0 then end_ret (-1) s
         else bindR (create k me (cstr_at (mem s) (k_local k)) T_DEVICE (ucast major) (ucast minor) s) (\<lambda>(r, s).
           case r of None \<Rightarrow> end_ret (-1) s | Some ip \<Rightarrow> bindR (iunlockput ip s) (end_ret 0))))))"

definition sys_chdir :: "layout \<Rightarrow> nat \<Rightarrow> 'z kern_scheme \<Rightarrow> 'z call_result" where
  "sys_chdir k me s =
     bindR (begin_op s) (\<lambda>s. bindR (argstr me 0 (k_local k) (of_nat MAXPATH) s) (\<lambda>(r, s).
       if r < 0 then end_ret (-1) s
       else bindR (namei_of k me (cstr_at (mem s) (k_local k)) s) (\<lambda>(r, s).
         case r of
           None \<Rightarrow> end_ret (-1) s
         | Some ip \<Rightarrow>
             bindR (ilock ip s) (\<lambda>s.
               if i_type (itable s ! ip) \<noteq> T_DIR then bindR (iunlockput ip s) (end_ret (-1))
               else bindR (iunlock ip s) (\<lambda>s. bindR (cwd_of me s) (\<lambda>old. bindR (iput old s) (\<lambda>s.
                 bindR (end_op s) (\<lambda>s. Ok (0, upd_proc me (\<lambda>p. p\<lparr>cwd := Some ip\<rparr>) s)))))))))"

section \<open>Exec\<close>

text \<open>
  The loop that fetches the arguments, with the number of entries of \<^verbatim>\<open>argv\<close> that are left. It
  returns the pages it allocated and whether it met the null pointer at the end of the array; the
  local \<^verbatim>\<open>uarg\<close> lies behind the path.
\<close>

fun exec_fetch :: "layout \<Rightarrow> nat \<Rightarrow> uint64 \<Rightarrow> nat \<Rightarrow> uint64 list \<Rightarrow> 'z kern_scheme \<Rightarrow> (bool \<times> uint64 list \<times> 'z kern_scheme) result" where
  "exec_fetch k me uargv 0 argv s = Ok (False, argv, s)"
| "exec_fetch k me uargv (Suc n) argv s =
     (let uarga = k_local k + of_nat MAXPATH;
          (r, s) = fetchaddr me uargv uarga s
      in
      if r < 0 then Ok (False, argv, s)
      else
        let uarg = load64 (mem s) uarga in
        if uarg = 0 then Ok (True, argv, s)
        else
          let (a, s) = kalloc s in
          if a = 0 then Ok (False, argv, s)
          else bindR (fetchstr me uarg a (ucast PGSIZE) s) (\<lambda>(r, s).
            if r < 0 then Ok (False, argv @ [a], s) else exec_fetch k me (uargv + 8) n (argv @ [a]) s))"

fun kfree_all :: "uint64 \<Rightarrow> uint64 list \<Rightarrow> 'z kmem_scheme \<Rightarrow> 'z kmem_scheme result" where
  "kfree_all kend [] s = Ok s"
| "kfree_all kend (a # as) s = bindR (kfree kend a s) (kfree_all kend as)"

definition sys_exec :: "layout \<Rightarrow> nat \<Rightarrow> 'z kern_scheme \<Rightarrow> 'z sys_result" where
  "sys_exec k me s =
     bindS (argaddr me 1 s) (\<lambda>uargv. bindS (argstr me 0 (k_local k) (of_nat MAXPATH) s) (\<lambda>(r, s).
       if r < 0 then sys_ret (-1) s
       else
         let path = cstr_at (mem s) (k_local k) in
         bindS (exec_fetch k me uargv MAXARG [] s) (\<lambda>(ok, argv, s).
           if \<not> ok then bindS (kfree_all (k_end k) argv s) (sys_ret (-1))
           else bindN (exec k me path argv s) (\<lambda>(r, s).
             bindS (kfree_all (k_end k) argv s) (sys_ret (of_int r))))))"

end
