(* ===== verification/Syscall.thy ===== *)
theory Syscall
  imports Sysfile
begin

text \<open>
  The dispatcher of \<^verbatim>\<open>kernel/syscall.c\<close> with the added tracing. \<open>syscalls\<close> is the table of handlers,
  from the numbers of \<^verbatim>\<open>kernel/syscall.h\<close>. What the kernel prints is returned as a string.
\<close>

definition lift_call :: "'z call_result \<Rightarrow> 'z sys_result" where
  "lift_call m = bindS m (\<lambda>(r, s). sys_ret (of_int r) s)"

definition syscalls :: "layout \<Rightarrow> bool \<Rightarrow> (nat \<Rightarrow> 'z kern_ext devfun option) \<Rightarrow> (nat \<Rightarrow> 'z kern_ext devfun option) \<Rightarrow> uint64 \<Rightarrow> nat \<Rightarrow>
    ('z kern_scheme \<Rightarrow> 'z sys_result) option list" where
  "syscalls k pbs devread devwrite ticksa me =
     [None,
      Some (sys_fork k pbs me),
      Some (sys_exit k me),
      Some (sys_wait k me),
      Some (\<lambda>s. lift_call (sys_pipe k me s)),
      Some (\<lambda>s. Some (sys_read k devread me s)),
      Some (sys_kill me),
      Some (sys_exec k me),
      Some (\<lambda>s. lift_call (sys_fstat k me s)),
      Some (\<lambda>s. lift_call (sys_chdir k me s)),
      Some (\<lambda>s. lift_call (sys_dup me s)),
      Some (sys_getpid me),
      Some (sys_sbrk k me),
      Some (sys_sleep ticksa me),
      Some sys_uptime,
      Some (\<lambda>s. lift_call (sys_open k me s)),
      Some (\<lambda>s. Some (sys_write k devwrite me s)),
      Some (\<lambda>s. lift_call (sys_mknod k me s)),
      Some (\<lambda>s. lift_call (sys_unlink k me s)),
      Some (\<lambda>s. lift_call (sys_link k me s)),
      Some (\<lambda>s. lift_call (sys_mkdir k me s)),
      Some (\<lambda>s. lift_call (sys_close k me s)),
      Some (sys_trace me),
      Some (sys_set_priority pbs me),
      Some (sys_waitx k me)]"

definition syscall_names :: "string list" where
  "syscall_names =
     [''none'', ''fork'', ''exit'', ''wait'', ''pipe'', ''read'', ''kill'', ''exec'',
      ''fstat'', ''chdir'', ''dup'', ''getpid'', ''sbrk'', ''sleep'', ''uptime'', ''open'',
      ''write'', ''mknod'', ''unlink'', ''link'', ''mkdir'', ''close'', ''trace'', ''waitx'',
      ''set_priority'']"

definition syscall_argc :: "nat list" where
  "syscall_argc = [0, 0, 1, 1, 1, 3, 1, 2, 2, 1, 1, 0, 1, 1, 0, 2, 3, 3, 1, 2, 1, 1, 0, 0, 0]"

definition tf_a0 :: "nat \<Rightarrow> 'z kern_scheme \<Rightarrow> uint64" where
  "tf_a0 me s = load64 (mem s) (trapframe (procs s ! me) + 112)"

definition set_a0 :: "nat \<Rightarrow> uint64 \<Rightarrow> 'z kern_scheme \<Rightarrow> 'z kern_scheme" where
  "set_a0 me v s = s\<lparr>mem := store64 (mem s) (trapframe (procs s ! me) + 112) v\<rparr>"

section \<open>Tracing\<close>

fun trace_args :: "nat \<Rightarrow> nat list \<Rightarrow> 'z kern_scheme \<Rightarrow> string result" where
  "trace_args me [] s = Ok []"
| "trace_args me (i # is) s =
     bindR (argint me i s) (\<lambda>x. bindR (kformat ''%d '' [AInt x]) (\<lambda>t. bindR (trace_args me is s) (\<lambda>ts. Ok (t @ ts))))"

text \<open>
  The \<^verbatim>\<open>if\<close> at the end of \<^verbatim>\<open>syscall\<close>: \<open>num\<close> is the number the process put in \<^verbatim>\<open>a7\<close>. Shifting an
  \<^verbatim>\<open>int\<close> by a negative amount or by 32 and more, and an index outside the tables, are undefined.
\<close>

definition trace_out :: "nat \<Rightarrow> int \<Rightarrow> 'z kern_scheme \<Rightarrow> string result" where
  "trace_out me num s =
     (let p = procs s ! me in
      if num < 0 \<or> num \<ge> 32 then Undef
      else if sint (trace_mask p) div 2 ^ nat num = 0 then Ok []
      else if nat num \<ge> length syscall_names then Undef
      else
        bindR (kformat ''%d: syscall %s ('' [AInt (of_int (pid p)), AStr (Some (syscall_names ! nat num))]) (\<lambda>t1.
        bindR (trace_args me [0..<syscall_argc ! nat num] s) (\<lambda>t2.
        bindR (kformat '') -> %d\<newline>'' [AInt (ucast (tf_a0 me s))]) (\<lambda>t3. Ok (t1 @ t2 @ t3)))))"

section \<open>The dispatcher\<close>

definition syscall_num :: "nat \<Rightarrow> 'z kern_scheme \<Rightarrow> cint" where
  "syscall_num me s = ucast (load64 (mem s) (trapframe (procs s ! me) + 168))"

definition handler :: "('z kern_scheme \<Rightarrow> 'z sys_result) option list \<Rightarrow> int \<Rightarrow> ('z kern_scheme \<Rightarrow> 'z sys_result) option" where
  "handler tbl num = (if 0 < num \<and> num < int (length tbl) then tbl ! nat num else None)"

definition syscall :: "layout \<Rightarrow> bool \<Rightarrow> (nat \<Rightarrow> 'z kern_ext devfun option) \<Rightarrow> (nat \<Rightarrow> 'z kern_ext devfun option) \<Rightarrow> uint64 \<Rightarrow> nat \<Rightarrow>
    'z kern_scheme \<Rightarrow> (sys_out \<times> string \<times> 'z kern_scheme) result option" where
  "syscall k pbs devread devwrite ticksa me s =
     (let num = syscall_num me s in
      bindN
        (case handler (syscalls k pbs devread devwrite ticksa me) (sint num) of
           Some h \<Rightarrow> bindN (h s) (\<lambda>(out, s). Some (Ok (out, [], case out of SRet v \<Rightarrow> set_a0 me v s | _ \<Rightarrow> s)))
         | None \<Rightarrow>
             bindS (kformat ''%d %s: unknown sys call %d\<newline>''
                 [AInt (of_int (pid (procs s ! me))), AStr (Some (pname (procs s ! me))), AInt num]) (\<lambda>t.
               Some (Ok (SRet (-1), t, set_a0 me (-1) s))))
        (\<lambda>(out, t, s).
          case out of
            SRet _ \<Rightarrow> bindS (trace_out me (sint num) s) (\<lambda>tr. Some (Ok (out, t @ tr, s)))
          | _ \<Rightarrow> Some (Ok (out, t, s))))"

section \<open>What is traced\<close>

text \<open>The numbers a trace line prints with \<^verbatim>\<open>%d\<close>: the pid, the value in \<^verbatim>\<open>a0\<close>, and the arguments.\<close>

definition traced_numbers :: "nat \<Rightarrow> nat \<Rightarrow> 'z kern_scheme \<Rightarrow> cint list" where
  "traced_numbers me num s =
     of_int (pid (procs s ! me)) # ucast (tf_a0 me s) #
       map (\<lambda>i. ucast (load64 (mem s) (trapframe (procs s ! me) + 112 + 8 * of_nat i))) [0..<syscall_argc ! num]"

lemma printint_10: "x \<noteq> INT_MIN \<Longrightarrow> \<exists>t. printint x 10 True = Ok t"
  using print_signed_ok [OF tables_ok(1), of True x] by (auto simp: printint_eq)

lemma kformat_tail:
  "x \<noteq> INT_MIN \<Longrightarrow> \<exists>t. kformat ''%d '' [AInt x] = Ok t" "x \<noteq> INT_MIN \<Longrightarrow> \<exists>t. kformat '') -> %d\<newline>'' [AInt x] = Ok t"
  using printint_10 [of x] by auto

lemma kformat_head: "x \<noteq> INT_MIN \<Longrightarrow> \<exists>t. kformat ''%d: syscall %s ('' [AInt x, AStr (Some n)] = Ok (t @ '': syscall '' @ n @ '' ('')"
  using printint_10 [of x] by auto

lemma trace_args_ok:
  "\<forall>i \<in> set is. i \<le> 5 \<and> ucast (load64 (mem s) (trapframe (procs s ! me) + 112 + 8 * of_nat i)) \<noteq> INT_MIN \<Longrightarrow> \<exists>t. trace_args me is s = Ok t"
proof (induction "is")
  case (Cons i "is")
  then obtain t where t: "trace_args me is s = Ok t" by auto
  obtain u where "kformat ''%d '' [AInt (ucast (load64 (mem s) (trapframe (procs s ! me) + 112 + 8 * of_nat i)))] = Ok u"
    using kformat_tail(1) Cons.prems by (meson list.set_intros(1))
  then show ?case using Cons.prems t by (simp add: argint_def argraw_def del: kformat.simps)
qed simp

lemma syscall_argc_le: "n < 25 \<Longrightarrow> i \<in> set [0..<syscall_argc ! n] \<Longrightarrow> i \<le> 5"
proof -
  assume n: "n < 25" and i: "i \<in> set [0..<syscall_argc ! n]"
  have "list_all (\<lambda>k. k \<le> 3) syscall_argc" "length syscall_argc = 25" by (simp_all add: syscall_argc_def)
  then have "syscall_argc ! n \<le> 3" using n by (simp add: list_all_length)
  then show "i \<le> 5" using i by simp
qed

lemma shift_zero: "m div 2 ^ n = 0 \<longleftrightarrow> 0 \<le> m \<and> m < 2 ^ n" for m :: int
proof -
  have "(0 :: int) < 2 ^ n" by simp
  then show ?thesis unfolding zdiv_eq_0_iff by linarith
qed

lemma trace_out_ok:
  assumes num: "num < 25" and ok: "INT_MIN \<notin> set (traced_numbers me num s)"
  shows "\<exists>out. trace_out me (int num) s = Ok out \<and>
    (out \<noteq> [] \<longleftrightarrow> sint (trace_mask (procs s ! me)) < 0 \<or> 2 ^ num \<le> sint (trace_mask (procs s ! me)))"
proof (cases "sint (trace_mask (procs s ! me)) div 2 ^ num = 0")
  case True
  then show ?thesis using num shift_zero [of "sint (trace_mask (procs s ! me))" num] by (simp add: trace_out_def Let_def)
next
  case False
  then have le: "sint (trace_mask (procs s ! me)) < 0 \<or> 2 ^ num \<le> sint (trace_mask (procs s ! me))"
    using shift_zero [of "sint (trace_mask (procs s ! me))" num] by linarith
  obtain t1 where t1: "kformat ''%d: syscall %s ('' [AInt (of_int (pid (procs s ! me))), AStr (Some (syscall_names ! num))] =
      Ok (t1 @ '': syscall '' @ syscall_names ! num @ '' ('')"
    using kformat_head ok unfolding traced_numbers_def by (metis list.set_intros(1))
  have "\<forall>i \<in> set [0..<syscall_argc ! num]. i \<le> 5 \<and> ucast (load64 (mem s) (trapframe (procs s ! me) + 112 + 8 * of_nat i)) \<noteq> INT_MIN"
    using syscall_argc_le [OF num] ok by (auto simp: traced_numbers_def image_iff)
  from trace_args_ok [OF this] obtain t2 where t2: "trace_args me [0..<syscall_argc ! num] s = Ok t2" by blast
  obtain t3 where t3: "kformat '') -> %d\<newline>'' [AInt (ucast (tf_a0 me s))] = Ok t3"
    using kformat_tail(2) ok unfolding traced_numbers_def by (metis list.set_intros)
  have "length syscall_names = 25" by (simp add: syscall_names_def)
  then show ?thesis using False num le t1 t2 t3 by (simp add: trace_out_def Let_def del: kformat.simps)
qed

lemma handler_num: "handler (syscalls k pbs devread devwrite ticksa me) (int num) = Some h \<Longrightarrow> num < 25"
  by (simp add: handler_def syscalls_def split: if_splits)

text \<open>
  C33. A system call with a known number whose handler returns: \<^verbatim>\<open>syscall\<close> stores its value in the
  caller's \<^verbatim>\<open>a0\<close>, changes nothing else, and prints a trace line exactly when \<^verbatim>\<open>trace_mask >> num\<close> is
  not zero, that is when the mask is negative or at least \<open>2 ^ num\<close>. It does not ask for bit \<open>num\<close>: a
  mask that selects one call also traces every call with a smaller number, and a negative mask traces
  all. The numbers to print are taken not to be the most negative \<^verbatim>\<open>int\<close>, whose negation in \<^verbatim>\<open>printint\<close>
  overflows.
\<close>

theorem syscall_traces_up_to_mask:
  assumes "sint (syscall_num me s) = int num"
    and "handler (syscalls k pbs devread devwrite ticksa me) (int num) = Some h"
    and "h s = Some (Ok (SRet v, s1))"
    and "INT_MIN \<notin> set (traced_numbers me num (set_a0 me v s1))"
  shows "\<exists>out. syscall k pbs devread devwrite ticksa me s = Some (Ok (SRet v, out, set_a0 me v s1)) \<and>
    tf_a0 me (set_a0 me v s1) = v \<and>
    (out \<noteq> [] \<longleftrightarrow> sint (trace_mask (procs s1 ! me)) < 0 \<or> 2 ^ num \<le> sint (trace_mask (procs s1 ! me)))"
proof -
  have "procs (set_a0 me v s1) = procs s1" by (simp add: set_a0_def)
  then obtain out where "trace_out me (int num) (set_a0 me v s1) = Ok out"
      "out \<noteq> [] \<longleftrightarrow> sint (trace_mask (procs s1 ! me)) < 0 \<or> 2 ^ num \<le> sint (trace_mask (procs s1 ! me))"
    using trace_out_ok [OF handler_num [OF assms(2)] assms(4)] by auto
  then show ?thesis using assms(1-3) by (simp add: syscall_def Let_def tf_a0_def set_a0_def)
qed

text \<open>Here process 0 asks for its pid (call 11) while its mask selects \<^verbatim>\<open>open\<close> (call 15) only.\<close>

definition trace_example :: kern where
  "trace_example =
     zero_kern\<lparr>mem := store64 (\<lambda>_. 0) (0x87000000 + 168) 11,
       procs := [zero_proc\<lparr>state := RUNNING, pid := 1, trapframe := 0x87000000, trace_mask := 32768\<rparr>]\<rparr>"

theorem syscall_traces_up_to_mask_witness:
  "\<exists>out. syscall example_layout False (\<lambda>_. None) (\<lambda>_. None) 0x80019000 0 trace_example =
      Some (Ok (SRet 1, out, set_a0 0 1 trace_example)) \<and> out \<noteq> []"
proof -
  have n: "sint (syscall_num 0 trace_example) = int 11" by (simp add: trace_example_def syscall_num_def)
  have h: "handler (syscalls example_layout False (\<lambda>_. None) (\<lambda>_. None) 0x80019000 0) (int 11) = Some (sys_getpid 0)"
    by (simp add: handler_def syscalls_def)
  have r: "sys_getpid 0 trace_example = Some (Ok (SRet 1, trace_example))" by (simp add: sys_getpid_def trace_example_def)
  have "INT_MIN \<notin> set (traced_numbers 0 11 (set_a0 0 1 trace_example))"
    by (simp add: traced_numbers_def syscall_argc_def trace_example_def set_a0_def tf_a0_def INT_MIN_def)
  from syscall_traces_up_to_mask [OF n h r this] show ?thesis by (auto simp: trace_example_def)
qed

end
