(* ===== verification/Trap.thy ===== *)
theory Trap
  imports Syscall
begin

text \<open>
  \<^verbatim>\<open>kernel/trap.c\<close>. The supervisor registers of the CPU are the record \<open>hart\<close>. The handlers of the
  two devices work on state of their own (\<^verbatim>\<open>uartintr\<close> on the console, \<^verbatim>\<open>virtio_disk_intr\<close> on the disk
  queue): here they are the fields of \<open>devices\<close>, with \<^verbatim>\<open>plic_claim\<close>, which reads a device register. A
  trap from user space ends with the return to user space, with the process giving up the CPU, or
  with the process gone.
\<close>

record hart =
  sstatus :: uint64
  sepc :: uint64
  scause :: uint64
  stval :: uint64
  stvec :: uint64
  satp :: uint64
  tp :: uint64
  sip :: uint64

record 's devices =
  irq_claim :: "'s \<Rightarrow> cint"
  uart_intr :: "'s \<Rightarrow> 's result"
  disk_intr :: "'s \<Rightarrow> 's result"
  irq_complete :: "cint \<Rightarrow> 's \<Rightarrow> 's"

record vectors =
  v_kernelvec :: uint64
  v_uservec :: uint64
  v_userret :: uint64
  v_usertrap :: uint64
  v_ticks :: uint64

definition SSTATUS_SPP :: uint64 where "SSTATUS_SPP = push_bit 8 1"
definition SSTATUS_SPIE :: uint64 where "SSTATUS_SPIE = push_bit 5 1"
definition SSTATUS_SIE :: uint64 where "SSTATUS_SIE = push_bit 1 1"
definition SATP_SV39 :: uint64 where "SATP_SV39 = push_bit 60 8"
definition MAKE_SATP :: "uint64 \<Rightarrow> uint64" where "MAKE_SATP pt = SATP_SV39 OR drop_bit 12 pt"
definition UART0_IRQ :: cint where "UART0_IRQ = 10"
definition VIRTIO0_IRQ :: cint where "VIRTIO0_IRQ = 1"

definition clockintr :: "uint64 \<Rightarrow> nat option \<Rightarrow> 'z kern_scheme \<Rightarrow> 'z kern_scheme" where
  "clockintr ticksa me s =
     (let s = s\<lparr>kticks := kticks s + 1\<rparr>;
          s = s\<lparr>procs := time_updates (procs s)\<rparr>
      in s\<lparr>procs := wakeup me (ChAddr ticksa) (procs s)\<rparr>)"

text \<open>The return value, what was printed, and the states of the CPU and of the kernel.\<close>

definition devintr :: "vectors \<Rightarrow> 'z kern_scheme devices \<Rightarrow> nat option \<Rightarrow> hart \<Rightarrow> 'z kern_scheme \<Rightarrow>
    (int \<times> string \<times> hart \<times> 'z kern_scheme) result" where
  "devintr v dv me h s =
     (if scause h AND 0x8000000000000000 \<noteq> 0 \<and> scause h AND 0xff = 9 then
        let irq = irq_claim dv s;
            fin = (\<lambda>t s. Ok (1, t, h, if irq \<noteq> 0 then irq_complete dv irq s else s))
        in
        if irq = UART0_IRQ then bindR (uart_intr dv s) (fin [])
        else if irq = VIRTIO0_IRQ then bindR (disk_intr dv s) (fin [])
        else if irq \<noteq> 0 then bindR (kformat ''unexpected interrupt irq=%d\<newline>'' [AInt irq]) (\<lambda>t. fin t s)
        else fin [] s
      else if scause h = 0x8000000000000001 then
        Ok (2, [], h\<lparr>sip := sip h AND NOT 2\<rparr>, if ucast (tp h) = (0 :: cint) then clockintr (v_ticks v) me s else s)
      else Ok (0, [], h, s))"

text \<open>\<^verbatim>\<open>usertrapret\<close> up to the jump into the trampoline, with the user page table it passes.\<close>

definition usertrapret :: "vectors \<Rightarrow> layout \<Rightarrow> nat \<Rightarrow> hart \<Rightarrow> 'z kern_scheme \<Rightarrow> uint64 \<times> hart \<times> 'z kern_scheme" where
  "usertrapret v k me h s =
     (let p = procs s ! me;
          tf = trapframe p;
          h = h\<lparr>sstatus := sstatus h AND NOT SSTATUS_SIE\<rparr>;
          h = h\<lparr>stvec := TRAMPOLINE + (v_uservec v - k_tramp k)\<rparr>;
          s = s\<lparr>mem := store64 (mem s) tf (satp h)\<rparr>;
          s = s\<lparr>mem := store64 (mem s) (tf + 8) (kstack p + PGSIZE)\<rparr>;
          s = s\<lparr>mem := store64 (mem s) (tf + 16) (v_usertrap v)\<rparr>;
          s = s\<lparr>mem := store64 (mem s) (tf + 32) (tp h)\<rparr>;
          h = h\<lparr>sstatus := (sstatus h AND NOT SSTATUS_SPP) OR SSTATUS_SPIE\<rparr>;
          h = h\<lparr>sepc := load64 (mem s) (tf + 24)\<rparr>
      in (MAKE_SATP (pagetable p), h, s))"

datatype trap_out = TUser uint64 | TYield | TSleep | TGone

definition set_epc :: "nat \<Rightarrow> uint64 \<Rightarrow> 'z kern_scheme \<Rightarrow> 'z kern_scheme" where
  "set_epc me x s = s\<lparr>mem := store64 (mem s) (trapframe (procs s ! me) + 24) x\<rparr>"

definition trap_exit :: "layout \<Rightarrow> nat \<Rightarrow> string \<Rightarrow> hart \<Rightarrow> 'z kern_scheme \<Rightarrow> (trap_out \<times> string \<times> hart \<times> 'z kern_scheme) result option" where
  "trap_exit k me t h s = bindS (exit k me (-1) s) (\<lambda>s. Some (Ok (TGone, t, h, s)))"

text \<open>The end of \<^verbatim>\<open>usertrap\<close>. A process that yields runs \<^verbatim>\<open>usertrapret\<close> when it is scheduled again.\<close>

definition usertrap_end :: "vectors \<Rightarrow> layout \<Rightarrow> nat \<Rightarrow> int \<Rightarrow> string \<Rightarrow> hart \<Rightarrow> 'z kern_scheme \<Rightarrow>
    (trap_out \<times> string \<times> hart \<times> 'z kern_scheme) result option" where
  "usertrap_end v k me which_dev t h s =
     (if killed (procs s ! me) then trap_exit k me t h s
      else if which_dev = 2 then Some (Ok (TYield, t, h, upd_proc me yield s))
      else let (a, h, s) = usertrapret v k me h s in Some (Ok (TUser a, t, h, s)))"

definition usertrap :: "vectors \<Rightarrow> layout \<Rightarrow> bool \<Rightarrow> (nat \<Rightarrow> 'z kern_ext devfun option) \<Rightarrow> (nat \<Rightarrow> 'z kern_ext devfun option) \<Rightarrow>
    'z kern_scheme devices \<Rightarrow> nat \<Rightarrow> hart \<Rightarrow> 'z kern_scheme \<Rightarrow> (trap_out \<times> string \<times> hart \<times> 'z kern_scheme) result option" where
  "usertrap v k pbs devread devwrite dv me h s =
     (if sstatus h AND SSTATUS_SPP \<noteq> 0 then Some (Panic ''usertrap: not from user mode'')
      else
        let h = h\<lparr>stvec := v_kernelvec v\<rparr>;
            s = set_epc me (sepc h) s
        in
        if scause h = 8 then
          if killed (procs s ! me) then trap_exit k me [] h s
          else
            let s = set_epc me (sepc h + 4) s;
                h = h\<lparr>sstatus := sstatus h OR SSTATUS_SIE\<rparr>
            in
            bindN (syscall k pbs devread devwrite (v_ticks v) me s) (\<lambda>(out, t, s).
              case out of
                SRet _ \<Rightarrow> usertrap_end v k me 0 t h s
              | SSleep \<Rightarrow> Some (Ok (TSleep, t, h, s))
              | SGone \<Rightarrow> Some (Ok (TGone, t, h, s)))
        else bindS (devintr v dv (Some me) h s) (\<lambda>(which_dev, t, h, s).
          if which_dev \<noteq> 0 then usertrap_end v k me which_dev t h s
          else
            bindS (kformat ''usertrap(): unexpected scause %p pid=%d\<newline>'' [ALong (scause h), AInt (of_int (pid (procs s ! me)))]) (\<lambda>t1.
            bindS (kformat ''            sepc=%p stval=%p\<newline>'' [ALong (sepc h), ALong (stval h)]) (\<lambda>t2.
              usertrap_end v k me 0 (t1 @ t2) h (s\<lparr>procs := setkilled me (procs s)\<rparr>)))))"

text \<open>
  \<^verbatim>\<open>kerneltrap\<close>; \<open>me\<close> is \<^verbatim>\<open>myproc()\<close>. Built with \<open>rr\<close>, the \<^verbatim>\<open>if\<close> guards \<^verbatim>\<open>yield\<close>; without it
  the preprocessor removes \<^verbatim>\<open>yield\<close> and the \<^verbatim>\<open>if\<close> guards the statement that follows, the restoring
  of \<^verbatim>\<open>sepc\<close>. The flag says whether the process yields before the registers are restored.
\<close>

definition kerneltrap :: "vectors \<Rightarrow> bool \<Rightarrow> 'z kern_scheme devices \<Rightarrow> nat option \<Rightarrow> hart \<Rightarrow> 'z kern_scheme \<Rightarrow>
    (bool \<times> string \<times> hart \<times> 'z kern_scheme) result" where
  "kerneltrap v rr dv me h s =
     (let sepc0 = sepc h; sstatus0 = sstatus h in
      if sstatus0 AND SSTATUS_SPP = 0 then Panic ''kerneltrap: not from supervisor mode''
      else if sstatus0 AND SSTATUS_SIE \<noteq> 0 then Panic ''kerneltrap: interrupts enabled''
      else bindR (devintr v dv me h s) (\<lambda>(which_dev, t, h, s).
        if which_dev = 0 then Panic ''kerneltrap''
        else
          let c = (which_dev = 2 \<and> (case me of None \<Rightarrow> False | Some i \<Rightarrow> state (procs s ! i) = RUNNING));
              s = (if c \<and> rr then upd_proc (the me) yield s else s);
              h = (if rr \<or> c then h\<lparr>sepc := sepc0\<rparr> else h)
          in Ok (c \<and> rr, t, h\<lparr>sstatus := sstatus0\<rparr>, s)))"

end
