(* ===== verification/Frame.thy ===== *)
theory Frame
  imports Proc
begin

text \<open>
  What the layers of the kernel leave alone. A function of the memory layer changes only the fields
  of \<open>kmem\<close>, and a function of the file-system layer only those of \<open>fs\<close>: whatever a record that
  extends them holds besides (\<open>kmem.more\<close>, \<open>fs.more\<close>) is the same when the function returns. The
  rules of the collection \<open>frame\<close> have this form, and the process and file tables are read off them.
\<close>

named_theorems frame

section \<open>The memory layer\<close>

lemma kalloc_frame [frame]: "kalloc s = (a, s') \<Longrightarrow> kmem.more s' = kmem.more s"
  by (auto simp: kalloc_def Let_def split: if_splits)

lemma kfree_frame [frame]: "kfree kend pa s = Ok s' \<Longrightarrow> kmem.more s' = kmem.more s"
  by (auto simp: kfree_def Let_def split: if_splits)

lemma walk_levels_frame: "walk_levels n pt va alloc s = (pte, s') \<Longrightarrow> kmem.more s' = kmem.more s"
proof (induction n pt va alloc s rule: walk_levels.induct)
  case (2 level pt va alloc s)
  obtain a t where "kalloc s = (a, t)" by fastforce
  then show ?case using 2 kalloc_frame [of s a t] by (auto simp: Let_def split: if_splits)
qed simp

lemma walk_frame [frame]: "walk pt va alloc s = Ok (pte, s') \<Longrightarrow> kmem.more s' = kmem.more s"
  by (auto simp: walk_def dest: walk_levels_frame [OF sym] walk_levels_frame split: if_splits)

lemma mappages_loop_frame: "mappages_loop pt a last_a pa perm s = Ok (r, s') \<Longrightarrow> kmem.more s' = kmem.more s"
proof (induction pt a last_a pa perm s rule: mappages_loop.induct)
  case (1 pt a last_a pa perm s)
  obtain pte t where w: "walk pt a True s = Ok (pte, t)"
    using "1.prems" by (subst (asm) mappages_loop.simps) auto
  show ?case
    using "1.prems" "1.IH" [OF w refl] walk_frame [OF w]
    by (subst (asm) mappages_loop.simps) (auto simp: w Let_def split: if_splits)
qed

lemma mappages_frame [frame]: "mappages pt va n pa perm s = Ok (r, s') \<Longrightarrow> kmem.more s' = kmem.more s"
  by (auto simp: mappages_def dest: mappages_loop_frame split: if_splits)

lemma uvmunmap_loop_frame: "uvmunmap_loop kend pt a va_end do_free s = Ok s' \<Longrightarrow> kmem.more s' = kmem.more s"
proof (induction kend pt a va_end do_free s rule: uvmunmap_loop.induct)
  case (1 kend pt a va_end do_free s)
  show ?case
  proof (cases "a < va_end")
    case True
    obtain pte t u where w: "walk pt a False s = Ok (pte, t)" and u: "uvmunmap_loop kend pt (a + PGSIZE) va_end do_free (u\<lparr>mem := store64 (mem u) pte 0\<rparr>) = Ok s'"
        and f: "(if do_free then kfree kend (PTE2PA (load64 (mem t) pte)) t else Ok t) = Ok u"
        and c: "pte \<noteq> 0" "load64 (mem t) pte AND PTE_V \<noteq> 0" "PTE_FLAGS (load64 (mem t) pte) \<noteq> PTE_V"
      using "1.prems" True by (subst (asm) uvmunmap_loop.simps) (auto split: if_splits)
    have "kmem.more u = kmem.more t" using f by (auto split: if_splits dest: kfree_frame)
    then show ?thesis using "1.IH" [OF True w refl _ _ _ f u] c walk_frame [OF w] by simp
  qed (use "1.prems" in \<open>simp add: uvmunmap_loop.simps\<close>)
qed

lemma uvmunmap_frame [frame]: "uvmunmap kend pt va n do_free s = Ok s' \<Longrightarrow> kmem.more s' = kmem.more s"
  by (auto simp: uvmunmap_def dest: uvmunmap_loop_frame split: if_splits)

lemma uvmdealloc_frame [frame]: "uvmdealloc kend pt oldsz newsz s = Ok (r, s') \<Longrightarrow> kmem.more s' = kmem.more s"
  by (auto simp: uvmdealloc_def Let_def dest: uvmunmap_frame split: if_splits)

lemma uvmalloc_loop_frame: "uvmalloc_loop kend pt a oldsz newsz xperm s = Ok (r, s') \<Longrightarrow> kmem.more s' = kmem.more s"
proof (induction kend pt a oldsz newsz xperm s rule: uvmalloc_loop.induct)
  case (1 kend pt a oldsz newsz xperm s)
  show ?case
  proof (cases "a < newsz")
    case True
    obtain page t where k: "kalloc s = (page, t)" by fastforce
    let ?t = "t\<lparr>mem := memset (mem t) page 0 (ucast PGSIZE)\<rparr>"
    show ?thesis
    proof (cases "page = 0")
      case True
      then show ?thesis using "1.prems" \<open>a < newsz\<close> k kalloc_frame [OF k]
        by (subst (asm) uvmalloc_loop.simps) (auto dest: uvmdealloc_frame)
    next
      case False
      obtain q u where m: "mappages pt a PGSIZE page (ucast (PTE_R OR PTE_U) OR xperm) ?t = Ok (q, u)"
        using "1.prems" True k False by (subst (asm) uvmalloc_loop.simps) (auto simp: Let_def)
      have u: "kmem.more u = kmem.more s" using mappages_frame [OF m] kalloc_frame [OF k] by simp
      show ?thesis
        using "1.prems" "1.IH" [OF True k [symmetric] refl False refl m refl] True k False m u
        by (subst (asm) uvmalloc_loop.simps) (auto simp: Let_def dest!: uvmdealloc_frame kfree_frame split: if_splits)
    qed
  qed (use "1.prems" in \<open>simp add: uvmalloc_loop.simps\<close>)
qed

lemma uvmalloc_frame [frame]: "uvmalloc kend pt oldsz newsz xperm s = Ok (r, s') \<Longrightarrow> kmem.more s' = kmem.more s"
  by (auto simp: uvmalloc_def Let_def dest: uvmalloc_loop_frame split: if_splits)

lemma freewalk_loop_frame: "freewalk_loop kend pt i s = Some r \<Longrightarrow> \<forall>s'. r = Ok s' \<longrightarrow> kmem.more s' = kmem.more s"
proof (rule freewalk_loop.raw_induct [where P = "\<lambda>kend pt i s r. \<forall>s'. r = Ok s' \<longrightarrow> kmem.more s' = kmem.more s"], goal_cases)
  case (1 fw kend pt i s r)
  have sub: "kmem.more t = kmem.more s'" if "fw q p j s' = Some (Ok t)" for q p j s' t using 1(2) [OF that] by simp
  show ?case
    using 1(3) by (auto simp: Let_def split: if_splits bind_splits result.splits dest!: sub dest: kfree_frame)
qed

lemma uvmfree_frame [frame]: "uvmfree kend pt n s = Some (Ok s') \<Longrightarrow> kmem.more s' = kmem.more s"
  by (auto simp: uvmfree_def freewalk_def dest!: freewalk_loop_frame dest: uvmunmap_frame split: result.splits if_splits)

lemma uvmcreate_frame [frame]: "uvmcreate s = (a, s') \<Longrightarrow> kmem.more s' = kmem.more s"
  by (auto simp: uvmcreate_def dest: kalloc_frame split: prod.splits if_splits)

lemma copyout_frame [frame]: "copyout pt dstva src len s = (r, s') \<Longrightarrow> kmem.more s' = kmem.more s"
proof (induction pt dstva src len s rule: copyout.induct)
  case (1 pt dstva src len s)
  show ?case using "1.prems" "1.IH" [OF _ refl refl] by (subst (asm) copyout.simps) (auto simp: Let_def split: if_splits)
qed

lemma copyin_frame [frame]: "copyin pt dst srcva len s = (r, s') \<Longrightarrow> kmem.more s' = kmem.more s"
proof (induction pt dst srcva len s rule: copyin.induct)
  case (1 pt dst srcva len s)
  show ?case using "1.prems" "1.IH" [OF _ refl refl] by (subst (asm) copyin.simps) (auto simp: Let_def split: if_splits)
qed

lemma proc_pagetable_frame [frame]: "proc_pagetable k tf s = Some (Ok (pt, s')) \<Longrightarrow> kmem.more s' = kmem.more s"
  by (auto simp: proc_pagetable_def split: prod.splits if_splits
      dest!: uvmcreate_frame mappages_frame uvmunmap_frame uvmfree_frame)

lemma proc_freepagetable_frame [frame]: "proc_freepagetable k pt n s = Some (Ok s') \<Longrightarrow> kmem.more s' = kmem.more s"
  by (auto simp: proc_freepagetable_def dest!: uvmunmap_frame uvmfree_frame)

lemma uvmcopy_loop_frame: "uvmcopy_loop kend old new i n s = Ok (r, s') \<Longrightarrow> kmem.more s' = kmem.more s"
proof (induction kend old new i n s rule: uvmcopy_loop.induct)
  case (1 kend old new i n s)
  show ?case
  proof (cases "i < n")
    case True
    obtain pte t where w: "walk old i False s = Ok (pte, t)"
      using "1.prems" True by (subst (asm) uvmcopy_loop.simps) auto
    have c: "pte \<noteq> 0" "load64 (mem t) pte AND PTE_V \<noteq> 0"
      using "1.prems" True by (subst (asm) uvmcopy_loop.simps, auto simp: w split: if_splits)+
    obtain page u where k: "kalloc t = (page, u)" by fastforce
    note f = walk_frame [OF w] kalloc_frame [OF k]
    let ?u = "u\<lparr>mem := memmove (mem u) page (PTE2PA (load64 (mem t) pte)) (ucast PGSIZE)\<rparr>"
    let ?fl = "ucast (PTE_FLAGS (load64 (mem t) pte)) :: uint"
    show ?thesis
    proof (cases "page = 0")
      case True
      then show ?thesis using "1.prems" \<open>i < n\<close> c f
        by (subst (asm) uvmcopy_loop.simps) (auto simp: w k Let_def dest!: uvmunmap_frame)
    next
      case False
      obtain q v where m: "mappages new i PGSIZE page ?fl ?u = Ok (q, v)"
        using "1.prems" True False c by (subst (asm) uvmcopy_loop.simps) (auto simp: w k Let_def)
      have v: "kmem.more v = kmem.more s" using mappages_frame [OF m] f by simp
      show ?thesis
        using "1.prems" "1.IH" [OF True w refl c refl refl refl k [symmetric] refl False refl m refl] True False c v
        by (subst (asm) uvmcopy_loop.simps) (auto simp: w k m Let_def dest!: uvmunmap_frame kfree_frame split: if_splits)
    qed
  qed (use "1.prems" in \<open>simp add: uvmcopy_loop.simps\<close>)
qed

lemma uvmcopy_frame [frame]: "uvmcopy kend old new n s = Ok (r, s') \<Longrightarrow> kmem.more s' = kmem.more s"
  by (auto simp: uvmcopy_def dest: uvmcopy_loop_frame)

section \<open>The buffer cache and the log\<close>

lemma lock_buf_frame: "lock_buf i s = Ok (j, s') \<Longrightarrow> bio.more s' = bio.more s"
  by (auto simp: lock_buf_def upd_buf_def)

lemma bget_frame: "bget d b s = Ok (i, s') \<Longrightarrow> bio.more s' = bio.more s"
  by (auto simp: bget_def upd_buf_def split: option.splits dest!: lock_buf_frame)

lemma upd_buf_more [simp]: "bio.more (upd_buf i f s) = bio.more s" "log.more (upd_buf i f s') = log.more s'"
    "fs.more (upd_buf i f s'') = fs.more s''"
  by (simp_all add: upd_buf_def)

lemma bread_frame [frame]: "bread d b s = Ok (i, s') \<Longrightarrow> bio.more s' = bio.more s"
  by (auto simp: bread_def virtio_disk_rw_def split: if_splits dest!: bget_frame)

lemma bwrite_frame [frame]: "bwrite i s = Ok s' \<Longrightarrow> bio.more s' = bio.more s"
  by (auto simp: bwrite_def virtio_disk_rw_def Let_def split: if_splits)

lemma brelse_frame [frame]: "brelse i s = Ok s' \<Longrightarrow> bio.more s' = bio.more s"
  by (auto simp: brelse_def Let_def split: if_splits prod.splits)

lemma more_up:
  "kmem.more s' = kmem.more s \<Longrightarrow> fs.more s' = fs.more s" "bio.more s' = bio.more s \<Longrightarrow> fs.more s' = fs.more s"
  "log.more s' = log.more s \<Longrightarrow> fs.more s' = fs.more s" for s s' :: "'z fs_scheme"
  by (cases s, cases s', simp)+

lemma bio_log: "bio.more s' = bio.more s \<Longrightarrow> log.more s' = log.more s" for s s' :: "'z log_scheme"
  by (cases s, cases s', simp)

lemmas log_level = bread_frame [THEN bio_log] bwrite_frame [THEN bio_log] brelse_frame [THEN bio_log]

lemma begin_op_frame [frame]: "begin_op s = Ok s' \<Longrightarrow> log.more s' = log.more s"
  by (auto simp: begin_op_def split: if_splits)

lemma write_log_loop_frame: "write_log_loop ts s = Ok s' \<Longrightarrow> log.more s' = log.more s"
  by (induction ts arbitrary: s) (fastforce split: if_splits dest!: log_level)+

lemma install_loop_frame: "install_loop rec ts s = Ok s' \<Longrightarrow> log.more s' = log.more s"
  by (induction ts arbitrary: s) (fastforce simp: bunpin_def Let_def split: if_splits dest!: log_level)+

lemma write_head_frame: "write_head s = Ok s' \<Longrightarrow> log.more s' = log.more s"
  by (auto simp: write_head_def dest!: log_level)

lemma commit_frame: "commit s = Ok s' \<Longrightarrow> log.more s' = log.more s"
  by (auto simp: commit_def write_log_def install_trans_def split: if_splits
      dest!: write_log_loop_frame install_loop_frame write_head_frame)

lemma end_op_frame [frame]: "end_op s = Ok s' \<Longrightarrow> log.more s' = log.more s"
  by (auto simp: end_op_def Let_def split: if_splits dest!: commit_frame)

lemma log_write_frame [frame]: "log_write i s = Ok s' \<Longrightarrow> log.more s' = log.more s"
  by (auto simp: log_write_def Let_def bpin_def split: if_splits)

section \<open>The file system\<close>

lemmas fs_level =
  bread_frame [THEN more_up(2)] bwrite_frame [THEN more_up(2)] brelse_frame [THEN more_up(2)]
  begin_op_frame [THEN more_up(3)] end_op_frame [THEN more_up(3)] log_write_frame [THEN more_up(3)]

lemma upd_inode_more [simp]: "fs.more (upd_inode ip f s) = fs.more s"
  by (simp add: upd_inode_def)

lemma bzero_frame: "bzero d b s = Ok s' \<Longrightarrow> fs.more s' = fs.more s"
  by (auto simp: bzero_def dest!: fs_level)

lemma balloc_loop_frame: "balloc_loop d bs s = Ok (b, s') \<Longrightarrow> fs.more s' = fs.more s"
proof (induction bs arbitrary: s)
  case (Cons k bs)
  then show ?case by (auto split: option.splits dest!: fs_level bzero_frame Cons.IH)
qed simp

lemma bfree_frame: "bfree d b s = Ok s' \<Longrightarrow> fs.more s' = fs.more s"
  by (auto simp: bfree_def Let_def split: if_splits dest!: fs_level)

lemma bfree_list_frame: "bfree_list d bs s = Ok s' \<Longrightarrow> fs.more s' = fs.more s"
  by (induction bs arbitrary: s) (fastforce split: if_splits dest!: bfree_frame)+

lemma iupdate_frame [frame]: "iupdate ip s = Ok s' \<Longrightarrow> fs.more s' = fs.more s"
  by (auto simp: iupdate_def Let_def dest!: fs_level)

lemma itrunc_direct_frame: "itrunc_direct ip is s = Ok s' \<Longrightarrow> fs.more s' = fs.more s"
  by (induction "is" arbitrary: s) (fastforce simp: Let_def split: if_splits dest!: bfree_frame)+

lemma itrunc_frame [frame]: "itrunc ip s = Ok s' \<Longrightarrow> fs.more s' = fs.more s"
  by (auto simp: itrunc_def Let_def split: if_splits
      dest!: itrunc_direct_frame bfree_list_frame bfree_frame iupdate_frame fs_level)

lemma iput_frame [frame]: "iput ip s = Ok s' \<Longrightarrow> fs.more s' = fs.more s"
  by (auto simp: iput_def Let_def split: if_splits dest!: itrunc_frame iupdate_frame)

lemma ilock_frame [frame]: "ilock ip s = Ok s' \<Longrightarrow> fs.more s' = fs.more s"
proof -
  assume l: "ilock ip s = Ok s'"
  then obtain lk where "\<not> i_ref (itable s ! ip) < 1" and k: "acquiresleep (cur_pid s) (i_lock (itable s ! ip)) = Ok lk"
    by (auto simp: ilock_def split: if_splits)
  define t where "t = upd_inode ip (\<lambda>x. x\<lparr>i_lock := lk\<rparr>) s"
  have t: "fs.more t = fs.more s" by (simp add: t_def)
  show ?thesis
    using l t k by (auto simp: ilock_def Let_def t_def [symmetric] split: if_splits dest!: fs_level)
qed

lemma iunlock_frame [frame]: "iunlock ip s = Ok s' \<Longrightarrow> fs.more s' = fs.more s"
  by (auto simp: iunlock_def split: if_splits)

lemma iunlockput_frame [frame]: "iunlockput ip s = Ok s' \<Longrightarrow> fs.more s' = fs.more s"
  by (auto simp: iunlockput_def dest!: iunlock_frame iput_frame)

lemma iget_frame [frame]: "iget d inum s = Ok (ip, s') \<Longrightarrow> fs.more s' = fs.more s"
  by (auto simp: iget_def split: option.splits)

lemma idup_frame [simp]: "fs.more (idup ip s) = fs.more s"
  by (simp add: idup_def)

lemma ialloc_loop_frame: "ialloc_loop d type is s = Ok (r, s') \<Longrightarrow> fs.more s' = fs.more s"
proof (induction "is" arbitrary: s)
  case (Cons i "is")
  then show ?case by (auto simp: Let_def split: if_splits dest!: fs_level iget_frame Cons.IH)
qed simp

lemma bmap_frame: "bmap ip bn s = Ok (b, s') \<Longrightarrow> fs.more s' = fs.more s"
  by (auto simp: bmap_def balloc_def Let_def split: if_splits dest!: balloc_loop_frame fs_level)

lemma copy_out_frame: "copy_out pt dataa dst bp off m out s = (r, bs, s') \<Longrightarrow> fs.more s' = fs.more s"
  by (cases dst) (auto simp: either_copyout_def put_block_def split: prod.splits dest!: copyout_frame [THEN more_up(1)])

lemma copy_in_frame: "copy_in pt dataa src bp off m s = (r, s') \<Longrightarrow> fs.more s' = fs.more s"
  by (cases src) (auto simp: either_copyin_def put_block_def split: prod.splits dest!: copyin_frame [THEN more_up(1)])

lemma readi_loop_frame: "readi_loop pt dataa ip dst off n tot out s = Ok (r, bs, s') \<Longrightarrow> fs.more s' = fs.more s"
proof (induction pt dataa ip dst off n tot out s rule: readi_loop.induct)
  case (1 pt dataa ip dst off n tot out s)
  show ?case
  proof (cases "tot < n")
    case True
    obtain addr t where b: "bmap ip (off div BSIZE) s = Ok (addr, t)"
      using "1.prems" True by (subst (asm) readi_loop.simps) auto
    show ?thesis
    proof (cases "addr = 0")
      case True
      then show ?thesis using "1.prems" \<open>tot < n\<close> bmap_frame [OF b] by (subst (asm) readi_loop.simps) (simp add: b)
    next
      case False
      obtain bp u where r: "bread (i_dev (itable t ! ip)) addr t = Ok (bp, u)"
        using "1.prems" True False by (subst (asm) readi_loop.simps) (auto simp: b)
      let ?m = "min (n - tot) (BSIZE - off mod BSIZE)"
      obtain c cs v where c: "copy_out pt dataa dst bp (off mod BSIZE) ?m out u = (c, cs, v)" by (metis prod_cases3)
      have v: "fs.more v = fs.more s"
        using bmap_frame [OF b] fs_level(1) [OF r] copy_out_frame [OF c] by simp
      obtain w where w: "brelse bp v = Ok w"
        using "1.prems" True False by (subst (asm) readi_loop.simps) (auto simp: b r c Let_def split: if_splits)
      show ?thesis
        using "1.prems" "1.IH" [OF True b refl False r refl refl c [symmetric] refl refl _ w] True False v fs_level(3) [OF w]
        by (subst (asm) readi_loop.simps) (auto simp: b r c w Let_def split: if_splits)
    qed
  qed (use "1.prems" in \<open>simp add: readi_loop.simps\<close>)
qed

lemma readi_frame [frame]: "readi pt dataa ip dst off n s = Ok (r, bs, s') \<Longrightarrow> fs.more s' = fs.more s"
  by (auto simp: readi_def Let_def dest: readi_loop_frame split: if_splits)

lemma writei_loop_frame: "writei_loop pt dataa ip src off n tot s = Ok (r, o', s') \<Longrightarrow> fs.more s' = fs.more s"
proof (induction pt dataa ip src off n tot s rule: writei_loop.induct)
  case (1 pt dataa ip src off n tot s)
  show ?case
  proof (cases "tot < n")
    case True
    obtain addr t where b: "bmap ip (off div BSIZE) s = Ok (addr, t)"
      using "1.prems" True by (subst (asm) writei_loop.simps) auto
    show ?thesis
    proof (cases "addr = 0")
      case True
      then show ?thesis using "1.prems" \<open>tot < n\<close> bmap_frame [OF b] by (subst (asm) writei_loop.simps) (simp add: b)
    next
      case False
      obtain bp u where r: "bread (i_dev (itable t ! ip)) addr t = Ok (bp, u)"
        using "1.prems" True False by (subst (asm) writei_loop.simps) (auto simp: b)
      let ?m = "min (n - tot) (BSIZE - off mod BSIZE)"
      obtain c v where c: "copy_in pt dataa src bp (off mod BSIZE) ?m u = (c, v)" by fastforce
      have v: "fs.more v = fs.more s"
        using bmap_frame [OF b] fs_level(1) [OF r] copy_in_frame [OF c] by simp
      show ?thesis
      proof (cases "c = -1")
        case True
        then show ?thesis using "1.prems" \<open>tot < n\<close> False v
          by (subst (asm) writei_loop.simps) (auto simp: b r c Let_def dest!: fs_level)
      next
        case c1: False
        obtain w x where w: "log_write bp v = Ok w" and x: "brelse bp w = Ok x"
          using "1.prems" True False c1 by (subst (asm) writei_loop.simps) (auto simp: b r c Let_def)
        show ?thesis
          using "1.prems" "1.IH" [OF True b refl False r refl refl refl c [symmetric] c1 w x] True False c1 v fs_level(3) [OF x] fs_level(6) [OF w]
          by (subst (asm) writei_loop.simps) (auto simp: b r c w x Let_def)
      qed
    qed
  qed (use "1.prems" in \<open>simp add: writei_loop.simps\<close>)
qed

lemma writei_frame [frame]: "writei pt dataa ip src off n s = Ok (r, s') \<Longrightarrow> fs.more s' = fs.more s"
  by (auto simp: writei_def Let_def dest!: writei_loop_frame iupdate_frame split: if_splits)

lemma dirlookup_loop_frame: "dirlookup_loop pt dataa dp name off s = Ok (r, s') \<Longrightarrow> fs.more s' = fs.more s"
proof (induction pt dataa dp name off s rule: dirlookup_loop.induct)
  case (1 pt dataa dp name off s)
  show ?case
  proof (cases "off < unat (i_size (itable s ! dp))")
    case True
    obtain q de t where r: "readi pt dataa dp (KernelDst 0) (of_nat off) 16 s = Ok (q, de, t)"
      using "1.prems" True by (subst (asm) dirlookup_loop.simps) auto
    show ?thesis
      using "1.prems" "1.IH"(1) [OF True r refl refl] "1.IH"(2) [OF True r refl refl] True readi_frame [OF r]
      by (subst (asm) dirlookup_loop.simps) (auto simp: r split: if_splits dest!: iget_frame)
  qed (use "1.prems" in \<open>simp add: dirlookup_loop.simps\<close>)
qed

lemma dirlookup_frame [frame]: "dirlookup pt dataa dp name s = Ok (r, s') \<Longrightarrow> fs.more s' = fs.more s"
  by (auto simp: dirlookup_def dest: dirlookup_loop_frame split: if_splits)

lemma dirlink_loop_frame: "dirlink_loop pt dataa dp off s = Ok (r, s') \<Longrightarrow> fs.more s' = fs.more s"
proof (induction pt dataa dp off s rule: dirlink_loop.induct)
  case (1 pt dataa dp off s)
  show ?case
  proof (cases "off < unat (i_size (itable s ! dp))")
    case True
    obtain q de t where r: "readi pt dataa dp (KernelDst 0) (of_nat off) 16 s = Ok (q, de, t)"
      using "1.prems" True by (subst (asm) dirlink_loop.simps) auto
    show ?thesis
      using "1.prems" "1.IH" [OF True r refl refl] True readi_frame [OF r]
      by (subst (asm) dirlink_loop.simps) (auto simp: r split: if_splits)
  qed (use "1.prems" in \<open>simp add: dirlink_loop.simps\<close>)
qed

lemma dirlink_frame [frame]: "dirlink pt dataa dp name inum s = Ok (r, s') \<Longrightarrow> fs.more s' = fs.more s"
  by (auto simp: dirlink_def split: option.splits if_splits
      dest!: dirlookup_frame dirlink_loop_frame writei_frame iput_frame)

lemma namex_loop_frame: "namex_loop pt dataa par path name ip s = Ok (r, nm, s') \<Longrightarrow> fs.more s' = fs.more s"
proof (induction pt dataa par path name ip s rule: namex_loop.induct)
  case (1 pt dataa par path name ip s)
  show ?case
  proof (cases "skipelem path name")
    case None
    then show ?thesis using "1.prems" by (subst (asm) namex_loop.simps) (auto split: if_splits dest!: iput_frame)
  next
    case (Some pn)
    obtain path' name' where pn: "pn = (path', name')" by fastforce
    obtain t where l: "ilock ip s = Ok t"
      using "1.prems" by (subst (asm) namex_loop.simps) (auto simp: Some pn)
    have un: "fs.more w = fs.more s" if "dirlookup pt dataa ip name' t = Ok (q, u)" "iunlockput ip u = Ok w" for q u w
      using that ilock_frame [OF l] by (auto dest!: iunlockput_frame dirlookup_frame)
    have ih: "fs.more s' = fs.more s"
      if "i_type (itable t ! ip) = T_DIR" "\<not> (par \<and> path' = [])" "dirlookup pt dataa ip name' t = Ok (Some (nx, o'), u)"
        "iunlockput ip u = Ok w" "namex_loop pt dataa par path' name' nx w = Ok (r, nm, s')" for nx o' u w
      using "1.IH" [OF Some pn [symmetric] l _ that(2,3) refl refl refl that(4,5)] that(1) un [OF that(3,4)] by simp
    consider "i_type (itable t ! ip) \<noteq> T_DIR" | "i_type (itable t ! ip) = T_DIR" "par \<and> path' = []"
      | q u where "i_type (itable t ! ip) = T_DIR" "\<not> (par \<and> path' = [])" "dirlookup pt dataa ip name' t = Ok (q, u)"
      using "1.prems" by (subst (asm) namex_loop.simps) (auto simp: Some pn l split: if_splits)
    then show ?thesis
    proof cases
      case 3
      then show ?thesis
        using "1.prems" un [OF 3(3)] ih [OF 3(1,2)]
        by (subst (asm) namex_loop.simps) (auto simp: Some pn l split: option.splits)
    qed (use "1.prems" ilock_frame [OF l] in
        \<open>subst (asm) namex_loop.simps, auto simp: Some pn l dest!: iunlockput_frame iunlock_frame\<close>)+
  qed
qed

lemma namex_frame [frame]: "namex pt dataa cw path par name s = Ok (r, nm, s') \<Longrightarrow> fs.more s' = fs.more s"
  by (auto simp: namex_def split: if_splits dest!: namex_loop_frame iget_frame)

lemma namei_frame [frame]: "namei pt dataa cw path s = Ok (r, s') \<Longrightarrow> fs.more s' = fs.more s"
  by (auto simp: namei_def dest: namex_frame)

lemma nameiparent_frame [frame]: "nameiparent pt dataa cw path name s = Ok (r, nm, s') \<Longrightarrow> fs.more s' = fs.more s"
  by (auto simp: nameiparent_def dest: namex_frame)

end
