(* ===== verification/ProcInv.thy ===== *)
theory ProcInv
  imports Frame
begin

text \<open>
  The process table stays well formed. \<open>ptable_ok\<close> says what the rest of the kernel relies on: the
  pids of the slots in use are positive, different, and below \<^verbatim>\<open>nextpid\<close>; a free slot owns nothing;
  the parent of every process, and \<^verbatim>\<open>initproc\<close>, is a process that has not exited. \<open>kstep\<close> is one
  operation of some process or of the scheduler on the whole kernel state.
\<close>

section \<open>What lower layers leave alone, at kernel level\<close>

lemma more_kern:
  assumes "fs.more s' = fs.more s"
  shows "procs s' = procs s" "nextpid s' = nextpid s" "initproc s' = initproc s" "kticks s' = kticks s"
    "ftable s' = ftable s" "pipes s' = pipes s" "ftab.more s' = ftab.more s"
  using assms by (cases s, cases s', simp)+

lemmas kmem_kern = more_kern [OF more_up(1)]

lemma upd_proc_simps [simp]:
  "procs (upd_proc i f s) = (procs s)[i := f (procs s ! i)]" "nextpid (upd_proc i f s) = nextpid s"
  "initproc (upd_proc i f s) = initproc s" "kticks (upd_proc i f s) = kticks s" "ftable (upd_proc i f s) = ftable s"
  "pipes (upd_proc i f s) = pipes s" "itable (upd_proc i f s) = itable s" "mem (upd_proc i f s) = mem s"
  by (simp_all add: upd_proc_def)

section \<open>Allocation and release of a slot\<close>

definition free_slot :: "proc \<Rightarrow> bool" where
  "free_slot p \<longleftrightarrow> state p = UNUSED \<and> pid p = 0 \<and> parent p = None \<and> trapframe p = 0 \<and> pagetable p = 0"

lemma freeproc_effect:
  assumes "freeproc k i s = Some (Ok s')" "i < length (procs s)"
  shows "\<exists>p. procs s' = (procs s)[i := p] \<and> free_slot p \<and> ofile p = ofile (procs s ! i) \<and> nextpid s' = nextpid s \<and>
    initproc s' = initproc s \<and> ftable s' = ftable s \<and> pipes s' = pipes s"
proof -
  obtain t u where k: "(if trapframe (procs s ! i) \<noteq> 0 then kfree (k_end k) (trapframe (procs s ! i)) s else Ok s) = Ok t"
    and f: "(if pagetable (procs (upd_proc i (\<lambda>p. p\<lparr>trapframe := 0\<rparr>) t) ! i) \<noteq> 0
      then proc_freepagetable k (pagetable (procs (upd_proc i (\<lambda>p. p\<lparr>trapframe := 0\<rparr>) t) ! i))
        (sz (procs (upd_proc i (\<lambda>p. p\<lparr>trapframe := 0\<rparr>) t) ! i)) (upd_proc i (\<lambda>p. p\<lparr>trapframe := 0\<rparr>) t)
      else Some (Ok (upd_proc i (\<lambda>p. p\<lparr>trapframe := 0\<rparr>) t))) = Some (Ok u)"
    and s': "s' = upd_proc i (\<lambda>p. p\<lparr>pagetable := 0, sz := 0, pid := 0, parent := None, pname := [], chan := NoChan,
           killed := False, xstate := 0, state := UNUSED\<rparr>) u"
    using assms(1) by (auto simp: freeproc_def Let_def simp del: upd_proc_simps)
  have "kmem.more t = kmem.more s" using k by (auto split: if_splits dest: kfree_frame)
  note t = kmem_kern [OF this]
  have "kmem.more u = kmem.more (upd_proc i (\<lambda>p. p\<lparr>trapframe := 0\<rparr>) t)"
    using f by (auto split: if_splits dest: proc_freepagetable_frame)
  note u = kmem_kern [OF this]
  show ?thesis using t u assms(2) by (auto simp: s' free_slot_def)
qed

definition new_slot :: "int \<Rightarrow> proc \<Rightarrow> proc \<Rightarrow> bool" where
  "new_slot n q p \<longleftrightarrow> state p = USED \<and> pid p = n \<and> trapframe p \<noteq> 0 \<and> pagetable p \<noteq> 0 \<and> parent p = parent q \<and> ofile p = ofile q"

lemma allocproc_effect:
  assumes "allocproc k pbs s = Some (Ok (r, s'))"
  shows "r = None \<and> procs s' = procs s \<and> nextpid s' = nextpid s \<and> initproc s' = initproc s \<and> ftable s' = ftable s \<and> pipes s' = pipes s \<or>
    (\<exists>i p. i < length (procs s) \<and> state (procs s ! i) = UNUSED \<and> procs s' = (procs s)[i := p] \<and> nextpid s' = nextpid s + 1 \<and>
      initproc s' = initproc s \<and> ftable s' = ftable s \<and> pipes s' = pipes s \<and> ofile p = ofile (procs s ! i) \<and>
      (r = None \<and> free_slot p \<or> r = Some i \<and> new_slot (nextpid s) (procs s ! i) p))"
proof (cases "first_idx (\<lambda>p. state p = UNUSED) (procs s)")
  case None
  then show ?thesis using assms by (simp add: allocproc_def)
next
  case (Some i)
  have i: "i < length (procs s)" "state (procs s ! i) = UNUSED" using Some by (simp_all add: first_idx_Some)
  have np: "\<not> nextpid s + 1 \<ge> 2 ^ 31" using assms Some by (auto simp: allocproc_def allocpid_def split: if_splits)
  define p1 where "p1 = (if pbs then (\<lambda>p. p\<lparr>rtime := 0, wtime := 0, niceness := 5, spriority := 60, nrun := 0\<rparr>) else id)
      ((procs s ! i)\<lparr>pid := nextpid s, state := USED, ctime := kticks s\<rparr>)"
  define s1 where "s1 = s\<lparr>nextpid := nextpid s + 1, procs := (procs s)[i := p1]\<rparr>"
  have s1: "(if pbs then upd_proc i (\<lambda>p. p\<lparr>rtime := 0, wtime := 0, niceness := 5, spriority := 60, nrun := 0\<rparr>)
      (upd_proc i (\<lambda>p. p\<lparr>pid := nextpid s, state := USED, ctime := kticks (s\<lparr>nextpid := nextpid s + 1\<rparr>)\<rparr>) (s\<lparr>nextpid := nextpid s + 1\<rparr>))
      else upd_proc i (\<lambda>p. p\<lparr>pid := nextpid s, state := USED, ctime := kticks (s\<lparr>nextpid := nextpid s + 1\<rparr>)\<rparr>) (s\<lparr>nextpid := nextpid s + 1\<rparr>)) = s1"
    using i by (simp add: s1_def p1_def upd_proc_def)
  have p1: "state p1 = USED" "pid p1 = nextpid s" "parent p1 = parent (procs s ! i)" "ofile p1 = ofile (procs s ! i)"
    by (simp_all add: p1_def)
  obtain tf t where k: "kalloc s1 = (tf, t)" by fastforce
  have "procs t = (procs s)[i := p1]" "nextpid t = nextpid s + 1" "initproc t = initproc s" "ftable t = ftable s" "pipes t = pipes s"
    using kmem_kern [OF kalloc_frame [OF k]] by (simp_all add: s1_def)
  note t = this
  let ?t = "upd_proc i (\<lambda>p. p\<lparr>trapframe := tf\<rparr>) t"
  have a: "allocproc k pbs s =
      (if tf = 0 then bindN (freeproc k i ?t) (\<lambda>s. Some (Ok (None, s)))
       else bindN (proc_pagetable k tf ?t) (\<lambda>(pt, s).
         let s = upd_proc i (\<lambda>p. p\<lparr>pagetable := pt\<rparr>) s in
         if pt = 0 then bindN (freeproc k i s) (\<lambda>s. Some (Ok (None, s)))
         else Some (Ok (Some i, upd_proc i (\<lambda>p.
           p\<lparr>pcontext := \<lparr>ra = k_forkret k, sp = kstack p + PGSIZE, sregs = replicate 12 0\<rparr>,
             rtime := 0, etime := 0, ctime := kticks s\<rparr>) s))))"
    using np by (simp add: allocproc_def allocpid_def Let_def Some s1 k split del: if_split)
  show ?thesis
  proof (cases "tf = 0")
    case True
    then have "freeproc k i ?t = Some (Ok s')" "r = None" using assms a by auto
    then show ?thesis using freeproc_effect [of k i ?t s'] t p1 i by auto
  next
    case False
    then obtain pt u where pt: "proc_pagetable k tf ?t = Some (Ok (pt, u))" using assms a by auto
    note u = kmem_kern [OF proc_pagetable_frame [OF pt]]
    show ?thesis
    proof (cases "pt = 0")
      case True
      then have "freeproc k i (upd_proc i (\<lambda>p. p\<lparr>pagetable := 0\<rparr>) u) = Some (Ok s')" "r = None"
        using assms a False pt by (auto simp: Let_def)
      then show ?thesis using freeproc_effect [of k i "upd_proc i (\<lambda>p. p\<lparr>pagetable := 0\<rparr>) u" s'] t u p1 i by auto
    next
      case pt0: False
      then have "r = Some i" "s' = upd_proc i (\<lambda>p. p\<lparr>pcontext := \<lparr>ra = k_forkret k, sp = kstack p + PGSIZE, sregs = replicate 12 0\<rparr>,
             rtime := 0, etime := 0, ctime := kticks u\<rparr>) (upd_proc i (\<lambda>p. p\<lparr>pagetable := pt\<rparr>) u)"
        using assms a False pt by (auto simp: Let_def)
      then show ?thesis
        using t u p1 i False pt0 by (intro disjI2 exI [of _ i] exI [of _ "procs s' ! i"]) (simp add: new_slot_def)
    qed
  qed
qed

section \<open>Well-formed process tables\<close>

definition live :: "proc \<Rightarrow> bool" where
  "live p \<longleftrightarrow> state p \<noteq> UNUSED \<and> state p \<noteq> ZOMBIE"

definition slot_ok :: "int \<Rightarrow> proc \<Rightarrow> bool" where
  "slot_ok n p \<longleftrightarrow>
     (if state p = UNUSED then free_slot p else 0 < pid p \<and> pid p < n \<and> trapframe p \<noteq> 0 \<and> pagetable p \<noteq> 0)"

definition live_at :: "proc list \<Rightarrow> nat option \<Rightarrow> bool" where
  "live_at ps r = (case r of None \<Rightarrow> True | Some j \<Rightarrow> j < length ps \<and> live (ps ! j))"

definition ptable_ok :: "proc list \<Rightarrow> int \<Rightarrow> nat option \<Rightarrow> bool" where
  "ptable_ok ps n ini \<longleftrightarrow>
     length ps = NPROC \<and> 1 \<le> n \<and> (\<forall>p \<in> set ps. slot_ok n p) \<and>
     (\<forall>i < length ps. \<forall>j < length ps. pid (ps ! i) = pid (ps ! j) \<and> pid (ps ! i) \<noteq> 0 \<longrightarrow> i = j) \<and>
     (\<forall>p \<in> set ps. live_at ps (parent p)) \<and> live_at ps ini"

lemma ptable_okD:
  assumes "ptable_ok ps n ini"
  shows "length ps = NPROC" "1 \<le> n" "i < length ps \<Longrightarrow> slot_ok n (ps ! i)"
    "i < length ps \<Longrightarrow> j < length ps \<Longrightarrow> pid (ps ! i) = pid (ps ! j) \<Longrightarrow> pid (ps ! i) \<noteq> 0 \<Longrightarrow> i = j"
    "i < length ps \<Longrightarrow> live_at ps (parent (ps ! i))" "live_at ps ini"
  using assms by (simp_all add: ptable_ok_def)

lemma ptable_okI:
  assumes "length ps = NPROC" "1 \<le> n" "\<And>i. i < length ps \<Longrightarrow> slot_ok n (ps ! i)"
    "\<And>i j. i < length ps \<Longrightarrow> j < length ps \<Longrightarrow> pid (ps ! i) = pid (ps ! j) \<Longrightarrow> pid (ps ! i) \<noteq> 0 \<Longrightarrow> i = j"
    "\<And>i. i < length ps \<Longrightarrow> live_at ps (parent (ps ! i))" "live_at ps ini"
  shows "ptable_ok ps n ini"
  using assms by (auto simp: ptable_ok_def in_set_conv_nth)

text \<open>All that the predicate reads of a process.\<close>

definition pkey :: "proc \<Rightarrow> bool \<times> bool \<times> int \<times> nat option \<times> bool \<times> bool" where
  "pkey p = (state p = UNUSED, state p = ZOMBIE, pid p, parent p, trapframe p = 0, pagetable p = 0)"

lemma pkeyD:
  assumes "pkey p = pkey q"
  shows "state p = UNUSED \<longleftrightarrow> state q = UNUSED" "state p = ZOMBIE \<longleftrightarrow> state q = ZOMBIE" "pid p = pid q" "parent p = parent q"
    "trapframe p = 0 \<longleftrightarrow> trapframe q = 0" "pagetable p = 0 \<longleftrightarrow> pagetable q = 0" "live p = live q" "slot_ok n p = slot_ok n q"
  using assms by (auto simp: pkey_def live_def slot_ok_def free_slot_def)

lemma live_at_key: "map pkey ps' = map pkey ps \<Longrightarrow> live_at ps' r = live_at ps r"
proof (cases r)
  case (Some j)
  assume m: "map pkey ps' = map pkey ps"
  then have "length ps' = length ps" by (metis length_map)
  moreover have "live (ps' ! j) = live (ps ! j)" if "j < length ps"
    using m that calculation by (metis nth_map pkeyD(7))
  ultimately show ?thesis using Some by (auto simp: live_at_def)
qed (simp add: live_at_def)

lemma ptable_ok_key:
  assumes "map pkey ps' = map pkey ps" "ptable_ok ps n ini"
  shows "ptable_ok ps' n ini"
proof -
  have len: "length ps' = length ps" using assms(1) by (metis length_map)
  have k: "pkey (ps' ! i) = pkey (ps ! i)" if "i < length ps" for i using assms(1) that len by (metis nth_map)
  note d = ptable_okD [OF assms(2)]
  show ?thesis
    by (rule ptable_okI)
      (use d len k [THEN pkeyD(8)] k [THEN pkeyD(3)] k [THEN pkeyD(4)] live_at_key [OF assms(1)] in auto)
qed

lemma live_at_upd: "live_at ps r \<Longrightarrow> i < length ps \<Longrightarrow> (live (ps ! i) \<Longrightarrow> live p) \<Longrightarrow> live_at (ps[i := p]) r"
  by (cases r) (auto simp: live_at_def nth_list_update)

lemma ptable_ok_upd:
  assumes ok: "ptable_ok ps n ini" and i: "i < length ps" and n: "n \<le> n'"
    and p: "slot_ok n' p" "\<And>j. j < length ps \<Longrightarrow> j \<noteq> i \<Longrightarrow> pid p \<noteq> 0 \<Longrightarrow> pid (ps ! j) \<noteq> pid p"
      "live_at (ps[i := p]) (parent p)" "live (ps ! i) \<Longrightarrow> live p"
  shows "ptable_ok (ps[i := p]) n' ini"
proof (rule ptable_okI)
  note d = ptable_okD [OF ok]
  show "length (ps[i := p]) = NPROC" "1 \<le> n'" using d(1,2) n by simp_all
  show "live_at (ps[i := p]) ini" using live_at_upd [OF d(6) i p(4)] .
  fix j assume j: "j < length (ps[i := p])"
  have "slot_ok n' (ps ! j)" using d(3) [of j] j n by (auto simp: slot_ok_def split: if_splits)
  then show "slot_ok n' (ps[i := p] ! j)" using p(1) j by (cases "j = i") auto
  show "live_at (ps[i := p]) (parent (ps[i := p] ! j))"
    using live_at_upd [OF d(5) i p(4), of j] p(3) j by (cases "j = i") auto
  fix l assume "l < length (ps[i := p])" "pid (ps[i := p] ! j) = pid (ps[i := p] ! l)" "pid (ps[i := p] ! j) \<noteq> 0"
  then show "j = l" using d(4) [of j l] p(2) [of j] p(2) [of l] j i by (cases "j = i"; cases "l = i") auto
qed

lemma ptable_ok_free:
  assumes "ptable_ok ps n ini" "i < length ps" "\<not> live (ps ! i)" "free_slot p" "n \<le> n'"
  shows "ptable_ok (ps[i := p]) n' ini"
  by (rule ptable_ok_upd) (use assms in \<open>auto simp: free_slot_def slot_ok_def live_at_def\<close>)

section \<open>The operations\<close>

text \<open>A state change that the predicate does not see.\<close>

definition same_table :: "'z kern_scheme \<Rightarrow> 'z kern_scheme \<Rightarrow> bool" where
  "same_table s s' \<longleftrightarrow> map pkey (procs s') = map pkey (procs s) \<and> nextpid s' = nextpid s \<and> initproc s' = initproc s"

lemma same_table_refl [simp]: "same_table s s"
  by (simp add: same_table_def)

lemma same_table_trans: "same_table s t \<Longrightarrow> same_table t u \<Longrightarrow> same_table s u"
  by (simp add: same_table_def)

lemma same_table_len: "same_table s s' \<Longrightarrow> length (procs s') = length (procs s)"
  unfolding same_table_def by (metis length_map)

lemma same_table_nth: "same_table s s' \<Longrightarrow> i < length (procs s) \<Longrightarrow> pkey (procs s' ! i) = pkey (procs s ! i)"
  unfolding same_table_def by (metis length_map nth_map)

lemma same_table_more: "fs.more s' = fs.more s \<Longrightarrow> same_table s s'"
  unfolding same_table_def using more_kern(1,2,3) [of s' s] by metis

lemma same_table_upd: "(\<And>p. pkey (f p) = pkey p) \<Longrightarrow> same_table s (upd_proc i f s)"
proof (cases "i < length (procs s)")
  case True
  moreover assume "\<And>p. pkey (f p) = pkey p"
  ultimately have "map pkey ((procs s)[i := f (procs s ! i)]) = (map pkey (procs s))[i := map pkey (procs s) ! i]"
    by (simp add: map_update)
  then show ?thesis by (simp add: same_table_def)
qed (simp add: same_table_def list_update_beyond)

lemma same_table_procs: "map pkey ps = map pkey (procs s) \<Longrightarrow> same_table s (s\<lparr>procs := ps\<rparr>)"
  by (simp add: same_table_def)

lemma pkey_wake [simp]: "pkey (wake ch p) = pkey p"
  by (auto simp: wake_def pkey_def)

lemma pkey_wakeup [simp]: "map pkey (wakeup me ch ps) = map pkey ps"
  by (rule nth_equalityI) (simp_all add: nth_wakeup)

lemma same_table_wake_pipes: "same_table s (wake_pipes me w s)"
proof -
  have "map pkey (fold (\<lambda>ch. wakeup (Some me) (pipe_chan_at ch)) w ps) = map pkey ps" for ps
    by (induction w arbitrary: ps) simp_all
  then show ?thesis by (simp add: same_table_def wake_pipes_def)
qed

lemma same_table_upd_file [simp]: "same_table (upd_file f g s) t = same_table s t" "same_table s (upd_file f g s') = same_table s s'"
  by (simp_all add: same_table_def upd_file_def)

lemma filedup_table: "filedup f s = Ok s' \<Longrightarrow> same_table s s'"
  by (auto simp: filedup_def upd_file_def same_table_def split: if_splits)

lemma fork_files_table: "fork_files me np fds s = Ok s' \<Longrightarrow> same_table s s'"
proof (induction fds arbitrary: s)
  case (Cons fd fds)
  show ?case
  proof (cases "ofile (procs s ! me) ! fd")
    case (Some f)
    obtain t where t: "filedup f s = Ok t"
      and r: "fork_files me np fds (upd_proc np (\<lambda>p. p\<lparr>ofile := (ofile p)[fd := Some f]\<rparr>) t) = Ok s'"
      using Cons.prems Some by auto
    have "same_table t (upd_proc np (\<lambda>p. p\<lparr>ofile := (ofile p)[fd := Some f]\<rparr>) t)"
      by (rule same_table_upd) (simp add: pkey_def)
    then show ?thesis using filedup_table [OF t] Cons.IH [OF r] by (blast intro: same_table_trans)
  qed (use Cons in simp)
qed simp

lemma pipeclose_table: "pipeclose kend a w pi s = Ok (ch, pi', s') \<Longrightarrow> kmem.more s' = kmem.more s"
  by (auto simp: pipeclose_def Let_def split: if_splits dest: kfree_frame)

lemma fileclose_table: "fileclose k f s = Ok (w, s') \<Longrightarrow> same_table s s'"
proof -
  assume c: "fileclose k f s = Ok (w, s')"
  have p: "same_table t s'" if "pipeclose (k_end k) a wr pi t = Ok (ch, pi', u)" "s' = u\<lparr>pipes := q\<rparr>" for t a wr pi ch pi' u q
    using same_table_more [OF more_up(1) [OF pipeclose_table [OF that(1)]]] that(2) by (simp add: same_table_def)
  have i: "same_table t s'" if "begin_op t = Ok u" "iput ip u = Ok v" "end_op v = Ok s'" for t u v ip
    using same_table_more [OF fs_level(4) [OF that(1)]] same_table_more [OF iput_frame [OF that(2)]]
      same_table_more [OF fs_level(5) [OF that(3)]] by (blast intro: same_table_trans)
  show ?thesis
    using c by (auto simp: fileclose_def Let_def split: if_splits dest: p i)
qed

lemma exit_files_table: "exit_files k me fds s = Ok s' \<Longrightarrow> same_table s s'"
proof (induction fds arbitrary: s)
  case (Cons fd fds)
  show ?case
  proof (cases "ofile (procs s ! me) ! fd")
    case (Some f)
    obtain w t where t: "fileclose k f s = Ok (w, t)"
      and r: "exit_files k me fds (upd_proc me (\<lambda>p. p\<lparr>ofile := (ofile p)[fd := None]\<rparr>) (wake_pipes me w t)) = Ok s'"
      using Cons.prems Some by auto
    have "same_table (wake_pipes me w t) (upd_proc me (\<lambda>p. p\<lparr>ofile := (ofile p)[fd := None]\<rparr>) (wake_pipes me w t))"
      by (rule same_table_upd) (simp add: pkey_def)
    then show ?thesis
      using fileclose_table [OF t] same_table_wake_pipes Cons.IH [OF r] by (blast intro: same_table_trans)
  qed (use Cons in simp)
qed simp

abbreviation table_ok :: "'z kern_scheme \<Rightarrow> bool" where
  "table_ok s \<equiv> ptable_ok (procs s) (nextpid s) (initproc s)"

text \<open>The invariant while process \<open>me\<close> runs.\<close>

definition table_run :: "nat \<Rightarrow> 'z kern_scheme \<Rightarrow> bool" where
  "table_run me s \<longleftrightarrow> table_ok s \<and> me < length (procs s) \<and> live (procs s ! me)"

lemma same_table_ok: "table_ok s \<Longrightarrow> same_table s s' \<Longrightarrow> table_ok s'"
  by (simp add: same_table_def) (metis ptable_ok_key)

lemma same_table_run: "table_run me s \<Longrightarrow> same_table s s' \<Longrightarrow> table_run me s'"
  using same_table_ok same_table_len pkeyD(7) [OF same_table_nth] unfolding table_run_def by metis

lemma allocproc_ok:
  assumes "allocproc k pbs s = Some (Ok (r, s'))" "table_ok s"
  shows "table_ok s' \<and> length (procs s') = length (procs s)"
  using allocproc_effect [OF assms(1)]
proof (elim disjE exE conjE)
  fix i p
  assume i: "i < length (procs s)" "state (procs s ! i) = UNUSED" and e: "procs s' = (procs s)[i := p]" "nextpid s' = nextpid s + 1"
    "initproc s' = initproc s" and n: "new_slot (nextpid s) (procs s ! i) p"
  note d = ptable_okD [OF assms(2)]
  have "free_slot (procs s ! i)" using d(3) [OF i(1)] i(2) by (simp add: slot_ok_def)
  moreover have "pid (procs s ! j) \<noteq> nextpid s" if "j < length (procs s)" for j
    using d(3) [OF that] d(2) by (auto simp: slot_ok_def free_slot_def split: if_splits)
  ultimately have "ptable_ok ((procs s)[i := p]) (nextpid s + 1) (initproc s)"
    using n i d(2) by (intro ptable_ok_upd [OF assms(2)]) (auto simp: new_slot_def slot_ok_def live_at_def live_def free_slot_def)
  then show ?thesis using e by simp
qed (use assms(2) ptable_ok_free [of "procs s" "nextpid s" "initproc s" _ _ "nextpid s + 1"] in \<open>auto simp: live_def\<close>)

lemma freeproc_ok:
  assumes "freeproc k i s = Some (Ok s')" "table_ok s" "i < length (procs s)" "\<not> live (procs s ! i)"
  shows "table_ok s'"
  using freeproc_effect [OF assms(1,3)] ptable_ok_free [OF assms(2,3,4)] by auto

text \<open>A new slot, before the child has a parent, can be given back or made a child of a live process.\<close>

lemma new_slot_freed:
  assumes "table_ok s" "allocproc k pbs s = Some (Ok (Some i, t))" "freeproc k i u = Some (Ok s')" "same_table t u"
    "me < length (procs s)" "live (procs s ! me)"
  shows "table_run me s'"
proof -
  obtain p where i: "i < length (procs s)" "state (procs s ! i) = UNUSED" and t: "procs t = (procs s)[i := p]" "nextpid t = nextpid s + 1"
      "initproc t = initproc s"
    using allocproc_effect [OF assms(2)] by auto
  have len: "length (procs u) = length (procs s)" using same_table_len [OF assms(4)] t by simp
  obtain q where q: "procs s' = (procs u)[i := q]" "free_slot q" "nextpid s' = nextpid u" "initproc s' = initproc u"
    using freeproc_effect [OF assms(3)] i len by auto
  have "map pkey (procs s') = map pkey ((procs s)[i := q])"
    using assms(4) t q by (simp add: same_table_def map_update)
  moreover have "ptable_ok ((procs s)[i := q]) (nextpid s + 1) (initproc s)"
    using ptable_ok_free [OF assms(1) i(1) _ q(2)] i(2) by (simp add: live_def)
  ultimately have "table_ok s'" using q assms(4) t ptable_ok_key by (simp add: same_table_def)
  moreover have "me \<noteq> i" using i(2) assms(6) by (auto simp: live_def)
  then have "live (procs s' ! me)" "me < length (procs s')"
    using same_table_nth [OF assms(4), of me, THEN pkeyD(7)] t q(1) assms(5,6) len by simp_all
  ultimately show ?thesis by (simp add: table_run_def)
qed

lemma child_ok:
  assumes "table_ok s" "i < length (procs s)" "me < length (procs s)" "live (procs s ! me)" "live (procs s ! i)"
    and f: "\<And>p. pkey (f p) = (False, False, pid p, Some me, trapframe p = 0, pagetable p = 0)"
  shows "table_ok (upd_proc i f s)"
proof -
  have g: "live (f p)" "parent (f p) = Some me" "pid (f p) = pid p" "trapframe (f p) = 0 \<longleftrightarrow> trapframe p = 0" "pagetable (f p) = 0 \<longleftrightarrow> pagetable p = 0" "state (f p) \<noteq> UNUSED" for p
    using f [of p] by (auto simp: pkey_def live_def)
  note d = ptable_okD [OF assms(1)]
  have "ptable_ok ((procs s)[i := f (procs s ! i)]) (nextpid s) (initproc s)"
  proof (rule ptable_ok_upd [OF assms(1,2)])
    show "slot_ok (nextpid s) (f (procs s ! i))" using d(3) [OF assms(2)] assms(5) g by (simp add: slot_ok_def live_def)
    show "live_at ((procs s)[i := f (procs s ! i)]) (parent (f (procs s ! i)))"
      using assms(2-4) g by (cases "me = i") (simp_all add: live_at_def)
    show "pid (procs s ! j) \<noteq> pid (f (procs s ! i))"
      if "j < length (procs s)" "j \<noteq> i" "pid (f (procs s ! i)) \<noteq> 0" for j
      using d(4) [OF that(1) assms(2)] that g by auto
  qed (use g in auto)
  then show ?thesis by simp
qed

lemma upd_proc_twice: "i < length (procs s) \<Longrightarrow> upd_proc i f (upd_proc i g s) = upd_proc i (\<lambda>p. f (g p)) s"
  by (simp add: upd_proc_def)

lemma same_table_mem [simp]: "same_table s (s'\<lparr>mem := m\<rparr>) = same_table s s'"
  by (simp add: same_table_def)

lemma fork_success:
  assumes "fork k pbs me s = Some (Ok (r, s'))" "allocproc k pbs s = Some (Ok (Some i, t))"
    "uvmcopy (k_end k) (pagetable (procs t ! me)) (pagetable (procs t ! i)) (sz (procs t ! me)) t = Ok (q, u)" "\<not> q < 0"
  shows "\<exists>z m tm w nm ip.
    fork_files me i [0..<NOFILE] (upd_proc i (\<lambda>q. q\<lparr>trace_mask := tm\<rparr>) (upd_proc i (\<lambda>q. q\<lparr>sz := z\<rparr>) (u\<lparr>mem := m\<rparr>))) = Ok w \<and>
    r = pid (procs (upd_proc i (\<lambda>q. q\<lparr>pname := nm\<rparr>) (upd_proc i (\<lambda>q. q\<lparr>cwd := Some ip\<rparr>) (idup ip w))) ! i) \<and>
    s' = upd_proc i (\<lambda>q. q\<lparr>state := RUNNABLE\<rparr>) (upd_proc i (\<lambda>q. q\<lparr>parent := Some me\<rparr>)
      (upd_proc i (\<lambda>q. q\<lparr>pname := nm\<rparr>) (upd_proc i (\<lambda>q. q\<lparr>cwd := Some ip\<rparr>) (idup ip w))))"
proof -
  have m: "(upd_proc i f x)\<lparr>mem := m\<rparr> = upd_proc i f (x\<lparr>mem := m\<rparr>)" for f and x :: "'a kern_scheme" and m
    by (simp add: upd_proc_def)
  obtain z m tm w where f: "fork_files me i [0..<NOFILE]
      (upd_proc i (\<lambda>q. q\<lparr>trace_mask := tm\<rparr>) (upd_proc i (\<lambda>q. q\<lparr>sz := z\<rparr>) (u\<lparr>mem := m\<rparr>))) = Ok w"
    and r: "(case cwd (procs w ! me) of None \<Rightarrow> Some Undef
       | Some ip \<Rightarrow> let s = upd_proc i (\<lambda>q. q\<lparr>cwd := Some ip\<rparr>) (idup ip w);
                         s = upd_proc i (\<lambda>q. q\<lparr>pname := take 15 (pname (procs u ! me))\<rparr>) s;
                         pd = pid (procs s ! i);
                         s = upd_proc i (\<lambda>q. q\<lparr>parent := Some me\<rparr>) s;
                         s = upd_proc i (\<lambda>q. q\<lparr>state := RUNNABLE\<rparr>) s
                     in Some (Ok (pd, s))) = Some (Ok (r, s'))"
    using assms by (auto simp: fork_def Let_def m simp del: upd_proc_simps)
  then obtain ip where "cwd (procs w ! me) = Some ip" by (auto split: option.splits)
  with f r show ?thesis
    by (intro exI [of _ z] exI [of _ m] exI [of _ tm] exI [of _ w] exI [of _ "take 15 (pname (procs u ! me))"] exI [of _ ip])
      (auto simp: Let_def simp del: upd_proc_simps)
qed

lemma fork_ok:
  assumes "fork k pbs me s = Some (Ok (r, s'))" "table_ok s" "me < length (procs s)" "live (procs s ! me)"
  shows "table_run me s'"
proof -
  obtain np t where a: "allocproc k pbs s = Some (Ok (np, t))" using assms(1) by (auto simp: fork_def)
  note t = allocproc_ok [OF a assms(2)]
  show ?thesis
  proof (cases np)
    case None
    then have "s' = t" using assms(1) a by (auto simp: fork_def)
    moreover have "live (procs t ! me)" using allocproc_effect [OF a] None assms(4) by (auto simp: nth_list_update live_def split: if_splits)
    ultimately show ?thesis using t assms(3) by (simp add: table_run_def)
  next
    case (Some i)
    obtain p where i: "i < length (procs s)" "state (procs s ! i) = UNUSED" "procs t = (procs s)[i := p]" "new_slot (nextpid s) (procs s ! i) p"
      using allocproc_effect [OF a] Some by auto
    have me: "me \<noteq> i" using i(2) assms(4) by (auto simp: live_def)
    obtain q u where c: "uvmcopy (k_end k) (pagetable (procs t ! me)) (pagetable (procs t ! i)) (sz (procs t ! me)) t = Ok (q, u)"
      using assms(1) a Some by (auto simp: fork_def)
    have u: "same_table t u" by (rule same_table_more [OF more_up(1) [OF uvmcopy_frame [OF c]]])
    show ?thesis
    proof (cases "q < 0")
      case True
      then show ?thesis using assms(1) a Some c new_slot_freed [OF assms(2) a [unfolded Some] _ u assms(3,4)] by (auto simp: fork_def)
    next
      case False
      obtain z m tm w nm ip where w: "fork_files me i [0..<NOFILE]
            (upd_proc i (\<lambda>q. q\<lparr>trace_mask := tm\<rparr>) (upd_proc i (\<lambda>q. q\<lparr>sz := z\<rparr>) (u\<lparr>mem := m\<rparr>))) = Ok w"
        and s': "s' = upd_proc i (\<lambda>q. q\<lparr>state := RUNNABLE\<rparr>) (upd_proc i (\<lambda>q. q\<lparr>parent := Some me\<rparr>)
          (upd_proc i (\<lambda>q. q\<lparr>pname := nm\<rparr>) (upd_proc i (\<lambda>q. q\<lparr>cwd := Some ip\<rparr>) (idup ip w))))"
        using fork_success [OF assms(1) a [unfolded Some] c False] by blast
      define x where "x = upd_proc i (\<lambda>q. q\<lparr>pname := nm\<rparr>) (upd_proc i (\<lambda>q. q\<lparr>cwd := Some ip\<rparr>) (idup ip w))"
      have sz: "same_table y (upd_proc i (\<lambda>q. q\<lparr>trace_mask := tm\<rparr>) (upd_proc i (\<lambda>q. q\<lparr>sz := z\<rparr>) y))" for y :: "'a kern_scheme"
        by (rule same_table_trans [OF same_table_upd same_table_upd]) (simp_all add: pkey_def)
      have nm: "same_table y (upd_proc i (\<lambda>q. q\<lparr>pname := nm\<rparr>) (upd_proc i (\<lambda>q. q\<lparr>cwd := Some ip\<rparr>) y))" for y :: "'a kern_scheme"
        by (rule same_table_trans [OF same_table_upd same_table_upd]) (simp_all add: pkey_def)
      have "same_table u (u\<lparr>mem := m\<rparr>)" by simp
      with sz have v: "same_table u (upd_proc i (\<lambda>q. q\<lparr>trace_mask := tm\<rparr>) (upd_proc i (\<lambda>q. q\<lparr>sz := z\<rparr>) (u\<lparr>mem := m\<rparr>)))"
        by (blast intro: same_table_trans)
      have "same_table w (idup ip w)" by (rule same_table_more) simp
      then have "same_table w x" unfolding x_def using nm by (blast intro: same_table_trans)
      then have x: "same_table t x" using u v fork_files_table [OF w] by (blast intro: same_table_trans)
      have len: "length (procs x) = length (procs s)" using same_table_len [OF x] i by simp
      have live: "live (procs x ! me)" "live (procs x ! i)"
        using same_table_nth [OF x, THEN pkeyD(7)] i me assms(3,4) by (auto simp: new_slot_def live_def)
      have "s' = upd_proc i (\<lambda>q. q\<lparr>parent := Some me, state := RUNNABLE\<rparr>) x"
        using s' len i(1) by (simp add: x_def [symmetric] upd_proc_twice)
      then show ?thesis
        using child_ok [OF same_table_ok [OF conjunct1 [OF t] x] _ _ live, of "\<lambda>q. q\<lparr>parent := Some me, state := RUNNABLE\<rparr>"]
          len i(1) assms(3) me live by (simp add: pkey_def table_run_def)
    qed
  qed
qed

lemma nth_reparent:
  assumes "ini \<noteq> me" "i < length ps"
  shows "length (reparent ini me ps) = length ps"
    "pkey (reparent ini me ps ! i) = pkey (if parent (ps ! i) = Some me then (ps ! i)\<lparr>parent := Some ini\<rparr> else ps ! i)"
proof -
  have "set [0..<length ps] \<subseteq> {..<length ps}" by auto
  note s = reparent_loop_spec [OF _ this assms(1), of "Some me"]
  show "length (reparent ini me ps) = length ps" using s by (simp add: reparent_def)
  have "reparent ini me ps ! i = reparented (Some me) ini me (set [0..<length ps]) ps i"
    using s assms(2) by (simp add: reparent_def)
  then show "pkey (reparent ini me ps ! i) = pkey (if parent (ps ! i) = Some me then (ps ! i)\<lparr>parent := Some ini\<rparr> else ps ! i)"
    using assms(2) by (auto simp: reparented_def Let_def)
qed

text \<open>The table when \<^verbatim>\<open>exit\<close> has given the children away, before and after the process is a zombie.\<close>

lemma reparent_ok:
  assumes "ptable_ok ps n (Some ini)" "ini \<noteq> me"
  shows "ptable_ok (reparent ini me ps) n (Some ini)"
    "i < length ps \<Longrightarrow> parent (reparent ini me ps ! i) \<noteq> Some me"
proof -
  note d = ptable_okD [OF assms(1)]
  have r: "pkey (reparent ini me ps ! i) = pkey (if parent (ps ! i) = Some me then (ps ! i)\<lparr>parent := Some ini\<rparr> else ps ! i)"
    if "i < length ps" for i using nth_reparent [OF assms(2) that] by simp
  have len: "length (reparent ini me ps) = length ps" using nth_reparent(1) [OF assms(2), of 0 ps] d(1) by (simp add: NPROC_def)
  have pd: "pid (reparent ini me ps ! i) = pid (ps ! i)" "live (reparent ini me ps ! i) = live (ps ! i)"
    "parent (reparent ini me ps ! i) = (if parent (ps ! i) = Some me then Some ini else parent (ps ! i))" if "i < length ps" for i
    using r [OF that, THEN pkeyD(3)] r [OF that, THEN pkeyD(7)] r [OF that, THEN pkeyD(4)] by (auto simp: live_def)
  have l: "live_at (reparent ini me ps) q" if "live_at ps q" for q
    using that pd(2) len by (cases q) (auto simp: live_at_def)
  show "parent (reparent ini me ps ! i) \<noteq> Some me" if "i < length ps" using pd(3) [OF that] assms(2) by auto
  show "ptable_ok (reparent ini me ps) n (Some ini)"
  proof (rule ptable_okI)
    fix i assume "i < length (reparent ini me ps)"
    then have i: "i < length ps" using len by simp
    have "slot_ok n (if parent (ps ! i) = Some me then (ps ! i)\<lparr>parent := Some ini\<rparr> else ps ! i)"
      using d(3) [OF i] d(5) [OF i] by (auto simp: slot_ok_def free_slot_def)
    then show "slot_ok n (reparent ini me ps ! i)" using r [OF i, THEN pkeyD(8)] by simp
    show "live_at (reparent ini me ps) (parent (reparent ini me ps ! i))"
      using pd(3) [OF i] l [OF d(5) [OF i]] l [OF d(6)] by auto
    fix j assume "j < length (reparent ini me ps)" "pid (reparent ini me ps ! i) = pid (reparent ini me ps ! j)"
      "pid (reparent ini me ps ! i) \<noteq> 0"
    then show "i = j" using d(4) [OF i, of j] pd(1) i len by simp
  qed (use d(1,2) len l [OF d(6)] in auto)
qed

lemma zombie_ok:
  assumes "ptable_ok ps n (Some ini)" "me < length ps" "me \<noteq> ini" "\<And>i. i < length ps \<Longrightarrow> parent (ps ! i) \<noteq> Some me"
    and f: "\<And>p. pkey (f p) = (False, True, pid p, parent p, trapframe p = 0, pagetable p = 0)" "state (ps ! me) \<noteq> UNUSED"
  shows "ptable_ok (ps[me := f (ps ! me)]) n (Some ini)"
proof -
  note d = ptable_okD [OF assms(1)]
  have g: "state (f p) = ZOMBIE" "parent (f p) = parent p" "pid (f p) = pid p" "trapframe (f p) = 0 \<longleftrightarrow> trapframe p = 0" "pagetable (f p) = 0 \<longleftrightarrow> pagetable p = 0" for p
    using f(1) [of p] by (auto simp: pkey_def)
  have l: "live_at (ps[me := f (ps ! me)]) q" if "live_at ps q" "q \<noteq> Some me" for q
    using that by (cases q) (auto simp: live_at_def nth_list_update)
  show ?thesis
  proof (rule ptable_okI)
    fix i assume "i < length (ps[me := f (ps ! me)])"
    then have i: "i < length ps" by simp
    show "slot_ok n (ps[me := f (ps ! me)] ! i)"
      using d(3) [OF i] g f(2) assms(2) by (cases "i = me") (auto simp: slot_ok_def)
    show "live_at (ps[me := f (ps ! me)]) (parent (ps[me := f (ps ! me)] ! i))"
      using l [OF d(5) [OF i]] assms(2) assms(4) [OF i] g i by (cases "i = me") auto
    fix j assume "j < length (ps[me := f (ps ! me)])" "pid (ps[me := f (ps ! me)] ! i) = pid (ps[me := f (ps ! me)] ! j)"
      "pid (ps[me := f (ps ! me)] ! i) \<noteq> 0"
    then show "i = j" using d(4) [OF i, of j] g i by (cases "i = me"; cases "j = me") auto
  qed (use d(1,2) l [OF d(6)] assms(3) in auto)
qed

lemma exit_effect:
  assumes "exit k me status s = Ok s'"
  shows "\<exists>ini t ch u v. initproc s = Some ini \<and> ini \<noteq> me \<and> same_table s t \<and>
    exit_files k me [0..<NOFILE] s = Ok u \<and> fs.more v = fs.more u \<and> t = upd_proc me (\<lambda>p. p\<lparr>cwd := None\<rparr>) v \<and>
    s' = upd_proc me (\<lambda>p. p\<lparr>xstate := status, state := ZOMBIE, etime := kticks t\<rparr>)
      (t\<lparr>procs := wakeup (Some me) ch (reparent ini me (procs t))\<rparr>) \<and>
    ch = (case parent (reparent ini me (procs t) ! me) of None \<Rightarrow> NoChan | Some j \<Rightarrow> ChProc j)"
proof -
  obtain t1 t2 where e1: "exit_files k me [0..<NOFILE] s = Ok t1" "begin_op t1 = Ok t2" "initproc s \<noteq> Some me"
    using assms by (auto simp: exit_def split: if_splits)
  obtain ip ini where c: "cwd (procs t2 ! me) = Some ip" "initproc t2 = Some ini"
    using assms e1 by (cases "cwd (procs t2 ! me)"; cases "initproc t2") (auto simp: exit_def)
  obtain t3 t4 where e2: "iput ip t2 = Ok t3" "end_op t3 = Ok t4" and
    s': "s' = (let s = upd_proc me (\<lambda>p. p\<lparr>cwd := None\<rparr>) t4;
                    s = s\<lparr>procs := reparent ini me (procs s)\<rparr>;
                    s = s\<lparr>procs := wakeup (Some me)
                          (case parent (procs s ! me) of None \<Rightarrow> NoChan | Some j \<Rightarrow> ChProc j) (procs s)\<rparr>
                in upd_proc me (\<lambda>p. p\<lparr>xstate := status, state := ZOMBIE, etime := kticks s\<rparr>) s)"
    using assms e1 c by (auto simp: exit_def Let_def simp del: upd_proc_simps)
  note e = e1(1,2) c(2) e2 e1(3)
  define t where "t = upd_proc me (\<lambda>p. p\<lparr>cwd := None\<rparr>) t4"
  have "same_table t4 t" unfolding t_def by (rule same_table_upd) (simp add: pkey_def)
  then have t: "same_table s t"
    using exit_files_table [OF e(1)] same_table_more [OF fs_level(4) [OF e(2)]] same_table_more [OF iput_frame [OF e(4)]]
      same_table_more [OF fs_level(5) [OF e(5)]] by (blast intro: same_table_trans)
  have "initproc t2 = initproc s"
    using exit_files_table [OF e(1)] more_kern(3) [OF fs_level(4) [OF e(2)]] by (simp add: same_table_def)
  then have "initproc s = Some ini" "ini \<noteq> me" using e(3,6) by auto
  moreover have "fs.more t4 = fs.more t1" using fs_level(4) [OF e(2)] iput_frame [OF e(4)] fs_level(5) [OF e(5)] by simp
  ultimately show ?thesis
    using t s' e(1) by (intro exI [of _ ini] exI [of _ t] exI [of _ t1] exI [of _ t4] exI) (simp add: Let_def t_def [symmetric] del: upd_proc_simps, simp add: t_def)
qed

lemma exit_ok:
  assumes "exit k me status s = Ok s'" "table_ok s" "me < length (procs s)" "live (procs s ! me)"
  shows "table_ok s'"
proof -
  obtain ini t ch where e: "initproc s = Some ini" "ini \<noteq> me" "same_table s t" and
    s': "s' = upd_proc me (\<lambda>p. p\<lparr>xstate := status, state := ZOMBIE, etime := kticks t\<rparr>)
      (t\<lparr>procs := wakeup (Some me) ch (reparent ini me (procs t))\<rparr>)"
    using exit_effect [OF assms(1)] by auto
  let ?r = "reparent ini me (procs t)"
  have t: "ptable_ok (procs t) (nextpid t) (Some ini)" "initproc t = Some ini"
    using same_table_ok [OF assms(2) e(3)] e(1,3) by (simp_all add: same_table_def)
  have me: "me < length (procs t)" using same_table_len [OF e(3)] assms(3) by simp
  note r = reparent_ok [OF t(1) e(2)]
  have len: "length ?r = length (procs t)" using nth_reparent(1) [OF e(2) me] .
  have "pkey (?r ! me) = pkey (if parent (procs t ! me) = Some me then (procs t ! me)\<lparr>parent := Some ini\<rparr> else procs t ! me)"
    using nth_reparent(2) [OF e(2) me] .
  then have st: "state (?r ! me) \<noteq> UNUSED"
    using same_table_nth [OF e(3) assms(3)] assms(4) by (auto dest!: pkeyD(1) simp: live_def split: if_splits)
  have w: "map pkey (wakeup (Some me) ch ?r) = map pkey ?r" by simp
  have wn: "pkey (wakeup (Some me) ch ?r ! i) = pkey (?r ! i)" if "i < length ?r" for i using that by (simp add: nth_wakeup)
  have "ptable_ok ((wakeup (Some me) ch ?r)[me := (wakeup (Some me) ch ?r ! me)\<lparr>xstate := status, state := ZOMBIE, etime := kticks t\<rparr>])
      (nextpid t) (Some ini)"
  proof (rule zombie_ok [of _ _ _ _ "\<lambda>p. p\<lparr>xstate := status, state := ZOMBIE, etime := kticks t\<rparr>"])
    show "ptable_ok (wakeup (Some me) ch ?r) (nextpid t) (Some ini)" by (rule ptable_ok_key [OF w r(1)])
    show "parent (wakeup (Some me) ch ?r ! i) \<noteq> Some me" if "i < length (wakeup (Some me) ch ?r)" for i
      using wn [THEN pkeyD(4), of i] r(2) [of i] that len by simp
    show "state (wakeup (Some me) ch ?r ! me) \<noteq> UNUSED" using wn [THEN pkeyD(1), of me] st me len by simp
  qed (use me len e(2) in \<open>simp_all add: pkey_def\<close>)
  then show ?thesis using t(2) by (simp add: s')
qed

lemma wait_child_ok:
  assumes "wait_child k me addr i s = Some (Ok (r, s'))" "table_run me s" "i < length (procs s)" "state (procs s ! i) = ZOMBIE"
  shows "table_run me s'"
proof -
  define t where "t = s\<lparr>mem := store_le 4 (mem s) (k_xstate k i) (xstate (procs s ! i))\<rparr>"
  obtain q u where c: "(if addr \<noteq> 0 then copyout (pagetable (procs t ! me)) addr (k_xstate k i) 4 t else (0, t)) = (q, u)" by fastforce
  have "same_table t u" using c by (auto split: if_splits dest!: copyout_frame intro: same_table_more more_up(1))
  then have u: "same_table s u" by (simp add: t_def same_table_def)
  note ok = same_table_run [OF assms(2) u]
  have w: "wait_child k me addr i s =
      (if q < 0 then Some (Ok (WRet (-1), u)) else bindN (freeproc k i u) (\<lambda>s'. Some (Ok (WRet (pid (procs s ! i)), s'))))"
    unfolding wait_child_def Let_def t_def [symmetric] c by simp
  show ?thesis
  proof (cases "q < 0")
    case True
    then show ?thesis using assms(1) w ok by simp
  next
    case False
    then obtain v where v: "freeproc k i u = Some (Ok v)" "s' = v"
      using assms(1) w by auto
    have n: "\<not> live (procs u ! i)" using same_table_nth [OF u assms(3), THEN pkeyD(7)] assms(4) by (simp add: live_def)
    have i: "i < length (procs u)" using same_table_len [OF u] assms(3) by simp
    have o: "table_ok u" "me < length (procs u)" "live (procs u ! me)" using ok by (simp_all add: table_run_def)
    then have "me \<noteq> i" using n by auto
    then show ?thesis
      using freeproc_ok [OF v(1) o(1) i n] freeproc_effect [OF v(1) i] o v(2) by (auto simp: table_run_def)
  qed
qed

text \<open>A running process may change its own state to a live one.\<close>

lemma live_table: "live (procs s ! i) \<Longrightarrow> pkey (f (procs s ! i)) = pkey (procs s ! i) \<Longrightarrow> same_table s (upd_proc i f s)"
proof (cases "i < length (procs s)")
  case True
  assume "pkey (f (procs s ! i)) = pkey (procs s ! i)"
  then have "map pkey ((procs s)[i := f (procs s ! i)]) = (map pkey (procs s))[i := map pkey (procs s) ! i]"
    using True by (simp add: map_update)
  then show ?thesis by (simp add: same_table_def)
qed (simp add: same_table_def list_update_beyond)

lemma sleep_table: "me < length (procs s) \<Longrightarrow> live (procs s ! me) \<Longrightarrow> same_table s (upd_proc me (sleep_on ch) s)"
  by (rule live_table) (auto simp: sleep_on_def pkey_def live_def)

lemma wait_idle_ok:
  assumes "wait_idle me s = (r, s')" "table_run me s"
  shows "table_run me s'"
proof -
  have "same_table s (upd_proc me (sleep_on ch) s)" for ch
    by (rule sleep_table) (use assms(2) in \<open>simp_all add: table_run_def\<close>)
  then show ?thesis using assms same_table_run [OF assms(2)] by (auto simp: wait_idle_def split: if_splits)
qed

lemma wait_ok:
  assumes "wait k me addr s = Some (Ok (r, s'))" "table_run me s"
  shows "table_run me s'"
proof (cases "first_idx (is_zombie_of me) (procs s)")
  case None
  then have "wait_idle me s = (r, s')" using assms(1) by (simp add: wait_def)
  then show ?thesis by (rule wait_idle_ok [OF _ assms(2)])
next
  case (Some i)
  then have "wait_child k me addr i s = Some (Ok (r, s'))" using assms(1) by (simp add: wait_def)
  then show ?thesis by (rule wait_child_ok [OF _ assms(2)]) (use Some in \<open>simp_all add: first_idx_Some is_zombie_of_def\<close>)
qed

lemma waitx_ok:
  assumes "waitx k me addr s = Some (Ok (r, tm, s'))" "table_run me s"
  shows "table_run me s'"
proof (cases "first_idx (is_zombie_of me) (procs s)")
  case None
  then have "wait_idle me s = (r, s')" using assms(1) by (auto simp: waitx_def split: prod.splits)
  then show ?thesis by (rule wait_idle_ok [OF _ assms(2)])
next
  case (Some i)
  then have "wait_child k me addr i s = Some (Ok (r, s'))" using assms(1) by (auto simp: waitx_def Let_def)
  then show ?thesis by (rule wait_child_ok [OF _ assms(2)]) (use Some in \<open>simp_all add: first_idx_Some is_zombie_of_def\<close>)
qed

lemma growproc_table: "growproc k me n s = Ok (r, s') \<Longrightarrow> same_table s s'"
proof -
  assume g: "growproc k me n s = Ok (r, s')"
  have u: "same_table t (upd_proc me (\<lambda>p. p\<lparr>sz := z\<rparr>) t)" for t :: "'a kern_scheme" and z
    by (rule same_table_upd) (simp add: pkey_def)
  have a: "same_table s t" "same_table s (upd_proc me (\<lambda>p. p\<lparr>sz := z\<rparr>) t)" if "kmem.more t = kmem.more s" for t z
    using u same_table_more [OF more_up(1) [OF that]] by (blast intro: same_table_trans)+
  show ?thesis
    using g u by (auto simp: growproc_def Let_def split: if_splits dest!: uvmalloc_frame uvmdealloc_frame intro: a)
qed

lemma kill_table: "kill pd (procs s) = (r, ps) \<Longrightarrow> same_table s (s\<lparr>procs := ps\<rparr>)"
proof -
  have "pkey (let p = p\<lparr>killed := True\<rparr> in if state p = SLEEPING then p\<lparr>state := RUNNABLE\<rparr> else p) = pkey p" for p
    by (simp add: Let_def pkey_def)
  note u = same_table_upd [OF this, of s, unfolded upd_proc_def]
  assume "kill pd (procs s) = (r, ps)"
  then consider "ps = procs s" | i where "ps = (procs s)[i := (let p = (procs s ! i)\<lparr>killed := True\<rparr> in if state p = SLEEPING then p\<lparr>state := RUNNABLE\<rparr> else p)]"
    by (auto simp: kill_def Let_def split: option.splits)
  then show ?thesis by cases (use u in simp_all)
qed

end
