(* ===== verification/KernelInv.thy ===== *)
theory KernelInv
  imports Trap ProcInv
begin

text \<open>
  Invariants of the whole kernel. The locale \<open>kernel_inv\<close> states what a predicate on kernel states has
  to satisfy: it does not depend on what the memory and file-system layers own, and the operations
  on processes and on descriptors keep it. From this it follows that every system call, the
  dispatcher and the trap handlers keep it. \<open>J\<close> is the predicate while the process \<open>me\<close> runs, \<open>K\<close>
  what is left when it has exited.
\<close>

section \<open>Outcomes that keep a predicate\<close>

definition safeR :: "('a \<Rightarrow> bool) \<Rightarrow> 'a result \<Rightarrow> bool" where
  "safeR Q m \<longleftrightarrow> (\<forall>x. m = Ok x \<longrightarrow> Q x)"

definition safeN :: "('a \<Rightarrow> bool) \<Rightarrow> 'a result option \<Rightarrow> bool" where
  "safeN Q m \<longleftrightarrow> (\<forall>x. m = Some (Ok x) \<longrightarrow> Q x)"

lemma safe_simps [simp]:
  "safeR Q (Ok x) = Q x" "safeR Q (Panic msg)" "safeR Q Blocked" "safeR Q Undef"
  "safeN Q None" "safeN Q (Some m) = safeR Q m"
  by (simp_all add: safeR_def safeN_def)

lemma safeR_bind: "safeR P m \<Longrightarrow> (\<And>x. P x \<Longrightarrow> safeR Q (f x)) \<Longrightarrow> safeR Q (bindR m f)"
  by (auto simp: safeR_def)

lemma safeN_bind: "safeN P m \<Longrightarrow> (\<And>x. P x \<Longrightarrow> safeN Q (f x)) \<Longrightarrow> safeN Q (bindN m f)"
  by (auto simp: safeN_def)

lemma safe_mono: "safeR P m \<Longrightarrow> (\<And>x. P x \<Longrightarrow> Q x) \<Longrightarrow> safeR Q m"
  by (auto simp: safeR_def)

section \<open>Memory-layer frames of the pipe and string functions\<close>

lemma piperead_copy_frame: "piperead_copy pt chp addr n i pi s = (r, pi', s') \<Longrightarrow> kmem.more s' = kmem.more s"
proof (induction pt chp addr n i pi s rule: piperead_copy.induct)
  case (1 pt chp addr n i pi s)
  obtain ch qi where g: "pipe_get pi = (ch, qi)" by fastforce
  obtain q t where c: "copyout pt (addr + of_int i) chp 1 (s\<lparr>mem := (mem s)(chp := ch)\<rparr>) = (q, t)" by fastforce
  show ?case
    using "1.prems" "1.IH" [OF _ _ g [symmetric] refl refl c [symmetric] refl] copyout_frame [OF c]
    by (subst (asm) piperead_copy.simps) (auto simp: Let_def g c split: if_splits)
qed

lemma pipewrite_loop_frame: "pipewrite_loop pt chp kd addr n i pi s = (r, chs, pi', s') \<Longrightarrow> kmem.more s' = kmem.more s"
proof (induction pt chp kd addr n i pi s rule: pipewrite_loop.induct)
  case (1 pt chp kd addr n i pi s)
  obtain q t where c: "copyin pt chp (addr + of_int i) 1 s = (q, t)" by fastforce
  show ?case
    using "1.prems" "1.IH" [OF _ _ _ c [symmetric] refl] copyin_frame [OF c]
    by (subst (asm) pipewrite_loop.simps) (auto simp: Let_def c split: if_splits)
qed

lemma piperead_tbl: "piperead pt chp kd addr n pi s = (r, chs, pi', s') \<Longrightarrow> kmem.more s' = kmem.more s"
  by (auto simp: piperead_def split: if_splits prod.splits dest: piperead_copy_frame)

lemma pipewrite_tbl: "pipewrite pt chp kd addr n pi s = (r, chs, pi', s') \<Longrightarrow> kmem.more s' = kmem.more s"
  by (simp add: pipewrite_def pipewrite_loop_frame)

lemma copyinstr_frame: "copyinstr pt dst srcva mx s = (r, s') \<Longrightarrow> kmem.more s' = kmem.more s"
proof (induction pt dst srcva mx s rule: copyinstr.induct)
  case (1 pt dst srcva mx s)
  obtain g j m where c: "copyinstr_chunk (mem s) dst (walkaddr pt (PGROUNDDOWN srcva) s + (srcva - PGROUNDDOWN srcva)) (unat (page_chunk srcva mx)) = (g, j, m)"
    by (rule prod_cases3)
  show ?case
    using "1.prems" "1.IH" [OF _ refl refl _ refl c [symmetric] refl refl]
    by (subst (asm) copyinstr.simps) (auto simp: Let_def c split: if_splits)
qed

lemma fetchaddr_frame: "fetchaddr me addr ip s = (r, s') \<Longrightarrow> kmem.more s' = kmem.more s"
  by (auto simp: fetchaddr_def Let_def split: if_splits prod.splits dest: copyin_frame)

lemma loadseg_frame: "loadseg_loop k pt va ip offset len i s = Some r \<Longrightarrow> \<forall>q s'. r = Ok (q, s') \<longrightarrow> fs.more s' = fs.more s"
proof (rule loadseg_loop.raw_induct [where P = "\<lambda>k pt va ip offset len i s r. \<forall>q s'. r = Ok (q, s') \<longrightarrow> fs.more s' = fs.more s"], goal_cases)
  case (1 lo k pt va ip offset len i s r)
  have sub: "fs.more t = fs.more u" if "lo a b c d e f g u = Some (Ok (q, t))" for a b c d e f g u q t using 1(2) [OF that] by simp
  show ?case using 1(3) by (auto simp: Let_def split: if_splits result.splits dest!: sub readi_frame)
qed

lemma isdirempty_loop_frame: "isdirempty_loop pt da dp off s = Ok (r, s') \<Longrightarrow> fs.more s' = fs.more s"
proof (induction pt da dp off s rule: isdirempty_loop.induct)
  case (1 pt da dp off s)
  show ?case
  proof (cases "off < unat (i_size (itable s ! dp))")
    case True
    obtain q de t where r: "readi pt da dp (KernelDst 0) (of_nat off) 16 s = Ok (q, de, t)"
      using "1.prems" True by (subst (asm) isdirempty_loop.simps) auto
    show ?thesis
      using "1.prems" "1.IH" [OF True r refl refl] True readi_frame [OF r]
      by (subst (asm) isdirempty_loop.simps) (auto simp: r split: if_splits)
  qed (use "1.prems" in \<open>simp add: isdirempty_loop.simps\<close>)
qed

section \<open>The interface\<close>

definition quiet :: "('z kern_scheme \<Rightarrow> bool) \<Rightarrow> (nat \<Rightarrow> 'z kern_ext devfun option) \<Rightarrow> bool" where
  "quiet J dvs \<longleftrightarrow> (\<forall>d f addr n s. dvs d = Some f \<and> J s \<longrightarrow> safeR (\<lambda>(out, w, s). J s) (f addr n s))"

definition quiet_irq :: "('z kern_scheme \<Rightarrow> bool) \<Rightarrow> 'z kern_scheme devices \<Rightarrow> bool" where
  "quiet_irq J dv \<longleftrightarrow> (\<forall>s. J s \<longrightarrow> safeR J (uart_intr dv s) \<and> safeR J (disk_intr dv s) \<and> (\<forall>irq. J (irq_complete dv irq s)))"

text \<open>What holds after a system call or a trap, by how it ended.\<close>

definition sys_after :: "('s \<Rightarrow> bool) \<Rightarrow> ('s \<Rightarrow> bool) \<Rightarrow> sys_out \<Rightarrow> 's \<Rightarrow> bool" where
  "sys_after J K out s = (if out = SGone then K s else J s)"

definition trap_after :: "('s \<Rightarrow> bool) \<Rightarrow> ('s \<Rightarrow> bool) \<Rightarrow> trap_out \<Rightarrow> 's \<Rightarrow> bool" where
  "trap_after J K out s = (if out = TGone then K s else J s)"

lemma after_simps [simp]:
  "sys_after J K (SRet v) s = J s" "sys_after J K SSleep s = J s" "sys_after J K SGone s = K s"
  "trap_after J K (TUser a) s = J s" "trap_after J K TYield s = J s" "trap_after J K TSleep s = J s" "trap_after J K TGone s = K s"
  by (simp_all add: sys_after_def trap_after_def)

locale kernel_inv =
  fixes J :: "'z kern_scheme \<Rightarrow> bool" and K :: "'z kern_scheme \<Rightarrow> bool" and k :: layout and pbs :: bool and me :: nat
  assumes more: "fs.more s' = fs.more s \<Longrightarrow> J s \<Longrightarrow> J s'"
    and J_K: "J s \<Longrightarrow> K s"
    and set_cwd: "J s \<Longrightarrow> J (upd_proc me (cwd_update c) s)"
    and set_trace: "J s \<Longrightarrow> J (upd_proc me (trace_mask_update tm) s)"
    and set_size: "J s \<Longrightarrow> J (upd_proc me (sz_update z) s)"
    and set_image: "J s \<Longrightarrow> pt \<noteq> 0 \<Longrightarrow> J (upd_proc me (\<lambda>p. p\<lparr>pname := nm, pagetable := pt, sz := z'\<rparr>) s)"
    and go_sleep: "J s \<Longrightarrow> J (upd_proc me (sleep_on ch) s)"
    and go_yield: "J s \<Longrightarrow> J (upd_proc me yield s)"
    and do_wakeup: "J s \<Longrightarrow> J (s\<lparr>procs := wakeup q ch (procs s)\<rparr>)"
    and do_kill: "J s \<Longrightarrow> J (s\<lparr>procs := snd (kill pd (procs s))\<rparr>)"
    and do_setkilled: "J s \<Longrightarrow> J (s\<lparr>procs := setkilled me (procs s)\<rparr>)"
    and do_priority: "J s \<Longrightarrow> J (s\<lparr>procs := snd (set_priority pr pd (procs s))\<rparr>)"
    and do_tick: "J s \<Longrightarrow> J (s\<lparr>kticks := tk, procs := time_updates (procs s)\<rparr>)"
    and set_pipes: "J s \<Longrightarrow> J (s\<lparr>pipes := q'\<rparr>)"
    and set_off: "J s \<Longrightarrow> J (upd_file f (\<lambda>x. x\<lparr>f_off := g x\<rparr>) s)"
    and dup_J: "J s \<Longrightarrow> safeR (\<lambda>(r, s). J s) (sys_dup me s)"
    and close_J: "J s \<Longrightarrow> safeR (\<lambda>(r, s). J s) (sys_close k me s)"
    and pipe_J: "J s \<Longrightarrow> safeR (\<lambda>(r, s). J s) (sys_pipe k me s)"
    and open_file_J: "J s \<Longrightarrow> filealloc s = (Some f, t) \<Longrightarrow> fdalloc me f t = (Some fd, u) \<Longrightarrow> J (open_file f omode ip u)"
    and open_fail_J: "J s \<Longrightarrow> filealloc s = (Some f, t) \<Longrightarrow> fdalloc me f t = (None, u) \<Longrightarrow> safeR J (fclose k me f u)"
    and fork_J: "J s \<Longrightarrow> safeN (\<lambda>(r, s). J s) (fork k pbs me s)"
    and wait_J: "J s \<Longrightarrow> safeN (\<lambda>(r, s). J s) (wait k me addr s)"
    and waitx_J: "J s \<Longrightarrow> safeN (\<lambda>(r, x, s). J s) (waitx k me addr s)"
    and exit_K: "J s \<Longrightarrow> safeR K (exit k me status s)"
begin

text \<open>Sequencing, one rule per shape of the intermediate result.\<close>

lemma seqS: "safeR J m \<Longrightarrow> (\<And>t. J t \<Longrightarrow> safeR Q (f t)) \<Longrightarrow> safeR Q (bindR m f)"
  by (rule safeR_bind)

lemma seqA: "safeR (\<lambda>(r, s). J s) m \<Longrightarrow> (\<And>r t. J t \<Longrightarrow> safeR Q (f (r, t))) \<Longrightarrow> safeR Q (bindR m f)"
  by (erule safeR_bind) auto

lemma seqC: "safeR (\<lambda>(r, b, s). J s) m \<Longrightarrow> (\<And>r b t. J t \<Longrightarrow> safeR Q (f (r, b, t))) \<Longrightarrow> safeR Q (bindR m f)"
  by (erule safeR_bind) auto

lemma seqV: "(\<And>x. safeR Q (f x)) \<Longrightarrow> safeR Q (bindR m f)" for f :: "'b word \<Rightarrow> 'c result"
  by (rule safeR_bind [of "\<lambda>_. True"]) (auto simp: safeR_def)

lemma seqO: "(\<And>x. safeR Q (f x)) \<Longrightarrow> safeR Q (bindR m f)" for f :: "(nat \<times> nat) option \<Rightarrow> 'c result"
  by (rule safeR_bind [of "\<lambda>_. True"]) (auto simp: safeR_def)

lemma seqI: "(\<And>x. safeR Q (f x)) \<Longrightarrow> safeR Q (bindR m f)" for f :: "nat \<Rightarrow> 'c result"
  by (rule safeR_bind [of "\<lambda>_. True"]) (auto simp: safeR_def)

lemma caseP: "(\<And>a b. p = (a, b) \<Longrightarrow> safeR Q (f a b)) \<Longrightarrow> safeR Q (case p of (a, b) \<Rightarrow> f a b)"
  by (cases p) simp

lemma caseO: "safeR Q x \<Longrightarrow> (\<And>a. r = Some a \<Longrightarrow> safeR Q (f a)) \<Longrightarrow> safeR Q (case r of None \<Rightarrow> x | Some a \<Rightarrow> f a)"
  by (cases r) simp_all

lemma caseI: "(b \<Longrightarrow> safeR Q x) \<Longrightarrow> (\<not> b \<Longrightarrow> safeR Q y) \<Longrightarrow> safeR Q (if b then x else y)"
  by simp

lemma okS: "J s \<Longrightarrow> safeR J (Ok s)"
  by simp

lemma okA: "J s \<Longrightarrow> safeR (\<lambda>(r, s). J s) (Ok (r, s))"
  by simp

lemma okC: "J s \<Longrightarrow> safeR (\<lambda>(r, b, s). J s) (Ok (r, b, s))"
  by simp

lemmas seqs = seqS seqA seqC seqV seqO seqI caseO caseI okS okA okC safe_simps(2,3,4)

text \<open>The layers below.\<close>

lemma fs_J:
  "J s \<Longrightarrow> safeR J (begin_op s)" "J s \<Longrightarrow> safeR J (end_op s)" "J s \<Longrightarrow> safeR J (iput ip s)" "J s \<Longrightarrow> safeR J (ilock ip s)"
  "J s \<Longrightarrow> safeR J (iunlock ip s)" "J s \<Longrightarrow> safeR J (iunlockput ip s)" "J s \<Longrightarrow> safeR J (itrunc ip s)"
  "J s \<Longrightarrow> safeR J (upd_update ip g s)"
  "J s \<Longrightarrow> safeR (\<lambda>(r, s). J s) (iget d inum s)" "J s \<Longrightarrow> safeR (\<lambda>(r, s). J s) (ialloc d ty s)"
  "J s \<Longrightarrow> safeR (\<lambda>(r, b, s). J s) (readi pt da ip dst off n s)"
  "J s \<Longrightarrow> safeR (\<lambda>(r, s). J s) (writei pt da ip src off n s)"
  "J s \<Longrightarrow> safeR (\<lambda>(r, s). J s) (dirlookup pt da ip nm s)" "J s \<Longrightarrow> safeR (\<lambda>(r, s). J s) (dirlink pt da ip nm inum s)"
  "J s \<Longrightarrow> safeR (\<lambda>(r, s). J s) (namei pt da ip path s)" "J s \<Longrightarrow> safeR (\<lambda>(r, s). J s) (namei_of k me path s)" "J s \<Longrightarrow> safeR (\<lambda>(r, b, s). J s) (nameiparent_of k me path s)"
  by (auto simp: safeR_def upd_update_def ialloc_def namei_of_def nameiparent_of_def
      dest!: fs_level iput_frame ilock_frame iunlock_frame iunlockput_frame itrunc_frame iupdate_frame iget_frame ialloc_loop_frame
        readi_frame writei_frame dirlookup_frame dirlink_frame namei_frame nameiparent_frame intro: more)

lemma kmem_J: "J s \<Longrightarrow> kmem.more s' = kmem.more s \<Longrightarrow> J s'"
  by (rule more [OF more_up(1)])

lemma mem_J: "J s \<Longrightarrow> J (s\<lparr>mem := m\<rparr>)"
  by (rule kmem_J) simp_all

lemma copy_J: "J s \<Longrightarrow> copyout pt a b n s = (r, s') \<Longrightarrow> J s'" "J s \<Longrightarrow> kalloc s = (a', s') \<Longrightarrow> J s'"
  "J s \<Longrightarrow> fetchaddr me a b s = (r, s') \<Longrightarrow> J s'"
  by (auto elim!: kmem_J dest: copyout_frame kalloc_frame fetchaddr_frame)

lemma argstr_J: "J s \<Longrightarrow> safeR (\<lambda>(r, s). J s) (fetchstr me a b mx s)" "J s \<Longrightarrow> safeR (\<lambda>(r, s). J s) (argstr me n b mx s)"
proof -
  show f: "safeR (\<lambda>(r, s). J s) (fetchstr me a b mx s)" if "J s" for a b mx s
    using that by (auto simp: fetchstr_def safeR_def split: prod.splits if_splits option.splits dest!: copyinstr_frame elim!: kmem_J)
  show "J s \<Longrightarrow> safeR (\<lambda>(r, s). J s) (argstr me n b mx s)" unfolding argstr_def by (intro seqV f)
qed

lemma end_ret_J: "J s \<Longrightarrow> safeR (\<lambda>(r, s). J s) (end_ret v s)"
  unfolding end_ret_def by (intro seqs fs_J)

lemma caseK:
  "J s \<Longrightarrow> (\<And>r t. J t \<Longrightarrow> safeR Q (f r t)) \<Longrightarrow> safeR Q (case copyout pt a b n s of (r, t) \<Rightarrow> f r t)"
  "J s \<Longrightarrow> (\<And>r t. J t \<Longrightarrow> safeR Q (g r t)) \<Longrightarrow> safeR Q (case kalloc s of (r, t) \<Rightarrow> g r t)"
  "J s \<Longrightarrow> (\<And>r t. J t \<Longrightarrow> safeR Q (f r t)) \<Longrightarrow> safeR Q (case fetchaddr me a b s of (r, t) \<Rightarrow> f r t)"
  by (auto split: prod.splits dest: copy_J)

lemma ite_J: "(b \<Longrightarrow> J s) \<Longrightarrow> (\<not> b \<Longrightarrow> J t) \<Longrightarrow> J (if b then s else t)"
  by simp

lemmas layer_J = ite_J fs_J mem_J argstr_J end_ret_J caseK

text \<open>The system calls on files.\<close>

lemma wake_pipes_J: "J s \<Longrightarrow> J (wake_pipes me w s)"
proof -
  assume "J s"
  moreover have "J (s\<lparr>procs := fold (\<lambda>ch. wakeup (Some me) (pipe_chan_at ch)) w (procs s)\<rparr>)" if "J s" for s
    using that
  proof (induction w arbitrary: s)
    case Nil
    then show ?case by simp
  next
    case (Cons ch w)
    show ?case using Cons.IH [OF do_wakeup [OF Cons.prems, of "Some me" "pipe_chan_at ch"]] by simp
  qed
  ultimately show ?thesis by (simp add: wake_pipes_def)
qed

lemma link_bad_J: "J s \<Longrightarrow> safeR (\<lambda>(r, s). J s) (link_bad ip s)"
  unfolding link_bad_def by (intro seqs layer_J)

lemma link_J: "J s \<Longrightarrow> safeR (\<lambda>(r, s). J s) (sys_link k me s)"
  unfolding sys_link_def Let_def by (intro seqs layer_J link_bad_J | assumption | simp only: prod.case)+

lemma unlink_entry_J: "J s \<Longrightarrow> safeR (\<lambda>(r, s). J s) (unlink_entry pt da dp ip off s)"
  unfolding unlink_entry_def by (intro seqs layer_J | assumption | simp only: prod.case safe_simps)+

lemma isdirempty_J: "J s \<Longrightarrow> safeR (\<lambda>(r, s). J s) (isdirempty pt da dp s)"
  by (auto simp: safeR_def isdirempty_def dest!: isdirempty_loop_frame intro: more)

lemma unlink_J: "J s \<Longrightarrow> safeR (\<lambda>(r, s). J s) (sys_unlink k me s)"
  unfolding sys_unlink_def Let_def
  by (intro seqs layer_J isdirempty_J unlink_entry_J | assumption | simp only: prod.case safe_simps | rule caseP)+

lemma create_J: "J s \<Longrightarrow> safeR (\<lambda>(r, s). J s) (create k me path ty mj mn s)"
  unfolding create_def create_new_def create_fail_def Let_def
  by (intro seqs layer_J | assumption | simp only: prod.case | rule caseP)+

lemma mkdir_J: "J s \<Longrightarrow> safeR (\<lambda>(r, s). J s) (sys_mkdir k me s)"
  unfolding sys_mkdir_def by (intro seqs layer_J create_J | assumption | simp only: prod.case)+

lemma mknod_J: "J s \<Longrightarrow> safeR (\<lambda>(r, s). J s) (sys_mknod k me s)"
  unfolding sys_mknod_def by (intro seqs layer_J create_J | assumption | simp only: prod.case)+

lemma chdir_J: "J s \<Longrightarrow> safeR (\<lambda>(r, s). J s) (sys_chdir k me s)"
  unfolding sys_chdir_def by (intro seqs layer_J set_cwd | assumption | simp only: prod.case)+

lemma fstat_J: "J s \<Longrightarrow> safeR (\<lambda>(r, s). J s) (sys_fstat k me s)"
  unfolding sys_fstat_def filestat_def Let_def
  by (intro seqs layer_J | assumption | simp only: prod.case | rule caseP)+

lemma open_inode_J: "J s \<Longrightarrow> safeR (\<lambda>(r, s). J s) (open_inode k me path omode s)"
  unfolding open_inode_def by (intro seqs layer_J create_J | assumption | simp only: prod.case)+

lemma open_tail_J:
  assumes "J s"
  shows "safeR (\<lambda>(r, s). J s)
    (case filealloc s of
       (None, s) \<Rightarrow> bindR (iunlockput ip s) (end_ret (-1))
     | (Some f, s) \<Rightarrow>
         case fdalloc me f s of
           (None, s) \<Rightarrow> bindR (fclose k me f s) (\<lambda>s. bindR (iunlockput ip s) (end_ret (-1)))
         | (Some fd, s) \<Rightarrow>
             bindR (if b then itrunc ip (open_file f omode ip s) else Ok (open_file f omode ip s)) (\<lambda>s.
               bindR (iunlock ip s) (end_ret (int fd))))"
proof -
  obtain r t where a: "filealloc s = (r, t)" by fastforce
  show ?thesis
  proof (cases r)
    case None
    then have "t = s" using a by (auto simp: filealloc_def split: option.splits)
    then show ?thesis unfolding a None using assms by simp (intro seqs layer_J)
  next
    case (Some f)
    obtain q u where d: "fdalloc me f t = (q, u)" by fastforce
    show ?thesis
    proof (cases q)
      case None
      show ?thesis unfolding a Some using d None open_fail_J [OF assms a [unfolded Some] d [unfolded None]]
        by simp (intro seqs layer_J)
    next
      case q: (Some fd)
      have "J (open_file f omode ip u)" by (rule open_file_J [OF assms a [unfolded Some] d [unfolded q]])
      then show ?thesis unfolding a Some using d q by (simp split del: if_split) (intro seqs layer_J)
    qed
  qed
qed

lemma open_J: "J s \<Longrightarrow> safeR (\<lambda>(r, s). J s) (sys_open k me s)"
  unfolding sys_open_def Let_def by (intro seqs layer_J open_inode_J open_tail_J | assumption | simp only: prod.case)+

lemma filewrite_loop_J: "J s \<Longrightarrow> safeR (\<lambda>(r, s). J s) (filewrite_loop k pt f addr n i s)"
proof (induction "nat (n - i)" arbitrary: i s rule: less_induct)
  case less
  have ih: "safeR (\<lambda>(r, s). J s) (filewrite_loop k pt f addr n (i + sint q) t)"
    if "J t" "i < n" "\<not> sint q \<noteq> (if n - i > int write_max then int write_max else n - i)" for q :: uint and t
    using that by (intro less.hyps) (auto simp: write_max_def MAXOPBLOCKS_def BSIZE_def split: if_splits)
  show ?case
    unfolding filewrite_loop.simps [of k pt f addr n i s] Let_def
    by (rule ih | intro seqs layer_J set_off less.prems | assumption | simp only: prod.case)+
qed

lemma quietD: "quiet J dvs \<Longrightarrow> dvs d = Some f \<Longrightarrow> J s \<Longrightarrow> safeR (\<lambda>(out, w, s). J s) (f addr n s)"
  unfolding quiet_def by blast

lemma pipe_io_J:
  "J s \<Longrightarrow> piperead pt chp kd addr n pi s = (a, b, c, t) \<Longrightarrow> J t" "J s \<Longrightarrow> pipewrite pt chp kd addr n pi s = (a, b, c, t) \<Longrightarrow> J t"
  by (auto elim!: kmem_J dest: piperead_tbl pipewrite_tbl)

lemma fileread_J:
  assumes "J s" "quiet J dvs"
  shows "safeR (\<lambda>(out, w, s). J s) (fileread k dvs pt kd f addr n s)"
proof (cases "f_type (ftable s ! f)")
  case FD_PIPE
  then show ?thesis using assms by (auto simp: fileread_def Let_def split: prod.splits dest: pipe_io_J intro: set_pipes)
next
  case FD_DEVICE
  then show ?thesis using assms by (auto simp: fileread_def Let_def split: option.splits dest: quietD)
next
  case FD_INODE
  then show ?thesis
    unfolding fileread_def Let_def FD_INODE fdtype.case
    by (intro seqs layer_J set_off assms | assumption | simp only: prod.case)+
qed (use assms in \<open>simp add: fileread_def Let_def\<close>)

lemma filewrite_J:
  assumes "J s" "quiet J dvs"
  shows "safeR (\<lambda>(out, w, s). J s) (filewrite k dvs pt kd f addr n s)"
proof (cases "f_type (ftable s ! f)")
  case FD_PIPE
  then show ?thesis using assms by (auto simp: filewrite_def Let_def split: prod.splits dest: pipe_io_J intro: set_pipes)
next
  case FD_DEVICE
  then show ?thesis using assms by (auto simp: filewrite_def Let_def split: option.splits dest: quietD)
next
  case FD_INODE
  then show ?thesis
    unfolding filewrite_def Let_def FD_INODE fdtype.case
    by (intro seqs filewrite_loop_J assms | assumption | simp only: prod.case)+
qed (use assms in \<open>simp add: filewrite_def Let_def\<close>)

lemma io_done_J: "J s \<Longrightarrow> io_done me f (out, w, s) = (r, s') \<Longrightarrow> J s'"
  by (auto simp: io_done_def Let_def split: pipe_out.splits if_splits intro: go_sleep wake_pipes_J)

lemma read_J: "J s \<Longrightarrow> quiet J dvs \<Longrightarrow> safeR (\<lambda>(r, s). J s) (sys_read k dvs me s)"
  unfolding sys_read_def
  by (intro seqs fileread_J | assumption | simp only: prod.case | rule caseP)+ (auto dest: io_done_J)

lemma write_J: "J s \<Longrightarrow> quiet J dvs \<Longrightarrow> safeR (\<lambda>(r, s). J s) (sys_write k dvs me s)"
  unfolding sys_write_def
  by (intro seqs filewrite_J | assumption | simp only: prod.case | rule caseP)+ (auto dest: io_done_J)

text \<open>Sequencing of calls that may not return.\<close>

lemma nS: "safeR J m \<Longrightarrow> (\<And>t. J t \<Longrightarrow> safeN Q (f t)) \<Longrightarrow> safeN Q (bindN (Some m) f)"
  by (rule safeN_bind [of J]) auto

lemma nA: "safeR (\<lambda>(r, s). J s) m \<Longrightarrow> (\<And>r t. J t \<Longrightarrow> safeN Q (f (r, t))) \<Longrightarrow> safeN Q (bindN (Some m) f)"
  by (rule safeN_bind [of "\<lambda>(r, s). J s"]) auto

lemma nC: "safeR (\<lambda>(r, b, s). J s) m \<Longrightarrow> (\<And>r b t. J t \<Longrightarrow> safeN Q (f (r, b, t))) \<Longrightarrow> safeN Q (bindN (Some m) f)"
  by (rule safeN_bind [of "\<lambda>(r, b, s). J s"]) auto

lemma nV: "(\<And>x. safeN Q (f x)) \<Longrightarrow> safeN Q (bindN (Some m) f)" for f :: "'b word \<Rightarrow> 'c result option"
  by (rule safeN_bind [of "\<lambda>_. True"]) (auto simp: safeR_def)

lemma nNS: "safeN J m \<Longrightarrow> (\<And>t. J t \<Longrightarrow> safeN Q (f t)) \<Longrightarrow> safeN Q (bindN m f)"
  by (rule safeN_bind)

lemma nNA: "safeN (\<lambda>(r, s). J s) m \<Longrightarrow> (\<And>r t. J t \<Longrightarrow> safeN Q (f (r, t))) \<Longrightarrow> safeN Q (bindN m f)"
  by (erule safeN_bind) auto

lemma nNC: "safeN (\<lambda>(r, b, s). J s) m \<Longrightarrow> (\<And>r b t. J t \<Longrightarrow> safeN Q (f (r, b, t))) \<Longrightarrow> safeN Q (bindN m f)"
  by (erule safeN_bind) auto

lemma nI: "(b \<Longrightarrow> safeN Q x) \<Longrightarrow> (\<not> b \<Longrightarrow> safeN Q y) \<Longrightarrow> safeN Q (if b then x else y)"
  by simp

lemma nO: "safeN Q x \<Longrightarrow> (\<And>a. safeN Q (f a)) \<Longrightarrow> safeN Q (case r of None \<Rightarrow> x | Some a \<Rightarrow> f a)"
  by (cases r) simp_all

lemma nP: "(\<And>a b. p = (a, b) \<Longrightarrow> safeN Q (f a b)) \<Longrightarrow> safeN Q (case p of (a, b) \<Rightarrow> f a b)"
  by (cases p) simp

lemma nW: "safeN Q x \<Longrightarrow> (\<And>v. safeN Q (f v)) \<Longrightarrow> safeN Q (case r of WRet v \<Rightarrow> f v | WSleep \<Rightarrow> x)"
  by (cases r) simp_all

lemma nK: "J s \<Longrightarrow> (\<And>r t. J t \<Longrightarrow> safeN Q (f r t)) \<Longrightarrow> safeN Q (case copyout pt a b n s of (r, t) \<Rightarrow> f r t)"
  by (auto split: prod.splits dest: copy_J)

lemma nokS: "J s \<Longrightarrow> safeN J (Some (Ok s))"
  by simp

lemma nokA: "J s \<Longrightarrow> safeN (\<lambda>(r, s). J s) (Some (Ok (r, s)))"
  by simp

lemma nokC: "J s \<Longrightarrow> safeN (\<lambda>(r, b, s). J s) (Some (Ok (r, b, s)))"
  by simp

lemma nR: "safeR Q m \<Longrightarrow> safeN Q (Some m)"
  by simp

lemmas nseqs = nokS nokA nokC nS nA nC nV nI nO nW nK

text \<open>\<^verbatim>\<open>exec\<close>.\<close>

lemma vm_J:
  "J s \<Longrightarrow> safeN (\<lambda>(r, s). J s) (proc_pagetable k tf s)" "J s \<Longrightarrow> safeN J (proc_freepagetable k pt n s)"
  "J s \<Longrightarrow> safeR (\<lambda>(r, s). J s) (uvmalloc kend pt a b xp s)" "J s \<Longrightarrow> safeR J (uvmclear pt va s)" "J s \<Longrightarrow> safeR J (kfree kend a s)"
  by (auto simp: safeN_def safeR_def uvmclear_def split: if_splits
      dest!: proc_pagetable_frame proc_freepagetable_frame uvmalloc_frame kfree_frame walk_frame elim!: kmem_J)

lemma loadseg_J: "J s \<Longrightarrow> safeN (\<lambda>(r, s). J s) (loadseg k pt a ip off n s)"
  by (auto simp: safeN_def loadseg_def dest!: loadseg_frame intro: more)

lemma exec_load_J: "J s \<Longrightarrow> safeN (\<lambda>(r, b, s). J s) (exec_load k pt ip n off len s)"
proof (induction n arbitrary: off len s)
  case (Suc n)
  show ?case
    unfolding exec_load.simps Let_def
    by (intro nseqs nNA [OF loadseg_J] layer_J vm_J Suc.prems Suc.IH | assumption | simp only: prod.case)+
qed simp

lemma exec_args_J: "J s \<Longrightarrow> safeR (\<lambda>(r, s). J s) (exec_args pt base argv argc sp' us s)"
proof (induction argv arbitrary: argc sp' us s)
  case (Cons a argv)
  show ?case
    unfolding exec_args.simps Let_def
    by (intro seqs layer_J Cons.prems Cons.IH | assumption | simp only: prod.case)+
qed simp

lemma exec_bad_J: "J s \<Longrightarrow> safeN (\<lambda>(r, s). J s) (exec_bad k pt len ipo s)"
  unfolding exec_bad_def by (intro nNS [of "if _ then _ else _"] nseqs layer_J vm_J | assumption)+

lemma exec_commit_J: "J s \<Longrightarrow> pt \<noteq> 0 \<Longrightarrow> safeN (\<lambda>(r, s). J s) (exec_commit k me path pt len sp' entry argc s)"
  unfolding exec_commit_def Let_def by (intro nNS [OF vm_J(2)] nseqs layer_J set_image | assumption)+

lemma exec_image_J: "J s \<Longrightarrow> pt \<noteq> 0 \<Longrightarrow> safeN (\<lambda>(r, s). J s) (exec_image k me path argv entry pt len s)"
  unfolding exec_image_def Let_def
  by (intro exec_bad_J exec_commit_J exec_args_J nseqs layer_J vm_J | assumption | simp only: prod.case | rule nP | simp)+

lemma nUndef: "safeN Q (Some Undef)"
  by simp

lemma exec_J: "J s \<Longrightarrow> safeN (\<lambda>(r, s). J s) (exec k me path argv s)"
  unfolding exec_def Let_def
  by (intro exec_bad_J exec_image_J nNA [OF vm_J(1)] nNC [OF exec_load_J] nUndef nseqs layer_J | assumption | simp only: prod.case)+

lemma exec_fetch_J: "J s \<Longrightarrow> safeR (\<lambda>(r, b, s). J s) (exec_fetch k me uargv n argv s)"
proof (induction n arbitrary: uargv argv s)
  case (Suc n)
  show ?case
    unfolding exec_fetch.simps Let_def
    by (intro seqs layer_J Suc.prems Suc.IH | assumption | simp only: prod.case)+
qed simp

lemma kfree_all_J: "J s \<Longrightarrow> safeR J (kfree_all kend as s)"
proof (induction "as" arbitrary: s)
  case (Cons a "as")
  show ?case unfolding kfree_all.simps by (intro seqs vm_J Cons)
qed simp

lemma sys_exec_J: "J s \<Longrightarrow> safeN (\<lambda>(r, s). J s) (sys_exec k me s)"
  unfolding sys_exec_def Let_def
  by (intro exec_fetch_J kfree_all_J nNA [OF exec_J] nseqs layer_J | assumption | simp only: prod.case)+

text \<open>The system calls on processes.\<close>

lemma growproc_J: "J s \<Longrightarrow> safeR (\<lambda>(r, s). J s) (growproc k me n s)"
proof -
  have d: "safeR (\<lambda>(r, s). J s) (uvmdealloc kend pt a b s)" if "J s" for kend pt a b s
    using that by (auto simp: safeR_def dest!: uvmdealloc_frame elim!: kmem_J)
  show "J s \<Longrightarrow> ?thesis"
    unfolding growproc_def Let_def by (intro seqs vm_J set_size d | assumption | simp only: prod.case)+
qed

lemma sbrk_J: "J s \<Longrightarrow> safeN (\<lambda>(r, s). J s) (sys_sbrk k me s)"
  unfolding sys_sbrk_def Let_def by (intro nseqs growproc_J | assumption | simp only: prod.case)+

lemma sys_fork_J: "J s \<Longrightarrow> safeN (\<lambda>(r, s). J s) (sys_fork k pbs me s)"
  unfolding sys_fork_def by (intro nNA [OF fork_J] nseqs | assumption | simp only: prod.case)+

lemma sys_wait_J: "J s \<Longrightarrow> safeN (\<lambda>(r, s). J s) (sys_wait k me s)"
  unfolding sys_wait_def by (intro nNA [OF wait_J] nseqs | assumption | simp only: prod.case)+

lemma sys_waitx_J: "J s \<Longrightarrow> safeN (\<lambda>(r, s). J s) (sys_waitx k me s)"
  unfolding sys_waitx_def Let_def
  by (intro nNC [OF waitx_J] nseqs | assumption | simp only: prod.case | auto intro: mem_J split: option.splits)+

lemma sleep_J: "J s \<Longrightarrow> safeN (\<lambda>(r, s). J s) (sys_sleep ticksa me s)"
  unfolding sys_sleep_def by (rule nV) (auto simp: sleep_test_def intro: go_sleep)

lemma sys_kill_J: "J s \<Longrightarrow> safeN (\<lambda>(r, s). J s) (sys_kill me s)"
  unfolding sys_kill_def Let_def by (rule nV) (simp add: split_beta do_kill)

lemma trace_J: "J s \<Longrightarrow> safeN (\<lambda>(r, s). J s) (sys_trace me s)"
  unfolding sys_trace_def by (intro nseqs set_trace)

lemma priority_J: "J s \<Longrightarrow> safeN (\<lambda>(r, s). J s) (sys_set_priority pbs me s)"
  unfolding sys_set_priority_def Let_def by (intro nV) (simp add: split_beta do_priority)

text \<open>The dispatcher and the trap handler: a call that returns or sleeps leaves \<open>J\<close>, \<^verbatim>\<open>exit\<close> leaves \<open>K\<close>.\<close>

lemma afterI: "safeN (\<lambda>(r, s). J s) m \<Longrightarrow> safeN (\<lambda>(out, s). sys_after J K out s) m"
  by (auto simp: safeN_def sys_after_def dest: J_K)

lemma exit_after: "J s \<Longrightarrow> safeN (\<lambda>(out, s). sys_after J K out s) (sys_exit k me s)"
  unfolding sys_exit_def
  by (rule nV, rule safeN_bind [of K]) (auto simp: sys_after_def exit_K)

lemma lift_J: "safeR (\<lambda>(r, s). J s) m \<Longrightarrow> safeN (\<lambda>(r, s). J s) (lift_call m)"
  unfolding lift_call_def by (intro nseqs | assumption | simp only: prod.case)+

lemma handlers_after:
  assumes "quiet J devread" "quiet J devwrite" "J s" "Some h \<in> set (syscalls k pbs devread devwrite ticksa me)"
  shows "safeN (\<lambda>(out, s). sys_after J K out s) (h s)"
proof -
  have r: "safeN (\<lambda>(r, s). J s) (Some (sys_read k devread me s))" "safeN (\<lambda>(r, s). J s) (Some (sys_write k devwrite me s))"
    using read_J write_J assms by simp_all
  have o: "safeN (\<lambda>(r, s). J s) (sys_getpid me s)" "safeN (\<lambda>(r, s). J s) (sys_uptime s)"
    using assms(3) by (simp_all add: sys_getpid_def sys_uptime_def)
  note l = lift_J [OF pipe_J] lift_J [OF fstat_J] lift_J [OF chdir_J] lift_J [OF dup_J] lift_J [OF open_J] lift_J [OF mknod_J]
    lift_J [OF unlink_J] lift_J [OF link_J] lift_J [OF mkdir_J] lift_J [OF close_J]
  note p = sys_fork_J sys_wait_J sys_exec_J sbrk_J sleep_J sys_kill_J trace_J priority_J sys_waitx_J
  show ?thesis
    using assms(4) exit_after [OF assms(3)] l [OF assms(3), THEN afterI] p [OF assms(3), THEN afterI]
      r [THEN afterI] o [THEN afterI]
    unfolding syscalls_def by auto
qed

lemma set_a0_J: "J s \<Longrightarrow> J (set_a0 me v s)"
  unfolding set_a0_def by (rule mem_J)

lemma syscall_after:
  assumes q: "quiet J devread" "quiet J devwrite" and "J s"
  shows "safeN (\<lambda>(out, t, s). sys_after J K out s) (syscall k pbs devread devwrite ticksa me s)"
  unfolding syscall_def Let_def
proof (rule safeN_bind [of "\<lambda>(out, t, s). sys_after J K out s"])
  let ?h = "handler (syscalls k pbs devread devwrite ticksa me) (sint (syscall_num me s))"
  show "safeN (\<lambda>(out, t, s). sys_after J K out s)
     (case ?h of
        None \<Rightarrow> bindS (kformat ''%d %s: unknown sys call %d\<newline>''
            [AInt (of_int (pid (procs s ! me))), AStr (Some (pname (procs s ! me))), AInt (syscall_num me s)]) (\<lambda>t.
          Some (Ok (SRet (-1), t, set_a0 me (-1) s)))
      | Some h \<Rightarrow> bindN (h s) (\<lambda>(out, s). Some (Ok (out, [], case out of SRet v \<Rightarrow> set_a0 me v s | _ \<Rightarrow> s))))"
  proof (cases ?h)
    case None
    show ?thesis unfolding None using set_a0_J [OF assms(3)]
      by (auto simp: sys_after_def safeN_def)
  next
    case (Some h)
    then have "Some h \<in> set (syscalls k pbs devread devwrite ticksa me)"
      by (auto simp: handler_def split: if_splits) (metis nth_mem nat_less_iff less_imp_le)
    note h = handlers_after [OF q assms(3) this]
    show ?thesis unfolding Some option.case
    proof (rule safeN_bind [OF h])
      fix x :: "sys_out \<times> 'z kern_scheme"
      assume "case x of (out, s) \<Rightarrow> sys_after J K out s"
      then show "safeN (\<lambda>(out, t, s). sys_after J K out s)
          (case x of (out, s) \<Rightarrow> Some (Ok (out, [], case out of SRet v \<Rightarrow> set_a0 me v s | _ \<Rightarrow> s)))"
        by (cases x; cases "fst x") (auto simp: sys_after_def intro: set_a0_J)
    qed
  qed
next
  fix x :: "sys_out \<times> string \<times> 'z kern_scheme"
  assume "case x of (out, t, s) \<Rightarrow> sys_after J K out s"
  then show "safeN (\<lambda>(out, t, s). sys_after J K out s)
      (case x of (out, t, s') \<Rightarrow>
         (case out of SRet _ \<Rightarrow> bindS (trace_out me (sint (syscall_num me s)) s') (\<lambda>tr. Some (Ok (out, t @ tr, s')))
          | _ \<Rightarrow> Some (Ok (out, t, s'))))"
    by (auto simp: safeN_def split: sys_out.splits prod.splits)
qed

lemma clockintr_J: "J s \<Longrightarrow> J (clockintr ticksa q s)"
proof -
  assume "J s"
  note do_wakeup [OF do_tick [OF this, of "kticks s + 1"], of q "ChAddr ticksa"]
  then show ?thesis by (simp add: clockintr_def Let_def)
qed

lemma devintr_J:
  assumes "quiet_irq J dv" "J s"
  shows "safeR (\<lambda>(w, t, h, s). J s) (devintr v dv q h s)"
proof -
  have q: "safeR J (uart_intr dv s)" "safeR J (disk_intr dv s)" "J (irq_complete dv irq t)" if "J t" for irq t
    using assms that by (auto simp: quiet_irq_def)
  show ?thesis
    unfolding devintr_def Let_def
    using q [OF assms(2)] q(3) assms(2) clockintr_J [OF assms(2)] by (auto simp: safeR_def)
qed

lemma usertrap_end_after:
  assumes "J s"
  shows "safeN (\<lambda>(out, t, h, s). trap_after J K out s) (usertrap_end v k me w t h s)"
proof -
  have "J (snd (snd (usertrapret v k me h s)))"
    unfolding usertrapret_def Let_def snd_conv by (intro mem_J assms)
  then show ?thesis
    using exit_K [OF assms] go_yield [OF assms]
    by (auto simp: usertrap_end_def trap_exit_def trap_after_def safeN_def safeR_def split: prod.splits)
qed

lemma set_epc_J: "J s \<Longrightarrow> J (set_epc me x s)"
  unfolding set_epc_def by (rule mem_J)

lemma usertrap_after:
  assumes q: "quiet J devread" "quiet J devwrite" "quiet_irq J dv" and "J s"
  shows "safeN (\<lambda>(out, t, h, s). trap_after J K out s) (usertrap v k pbs devread devwrite dv me h s)"
proof -
  have ex: "safeN (\<lambda>(out, t, h, s). trap_after J K out s) (trap_exit k me t h s)" if "J s" for t h s
    using exit_K [OF that] by (auto simp: trap_exit_def trap_after_def safeN_def safeR_def)
  have sc: "safeN (\<lambda>(out, t, h, s). trap_after J K out s)
      (bindN (syscall k pbs devread devwrite ticksa me s) (\<lambda>(out, t, s).
         case out of SRet _ \<Rightarrow> usertrap_end v k me 0 t h s
         | SSleep \<Rightarrow> Some (Ok (TSleep, t, h, s)) | SGone \<Rightarrow> Some (Ok (TGone, t, h, s))))" if "J s" for ticksa h s
    by (rule safeN_bind [OF syscall_after [OF q(1,2) that]])
      (auto split: sys_out.splits intro!: usertrap_end_after)
  have di: "safeN (\<lambda>(out, t, h, s). trap_after J K out s)
      (bindS (devintr v dv (Some me) h s) (\<lambda>(which_dev, t, h, s).
         if which_dev \<noteq> 0 then usertrap_end v k me which_dev t h s else f h s))"
    if "J s" "\<And>h s. J s \<Longrightarrow> safeN (\<lambda>(out, t, h, s). trap_after J K out s) (f h s)" for h s and f
    by (rule safeN_bind [of "\<lambda>(w, t, h, s). J s"]) (use devintr_J [OF q(3) that(1)] that(2) in \<open>auto intro: usertrap_end_after\<close>)
  have bad: "safeN (\<lambda>(out, t, h, s). trap_after J K out s)
      (bindS m1 (\<lambda>t1. bindS m2 (\<lambda>t2. usertrap_end v k me 0 (t1 @ t2) h (s\<lparr>procs := setkilled me (procs s)\<rparr>))))"
    if "J s" for m1 m2 h s
    using usertrap_end_after [OF do_setkilled [OF that]] by (auto simp: safeN_def)
  show ?thesis
    unfolding usertrap_def Let_def using set_epc_J assms(4)
    by (auto intro!: ex sc di bad set_epc_J)
qed

end

end
