(* ===== verification/TableInv.thy ===== *)
theory TableInv
  imports KernelInv
begin

text \<open>
  The process table stays well formed through every trap: \<open>kernel_inv\<close> interpreted with the invariant of
  \<open>ProcInv\<close>.
\<close>

section \<open>The descriptor operations leave the process table alone\<close>

lemma same_table_fd [simp]: "same_table s (upd_proc i (\<lambda>p. p\<lparr>ofile := u p\<rparr>) s)"
  by (rule same_table_upd) (simp add: pkey_def)

lemma filealloc_table: "filealloc s = (r, s') \<Longrightarrow> same_table s s'"
  by (auto simp: filealloc_def split: option.splits)

lemma fdalloc_table: "fdalloc me f s = (r, s') \<Longrightarrow> same_table s s'"
  by (auto simp: fdalloc_def split: option.splits)

lemma fclose_table: "fclose k me f s = Ok s' \<Longrightarrow> same_table s s'"
  by (auto simp: fclose_def dest!: fileclose_table intro: same_table_trans [OF _ same_table_wake_pipes])

lemma fd_clear_table: "same_table s (fd_clear me fd s)"
  by (simp add: fd_clear_def)

lemma open_file_table: "same_table s (open_file f omode ip s)"
  by (simp add: open_file_def Let_def)

lemma copyout_table: "copyout pt a b n s = (r, s') \<Longrightarrow> same_table s s'" for s s' :: "'z kern_scheme"
  by (rule same_table_more [OF more_up(1) [OF copyout_frame]])

lemma sys_dup_table: "safeR (\<lambda>(r, s'). same_table s s') (sys_dup me s)"
  unfolding sys_dup_def
proof (rule safeR_bind [of "\<lambda>_. True"])
  fix a :: "(nat \<times> nat) option"
  obtain q t where d: "fdalloc me (snd (the a)) s = (q, t)" by fastforce
  note t = fdalloc_table [OF d]
  show "safeR (\<lambda>(r, s'). same_table s s')
     (case a of None \<Rightarrow> Ok (-1, s)
      | Some (_, f) \<Rightarrow>
          case fdalloc me f s of (None, s) \<Rightarrow> Ok (-1, s) | (Some fd, s) \<Rightarrow> bindR (filedup f s) (\<lambda>s. Ok (int fd, s)))"
    using d t by (auto simp: safeR_def split: option.splits dest!: filedup_table intro: same_table_trans)
qed (simp add: safeR_def)

lemma sys_close_table: "safeR (\<lambda>(r, s'). same_table s s') (sys_close k me s)"
  unfolding sys_close_def
  by (rule safeR_bind [of "\<lambda>_. True"])
    (auto simp: safeR_def split: option.splits dest!: fclose_table intro: same_table_trans [OF fd_clear_table])

lemma pipealloc_table: "pipealloc k s = Ok (r, s') \<Longrightarrow> same_table s s'"
proof -
  assume p: "pipealloc k s = Ok (r, s')"
  obtain a t where a: "filealloc s = (a, t)" by fastforce
  obtain b u where b: "filealloc t = (b, u)" by fastforce
  obtain pi v where c: "kalloc u = (pi, v)" by fastforce
  have t: "same_table s t" "same_table s u" "same_table s v"
    using filealloc_table [OF a] filealloc_table [OF b] same_table_more [OF more_up(1) [OF kalloc_frame [OF c]]]
    by (blast intro: same_table_trans)+
  have f: "same_table s s'" if "same_table s x" "fileclose k f x = Ok (w, s')" for f w x
    using that fileclose_table by (blast intro: same_table_trans)
  have g: "same_table s s'" if "same_table s x" "fileclose k f x = Ok (w, y)" "fileclose k f' y = Ok (w', s')" for f f' w w' x y
    using that fileclose_table by (blast intro: same_table_trans)
  show ?thesis
    using p t unfolding pipealloc_def a prod.case
    by (auto simp: b c Let_def split: option.splits if_splits dest: f g) (simp add: same_table_def)
qed

lemma sys_pipe_table: "safeR (\<lambda>(r, s'). same_table s s') (sys_pipe k me s)"
  unfolding sys_pipe_def Let_def
proof (rule safeR_bind [of "\<lambda>_. True"], simp add: safeR_def, rule safeR_bind [of "\<lambda>(r, t). same_table s t"])
  show "safeR (\<lambda>(r, t). same_table s t) (pipealloc k s)" by (auto simp: safeR_def dest: pipealloc_table)
  have c: "safeR (\<lambda>(r, s'). same_table s s') (bindR (fclose k me fr x) (\<lambda>s. bindR (fclose k me fw s) (\<lambda>s. Ok (-1, s))))"
    if "same_table s x" for fr fw x
    using that by (auto simp: safeR_def dest!: fclose_table intro: same_table_trans)
  have clear: "same_table s (fd_clear me fd x)" if "same_table s x" for fd x
    using that fd_clear_table by (blast intro: same_table_trans)
  have mem: "same_table s (x\<lparr>mem := m\<rparr>)" if "same_table s x" for x m using that by simp
  have out: "same_table s (snd (copyout pt a b n x))" if "same_table s x" for pt a b n x
    using that copyout_table [of pt a b n x] by (metis prod.collapse same_table_trans)
  fix fdarray :: uint64 and x :: "(nat \<times> nat) option \<times> 'a kern_scheme"
  assume x: "case x of (r, t) \<Rightarrow> same_table s t"
  have fd: "same_table s (snd (fdalloc me f y))" if "same_table s y" for f y
    using that fdalloc_table [of me f y] by (metis prod.collapse same_table_trans)
  show "safeR (\<lambda>(r, s'). same_table s s')
     (case x of (r, s) \<Rightarrow>
       (case r of
         None \<Rightarrow> Ok (-1, s)
       | Some (fr, fw) \<Rightarrow>
           (case fdalloc me fr s of
             (None, s) \<Rightarrow> bindR (fclose k me fr s) (\<lambda>s. bindR (fclose k me fw s) (\<lambda>s. Ok (-1, s)))
           | (Some fd0, s) \<Rightarrow>
               (case fdalloc me fw s of
                 (None, s) \<Rightarrow> bindR (fclose k me fr (fd_clear me fd0 s)) (\<lambda>s. bindR (fclose k me fw s) (\<lambda>s. Ok (-1, s)))
               | (Some fd1, s) \<Rightarrow>
                   (case copyout (pagetable (procs s ! me)) fdarray (k_local k) 4
                       (s\<lparr>mem := store_le 4 (store_le 4 (mem s) (k_local k) (of_nat fd0 :: cint)) (k_local k + 4) (of_nat fd1 :: cint)\<rparr>) of
                     (r0, s') \<Rightarrow>
                       (case (if r0 < 0 then (-1, s') else copyout (pagetable (procs s ! me)) (fdarray + 4) (k_local k + 4) 4 s') of
                         (r1, s) \<Rightarrow>
                           if r1 < 0
                           then bindR (fclose k me fr (fd_clear me fd1 (fd_clear me fd0 s))) (\<lambda>s. bindR (fclose k me fw s) (\<lambda>s. Ok (-1, s)))
                           else Ok (0, s)))))))"
    using x by (simp add: split_beta split: option.split) (auto intro!: c clear mem out fd)
qed

section \<open>The interpretation\<close>

lemma image_table:
  assumes "table_run me s" "pt \<noteq> 0"
  shows "same_table s (upd_proc me (\<lambda>p. p\<lparr>pname := nm, pagetable := pt, sz := z\<rparr>) s)"
proof -
  have "slot_ok (nextpid s) (procs s ! me)" "live (procs s ! me)"
    using assms(1) ptable_okD(3) by (auto simp: table_run_def)
  then show ?thesis using assms(2) by (intro live_table) (auto simp: pkey_def slot_ok_def live_def)
qed

lemma priority_table: "same_table s (s\<lparr>procs := snd (set_priority pr pd (procs s))\<rparr>)"
proof -
  have u: "same_table s (upd_proc i (\<lambda>p. p\<lparr>spriority := pr, niceness := 5\<rparr>) s)" for i
    by (rule same_table_upd) (simp add: pkey_def)
  show ?thesis using u [unfolded upd_proc_def] by (auto simp: set_priority_def split: option.splits)
qed

lemma tick_table: "same_table s (s\<lparr>kticks := tk, procs := time_updates (procs s)\<rparr>)"
  by (auto simp: same_table_def time_updates_def pkey_def)

lemma setkilled_table: "same_table s (s\<lparr>procs := setkilled me (procs s)\<rparr>)"
proof -
  have "same_table s (upd_proc me (\<lambda>p. p\<lparr>killed := True\<rparr>) s)" by (rule same_table_upd) (simp add: pkey_def)
  then show ?thesis by (simp add: upd_proc_def setkilled_def)
qed

lemma yield_table: "live (procs s ! me) \<Longrightarrow> same_table s (upd_proc me yield s)"
  by (rule live_table) (auto simp: yield_def pkey_def live_def)

interpretation table: kernel_inv "table_run me" "\<lambda>s. ptable_ok (procs s) (nextpid s) (initproc s)" k pbs me for k pbs me
proof
  fix s s' :: "'a kern_scheme"
  assume J: "table_run me s"
  note run = same_table_run [OF J]
  have l: "table_ok s" "me < length (procs s)" "live (procs s ! me)" using J by (simp_all add: table_run_def)
  show "table_run me s'" if "fs.more s' = fs.more s" by (rule run [OF same_table_more [OF that]])
  show "table_ok s" by (rule l)
  show "table_run me (upd_proc me (cwd_update c) s)" "table_run me (upd_proc me (trace_mask_update tm) s)"
    "table_run me (upd_proc me (sz_update z) s)" for c tm z
    by (rule run, rule same_table_upd, simp add: pkey_def)+
  show "table_run me (upd_proc me (\<lambda>p. p\<lparr>pname := nm, pagetable := pt, sz := z\<rparr>) s)" if "pt \<noteq> 0" for pt nm z
    by (rule run [OF image_table [OF J that]])
  show "table_run me (upd_proc me (sleep_on ch) s)" for ch by (rule run [OF sleep_table [OF l(2,3)]])
  show "table_run me (upd_proc me yield s)" by (rule run [OF yield_table [OF l(3)]])
  show "table_run me (s\<lparr>procs := wakeup q ch (procs s)\<rparr>)" for q ch by (rule run [OF same_table_procs]) simp
  show "table_run me (s\<lparr>procs := snd (kill pd (procs s))\<rparr>)" for pd by (rule run [OF kill_table [OF prod.collapse [symmetric]]])
  show "table_run me (s\<lparr>procs := setkilled me (procs s)\<rparr>)" by (rule run [OF setkilled_table])
  show "table_run me (s\<lparr>procs := snd (set_priority pr pd (procs s))\<rparr>)" for pr pd by (rule run [OF priority_table])
  show "table_run me (s\<lparr>kticks := tk, procs := time_updates (procs s)\<rparr>)" for tk by (rule run [OF tick_table])
  show "table_run me (s\<lparr>pipes := q'\<rparr>)" for q' by (rule run) (simp add: same_table_def)
  show "table_run me (upd_file f (\<lambda>x. x\<lparr>f_off := g x\<rparr>) s)" for f g by (rule run) simp
  show "safeR (\<lambda>(r, s). table_run me s) (sys_dup me s)" "safeR (\<lambda>(r, s). table_run me s) (sys_close k me s)"
    "safeR (\<lambda>(r, s). table_run me s) (sys_pipe k me s)"
    using sys_dup_table [of s me] sys_close_table [of s k me] sys_pipe_table [of s k me] by (auto elim!: safe_mono intro: run)
  show "table_run me (open_file f omode ip u)" if "filealloc s = (Some f, t)" "fdalloc me f t = (Some fd, u)" for f t fd u omode ip
    using filealloc_table [OF that(1)] fdalloc_table [OF that(2)] open_file_table by (blast intro: run same_table_trans)
  show "safeR (table_run me) (fclose k me f u)" if "filealloc s = (Some f, t)" "fdalloc me f t = (None, u)" for f t u
    using filealloc_table [OF that(1)] fdalloc_table [OF that(2)] by (auto simp: safeR_def dest!: fclose_table intro: run same_table_trans)
  show "safeN (\<lambda>(r, s). table_run me s) (fork k pbs me s)" by (auto simp: safeN_def dest: fork_ok [OF _ l])
  show "safeN (\<lambda>(r, s). table_run me s) (wait k me addr s)" for addr by (auto simp: safeN_def dest: wait_ok [OF _ J])
  show "safeN (\<lambda>(r, x, s). table_run me s) (waitx k me addr s)" for addr by (auto simp: safeN_def dest: waitx_ok [OF _ J])
  show "safeR (\<lambda>s. table_ok s) (exit k me status s)" for status by (auto simp: safeR_def dest: exit_ok [OF _ l])
qed

section \<open>Reachable kernel states\<close>

lemma procinit_ok:
  assumes "procs s = replicate NPROC zero_proc" "nextpid s = 1" "initproc s = None"
  shows "table_ok (procinit s)"
proof -
  have n: "procs (procinit s) ! i = zero_proc\<lparr>state := UNUSED, kstack := KSTACK i\<rparr>" if "i < NPROC" for i
    using assms that by (simp add: procinit_def nth_enumerate_eq)
  have "length (procs (procinit s)) = NPROC" using assms by (simp add: procinit_def)
  then show ?thesis
    using n assms by (intro ptable_okI) (auto simp: zero_proc_def slot_ok_def free_slot_def live_at_def procinit_def)
qed

lemma uvmfirst_frame: "uvmfirst pt src n s = Ok s' \<Longrightarrow> kmem.more s' = kmem.more s"
  by (auto simp: uvmfirst_def Let_def split: if_splits prod.splits dest!: mappages_frame kalloc_frame)

lemma userinit_effect:
  assumes "userinit k pbs s = Some (Ok s')"
  shows "\<exists>i t u m v ip. allocproc k pbs s = Some (Ok (Some i, t)) \<and> kmem.more u = kmem.more (t\<lparr>initproc := Some i\<rparr>) \<and>
    fs.more v = fs.more (upd_proc i (\<lambda>p. p\<lparr>pname := ''initcode''\<rparr>) ((upd_proc i (\<lambda>p. p\<lparr>sz := PGSIZE\<rparr>) u)\<lparr>mem := m\<rparr>)) \<and>
    s' = upd_proc i (\<lambda>p. p\<lparr>cwd := ip, state := RUNNABLE\<rparr>) v"
proof -
  obtain r t where a: "allocproc k pbs s = Some (Ok (r, t))" using assms by (auto simp: userinit_def)
  then obtain i where i: "r = Some i" using assms by (cases r) (auto simp: userinit_def Let_def)
  define t1 where "t1 = t\<lparr>initproc := Some i\<rparr>"
  obtain u where u: "uvmfirst (pagetable (procs t1 ! i)) (k_initcode k) 52 t1 = Ok u"
    using assms a i by (auto simp: userinit_def Let_def t1_def)
  obtain m ip v where v: "namei 0 (k_buf k) 0 [slash]
      (upd_proc i (\<lambda>p. p\<lparr>pname := ''initcode''\<rparr>) ((upd_proc i (\<lambda>p. p\<lparr>sz := PGSIZE\<rparr>) u)\<lparr>mem := m\<rparr>)) = Ok (ip, v)"
    "s' = upd_proc i (\<lambda>p. p\<lparr>cwd := ip, state := RUNNABLE\<rparr>) v"
    using assms a i u by (auto simp: userinit_def Let_def t1_def simp del: upd_proc_simps)
  show ?thesis using a i uvmfirst_frame [OF u] namei_frame [OF v(1)] v(2) unfolding t1_def by blast
qed

lemma userinit_ok:
  assumes "userinit k pbs s = Some (Ok s')" "table_ok s"
  shows "table_ok s'"
proof -
  obtain i t u m v ip where a: "allocproc k pbs s = Some (Ok (Some i, t))" and u: "kmem.more u = kmem.more (t\<lparr>initproc := Some i\<rparr>)"
    and v: "fs.more v = fs.more (upd_proc i (\<lambda>p. p\<lparr>pname := ''initcode''\<rparr>) ((upd_proc i (\<lambda>p. p\<lparr>sz := PGSIZE\<rparr>) u)\<lparr>mem := m\<rparr>))"
    and s': "s' = upd_proc i (\<lambda>p. p\<lparr>cwd := ip, state := RUNNABLE\<rparr>) v"
    using userinit_effect [OF assms(1)] by blast
  obtain p where p: "i < length (procs s)" "procs t = (procs s)[i := p]" "new_slot (nextpid s) (procs s ! i) p"
    using allocproc_effect [OF a] by auto
  have "live (procs t ! i)" "i < length (procs t)" using p by (auto simp: new_slot_def live_def)
  then have t1: "table_run i (t\<lparr>initproc := Some i\<rparr>)"
    using allocproc_ok [OF a assms(2)] by (auto simp: table_run_def ptable_ok_def live_at_def)
  have a2: "same_table x (upd_proc i (\<lambda>p. p\<lparr>sz := PGSIZE\<rparr>) x)" "same_table x (upd_proc i (\<lambda>p. p\<lparr>pname := ''initcode''\<rparr>) x)" for x :: "'a kern_scheme"
    by (rule same_table_upd, simp add: pkey_def)+
  have "same_table u (upd_proc i (\<lambda>p. p\<lparr>pname := ''initcode''\<rparr>) ((upd_proc i (\<lambda>p. p\<lparr>sz := PGSIZE\<rparr>) u)\<lparr>mem := m\<rparr>))"
    by (rule same_table_trans [OF _ a2(2)]) (simp add: a2(1) del: upd_proc_simps)
  then have run: "table_run i v"
    using same_table_run [OF t1] same_table_more [OF more_up(1) [OF u]] same_table_more [OF v] by (blast intro: same_table_trans)
  have "same_table v s'" unfolding s'
    by (rule live_table) (use run in \<open>auto simp: table_run_def pkey_def live_def\<close>)
  then show ?thesis using same_table_run [OF run] by (simp add: table_run_def)
qed

text \<open>
  The states the kernel can be in: from \<^verbatim>\<open>procinit\<close> on the zeroed tables, by \<^verbatim>\<open>userinit\<close>, by traps of
  running processes, by the round-robin scheduler, and by a process that wakes up inside \<^verbatim>\<open>wait\<close> and
  runs its loop again.
\<close>

inductive kreach :: "vectors \<Rightarrow> layout \<Rightarrow> bool \<Rightarrow> (nat \<Rightarrow> 'z kern_ext devfun option) \<Rightarrow> (nat \<Rightarrow> 'z kern_ext devfun option) \<Rightarrow>
    'z kern_scheme devices \<Rightarrow> 'z kern_scheme \<Rightarrow> bool"
  for v k pbs devread devwrite dv where
  boot: "procs s = replicate NPROC zero_proc \<Longrightarrow> nextpid s = 1 \<Longrightarrow> initproc s = None \<Longrightarrow>
    ftable s = replicate NFILE zero_file \<Longrightarrow> kreach v k pbs devread devwrite dv (procinit s)"
| first: "kreach v k pbs devread devwrite dv s \<Longrightarrow> userinit k pbs s = Some (Ok s') \<Longrightarrow> kreach v k pbs devread devwrite dv s'"
| trap: "kreach v k pbs devread devwrite dv s \<Longrightarrow> me < length (procs s) \<Longrightarrow> state (procs s ! me) = RUNNING \<Longrightarrow>
    usertrap v k pbs devread devwrite dv me h s = Some (Ok (out, t, h', s')) \<Longrightarrow> kreach v k pbs devread devwrite dv s'"
| run: "kreach v k pbs devread devwrite dv s \<Longrightarrow> i < length (procs s) \<Longrightarrow> rr_visit i (procs s) = (r, ps) \<Longrightarrow>
    kreach v k pbs devread devwrite dv (s\<lparr>procs := ps\<rparr>)"
| again: "kreach v k pbs devread devwrite dv s \<Longrightarrow> me < length (procs s) \<Longrightarrow> state (procs s ! me) = RUNNING \<Longrightarrow>
    wait k me addr (upd_proc me sleep_done s) = Some (Ok (w, s')) \<Longrightarrow> kreach v k pbs devread devwrite dv s'"

lemma rr_visit_table: "rr_visit i (procs s) = (r, ps) \<Longrightarrow> same_table s (s\<lparr>procs := ps\<rparr>)"
proof (cases "state (procs s ! i) = RUNNABLE")
  case True
  then have "same_table s (upd_proc i (\<lambda>p. p\<lparr>state := RUNNING\<rparr>) s)" by (intro live_table) (simp_all add: live_def pkey_def)
  moreover assume "rr_visit i (procs s) = (r, ps)"
  ultimately show ?thesis using True by (auto simp: rr_visit_def upd_proc_def)
qed (auto simp: rr_visit_def)

text \<open>
  C2. In every state the kernel reaches from boot, by system calls, interrupts and exceptions of
  running processes and by scheduling, the process table is well formed: the pids of the processes
  in use are positive, pairwise different and smaller than \<^verbatim>\<open>nextpid\<close>; each of them has a trapframe
  and a page table; a free slot has pid 0, no parent, no trapframe and no page table; and the parent
  of every process, like \<^verbatim>\<open>initproc\<close>, is a process that has not exited. Device functions may be any
  that keep the table well formed. A call that sleeps is followed up to its sleep; of the loops
  that continue afterwards the one of \<^verbatim>\<open>wait\<close>, which changes the table, is followed too.
\<close>

theorem process_table_well_formed:
  assumes "kreach v k pbs devread devwrite dv s"
    and "\<And>me. quiet (table_run me) devread" "\<And>me. quiet (table_run me) devwrite" "\<And>me. quiet_irq (table_run me) dv"
  shows "ptable_ok (procs s) (nextpid s) (initproc s)"
  using assms(1)
proof induction
  case (boot s)
  then show ?case by (intro procinit_ok)
next
  case (first s s')
  then show ?case using userinit_ok by blast
next
  case (trap s me h out t h' s')
  then have "table_run me s" by (simp add: table_run_def live_def)
  then have "trap_after (table_run me) (\<lambda>s. table_ok s) out s'"
    using table.usertrap_after [OF assms(2-4), of me s v k pbs h] trap.hyps(4) by (auto simp: safeN_def)
  then show ?case by (auto simp: trap_after_def table_run_def split: if_splits)
next
  case (run s i r ps)
  then show ?case using same_table_ok [OF run.IH rr_visit_table [OF run.hyps(3)]] by simp
next
  case (again s me addr w s')
  have "same_table s (upd_proc me sleep_done s)" by (rule same_table_upd) (simp add: sleep_done_def pkey_def)
  moreover have "table_run me s" using again by (simp add: table_run_def live_def)
  ultimately have "table_run me (upd_proc me sleep_done s)" by (blast intro: same_table_run)
  then have "table_run me s'" by (rule wait_ok [OF again.hyps(4)])
  then show ?case by (simp add: table_run_def)
qed

definition no_devices :: "kern devices" where
  "no_devices = \<lparr>irq_claim = (\<lambda>_. 0), uart_intr = Ok, disk_intr = Ok, irq_complete = (\<lambda>_ s. s)\<rparr>"

definition example_vectors :: vectors where
  "example_vectors = \<lparr>v_kernelvec = 0x80005000, v_uservec = 0x80007000, v_userret = 0x8000709c, v_usertrap = 0x80002600, v_ticks = 0x80008a10\<rparr>"

lemma no_devices_quiet: "quiet J (\<lambda>_. None)" "quiet_irq J no_devices"
  by (simp_all add: quiet_def quiet_irq_def no_devices_def)

theorem process_table_well_formed_witness:
  "ptable_ok (procs (procinit zero_kern)) (nextpid (procinit zero_kern)) (initproc (procinit zero_kern))"
proof (rule process_table_well_formed)
  show "kreach example_vectors example_layout False (\<lambda>_. None) (\<lambda>_. None) no_devices (procinit zero_kern)"
    by (rule kreach.boot) (simp_all add: zero_kern_def)
qed (rule no_devices_quiet)+

end
