(* ===== verification/FileInv.thy ===== *)
theory FileInv
  imports TableInv
begin

text \<open>
  The reference counts of the file table are right: \<^verbatim>\<open>f->ref\<close> is the number of descriptors, over
  all processes, that point to \<^verbatim>\<open>f\<close>. While a system call runs, a reference may be held by a local
  variable, or a descriptor may be filled before the count is raised; \<open>e f\<close> is that difference.
\<close>

section \<open>Counting descriptors\<close>

definition file_refs :: "nat \<Rightarrow> proc list \<Rightarrow> int" where
  "file_refs f ps = (\<Sum>p\<leftarrow>ps. int (count_list (ofile p) (Some f)))"

lemma sum_list_upd: "i < length xs \<Longrightarrow> sum_list (xs[i := x]) = sum_list xs - xs ! i + x" for x :: int
  by (induction xs arbitrary: i) (auto split: nat.splits)

lemma count_list_upd:
  "i < length xs \<Longrightarrow> int (count_list (xs[i := x]) y) =
     int (count_list xs y) - (if xs ! i = y then 1 else 0) + (if x = y then 1 else 0)"
proof (induction xs arbitrary: i)
  case (Cons a xs)
  then show ?case
  proof (cases i)
    case (Suc n)
    then show ?thesis using Cons.IH [of n] Cons.prems by (auto split: if_splits)
  qed auto
qed simp

lemma file_refs_upd:
  "i < length ps \<Longrightarrow> file_refs f (ps[i := p]) =
     file_refs f ps - int (count_list (ofile (ps ! i)) (Some f)) + int (count_list (ofile p) (Some f))"
  by (simp add: file_refs_def map_update sum_list_upd)

lemma file_refs_fd:
  assumes "i < length ps" "fd < length (ofile (ps ! i))"
  shows "file_refs f (ps[i := (ps ! i)\<lparr>ofile := (ofile (ps ! i))[fd := v]\<rparr>]) =
    file_refs f ps - (if ofile (ps ! i) ! fd = Some f then 1 else 0) + (if v = Some f then 1 else 0)"
  using assms by (simp add: file_refs_upd count_list_upd)

lemma file_refs_pos: "p \<in> set ps \<Longrightarrow> Some f \<in> set (ofile p) \<Longrightarrow> 1 \<le> file_refs f ps"
proof -
  assume p: "p \<in> set ps" "Some f \<in> set (ofile p)"
  then have "0 < count_list (ofile p) (Some f)" using count_list_0_iff [of "ofile p" "Some f"] by auto
  moreover have "int (count_list (ofile p) (Some f)) \<le> file_refs f ps"
    unfolding file_refs_def by (rule member_le_sum_list) (use p in \<open>auto\<close>)
  ultimately show ?thesis by simp
qed

section \<open>The invariant\<close>

definition refs_ok :: "(nat \<Rightarrow> int) \<Rightarrow> 'z kern_scheme \<Rightarrow> bool" where
  "refs_ok e s \<longleftrightarrow>
     (\<forall>f < length (ftable s). f_ref (ftable s ! f) = file_refs f (procs s) + e f \<and>
       (f_ref (ftable s ! f) = 0 \<longrightarrow> f_type (ftable s ! f) = FD_NONE)) \<and>
     (\<forall>p \<in> set (procs s). length (ofile p) = NOFILE \<and> (\<forall>f. Some f \<in> set (ofile p) \<longrightarrow> f < length (ftable s)))"

text \<open>One more reference in a local variable, and one more that a descriptor has and the count lacks.\<close>

definition held :: "nat \<Rightarrow> (nat \<Rightarrow> int) \<Rightarrow> nat \<Rightarrow> int" where
  "held f e = e(f := e f + 1)"

definition owed :: "nat \<Rightarrow> (nat \<Rightarrow> int) \<Rightarrow> nat \<Rightarrow> int" where
  "owed f e = e(f := e f - 1)"

lemma held_owed [simp]:
  "owed f (held f e) = e" "held f (owed f e) = e" "owed f (held g (held f e)) = held g e"
  by (auto simp: held_def owed_def)

text \<open>A process that has exited and a free slot have no open files.\<close>

definition idle_ok :: "proc list \<Rightarrow> bool" where
  "idle_ok ps \<longleftrightarrow> (\<forall>p \<in> set ps. \<not> live p \<longrightarrow> set (ofile p) \<subseteq> {None})"

definition files_ok :: "(nat \<Rightarrow> int) \<Rightarrow> 'z kern_scheme \<Rightarrow> bool" where
  "files_ok e s \<longleftrightarrow> refs_ok e s \<and> idle_ok (procs s) \<and> length (ftable s) = NFILE"

definition files_at :: "(nat \<Rightarrow> int) \<Rightarrow> nat \<Rightarrow> 'z kern_scheme \<Rightarrow> bool" where
  "files_at e me s \<longleftrightarrow> files_ok e s \<and> me < length (procs s) \<and> live (procs s ! me)"

abbreviation files_run :: "nat \<Rightarrow> 'z kern_scheme \<Rightarrow> bool" where
  "files_run \<equiv> files_at (\<lambda>_. 0)"

text \<open>What the invariant reads of a process and of a file.\<close>

definition fkey :: "proc \<Rightarrow> bool \<times> nat option list" where
  "fkey p = (live p, ofile p)"

definition rkey :: "kfile \<Rightarrow> int \<times> fdtype" where
  "rkey f = (f_ref f, f_type f)"

definition same_files :: "'z kern_scheme \<Rightarrow> 'z kern_scheme \<Rightarrow> bool" where
  "same_files s s' \<longleftrightarrow> map fkey (procs s') = map fkey (procs s) \<and> map rkey (ftable s') = map rkey (ftable s)"

lemma same_files_refl [simp]: "same_files s s"
  by (simp add: same_files_def)

lemma same_files_trans: "same_files s t \<Longrightarrow> same_files t u \<Longrightarrow> same_files s u"
  by (simp add: same_files_def)

lemma same_filesD:
  assumes "same_files s s'"
  shows "length (procs s') = length (procs s)" "length (ftable s') = length (ftable s)"
    "i < length (procs s) \<Longrightarrow> live (procs s' ! i) = live (procs s ! i)"
    "i < length (procs s) \<Longrightarrow> ofile (procs s' ! i) = ofile (procs s ! i)"
    "f < length (ftable s) \<Longrightarrow> f_ref (ftable s' ! f) = f_ref (ftable s ! f)"
    "f < length (ftable s) \<Longrightarrow> f_type (ftable s' ! f) = f_type (ftable s ! f)"
    "file_refs f (procs s') = file_refs f (procs s)"
proof -
  have p: "map fkey (procs s') = map fkey (procs s)" and r: "map rkey (ftable s') = map rkey (ftable s)"
    using assms by (simp_all add: same_files_def)
  show len: "length (procs s') = length (procs s)" "length (ftable s') = length (ftable s)"
    using arg_cong [OF p, of length] arg_cong [OF r, of length] by simp_all
  show "live (procs s' ! i) = live (procs s ! i)" "ofile (procs s' ! i) = ofile (procs s ! i)" if "i < length (procs s)"
    using arg_cong [OF p, of "\<lambda>xs. xs ! i"] that len by (simp_all add: fkey_def)
  show "f_ref (ftable s' ! f) = f_ref (ftable s ! f)" "f_type (ftable s' ! f) = f_type (ftable s ! f)" if "f < length (ftable s)"
    using arg_cong [OF r, of "\<lambda>xs. xs ! f"] that len by (simp_all add: rkey_def)
  have "map ofile (procs s') = map ofile (procs s)" using arg_cong [OF p, of "map snd"] by (simp add: fkey_def comp_def)
  then have "map (\<lambda>fs. int (count_list fs (Some f))) (map ofile (procs s')) = map (\<lambda>fs. int (count_list fs (Some f))) (map ofile (procs s))"
    by simp
  then show "file_refs f (procs s') = file_refs f (procs s)" unfolding file_refs_def by (simp add: comp_def)
qed

lemma same_files_refs: "refs_ok e s \<Longrightarrow> same_files s s' \<Longrightarrow> refs_ok e s'"
  unfolding refs_ok_def all_set_conv_all_nth by (auto simp: same_filesD)

lemma same_files_idle: "idle_ok (procs s) \<Longrightarrow> same_files s s' \<Longrightarrow> idle_ok (procs s')"
  unfolding idle_ok_def all_set_conv_all_nth by (auto simp: same_filesD)

lemma same_files_ok: "files_ok e s \<Longrightarrow> same_files s s' \<Longrightarrow> files_ok e s'"
  unfolding files_ok_def using same_files_refs same_files_idle by (auto simp: same_filesD)

lemma same_files_at: "files_at e me s \<Longrightarrow> same_files s s' \<Longrightarrow> files_at e me s'"
  unfolding files_at_def files_ok_def using same_files_refs same_files_idle by (auto simp: same_filesD)

lemma same_files_more: "fs.more s' = fs.more s \<Longrightarrow> same_files s s'"
  unfolding same_files_def using more_kern(1,5) [of s' s] by metis

lemma same_files_upd: "fkey (f (procs s ! i)) = fkey (procs s ! i) \<Longrightarrow> same_files s (upd_proc i f s)"
proof (cases "i < length (procs s)")
  case True
  assume "fkey (f (procs s ! i)) = fkey (procs s ! i)"
  then have "map fkey ((procs s)[i := f (procs s ! i)]) = (map fkey (procs s))[i := map fkey (procs s) ! i]"
    using True by (simp add: map_update)
  then show ?thesis by (simp add: same_files_def)
qed (simp add: same_files_def list_update_beyond)

lemma same_files_simps [simp]:
  "same_files s (s'\<lparr>mem := m\<rparr>) = same_files s s'" "same_files s (s'\<lparr>pipes := q\<rparr>) = same_files s s'"
  "same_files s (s'\<lparr>initproc := j\<rparr>) = same_files s s'"
  "same_files s (s\<lparr>procs := ps\<rparr>) = (map fkey ps = map fkey (procs s))"
  by (simp_all add: same_files_def)

section \<open>Operations on files and descriptors\<close>

lemma refs_okD:
  assumes "refs_ok e s"
  shows "f < length (ftable s) \<Longrightarrow> f_ref (ftable s ! f) = file_refs f (procs s) + e f"
    "f < length (ftable s) \<Longrightarrow> f_ref (ftable s ! f) = 0 \<Longrightarrow> f_type (ftable s ! f) = FD_NONE"
    "i < length (procs s) \<Longrightarrow> length (ofile (procs s ! i)) = NOFILE"
    "i < length (procs s) \<Longrightarrow> fd < NOFILE \<Longrightarrow> ofile (procs s ! i) ! fd = Some f \<Longrightarrow> f < length (ftable s)"
  using assms by (auto simp: refs_ok_def all_set_conv_all_nth) (metis nth_mem)

lemma refs_okI:
  assumes "\<And>f. f < length (ftable s) \<Longrightarrow> f_ref (ftable s ! f) = file_refs f (procs s) + e f"
    "\<And>f. f < length (ftable s) \<Longrightarrow> f_ref (ftable s ! f) = 0 \<Longrightarrow> f_type (ftable s ! f) = FD_NONE"
    "\<And>i. i < length (procs s) \<Longrightarrow> length (ofile (procs s ! i)) = NOFILE"
    "\<And>i fd f. i < length (procs s) \<Longrightarrow> fd < NOFILE \<Longrightarrow> ofile (procs s ! i) ! fd = Some f \<Longrightarrow> f < length (ftable s)"
  shows "refs_ok e s"
  using assms unfolding refs_ok_def all_set_conv_all_nth by (auto simp: in_set_conv_nth)

lemma upd_file_simps [simp]: "procs (upd_file f g s) = procs s" "ftable (upd_file f g s) = (ftable s)[f := g (ftable s ! f)]"
  by (simp_all add: upd_file_def)

lemma refs_upd_file:
  assumes "refs_ok e s" "f < length (ftable s)" "f_ref (g (ftable s ! f)) = f_ref (ftable s ! f) + d"
    "f_ref (g (ftable s ! f)) = 0 \<Longrightarrow> f_type (g (ftable s ! f)) = FD_NONE"
  shows "refs_ok (e(f := e f + d)) (upd_file f g s)"
  by (rule refs_okI) (use assms refs_okD [OF assms(1)] in \<open>auto simp: nth_list_update\<close>)

lemma filealloc_refs:
  assumes "filealloc s = (Some f, t)" "refs_ok e s"
  shows "refs_ok (held f e) t" "f < length (ftable t)" "procs t = procs s" "f_ref (ftable t ! f) = 1" "length (ftable t) = length (ftable s)"
proof -
  have f: "f < length (ftable s)" "f_ref (ftable s ! f) = 0" and t: "t = upd_file f (\<lambda>x. x\<lparr>f_ref := 1\<rparr>) s"
    using assms(1) by (auto simp: filealloc_def first_idx_Some split: option.splits)
  show "refs_ok (held f e) t" unfolding t held_def by (rule refs_upd_file [OF assms(2) f(1)]) (use f(2) in simp_all)
  show "f < length (ftable t)" "procs t = procs s" "f_ref (ftable t ! f) = 1" "length (ftable t) = length (ftable s)" using f by (simp_all add: t)
qed

lemma filealloc_none: "filealloc s = (None, t) \<Longrightarrow> t = s"
  by (auto simp: filealloc_def split: option.splits)

lemma filedup_refs:
  assumes "filedup f s = Ok t" "refs_ok e s" "f < length (ftable s)"
  shows "refs_ok (held f e) t" "procs t = procs s" "length (ftable t) = length (ftable s)"
proof -
  have r: "\<not> f_ref (ftable s ! f) < 1" and t: "t = upd_file f (\<lambda>x. x\<lparr>f_ref := f_ref x + 1\<rparr>) s"
    using assms(1) by (auto simp: filedup_def split: if_splits)
  show "refs_ok (held f e) t" unfolding t held_def by (rule refs_upd_file [OF assms(2,3)]) (use r in simp_all)
  show "procs t = procs s" "length (ftable t) = length (ftable s)" by (simp_all add: t)
qed

lemma fileclose_effect:
  assumes "fileclose k f s = Ok (w, s')" "f < length (ftable s)"
  shows "procs s' = procs s \<and> 1 \<le> f_ref (ftable s ! f) \<and> (\<exists>x. ftable s' = (ftable s)[f := x] \<and> f_ref x = f_ref (ftable s ! f) - 1 \<and>
    (f_ref x = 0 \<longrightarrow> f_type x = FD_NONE))"
proof -
  let ?P = "\<lambda>t. procs t = procs s \<and> 1 \<le> f_ref (ftable s ! f) \<and> (\<exists>x. ftable t = (ftable s)[f := x] \<and> f_ref x = f_ref (ftable s ! f) - 1 \<and>
    (f_ref x = 0 \<longrightarrow> f_type x = FD_NONE))"
  have p: "?P s'" if "pipeclose (k_end k) a wr pi t = Ok (ch, pi', u)" "s' = u\<lparr>pipes := q\<rparr>" "?P t" for t a wr pi ch pi' u q
    using more_kern(1,5) [OF more_up(1) [OF pipeclose_table [OF that(1)]]] that(2,3) by simp
  have i: "?P s'" if "begin_op t = Ok u" "iput ip u = Ok v" "end_op v = Ok s'" "?P t" for t u v ip
    using more_kern(1,5) [OF fs_level(4) [OF that(1)]] more_kern(1,5) [OF iput_frame [OF that(2)]]
      more_kern(1,5) [OF fs_level(5) [OF that(3)]] that(4) by simp
  define s1 where "s1 = upd_file f (\<lambda>x. x\<lparr>f_ref := f_ref x - 1\<rparr>) s"
  define s2 where "s2 = upd_file f (\<lambda>x. x\<lparr>f_ref := 0, f_type := FD_NONE\<rparr>) s1"
  have c: "1 \<le> f_ref (ftable s ! f)" using assms(1) by (auto simp: fileclose_def split: if_splits)
  have s1: "f_ref (ftable s1 ! f) > 0 \<Longrightarrow> ?P s1" and s2: "\<not> f_ref (ftable s1 ! f) > 0 \<Longrightarrow> ?P s2"
    using c assms(2) by (auto simp: s1_def s2_def)
  have r: "(if f_ref (ftable s1 ! f) > 0 then Ok ([], s1)
        else
          let ff = ftable s1 ! f
          in
          if f_type ff = FD_PIPE then
            bindR (pipeclose (k_end k) (f_pipe ff) (writable ff) (pipes s2 (f_pipe ff)) s2) (\<lambda>(ch, pi, s).
              Ok ([(f_pipe ff, ch)], s\<lparr>pipes := (pipes s)(f_pipe ff := pi)\<rparr>))
          else if f_type ff = FD_INODE \<or> f_type ff = FD_DEVICE then
            bindR (begin_op s2) (\<lambda>s. bindR (iput (f_ip ff) s) (\<lambda>s. bindR (end_op s) (\<lambda>s. Ok ([], s))))
          else Ok ([], s2)) = Ok (w, s')"
    using assms(1) c unfolding fileclose_def Let_def s1_def [symmetric] s2_def [symmetric] by simp
  show ?thesis
  proof (cases "f_ref (ftable s1 ! f) > 0")
    case True
    then have "s' = s1" using r by simp
    then show ?thesis using s1 [OF True] by simp
  next
    case False
    let ?ff = "ftable s1 ! f"
    consider (pipe) ch pi u where "pipeclose (k_end k) (f_pipe ?ff) (writable ?ff) (pipes s2 (f_pipe ?ff)) s2 = Ok (ch, pi, u)"
        "s' = u\<lparr>pipes := (pipes u)(f_pipe ?ff := pi)\<rparr>"
      | (inode) u v where "begin_op s2 = Ok u" "iput (f_ip ?ff) u = Ok v" "end_op v = Ok s'"
      | (none) "s' = s2"
      using r False by (auto simp: Let_def split: if_splits)
    then show ?thesis
    proof cases
      case pipe
      then show ?thesis by (rule p [OF _ _ s2 [OF False]])
    next
      case inode
      then show ?thesis by (rule i [OF _ _ _ s2 [OF False]])
    qed (use s2 [OF False] in simp)
  qed
qed

lemma fileclose_refs:
  assumes "fileclose k f s = Ok (w, t)" "refs_ok e s" "f < length (ftable s)"
  shows "refs_ok (owed f e) t" "procs t = procs s" "length (ftable t) = length (ftable s)"
proof -
  obtain x where x: "procs t = procs s" "ftable t = (ftable s)[f := x]" "f_ref x = f_ref (ftable s ! f) - 1" "f_ref x = 0 \<longrightarrow> f_type x = FD_NONE"
    using fileclose_effect [OF assms(1,3)] by blast
  have "refs_ok (e(f := e f + - 1)) (upd_file f (\<lambda>_. x) s)" by (rule refs_upd_file [OF assms(2,3)]) (use x in simp_all)
  moreover have "same_files (upd_file f (\<lambda>_. x) s) t" using x by (simp add: same_files_def)
  ultimately show "refs_ok (owed f e) t" unfolding owed_def using same_files_refs by fastforce
  show "procs t = procs s" "length (ftable t) = length (ftable s)" using x by simp_all
qed

text \<open>Filling and clearing a descriptor.\<close>

lemma fd_refs:
  assumes "refs_ok e s" "i < length (procs s)" "fd < NOFILE" "\<And>f. v = Some f \<Longrightarrow> f < length (ftable s)"
  shows "refs_ok (\<lambda>f. e f + (if ofile (procs s ! i) ! fd = Some f then 1 else 0) - (if v = Some f then 1 else 0))
    (upd_proc i (\<lambda>p. p\<lparr>ofile := (ofile p)[fd := v]\<rparr>) s)"
  by (rule refs_okI)
    (use assms refs_okD [OF assms(1)] in \<open>auto simp: nth_list_update file_refs_fd split: if_splits\<close>)

lemma fd_set_refs:
  assumes "refs_ok e s" "i < length (procs s)" "fd < NOFILE" "ofile (procs s ! i) ! fd = None" "f < length (ftable s)"
  shows "refs_ok (owed f e) (upd_proc i (\<lambda>p. p\<lparr>ofile := (ofile p)[fd := Some f]\<rparr>) s)"
proof -
  have "(\<lambda>g. e g + (if ofile (procs s ! i) ! fd = Some g then 1 else 0) - (if Some f = Some g then 1 else 0)) = owed f e"
    unfolding owed_def using assms(4) by auto
  then show ?thesis using fd_refs [OF assms(1-3), of "Some f"] assms(5) by simp
qed

lemma fd_clear_refs:
  assumes "refs_ok e s" "i < length (procs s)" "fd < NOFILE" "ofile (procs s ! i) ! fd = Some f"
  shows "refs_ok (held f e) (upd_proc i (\<lambda>p. p\<lparr>ofile := (ofile p)[fd := None]\<rparr>) s)"
proof -
  have "(\<lambda>g. e g + (if ofile (procs s ! i) ! fd = Some g then 1 else 0) - (if None = Some g then 1 else 0)) = held f e"
    unfolding held_def using assms(4) by auto
  then show ?thesis using fd_refs [OF assms(1-3), of None] by simp
qed

lemma fdalloc_refs:
  assumes "fdalloc me f s = (Some fd, t)" "refs_ok e s" "me < length (procs s)" "f < length (ftable s)"
  shows "refs_ok (owed f e) t" "fd < NOFILE" "ofile (procs t ! me) ! fd = Some f" "ftable t = ftable s"
    "length (procs t) = length (procs s)"
proof -
  note len = refs_okD(3) [OF assms(2,3)]
  have fd: "fd < NOFILE" "ofile (procs s ! me) ! fd = None" and t: "t = upd_proc me (\<lambda>p. p\<lparr>ofile := (ofile p)[fd := Some f]\<rparr>) s"
    using assms(1) len by (auto simp: fdalloc_def first_idx_Some split: option.splits)
  show "refs_ok (owed f e) t" unfolding t by (rule fd_set_refs) (use assms fd in simp_all)
  show "fd < NOFILE" "ofile (procs t ! me) ! fd = Some f" "ftable t = ftable s" "length (procs t) = length (procs s)"
    using fd assms(3) len by (simp_all add: t)
qed

lemma fdalloc_none: "fdalloc me f s = (None, t) \<Longrightarrow> t = s"
  by (auto simp: fdalloc_def split: option.splits)

lemma fkey_wakeup [simp]: "map fkey (wakeup me ch ps) = map fkey ps"
  by (rule nth_equalityI) (auto simp: nth_wakeup fkey_def wake_def live_def)

lemma wake_pipes_files: "same_files s (wake_pipes me w s)"
proof -
  have "map fkey (fold (\<lambda>ch. wakeup (Some me) (pipe_chan_at ch)) w ps) = map fkey ps" for ps
    by (induction w arbitrary: ps) simp_all
  then show ?thesis by (simp add: wake_pipes_def)
qed

lemma fclose_refs:
  assumes "fclose k me f s = Ok t" "refs_ok e s" "f < length (ftable s)"
  shows "refs_ok (owed f e) t" "map fkey (procs t) = map fkey (procs s)" "length (ftable t) = length (ftable s)"
proof -
  obtain w u where u: "fileclose k f s = Ok (w, u)" "t = wake_pipes me w u" using assms(1) by (auto simp: fclose_def)
  note r = fileclose_refs [OF u(1) assms(2,3)]
  show "refs_ok (owed f e) t" unfolding u(2) by (rule same_files_refs [OF r(1) wake_pipes_files])
  show "map fkey (procs t) = map fkey (procs s)" "length (ftable t) = length (ftable s)"
    using wake_pipes_files [of u me w] r(2,3) by (simp_all add: same_files_def u(2)) (metis length_map)
qed

lemma fork_files_refs:
  assumes "fork_files me np fds s = Ok s'" "refs_ok e s" "me \<noteq> np" "me < length (procs s)" "np < length (procs s)"
    "distinct fds" "set fds \<subseteq> {..<NOFILE}" "\<forall>fd \<in> set fds. ofile (procs s ! np) ! fd = None"
  shows "refs_ok e s' \<and> length (ftable s') = length (ftable s) \<and> (\<forall>i < length (procs s). i \<noteq> np \<longrightarrow> procs s' ! i = procs s ! i)"
  using assms
proof (induction fds arbitrary: s)
  case (Cons fd fds)
  show ?case
  proof (cases "ofile (procs s ! me) ! fd")
    case None
    then show ?thesis using Cons by simp
  next
    case (Some f)
    obtain t where t: "filedup f s = Ok t"
      and r: "fork_files me np fds (upd_proc np (\<lambda>p. p\<lparr>ofile := (ofile p)[fd := Some f]\<rparr>) t) = Ok s'"
      using Cons.prems(1) Some by auto
    have f: "f < length (ftable s)" using refs_okD(4) [OF Cons.prems(2,4) _ Some] Cons.prems(7) by simp
    note d = filedup_refs [OF t Cons.prems(2) f]
    have "refs_ok (owed f (held f e)) (upd_proc np (\<lambda>p. p\<lparr>ofile := (ofile p)[fd := Some f]\<rparr>) t)"
      by (rule fd_set_refs [OF d(1)]) (use d Cons.prems f in auto)
    then have "refs_ok e (upd_proc np (\<lambda>p. p\<lparr>ofile := (ofile p)[fd := Some f]\<rparr>) t)" by simp
    note IH = Cons.IH [OF r this]
    have "(ofile (procs s ! np))[fd := Some f] ! j = None" if "j \<in> set fds" for j
      using Cons.prems(6,8) that by (cases "j = fd") auto
    then show ?thesis using IH Cons.prems d(2,3) by simp
  qed
qed simp

lemma exit_files_refs:
  assumes "exit_files k me fds s = Ok s'" "refs_ok e s" "me < length (procs s)" "set fds \<subseteq> {..<NOFILE}"
  shows "refs_ok e s' \<and> length (ftable s') = length (ftable s) \<and> (\<forall>i < length (procs s). i \<noteq> me \<longrightarrow> ofile (procs s' ! i) = ofile (procs s ! i)) \<and>
    (\<forall>fd < NOFILE. ofile (procs s' ! me) ! fd = (if fd \<in> set fds then None else ofile (procs s ! me) ! fd))"
  using assms
proof (induction fds arbitrary: s)
  case (Cons fd fds)
  show ?case
  proof (cases "ofile (procs s ! me) ! fd")
    case None
    then show ?thesis using Cons by auto
  next
    case (Some f)
    obtain w t where t: "fileclose k f s = Ok (w, t)"
      and r: "exit_files k me fds (upd_proc me (\<lambda>p. p\<lparr>ofile := (ofile p)[fd := None]\<rparr>) (wake_pipes me w t)) = Ok s'"
      using Cons.prems(1) Some by auto
    let ?u = "wake_pipes me w t"
    have fd: "fd < NOFILE" using Cons.prems(4) by simp
    have f: "f < length (ftable s)" by (rule refs_okD(4) [OF Cons.prems(2,3) fd Some])
    note d = fileclose_refs [OF t Cons.prems(2) f]
    note w = wake_pipes_files [of t me w]
    note l = same_filesD(1,4) [OF w, unfolded d(2)] same_filesD(2) [OF w, unfolded d(3)]
    have "refs_ok (held f (owed f e)) (upd_proc me (\<lambda>p. p\<lparr>ofile := (ofile p)[fd := None]\<rparr>) ?u)"
      by (rule fd_clear_refs [OF same_files_refs [OF d(1) w]]) (use l Cons.prems(3) fd Some in simp_all)
    then have "refs_ok e (upd_proc me (\<lambda>p. p\<lparr>ofile := (ofile p)[fd := None]\<rparr>) ?u)" by simp
    from Cons.IH [OF r this] Cons.prems(3,4) l refs_okD(3) [OF Cons.prems(2,3)] show ?thesis
      by (auto simp: nth_list_update split: if_splits)
  qed
qed simp

section \<open>System calls on descriptors\<close>

lemma idle_ok_upd: "idle_ok ps \<Longrightarrow> (live p \<or> set (ofile p) \<subseteq> {None}) \<Longrightarrow> idle_ok (ps[i := p])"
  unfolding idle_ok_def using set_update_subset_insert [of ps i p] by blast

lemma files_atD:
  assumes "files_at e me s"
  shows "refs_ok e s" "idle_ok (procs s)" "length (ftable s) = NFILE" "me < length (procs s)" "live (procs s ! me)"
  using assms by (simp_all add: files_at_def files_ok_def)

lemma files_atI: "files_at e me s \<Longrightarrow> refs_ok e' t \<Longrightarrow> procs t = procs s \<Longrightarrow> length (ftable t) = length (ftable s) \<Longrightarrow> files_at e' me t"
  by (simp add: files_at_def files_ok_def)

lemma filealloc_at: "filealloc s = (Some f, t) \<Longrightarrow> files_at e me s \<Longrightarrow> files_at (held f e) me t \<and> f < NFILE \<and> f_ref (ftable t ! f) = 1"
  using filealloc_refs [of s f t e] by (auto simp: files_at_def files_ok_def)

lemma filedup_at: "filedup f s = Ok t \<Longrightarrow> files_at e me s \<Longrightarrow> f < NFILE \<Longrightarrow> files_at (held f e) me t"
  using filedup_refs [of f s t e] by (auto simp: files_at_def files_ok_def)

lemma fileclose_at: "fileclose k f s = Ok (w, t) \<Longrightarrow> files_at e me s \<Longrightarrow> f < NFILE \<Longrightarrow> files_at (owed f e) me t"
  using fileclose_refs [of k f s w t e] by (auto simp: files_at_def files_ok_def)

lemma fclose_at: "fclose k me f s = Ok t \<Longrightarrow> files_at e me s \<Longrightarrow> f < NFILE \<Longrightarrow> files_at (owed f e) me t"
  by (auto simp: fclose_def dest!: fileclose_at intro: same_files_at [OF _ wake_pipes_files])

lemma upd_fd_at:
  assumes "files_at e me s" "refs_ok e' (upd_proc me (\<lambda>p. p\<lparr>ofile := u p\<rparr>) s)"
  shows "files_at e' me (upd_proc me (\<lambda>p. p\<lparr>ofile := u p\<rparr>) s)"
  using assms by (auto simp: files_at_def files_ok_def live_def intro!: idle_ok_upd)

lemma fdalloc_at:
  assumes "fdalloc me f s = (Some fd, t)" "files_at e me s" "f < NFILE"
  shows "files_at (owed f e) me t \<and> fd < NOFILE \<and> ofile (procs t ! me) ! fd = Some f"
proof -
  note d = files_atD [OF assms(2)]
  have t: "t = upd_proc me (\<lambda>p. p\<lparr>ofile := (ofile p)[fd := Some f]\<rparr>) s"
    using assms(1) by (auto simp: fdalloc_def split: option.splits)
  note r = fdalloc_refs [OF assms(1) d(1,4)]
  show ?thesis using upd_fd_at [OF assms(2), of "owed f e" "\<lambda>p. (ofile p)[fd := Some f]"] r d(3) assms(3) t by simp
qed

lemma fd_clear_at:
  assumes "files_at e me s" "fd < NOFILE" "ofile (procs s ! me) ! fd = Some f"
  shows "files_at (held f e) me (fd_clear me fd s)"
  unfolding fd_clear_def
  by (rule upd_fd_at [OF assms(1)], rule fd_clear_refs) (use files_atD [OF assms(1)] assms(2,3) in simp_all)

lemma argfd_file:
  assumes "argfd me n s = Ok (Some (fd, f))" "files_at e me s"
  shows "fd < NOFILE \<and> ofile (procs s ! me) ! fd = Some f \<and> f < NFILE"
proof -
  have "fd < NOFILE" "ofile (procs s ! me) ! fd = Some f" using assms(1) by (auto simp: argfd_def split: if_splits option.splits)
  then show ?thesis using refs_okD(4) [OF files_atD(1,4) [OF assms(2)]] files_atD(3) [OF assms(2)] by simp
qed

lemma sys_dup_files:
  assumes "sys_dup me s = Ok (r, s')" "files_at e me s"
  shows "files_at e me s'"
proof -
  obtain a where a: "argfd me 0 s = Ok a" using assms(1) by (auto simp: sys_dup_def)
  show ?thesis
  proof (cases a)
    case None
    then show ?thesis using assms a by (auto simp: sys_dup_def)
  next
    case (Some q)
    then obtain fd f where q: "a = Some (fd, f)" by (cases q) auto
    obtain b t where b: "fdalloc me f s = (b, t)" by fastforce
    show ?thesis
    proof (cases b)
      case None
      then show ?thesis using assms a q b fdalloc_none by (auto simp: sys_dup_def)
    next
      case (Some fd')
      then have "filedup f t = Ok s'" using assms a q b by (auto simp: sys_dup_def)
      then show ?thesis
        using fdalloc_at [OF b [unfolded Some] assms(2)] argfd_file [OF a [unfolded q] assms(2)] filedup_at [of f t s' "owed f e"] by simp
    qed
  qed
qed

lemma sys_close_files:
  assumes "sys_close k me s = Ok (r, s')" "files_at e me s"
  shows "files_at e me s'"
proof -
  obtain a where a: "argfd me 0 s = Ok a" using assms(1) by (auto simp: sys_close_def)
  show ?thesis
  proof (cases a)
    case None
    then show ?thesis using assms a by (auto simp: sys_close_def)
  next
    case (Some q)
    then obtain fd f where q: "a = Some (fd, f)" by (cases q) auto
    then have "fclose k me f (fd_clear me fd s) = Ok s'" using assms a by (auto simp: sys_close_def)
    then show ?thesis
      using fclose_at [of k me f _ s' "held f e"] fd_clear_at [OF assms(2)] argfd_file [OF a [unfolded q] assms(2)] by simp
  qed
qed

lemma upd_file_at:
  assumes "files_at e me s" "f < NFILE" "f_ref (ftable s ! f) \<noteq> 0" "\<And>x. f_ref (g x) = f_ref x"
  shows "files_at e me (upd_file f g s)" "f_ref (ftable (upd_file f g s) ! i) = f_ref (ftable s ! i)"
proof -
  note d = files_atD [OF assms(1)]
  have "refs_ok (e(f := e f + 0)) (upd_file f g s)" by (rule refs_upd_file [OF d(1)]) (use d(3) assms in simp_all)
  then show "files_at e me (upd_file f g s)" by (intro files_atI [OF assms(1)]) simp_all
  show "f_ref (ftable (upd_file f g s) ! i) = f_ref (ftable s ! i)"
    using assms(2,4) d(3) by (cases "i = f") simp_all
qed

lemma filealloc_keeps: "filealloc s = (Some g, t) \<Longrightarrow> f_ref (ftable s ! f) \<noteq> 0 \<Longrightarrow> f_ref (ftable t ! f) \<noteq> 0"
  by (cases "f = g") (auto simp: filealloc_def upd_file_def first_idx_Some split: option.splits)

lemma kalloc_files: "kalloc s = (a, s') \<Longrightarrow> same_files s s' \<and> ftable s' = ftable s" for s s' :: "'z kern_scheme"
  using more_kern(5) [OF more_up(1) [OF kalloc_frame]] same_files_more [OF more_up(1) [OF kalloc_frame]] by blast

lemma pipe_ends_at:
  assumes "files_at e me s" "f0 < NFILE" "f1 < NFILE" "f_ref (ftable s ! f0) \<noteq> 0" "f_ref (ftable s ! f1) \<noteq> 0"
  shows "files_at e me (upd_file f1 (\<lambda>x. x\<lparr>f_type := FD_PIPE, readable := False, writable := True, f_pipe := pi\<rparr>)
    (upd_file f0 (\<lambda>x. x\<lparr>f_type := FD_PIPE, readable := True, writable := False, f_pipe := pi\<rparr>) (s\<lparr>pipes := q\<rparr>)))"
proof -
  have q: "files_at e me (s\<lparr>pipes := q\<rparr>)" by (rule same_files_at [OF assms(1)]) simp
  let ?g = "\<lambda>x. x\<lparr>f_type := FD_PIPE, readable := True, writable := False, f_pipe := pi\<rparr>"
  note a = upd_file_at [OF q assms(2), of ?g]
  show ?thesis by (rule upd_file_at(1) [OF a(1) assms(3)]) (use a(2) assms(4,5) in simp_all)
qed

lemma pipealloc_files:
  assumes "pipealloc k s = Ok (r, s')" "files_at e me s"
  shows "case r of None \<Rightarrow> files_at e me s'
    | Some (f0, f1) \<Rightarrow> files_at (held f1 (held f0 e)) me s' \<and> f0 < NFILE \<and> f1 < NFILE"
proof -
  obtain a t where a: "filealloc s = (a, t)" by fastforce
  obtain b u where b: "filealloc t = (b, u)" by fastforce
  obtain pi v where c: "kalloc u = (pi, v)" by fastforce
  show ?thesis
  proof (cases a)
    case None
    then show ?thesis using assms a filealloc_none by (auto simp: pipealloc_def)
  next
    case A: (Some f0)
    note t = filealloc_at [OF a [unfolded A] assms(2)]
    show ?thesis
    proof (cases b)
      case None
      then have "u = t" using b filealloc_none by blast
      then show ?thesis using assms(1) a b A None t fileclose_at [of k f0 t _ s' "held f0 e"] by (auto simp: pipealloc_def)
    next
      case B: (Some f1)
      note u = filealloc_at [OF b [unfolded B] conjunct1 [OF t]]
      note k = kalloc_files [OF c]
      have v: "files_at (held f1 (held f0 e)) me v" using u k same_files_at by blast
      have n: "f_ref (ftable v ! f0) \<noteq> 0" "f_ref (ftable v ! f1) \<noteq> 0"
        using filealloc_keeps [OF b [unfolded B], of f0] t u k by simp_all
      show ?thesis
      proof (cases "pi = 0")
        case True
        then obtain w x w' where x: "fileclose k f0 v = Ok (w, x)" "fileclose k f1 x = Ok (w', s')" "r = None"
          using assms(1) a b c A B by (auto simp: pipealloc_def)
        have "files_at (held f1 e) me x" using fileclose_at [OF x(1) v] t by simp
        then show ?thesis using fileclose_at [OF x(2)] x(3) u by fastforce
      next
        case False
        then have "r = Some (f0, f1)" and s': "s' = upd_file f1 (\<lambda>x. x\<lparr>f_type := FD_PIPE, readable := False, writable := True, f_pipe := pi\<rparr>)
          (upd_file f0 (\<lambda>x. x\<lparr>f_type := FD_PIPE, readable := True, writable := False, f_pipe := pi\<rparr>)
            (v\<lparr>pipes := (pipes v)(pi := pipe_init (bytes_at (mem v) (pi + 24) PIPESIZE))\<rparr>))"
          using assms(1) a b c A B by (auto simp: pipealloc_def Let_def simp del: upd_file_simps)
        then show ?thesis using pipe_ends_at [OF v _ _ n] t u by simp
      qed
    qed
  qed
qed

lemma close2_files:
  assumes "files_at (held f1 (held f0 e)) me s" "f0 < NFILE" "f1 < NFILE"
  shows "safeR (\<lambda>(r, s). files_at e me s) (bindR (fclose k me f0 s) (\<lambda>s. bindR (fclose k me f1 s) (\<lambda>s. Ok (-1 :: int, s))))"
proof (rule safeR_bind [of "files_at (held f1 e) me"])
  show "safeR (files_at (held f1 e) me) (fclose k me f0 s)"
    using fclose_at [OF _ assms(1,2)] by (auto simp: safeR_def)
  fix t assume t: "files_at (held f1 e) me t"
  show "safeR (\<lambda>(r, s). files_at e me s) (bindR (fclose k me f1 t) (\<lambda>s. Ok (-1 :: int, s)))"
    using fclose_at [OF _ t assms(3)] by (auto simp: safeR_def)
qed

lemma held_commute: "held f (held g e) = held g (held f e)"
  by (auto simp: held_def)

lemma fdalloc_keeps:
  assumes "fdalloc me f s = (Some fd, t)" "ofile (procs s ! me) ! fd' = Some g" "me < length (procs s)"
  shows "fd' \<noteq> fd \<and> ofile (procs t ! me) ! fd' = Some g"
  using assms by (cases "fd' = fd") (auto simp: fdalloc_def first_idx_Some split: option.splits)

lemma copyout_files: "copyout pt a b n s = (r, s') \<Longrightarrow> same_files s s'" for s s' :: "'z kern_scheme"
  by (rule same_files_more [OF more_up(1) [OF copyout_frame]])

lemma both_clear_at:
  assumes "files_at e me s" "fd0 < NOFILE" "fd1 < NOFILE" "fd0 \<noteq> fd1" "ofile (procs s ! me) ! fd0 = Some fr" "ofile (procs s ! me) ! fd1 = Some fw"
  shows "files_at (held fw (held fr e)) me (fd_clear me fd1 (fd_clear me fd0 s))"
  by (rule fd_clear_at [OF fd_clear_at [OF assms(1,2,5)] assms(3)])
    (use assms files_atD(4) [OF assms(1)] in \<open>simp add: fd_clear_def\<close>)

text \<open>The tail of \<^verbatim>\<open>sys_pipe\<close>: both descriptors are there, and the numbers are copied to the caller.\<close>

lemma pipe_copy_files:
  assumes "files_at e me s" "fd0 < NOFILE" "fd1 < NOFILE" "fd0 \<noteq> fd1" "fr < NFILE" "fw < NFILE"
    "ofile (procs s ! me) ! fd0 = Some fr" "ofile (procs s ! me) ! fd1 = Some fw"
  shows "safeR (\<lambda>(r, s). files_at e me s)
    (case copyout pt a b n (s\<lparr>mem := m\<rparr>) of (r0, s) \<Rightarrow>
      case (if r0 < 0 then (-1, s) else copyout pt a' b' n s) of (r1, s) \<Rightarrow>
        if r1 < 0
        then bindR (fclose k me fr (fd_clear me fd1 (fd_clear me fd0 s))) (\<lambda>s. bindR (fclose k me fw s) (\<lambda>s. Ok (-1 :: int, s)))
        else Ok (0, s))"
proof -
  obtain r0 t where t: "copyout pt a b n (s\<lparr>mem := m\<rparr>) = (r0, t)" by fastforce
  obtain r1 u where u: "(if r0 < 0 then (-1, t) else copyout pt a' b' n t) = (r1, u)" by fastforce
  have "same_files s (s\<lparr>mem := m\<rparr>)" by simp
  then have "same_files s t" using copyout_files [OF t] by (rule same_files_trans)
  moreover have "same_files t u" using u by (auto split: if_splits dest: copyout_files)
  ultimately have su: "same_files s u" by (rule same_files_trans)
  note f = same_files_at [OF assms(1) su] same_filesD(4) [OF su files_atD(4) [OF assms(1)]]
  note c = close2_files [OF both_clear_at [OF f(1) assms(2-4)] assms(5,6)]
  show ?thesis unfolding t prod.case u using c assms(7,8) f by simp
qed

lemma sys_pipe_files:
  assumes "files_at e me s"
  shows "safeR (\<lambda>(r, s'). files_at e me s') (sys_pipe k me s)"
  unfolding sys_pipe_def Let_def
proof (rule safeR_bind [of "\<lambda>_. True"], simp add: safeR_def,
    rule safeR_bind [of "\<lambda>(r, t). case r of None \<Rightarrow> files_at e me t | Some (f0, f1) \<Rightarrow> files_at (held f1 (held f0 e)) me t \<and> f0 < NFILE \<and> f1 < NFILE"],
    goal_cases)
  case (1 x)
  then show ?case using pipealloc_files [OF _ assms] by (auto simp: safeR_def)
next
  case (2 fdarray x)
  obtain q t where x: "x = (q, t)" by fastforce
  show ?case
  proof (cases q)
    case None
    then show ?thesis using 2 x by simp
  next
    case (Some z)
    obtain fr fw where z: "z = (fr, fw)" by fastforce
    have t: "files_at (held fw (held fr e)) me t" "fr < NFILE" "fw < NFILE" using 2 x Some z by simp_all
    obtain a u where a: "fdalloc me fr t = (a, u)" by fastforce
    obtain b v where b: "fdalloc me fw u = (b, v)" by fastforce
    show ?thesis
    proof (cases a)
      case None
      then show ?thesis using close2_files [OF t] a x Some z fdalloc_none [of me fr t] by simp
    next
      case A: (Some fd0)
      have u: "files_at (held fw e) me u" "fd0 < NOFILE" "ofile (procs u ! me) ! fd0 = Some fr"
        using fdalloc_at [OF a [unfolded A] t(1,2)] by simp_all
      show ?thesis
      proof (cases b)
        case None
        have "files_at (held fw (held fr e)) me (fd_clear me fd0 u)"
          using fd_clear_at [OF u] by (simp add: held_commute)
        from close2_files [OF this t(2,3)] show ?thesis using a A b None x Some z fdalloc_none [of me fw u] by simp
      next
        case B: (Some fd1)
        have v: "files_at e me v" "fd1 < NOFILE" "ofile (procs v ! me) ! fd1 = Some fw"
          using fdalloc_at [OF b [unfolded B] u(1) t(3)] by simp_all
        have n: "fd0 \<noteq> fd1" "ofile (procs v ! me) ! fd0 = Some fr"
          using fdalloc_keeps [OF b [unfolded B] u(3) files_atD(4) [OF u(1)]] by simp_all
        show ?thesis
          unfolding x Some z prod.case option.case a A b B
          by (rule pipe_copy_files [OF v(1) u(2) v(2) n(1) t(2,3) n(2) v(3)])
      qed
    qed
  qed
qed

lemma open_file_at:
  assumes "files_at e me s" "filealloc s = (Some f, t)" "fdalloc me f t = (Some fd, u)"
  shows "files_at e me (open_file f omode ip u)"
proof -
  note t = filealloc_at [OF assms(2,1)]
  have u: "files_at e me u" using fdalloc_at [OF assms(3)] t by fastforce
  have f: "f < NFILE" "f_ref (ftable u ! f) \<noteq> 0"
    using t fdalloc_refs(4) [OF assms(3) files_atD(1,4) [OF conjunct1 [OF t]]] files_atD(3) [OF conjunct1 [OF t]] by simp_all
  define g where "g x = (if i_type (itable u ! ip) = T_DEVICE then x\<lparr>f_type := FD_DEVICE, f_major := i_major (itable u ! ip)\<rparr>
    else x\<lparr>f_type := FD_INODE, f_off := 0\<rparr>)" for x :: kfile
  have g: "f_ref (g x) = f_ref x" for x by (simp add: g_def)
  have "open_file f omode ip u = upd_file f (\<lambda>y. y\<lparr>f_ip := ip, readable := (omode AND O_WRONLY = 0),
           writable := (omode AND O_WRONLY \<noteq> 0 \<or> omode AND O_RDWR \<noteq> 0)\<rparr>) (upd_file f g u)"
    by (simp add: open_file_def Let_def g_def [abs_def])
  moreover note a = upd_file_at [OF u f g]
  ultimately show ?thesis using upd_file_at(1) [OF a(1) f(1)] a(2) f(2) by simp
qed

section \<open>Fork, exit and wait\<close>

lemma slot_files:
  assumes "files_ok e s" "i < length (procs s)" "procs t = (procs s)[i := p]" "ofile p = ofile (procs s ! i)" "ftable t = ftable s"
    "live p \<or> set (ofile p) \<subseteq> {None}"
  shows "files_ok e t"
proof -
  have r: "refs_ok e s" "idle_ok (procs s)" "length (ftable s) = NFILE" using assms(1) by (simp_all add: files_ok_def)
  have "refs_ok e t"
    by (rule refs_okI) (use refs_okD [OF r(1)] assms in \<open>auto simp: file_refs_upd nth_list_update split: if_splits\<close>)
  then show ?thesis using idle_ok_upd [OF r(2) assms(6), of i] r(3) assms(3,5) by (simp add: files_ok_def)
qed

lemma idle_slot: "files_ok e s \<Longrightarrow> i < length (procs s) \<Longrightarrow> \<not> live (procs s ! i) \<Longrightarrow> set (ofile (procs s ! i)) \<subseteq> {None}"
  by (simp add: files_ok_def idle_ok_def)

lemma allocproc_files:
  assumes "allocproc k pbs s = Some (Ok (r, t))" "files_ok e s"
  shows "files_ok e t"
proof -
  consider "procs t = procs s" "ftable t = ftable s"
    | i p where "i < length (procs s)" "state (procs s ! i) = UNUSED" "procs t = (procs s)[i := p]" "ofile p = ofile (procs s ! i)" "ftable t = ftable s"
    using allocproc_effect [OF assms(1)] by blast
  then show ?thesis
  proof cases
    case 1
    then show ?thesis by (intro same_files_ok [OF assms(2)]) (simp add: same_files_def)
  next
    case (2 i p)
    then show ?thesis using slot_files [OF assms(2) 2(1,3,4,5)] idle_slot [OF assms(2) 2(1)] by (simp add: live_def)
  qed
qed

lemma freeproc_files:
  assumes "freeproc k i s = Some (Ok s')" "files_ok e s" "i < length (procs s)" "set (ofile (procs s ! i)) \<subseteq> {None}"
  shows "files_ok e s'"
proof -
  obtain p where "procs s' = (procs s)[i := p]" "ofile p = ofile (procs s ! i)" "ftable s' = ftable s"
    using freeproc_effect [OF assms(1,3)] by blast
  then show ?thesis using slot_files [OF assms(2,3)] assms(4) by simp
qed

lemma fork_child_files:
  assumes "fork_files me i [0..<NOFILE] s = Ok w" "files_at e me s" "me \<noteq> i" "i < length (procs s)" "live (procs s ! i)"
    "set (ofile (procs s ! i)) \<subseteq> {None}"
  shows "files_at e me w" "live (procs w ! i)"
proof -
  note d = files_atD [OF assms(2)]
  note len = refs_okD(3) [OF d(1) assms(4)]
  have "\<forall>fd \<in> set [0..<NOFILE]. ofile (procs s ! i) ! fd = None"
    using assms(6) len by (metis atLeast0LessThan lessThan_iff nth_mem set_upt singletonD subset_eq)
  from fork_files_refs [OF assms(1) d(1) assms(3) d(4) assms(4) distinct_upt _ this]
  have r: "refs_ok e w" "length (ftable w) = length (ftable s)" "\<And>j. j < length (procs s) \<Longrightarrow> j \<noteq> i \<Longrightarrow> procs w ! j = procs s ! j"
    by (simp_all add: lessThan_atLeast0)
  note st = fork_files_table [OF assms(1)]
  note l = same_table_len [OF st]
  show live: "live (procs w ! i)" using same_table_nth [OF st assms(4), THEN pkeyD(7)] assms(5) by simp
  have "idle_ok (procs w)" unfolding idle_ok_def all_set_conv_all_nth
  proof (intro allI impI)
    fix j assume "j < length (procs w)" "\<not> live (procs w ! j)"
    then show "set (ofile (procs w ! j)) \<subseteq> {None}"
      using live r(3) [of j] d(2) l by (cases "j = i") (simp_all add: idle_ok_def)
  qed
  then show "files_at e me w" using r d l assms(3) by (simp add: files_at_def files_ok_def)
qed

lemma fork_files_run:
  assumes "fork k pbs me s = Some (Ok (r, s'))" "files_at e me s"
  shows "files_at e me s'"
proof -
  note d = files_atD [OF assms(2)]
  have ok: "files_ok e s" using assms(2) by (simp add: files_at_def)
  obtain np t where a: "allocproc k pbs s = Some (Ok (np, t))" using assms(1) by (auto simp: fork_def)
  note t = allocproc_files [OF a ok]
  show ?thesis
  proof (cases np)
    case None
    then have "s' = t" using assms(1) a by (auto simp: fork_def)
    moreover have "live (procs t ! me) \<and> me < length (procs t)"
      using allocproc_effect [OF a] None d(4,5) by (auto simp: nth_list_update live_def split: if_splits)
    ultimately show ?thesis using t by (simp add: files_at_def)
  next
    case (Some i)
    obtain p where i: "i < length (procs s)" "state (procs s ! i) = UNUSED" "procs t = (procs s)[i := p]" "new_slot (nextpid s) (procs s ! i) p"
      using allocproc_effect [OF a] Some by auto
    have me: "me \<noteq> i" using i(2) d(5) by (auto simp: live_def)
    have p: "live p" "ofile p = ofile (procs s ! i)" "set (ofile p) \<subseteq> {None}"
      using i(4) idle_slot [OF ok i(1)] i(2) by (auto simp: new_slot_def live_def)
    obtain q u where c: "uvmcopy (k_end k) (pagetable (procs t ! me)) (pagetable (procs t ! i)) (sz (procs t ! me)) t = Ok (q, u)"
      using assms(1) a Some by (auto simp: fork_def)
    have tu: "same_files t u" by (rule same_files_more [OF more_up(1) [OF uvmcopy_frame [OF c]]])
    have "files_at e me t" using t i me d(4,5) by (simp add: files_at_def)
    from same_files_at [OF this tu] have u: "files_at e me u" .
    have ui: "i < length (procs u)" "live (procs u ! i)" "set (ofile (procs u ! i)) \<subseteq> {None}"
      using same_filesD(1,3,4) [OF tu] i p by simp_all
    show ?thesis
    proof (cases "q < 0")
      case True
      then have f: "freeproc k i u = Some (Ok s')" using assms(1) a Some c by (auto simp: fork_def)
      show ?thesis
        using freeproc_files [OF f _ ui(1,3)] freeproc_effect [OF f ui(1)] u me by (auto simp: files_at_def)
    next
      case False
      obtain z m tm w nm ip where w: "fork_files me i [0..<NOFILE]
            (upd_proc i (\<lambda>q. q\<lparr>trace_mask := tm\<rparr>) (upd_proc i (\<lambda>q. q\<lparr>sz := z\<rparr>) (u\<lparr>mem := m\<rparr>))) = Ok w"
        and s': "s' = upd_proc i (\<lambda>q. q\<lparr>state := RUNNABLE\<rparr>) (upd_proc i (\<lambda>q. q\<lparr>parent := Some me\<rparr>)
          (upd_proc i (\<lambda>q. q\<lparr>pname := nm\<rparr>) (upd_proc i (\<lambda>q. q\<lparr>cwd := Some ip\<rparr>) (idup ip w))))"
        using fork_success [OF assms(1) a [unfolded Some] c False] by blast
      let ?x = "upd_proc i (\<lambda>q. q\<lparr>trace_mask := tm\<rparr>) (upd_proc i (\<lambda>q. q\<lparr>sz := z\<rparr>) (u\<lparr>mem := m\<rparr>))"
      have x: "same_files u ?x"
        by (rule same_files_trans [OF same_files_trans [OF _ same_files_upd] same_files_upd, of _ "u\<lparr>mem := m\<rparr>"]) (simp_all add: fkey_def live_def)
      have "i < length (procs ?x)" "live (procs ?x ! i)" "set (ofile (procs ?x ! i)) \<subseteq> {None}"
        using same_filesD(1) [OF x] same_filesD(3,4) [OF x ui(1)] ui by (simp_all del: upd_proc_simps)
      note fc = fork_child_files [OF w same_files_at [OF u x] me this]
      have "same_files w (idup ip w)" by (rule same_files_more) simp
      then have y: "same_files w (upd_proc i (\<lambda>q. q\<lparr>parent := Some me\<rparr>)
          (upd_proc i (\<lambda>q. q\<lparr>pname := nm\<rparr>) (upd_proc i (\<lambda>q. q\<lparr>cwd := Some ip\<rparr>) (idup ip w))))" (is "same_files w ?y")
        by (intro same_files_trans [OF same_files_trans [OF same_files_trans [OF _ same_files_upd] same_files_upd] same_files_upd]) (simp_all add: fkey_def live_def)
      have "live (procs ?y ! i)" using same_filesD(3) [OF y, of i] fc(2) same_table_len [OF fork_files_table [OF w]] ui(1) by simp
      then have "same_files ?y s'" unfolding s' by (intro same_files_upd) (simp add: fkey_def live_def del: upd_proc_simps)
      then show ?thesis using same_files_at [OF fc(1)] same_files_trans [OF y] by blast
    qed
  qed
qed

lemma fkey_reparent:
  assumes "ini \<noteq> me"
  shows "map fkey (reparent ini me ps) = map fkey ps"
proof -
  have "set [0..<length ps] \<subseteq> {..<length ps}" by auto
  note r = reparent_loop_spec [OF _ this assms, of "Some me"]
  have "reparent ini me ps ! i = reparented (Some me) ini me (set [0..<length ps]) ps i" if "i < length ps" for i
    using r that by (simp add: reparent_def)
  moreover have "length (reparent ini me ps) = length ps" using r by (simp add: reparent_def)
  moreover have "fkey (wake ch p) = fkey p" for ch p by (simp add: wake_def fkey_def live_def)
  ultimately show ?thesis by (intro nth_equalityI) (auto simp: reparented_def Let_def fkey_def live_def)
qed

text \<open>After \<^verbatim>\<open>exit\<close> the zombie has no open files, and the references it held are gone.\<close>

lemma exit_files_all:
  assumes "exit_files k me [0..<NOFILE] s = Ok u" "files_at e me s"
  shows "files_at e me u" "set (ofile (procs u ! me)) \<subseteq> {None}"
proof -
  note d = files_atD [OF assms(2)]
  have sub: "set [0..<NOFILE] \<subseteq> {..<NOFILE}" by auto
  from exit_files_refs [OF assms(1) d(1,4) sub]
  have r: "refs_ok e u" "length (ftable u) = length (ftable s)" "\<And>i. i < length (procs s) \<Longrightarrow> i \<noteq> me \<Longrightarrow> ofile (procs u ! i) = ofile (procs s ! i)"
    "\<And>fd. fd < NOFILE \<Longrightarrow> ofile (procs u ! me) ! fd = None"
    by simp_all
  note st = exit_files_table [OF assms(1)]
  note len = same_table_len [OF st]
  note live = same_table_nth [OF st, THEN pkeyD(7)]
  show "set (ofile (procs u ! me)) \<subseteq> {None}"
    using r(4) refs_okD(3) [OF r(1), of me] d(4) len by (auto simp: in_set_conv_nth)
  have "idle_ok (procs u)" unfolding idle_ok_def all_set_conv_all_nth
  proof (intro allI impI)
    fix i assume "i < length (procs u)" "\<not> live (procs u ! i)"
    then show "set (ofile (procs u ! i)) \<subseteq> {None}"
      using r(3) [of i] live [of i] d(2,5) len by (cases "i = me") (simp_all add: idle_ok_def)
  qed
  then show "files_at e me u" using r(1,2) d(3-5) len live [of me] by (simp add: files_at_def files_ok_def)
qed

lemma exit_files_ok:
  assumes "exit k me status s = Ok s'" "files_at e me s"
  shows "files_ok e s'"
proof -
  obtain ini t ch u v where e: "ini \<noteq> me" "exit_files k me [0..<NOFILE] s = Ok u" "fs.more v = fs.more u"
    "t = upd_proc me (\<lambda>p. p\<lparr>cwd := None\<rparr>) v" and
    s': "s' = upd_proc me (\<lambda>p. p\<lparr>xstate := status, state := ZOMBIE, etime := kticks t\<rparr>)
      (t\<lparr>procs := wakeup (Some me) ch (reparent ini me (procs t))\<rparr>)"
    using exit_effect [OF assms(1)] by blast
  note u = exit_files_all [OF e(2) assms(2)]
  let ?w = "t\<lparr>procs := wakeup (Some me) ch (reparent ini me (procs t))\<rparr>"
  have "same_files v t" unfolding e(4) by (rule same_files_upd) (simp add: fkey_def live_def)
  moreover have "same_files t ?w" by (simp add: fkey_reparent [OF e(1)])
  ultimately have uw: "same_files u ?w" using same_files_more [OF e(3)] by (blast intro: same_files_trans)
  note w = same_files_at [OF u(1) uw] same_filesD(4) [OF uw files_atD(4) [OF u(1)]]
  show ?thesis
    by (rule slot_files [where p = "(procs ?w ! me)\<lparr>xstate := status, state := ZOMBIE, etime := kticks t\<rparr>" and i = me and s = ?w])
      (use w u(2) in \<open>simp_all add: s' files_at_def\<close>)
qed

lemma wait_child_files:
  assumes "wait_child k me addr i s = Some (Ok (r, s'))" "files_at e me s" "i < length (procs s)" "state (procs s ! i) = ZOMBIE"
  shows "files_at e me s'"
proof -
  define t where "t = s\<lparr>mem := store_le 4 (mem s) (k_xstate k i) (xstate (procs s ! i))\<rparr>"
  obtain q u where c: "(if addr \<noteq> 0 then copyout (pagetable (procs t ! me)) addr (k_xstate k i) 4 t else (0, t)) = (q, u)" by fastforce
  have "same_files t u" using c by (auto split: if_splits dest: copyout_files)
  then have su: "same_files s u" by (rule same_files_trans [rotated]) (simp add: t_def)
  have w: "wait_child k me addr i s =
      (if q < 0 then Some (Ok (WRet (-1), u)) else bindN (freeproc k i u) (\<lambda>s'. Some (Ok (WRet (pid (procs s ! i)), s'))))"
    unfolding wait_child_def Let_def t_def [symmetric] c by simp
  note u = same_files_at [OF assms(2) su]
  have i: "i < length (procs u)" "\<not> live (procs u ! i)" using same_filesD(1,3) [OF su] assms(3,4) by (simp_all add: live_def)
  show ?thesis
  proof (cases "q < 0")
    case False
    then have f: "freeproc k i u = Some (Ok s')" using assms(1) w by auto
    have "me \<noteq> i" using i(2) files_atD(5) [OF u] by auto
    moreover have "files_ok e u" using u by (simp add: files_at_def)
    from freeproc_files [OF f this i(1) idle_slot [OF this i]] calculation show ?thesis
      using freeproc_effect [OF f i(1)] u by (auto simp: files_at_def)
  qed (use assms(1) w u in simp)
qed

lemma wait_idle_files: "wait_idle me s = (r, s') \<Longrightarrow> files_at e me s \<Longrightarrow> files_at e me s'"
proof -
  assume a: "wait_idle me s = (r, s')" "files_at e me s"
  have "same_files s (upd_proc me (sleep_on ch) s)" for ch
    by (rule same_files_upd) (use files_atD(5) [OF a(2)] in \<open>simp add: fkey_def sleep_on_def live_def\<close>)
  then show ?thesis using a same_files_at [OF a(2)] by (auto simp: wait_idle_def split: if_splits)
qed

lemma wait_files:
  assumes "wait k me addr s = Some (Ok (r, s'))" "files_at e me s"
  shows "files_at e me s'"
proof (cases "first_idx (is_zombie_of me) (procs s)")
  case None
  then show ?thesis using assms wait_idle_files by (simp add: wait_def)
next
  case (Some i)
  then have "wait_child k me addr i s = Some (Ok (r, s'))" using assms(1) by (simp add: wait_def)
  then show ?thesis by (rule wait_child_files [OF _ assms(2)]) (use Some in \<open>simp_all add: first_idx_Some is_zombie_of_def\<close>)
qed

lemma waitx_files:
  assumes "waitx k me addr s = Some (Ok (r, tm, s'))" "files_at e me s"
  shows "files_at e me s'"
proof (cases "first_idx (is_zombie_of me) (procs s)")
  case None
  then have "wait_idle me s = (r, s')" using assms(1) by (auto simp: waitx_def split: prod.splits)
  then show ?thesis by (rule wait_idle_files [OF _ assms(2)])
next
  case (Some i)
  then have "wait_child k me addr i s = Some (Ok (r, s'))" using assms(1) by (auto simp: waitx_def Let_def)
  then show ?thesis by (rule wait_child_files [OF _ assms(2)]) (use Some in \<open>simp_all add: first_idx_Some is_zombie_of_def\<close>)
qed

section \<open>The invariant through every trap\<close>

lemma kill_files: "same_files s (s\<lparr>procs := snd (kill pd (procs s))\<rparr>)"
proof -
  have "same_files s (upd_proc i (\<lambda>p. let p = p\<lparr>killed := True\<rparr> in if state p = SLEEPING then p\<lparr>state := RUNNABLE\<rparr> else p) s)" for i
    by (rule same_files_upd) (simp add: Let_def fkey_def live_def)
  then show ?thesis by (simp add: kill_def upd_proc_def Let_def split: option.splits)
qed

lemma priority_files: "same_files s (s\<lparr>procs := snd (set_priority pr pd (procs s))\<rparr>)"
proof -
  have "same_files s (upd_proc i (\<lambda>p. p\<lparr>spriority := pr, niceness := 5\<rparr>) s)" for i
    by (rule same_files_upd) (simp add: fkey_def live_def)
  then show ?thesis by (auto simp: set_priority_def upd_proc_def split: option.splits)
qed

lemma off_files: "same_files s (upd_file f (\<lambda>x. x\<lparr>f_off := g x\<rparr>) s)"
proof (cases "f < length (ftable s)")
  case True
  then have "map rkey ((ftable s)[f := (ftable s ! f)\<lparr>f_off := g (ftable s ! f)\<rparr>]) = (map rkey (ftable s))[f := map rkey (ftable s) ! f]"
    by (simp add: map_update rkey_def)
  then show ?thesis by (simp add: same_files_def)
qed (simp add: same_files_def list_update_beyond)

interpretation files: kernel_inv "files_run me" "files_ok (\<lambda>_. 0)" k pbs me for k pbs me
proof
  fix s s' :: "'a kern_scheme"
  assume J: "files_run me s"
  note run = same_files_at [OF J]
  note live = files_atD(5) [OF J]
  show "files_run me s'" if "fs.more s' = fs.more s" by (rule run [OF same_files_more [OF that]])
  show "files_ok (\<lambda>_. 0) s" using J by (simp add: files_at_def)
  show "files_run me (upd_proc me (cwd_update c) s)" "files_run me (upd_proc me (trace_mask_update tm) s)"
    "files_run me (upd_proc me (sz_update z) s)" "files_run me (upd_proc me (\<lambda>p. p\<lparr>pname := nm, pagetable := pt, sz := z'\<rparr>) s)"
    "files_run me (upd_proc me (sleep_on ch) s)" "files_run me (upd_proc me yield s)" for c tm z nm pt z' ch
    by (rule run, rule same_files_upd, use live in \<open>simp add: fkey_def live_def sleep_on_def yield_def\<close>)+
  show "files_run me (s\<lparr>procs := wakeup q ch (procs s)\<rparr>)" for q ch by (rule run) simp
  show "files_run me (s\<lparr>procs := snd (kill pd (procs s))\<rparr>)" for pd by (rule run [OF kill_files])
  have "same_files s (upd_proc me (\<lambda>p. p\<lparr>killed := True\<rparr>) s)" by (rule same_files_upd) (simp add: fkey_def live_def)
  then show "files_run me (s\<lparr>procs := setkilled me (procs s)\<rparr>)" by (intro run) (simp add: upd_proc_def setkilled_def)
  show "files_run me (s\<lparr>procs := snd (set_priority pr pd (procs s))\<rparr>)" for pr pd by (rule run [OF priority_files])
  show "files_run me (s\<lparr>kticks := tk, procs := time_updates (procs s)\<rparr>)" for tk
    by (rule run) (auto simp: same_files_def time_updates_def fkey_def live_def)
  show "files_run me (s\<lparr>pipes := q'\<rparr>)" for q' by (rule run) simp
  show "files_run me (upd_file f (\<lambda>x. x\<lparr>f_off := g x\<rparr>) s)" for f g by (rule run [OF off_files])
  show "safeR (\<lambda>(r, s). files_run me s) (sys_dup me s)" "safeR (\<lambda>(r, s). files_run me s) (sys_close k me s)"
    using sys_dup_files [OF _ J] sys_close_files [OF _ J] by (auto simp: safeR_def)
  show "safeR (\<lambda>(r, s). files_run me s) (sys_pipe k me s)" by (rule sys_pipe_files [OF J])
  show "files_run me (open_file f omode ip u)" if "filealloc s = (Some f, t)" "fdalloc me f t = (Some fd, u)" for f t fd u omode ip
    by (rule open_file_at [OF J that])
  show "safeR (files_run me) (fclose k me f u)" if "filealloc s = (Some f, t)" "fdalloc me f t = (None, u)" for f t u
    using filealloc_at [OF that(1) J] fdalloc_none [OF that(2)] fclose_at [of k me f u _ "held f (\<lambda>_. 0)"] by (auto simp: safeR_def)
  show "safeN (\<lambda>(r, s). files_run me s) (fork k pbs me s)" by (auto simp: safeN_def dest: fork_files_run [OF _ J])
  show "safeN (\<lambda>(r, s). files_run me s) (wait k me addr s)" for addr by (auto simp: safeN_def dest: wait_files [OF _ J])
  show "safeN (\<lambda>(r, x, s). files_run me s) (waitx k me addr s)" for addr by (auto simp: safeN_def dest: waitx_files [OF _ J])
  show "safeR (files_ok (\<lambda>_. 0)) (exit k me status s)" for status by (auto simp: safeR_def dest: exit_files_ok [OF _ J])
qed

lemma procinit_files:
  assumes "procs s = replicate NPROC zero_proc" "ftable s = replicate NFILE zero_file"
  shows "files_ok (\<lambda>_. 0) (procinit s)"
proof -
  have p: "ofile (procs (procinit s) ! i) = replicate NOFILE None" if "i < NPROC" for i
    using assms that by (simp add: procinit_def nth_enumerate_eq zero_proc_def)
  have len: "length (procs (procinit s)) = NPROC" "ftable (procinit s) = ftable s" using assms by (simp_all add: procinit_def)
  have "ofile q = replicate NOFILE None" if "q \<in> set (procs (procinit s))" for q
    using p len that by (auto simp: in_set_conv_nth)
  then have "map (\<lambda>q. int (count_list (ofile q) (Some f))) (procs (procinit s)) = map (\<lambda>_. 0) (procs (procinit s))" for f
    by (intro map_cong refl) (simp add: count_list_0_iff)
  then have "file_refs f (procs (procinit s)) = 0" for f
    unfolding file_refs_def by (simp only:) (simp add: map_replicate_const sum_list_replicate)
  then have "refs_ok (\<lambda>_. 0) (procinit s)" by (intro refs_okI) (simp_all add: p len assms(2) zero_file_def)
  moreover have "idle_ok (procs (procinit s))" using p len by (auto simp: idle_ok_def in_set_conv_nth)
  ultimately show ?thesis by (simp add: files_ok_def len assms(2))
qed

lemma userinit_files:
  assumes "userinit k pbs s = Some (Ok s')" "files_ok (\<lambda>_. 0) s"
  shows "files_ok (\<lambda>_. 0) s'"
proof -
  obtain i t u m v ip where a: "allocproc k pbs s = Some (Ok (Some i, t))" and u: "kmem.more u = kmem.more (t\<lparr>initproc := Some i\<rparr>)"
    and v: "fs.more v = fs.more (upd_proc i (\<lambda>p. p\<lparr>pname := ''initcode''\<rparr>) ((upd_proc i (\<lambda>p. p\<lparr>sz := PGSIZE\<rparr>) u)\<lparr>mem := m\<rparr>))"
    and s': "s' = upd_proc i (\<lambda>p. p\<lparr>cwd := ip, state := RUNNABLE\<rparr>) v"
    using userinit_effect [OF assms(1)] by blast
  obtain p where p: "i < length (procs s)" "procs t = (procs s)[i := p]" "new_slot (nextpid s) (procs s ! i) p"
    using allocproc_effect [OF a] by auto
  have "files_at (\<lambda>_. 0) i t" using allocproc_files [OF a assms(2)] p by (simp add: files_at_def new_slot_def live_def)
  then have t: "files_run i (t\<lparr>initproc := Some i\<rparr>)" by (rule same_files_at) simp
  have "same_files u ((upd_proc i (\<lambda>p. p\<lparr>sz := PGSIZE\<rparr>) u)\<lparr>mem := m\<rparr>)"
    by (simp add: same_files_upd fkey_def live_def del: upd_proc_simps)
  then have "same_files u (upd_proc i (\<lambda>p. p\<lparr>pname := ''initcode''\<rparr>) ((upd_proc i (\<lambda>p. p\<lparr>sz := PGSIZE\<rparr>) u)\<lparr>mem := m\<rparr>))"
    by (rule same_files_trans [OF _ same_files_upd]) (simp add: fkey_def live_def)
  then have run: "files_run i v"
    using same_files_at [OF t] same_files_more [OF more_up(1) [OF u]] same_files_more [OF v] by (blast intro: same_files_trans)
  have "same_files v s'" unfolding s'
    by (rule same_files_upd) (use files_atD(5) [OF run] in \<open>simp add: fkey_def live_def\<close>)
  then show ?thesis using same_files_at [OF run] by (simp add: files_at_def)
qed

lemma rr_visit_files: "rr_visit i (procs s) = (r, ps) \<Longrightarrow> same_files s (s\<lparr>procs := ps\<rparr>)"
proof (cases "state (procs s ! i) = RUNNABLE")
  case True
  then have "same_files s (upd_proc i (\<lambda>p. p\<lparr>state := RUNNING\<rparr>) s)" by (intro same_files_upd) (simp add: fkey_def live_def)
  moreover assume "rr_visit i (procs s) = (r, ps)"
  ultimately show ?thesis using True by (auto simp: rr_visit_def upd_proc_def)
qed (auto simp: rr_visit_def)

lemma kreach_files:
  assumes "kreach v k pbs devread devwrite dv s"
    and "\<And>me. quiet (files_run me) devread" "\<And>me. quiet (files_run me) devwrite" "\<And>me. quiet_irq (files_run me) dv"
  shows "files_ok (\<lambda>_. 0) s"
  using assms(1)
proof induction
  case (boot s)
  then show ?case by (intro procinit_files)
next
  case (first s s')
  then show ?case using userinit_files by blast
next
  case (trap s me h out t h' s')
  then have "files_run me s" by (simp add: files_at_def live_def)
  then have "trap_after (files_run me) (files_ok (\<lambda>_. 0)) out s'"
    using files.usertrap_after [OF assms(2-4), of me s v k pbs h] trap.hyps(4) by (auto simp: safeN_def)
  then show ?case by (auto simp: trap_after_def files_at_def split: if_splits)
next
  case (run s i r ps)
  then show ?case using same_files_ok [OF run.IH rr_visit_files [OF run.hyps(3)]] by simp
next
  case (again s me addr w s')
  have "same_files s (upd_proc me sleep_done s)" by (rule same_files_upd) (simp add: sleep_done_def fkey_def live_def)
  moreover have "files_run me s" using again by (simp add: files_at_def live_def)
  ultimately have "files_run me (upd_proc me sleep_done s)" by (blast intro: same_files_at)
  then have "files_run me s'" by (rule wait_files [OF again.hyps(4)])
  then show ?case by (simp add: files_at_def)
qed



end
