(* ===== verification/ExitWait.thy ===== *)
theory ExitWait
  imports ProcInv UserByte
begin

text \<open>
  How \<^verbatim>\<open>exit\<close> and \<^verbatim>\<open>wait\<close> of \<^verbatim>\<open>kernel/proc.c\<close> work together: the exit status of a process reaches its
  parent, which cannot sleep through it, and the orphans get a new parent.
\<close>

lemma exit_slot:
  assumes "exit k me status s = Ok s'" "me < length (procs s)"
  obtains ini where "initproc s = Some ini" "length (procs s') = length (procs s)"
    "\<And>i. i < length (procs s) \<Longrightarrow> pid (procs s' ! i) = pid (procs s ! i)"
    "\<And>i. i < length (procs s) \<Longrightarrow> parent (procs s' ! i) = (if parent (procs s ! i) = Some me then Some ini else parent (procs s ! i))"
    "\<And>i. i < length (procs s) \<Longrightarrow> state (procs s' ! i) = ZOMBIE \<longleftrightarrow> i = me \<or> state (procs s ! i) = ZOMBIE"
    "xstate (procs s' ! me) = status"
    "\<And>j. j < length (procs s) \<Longrightarrow> parent (procs s ! me) = Some j \<Longrightarrow> j \<noteq> me \<Longrightarrow> \<not> (state (procs s' ! j) = SLEEPING \<and> chan (procs s' ! j) = ChProc j)"
proof -
  obtain ini t ch where e: "initproc s = Some ini" "ini \<noteq> me" "same_table s t" and
    s': "s' = upd_proc me (\<lambda>p. p\<lparr>xstate := status, state := ZOMBIE, etime := kticks t\<rparr>)
      (t\<lparr>procs := wakeup (Some me) ch (reparent ini me (procs t))\<rparr>)" and
    ch: "ch = (case parent (reparent ini me (procs t) ! me) of None \<Rightarrow> NoChan | Some j \<Rightarrow> ChProc j)"
    using exit_effect [OF assms(1)] by blast
  let ?r = "reparent ini me (procs t)"
  have me: "me < length (procs t)" using same_table_len [OF e(3)] assms(2) by simp
  note len = same_table_len [OF e(3)] nth_reparent(1) [OF e(2) me]
  have k: "pkey (?r ! i) = pkey (if parent (procs s ! i) = Some me then (procs s ! i)\<lparr>parent := Some ini\<rparr> else procs s ! i)"
    if "i < length (procs s)" for i
  proof -
    have "pkey (procs t ! i) = pkey (procs s ! i)" by (rule same_table_nth [OF e(3) that])
    then show ?thesis using nth_reparent(2) [OF e(2), of i "procs t"] that len by (auto simp: pkey_def)
  qed
  have w: "pkey (wakeup (Some me) ch ?r ! i) = pkey (?r ! i)" if "i < length (procs s)" for i using that len by (simp add: nth_wakeup)
  have p: "pid (wakeup (Some me) ch ?r ! i) = pid (procs s ! i)"
    "parent (wakeup (Some me) ch ?r ! i) = (if parent (procs s ! i) = Some me then Some ini else parent (procs s ! i))"
    "state (wakeup (Some me) ch ?r ! i) = ZOMBIE \<longleftrightarrow> state (procs s ! i) = ZOMBIE" if "i < length (procs s)" for i
    using w [OF that] k [OF that] by (auto simp: pkey_def)
  have j: "\<not> (state (wakeup (Some me) ch ?r ! j) = SLEEPING \<and> chan (wakeup (Some me) ch ?r ! j) = ChProc j)"
    if "j < length (procs s)" "parent (procs s ! me) = Some j" "j \<noteq> me" for j
  proof -
    have "parent (?r ! me) = Some j" using k [OF assms(2)] that(2,3) by (simp add: pkey_def)
    then have "ch = ChProc j" by (simp add: ch)
    then show ?thesis using that len by (simp add: nth_wakeup wake_def)
  qed
  have n: "procs s' ! i = (if i = me then (wakeup (Some me) ch ?r ! me)\<lparr>xstate := status, state := ZOMBIE, etime := kticks t\<rparr>
      else wakeup (Some me) ch ?r ! i)" if "i < length (procs s)" for i
    using that len by (simp add: s' nth_list_update)
  have "length (procs s') = length (procs s)" using len by (simp add: s')
  then show thesis
    by (rule that [OF e(1)]) (simp_all add: n p j assms(2))
qed

text \<open>A parent with a zombie child does not sleep.\<close>

lemma wait_not_asleep:
  assumes "i < length (procs s)" "is_zombie_of j (procs s ! i)"
  shows "wait k j addr s \<noteq> Some (Ok (WSleep, u))"
proof -
  obtain l where "first_idx (is_zombie_of j) (procs s) = Some l" using first_idx_exists [of i "procs s" "is_zombie_of j"] assms by blast
  then show ?thesis by (simp add: wait_def wait_child_def Let_def split: prod.splits if_splits)
qed

text \<open>
  The copy of the exit status to the parent: \<open>t\<close> is the state in which the child is freed.
\<close>

definition status_at :: "uint64 \<Rightarrow> uint64 \<Rightarrow> cint \<Rightarrow> 'z kmem_scheme \<Rightarrow> bool" where
  "status_at pt addr status t \<longleftrightarrow> user_bytes t pt addr 4 = map (byte_of status) [0..<4]"

lemma status_copied:
  fixes s :: "'z kern_scheme"
  assumes ok: "copyout_ok R pt addr a 4 (s\<lparr>mem := store_le 4 (mem s) a status\<rparr>)"
    and rg: "user_range (s\<lparr>mem := store_le 4 (mem s) a status\<rparr>) pt addr 4"
  obtains m where "copyout pt addr a 4 (s\<lparr>mem := store_le 4 (mem s) a status\<rparr>) = (0, s\<lparr>mem := m\<rparr>)" "status_at pt addr status (s\<lparr>mem := m\<rparr>)"
proof -
  let ?s = "s\<lparr>mem := store_le 4 (mem s) a status\<rparr>"
  have ok': "copyout_ok R pt addr a (unat (4 :: uint64)) ?s" using ok by simp
  obtain m where m: "copyout pt addr a 4 ?s = (0, ?s\<lparr>mem := m\<rparr>)" "copied_out ?s pt addr a 4 m"
    using copyout_spec [OF ok'] rg by auto
  have pa: "user_pa (s\<lparr>mem := m\<rparr>) pt v = user_pa ?s pt v" for v using copyout_keeps(2) [OF ok' m(1)] by simp
  have "mem ?s (a + of_nat i) = byte_of status i" if "i < 4" for i
    using that by (simp add: store_le_def unat_of_nat_small)
  then have "status_at pt addr status (s\<lparr>mem := m\<rparr>)"
    using m(2) by (auto simp: status_at_def user_bytes_def copied_out_def pa)
  then show thesis using that m(1) by simp
qed


text \<open>Process 0 waits for process 1, which exits with status 3.\<close>

definition exit_example :: kern where
  "exit_example =
     zero_kern\<lparr>procs := [zero_proc\<lparr>state := SLEEPING, chan := ChProc 0, pid := 1\<rparr>,
         zero_proc\<lparr>state := RUNNING, pid := 2, parent := Some 0, cwd := Some 0\<rparr>],
       initproc := Some 0, itable := [zero_inode\<lparr>i_ref := 2\<rparr>]\<rparr>"

lemma exit_example_runs:
  "\<exists>s'. exit example_layout 1 3 exit_example = Ok s' \<and> trapframe (procs s' ! 1) = 0 \<and> pagetable (procs s' ! 1) = 0 \<and>
     state (procs s' ! 0) = RUNNABLE \<and> length (procs s') = 2"
  by (simp add: exit_def exit_example_def zero_kern_def NOFILE_def upt_rec zero_proc_def)
    (simp add: begin_op_def end_op_def iput_def commit_def upd_inode_def MAXOPBLOCKS_def LOGSIZE_def zero_inode_def
      upd_proc_def reparent_def wakeup_def wake_def)


end
