(* ===== verification/FsInode.thy ===== *)
theory FsInode
  imports FsRead
begin

text \<open>
  On-disk inodes: what \<^verbatim>\<open>iupdate\<close> of \<^verbatim>\<open>kernel/fs.c\<close> writes, \<^verbatim>\<open>ilock\<close> reads back, and the other inodes
  of the block stay as they are.
\<close>

section \<open>One on-disk inode\<close>

definition put_addrs :: "uint list \<Rightarrow> nat \<Rightarrow> nat \<Rightarrow> block \<Rightarrow> block" where
  "put_addrs as off n x = fold (\<lambda>k x. put32 x (off + 4 * k) (as ! k)) [0..<n] x"

lemma put_addrs_Suc: "put_addrs as off (Suc n) x = put32 (put_addrs as off n x) (off + 4 * n) (as ! n)"
  by (simp add: put_addrs_def)

lemma put_addrs_get:
  "k < n \<Longrightarrow> get32 (put_addrs as off n x) (off + 4 * k) = as ! k"
  "o' + m \<le> off \<Longrightarrow> get_le m (put_addrs as off n x) o' = (get_le m x o' :: 'v::len word)"
  "i < off \<or> off + 4 * n \<le> i \<Longrightarrow> put_addrs as off n x i = x i"
proof (induction n)
  case (Suc n)
  { case 1
    then show ?case using Suc by (cases "k = n") (simp_all add: put_addrs_Suc get_put_same get_put_other)
  next
    case 2
    then show ?case using Suc by (simp add: put_addrs_Suc get_put_other)
  next
    case 3
    then show ?case using Suc by (auto simp: put_addrs_Suc put_le_def)
  }
qed (simp_all add: put_addrs_def)

lemma dinode_put_addrs:
  "dinode_put ip off x = put_addrs (i_addrs ip) (off + 12) (NDIRECT + 1)
     (put32 (put16 (put16 (put16 (put16 x off (i_type ip)) (off + 2) (i_major ip)) (off + 4) (i_minor ip)) (off + 6) (i_nlink ip)) (off + 8) (i_size ip))"
  by (simp add: dinode_put_def put_addrs_def)

lemma dinode_get_put:
  assumes "length (i_addrs ip) = NDIRECT + 1"
  shows "dinode_get (dinode_put ip off x) off y =
    y\<lparr>i_type := i_type ip, i_major := i_major ip, i_minor := i_minor ip, i_nlink := i_nlink ip, i_size := i_size ip, i_addrs := i_addrs ip\<rparr>"
proof -
  have "map (\<lambda>k. get32 (dinode_put ip off x) (off + 12 + 4 * k)) [0..<NDIRECT + 1] = i_addrs ip"
    using assms by (intro nth_equalityI) (simp_all add: dinode_put_addrs put_addrs_get(1) del: upt_Suc)
  then show ?thesis
    unfolding dinode_get_def by (simp add: dinode_put_addrs put_addrs_get(2) get_put_same get_put_other)
qed

lemma dinode_put_outside: "i < off \<or> off + 64 \<le> i \<Longrightarrow> dinode_put ip off x i = x i"
  unfolding dinode_put_addrs by (subst put_addrs_get(3)) (auto simp: put_le_def NDIRECT_def)

text \<open>Two inodes are in different blocks or at different places of one block.\<close>

lemma dinode_place:
  assumes "IBLOCK m s = IBLOCK n s" "m \<noteq> n"
  shows "dinode_off m + 64 \<le> dinode_off n \<or> dinode_off n + 64 \<le> dinode_off m"
proof -
  have "m div of_nat IPB = n div of_nat IPB" using assms(1) by (simp add: IBLOCK_def)
  then have "unat (m div of_nat IPB) = unat (n div of_nat IPB)" by simp
  then have d: "unat m div IPB = unat n div IPB" by (simp add: unat_div IPB_def fs_consts)
  moreover have "unat m \<noteq> unat n" using assms(2) by (simp add: word_unat_eq_iff)
  ultimately have "unat m mod IPB \<noteq> unat n mod IPB" by (metis div_mult_mod_eq)
  then show ?thesis unfolding dinode_off_def by linarith
qed

section \<open>Writing and reading it\<close>

lemma iupdate_ok:
  fixes s :: "'z fs_scheme"
  assumes "log_inv {} s" "i_dev (itable s ! ip) = ROOTDEV"
  shows "endsR log_msgs (\<lambda>s'. log_inv {} s' \<and> log_frame s s' \<and>
    blk s' = (blk s)(IBLOCK (i_inum (itable s ! ip)) s := dinode_put (itable s ! ip) (dinode_off (i_inum (itable s ! ip))) (blk s (IBLOCK (i_inum (itable s ! ip)) s))))
    (iupdate ip s)"
  unfolding iupdate_def Let_def assms(2)
  by (rule endsR_mono [OF update_block [OF assms(1), of _ "dinode_put (itable s ! ip) (dinode_off (i_inum (itable s ! ip)))"]]) auto

lemma log_inv_itable: "log_inv H (upd_inode ip f s) = log_inv H s" "blk (upd_inode ip f s) = blk s" "logged_list (upd_inode ip f s) = logged_list s"
  "disk (upd_inode ip f s) = disk s" "bufs (upd_inode ip f s) = bufs s" "sb (upd_inode ip f s) = sb s" "cur_pid (upd_inode ip f s) = cur_pid s"
proof -
  show b: "blk (upd_inode ip f s) = blk s" by (rule blk_cong) (simp_all add: upd_inode_def)
  show "logged_list (upd_inode ip f s) = logged_list s" by (simp add: upd_inode_def logged_list_def)
  then show "log_inv H (upd_inode ip f s) = log_inv H s" by (simp add: log_inv_def bio_inv_def cached_def upd_inode_def)
qed (simp_all add: upd_inode_def)

lemma itable_upd_inode: "itable (upd_inode ip f s) = (itable s)[ip := f (itable s ! ip)]"
  by (simp add: upd_inode_def)

lemma dinode_get_lock: "dinode_get b off (x\<lparr>i_lock := lk\<rparr>) = (dinode_get b off x)\<lparr>i_lock := lk\<rparr>"
  by (cases x) (simp add: dinode_get_def)

lemma ilock_reads:
  fixes s :: "'z fs_scheme"
  assumes "log_inv {} s" "ip < length (itable s)" "x = itable s ! ip" "1 \<le> i_ref x" "\<not> slocked (i_lock x)" "\<not> i_valid x" "i_dev x = ROOTDEV"
    and "d = dinode_get (blk s (IBLOCK (i_inum x) s)) (dinode_off (i_inum x)) x" "i_type d \<noteq> 0"
  shows "endsR {''bget: no buffers''} (\<lambda>s'. log_inv {} s' \<and> blk s' = blk s \<and>
    (\<exists>lk. itable s' = (itable s)[ip := d\<lparr>i_lock := lk, i_valid := True\<rparr>])) (ilock ip s)"
proof -
  define lk where "lk = (i_lock x)\<lparr>slocked := True, spid := cur_pid s\<rparr>"
  define t where "t = upd_inode ip (\<lambda>x. x\<lparr>i_lock := lk\<rparr>) s"
  have t: "log_inv {} t" "blk t = blk s" "itable t = (itable s)[ip := x\<lparr>i_lock := lk\<rparr>]" "IBLOCK n t = IBLOCK n s" for n
    using assms(1,3) by (simp_all add: t_def log_inv_itable itable_upd_inode IBLOCK_def)
  have run: "ilock ip s = bindR (bread ROOTDEV (IBLOCK (i_inum x) s) t) (\<lambda>(bp, s).
          let s = upd_inode ip (dinode_get (data (bufs s ! bp)) (dinode_off (i_inum x))) s in
          bindR (brelse bp s) (\<lambda>s.
            let s = upd_inode ip (\<lambda>x. x\<lparr>i_valid := True\<rparr>) s in
            if i_type (itable s ! ip) = 0 then Panic ''ilock: no type'' else Ok s))"
    using assms(2,4-7) unfolding ilock_def assms(3) [symmetric]
    by (simp add: acquiresleep_def Let_def lk_def [symmetric] t_def [symmetric] t(3,4))
  show ?thesis unfolding run
  proof (rule endsR_bindI [OF log_bread [OF t(1), of "IBLOCK (i_inum x) s"]], simp, goal_cases)
    case (1 r)
    obtain bp u where r: "r = (bp, u)" by force
    have u: "log_inv {bp} u" "blockno (bufs u ! bp) = IBLOCK (i_inum x) s" "data (bufs u ! bp) = blk s (IBLOCK (i_inum x) s)" "blk u = blk s" "log_frame t u"
      "logged_list u = logged_list t" "IBLOCK (i_inum x) s \<in> set (logged_list t) \<or> blk s (IBLOCK (i_inum x) s) = disk t (IBLOCK (i_inum x) s)"
      using 1(2) r t(2) by simp_all
    define v where "v = upd_inode ip (dinode_get (data (bufs u ! bp)) (dinode_off (i_inum x))) u"
    have v: "log_inv {bp} v" "blk v = blk s" "itable v = (itable s)[ip := d\<lparr>i_lock := lk\<rparr>]"
      using u(1,3,4) log_frame_fs [OF u(5)] t(3) assms(2,3,8) by (simp_all add: v_def log_inv_itable itable_upd_inode dinode_get_lock)
    have "blockno (bufs v ! bp) \<in> set (logged_list v) \<or> data (bufs v ! bp) = disk v (blockno (bufs v ! bp))"
      using u log_frameD(7) [OF u(5)] by (simp add: v_def log_inv_itable)
    then obtain w where w: "brelse bp v = Ok w" "log_inv ({bp} - {bp}) w" "blk w = blk v" "log_frame v w"
      using log_brelse [OF v(1), of bp] by auto
    have iw: "itable w = (itable s)[ip := d\<lparr>i_lock := lk\<rparr>]" using log_frame_fs [OF w(4)] v(3) by simp
    show ?case unfolding r split Let_def v_def [symmetric] w(1) bindR.simps
      using w(2,3) v(2) iw assms(2,9) by (auto simp: log_inv_itable itable_upd_inode)
  qed
qed

text \<open>
  C17. What \<^verbatim>\<open>iupdate\<close> writes, \<^verbatim>\<open>ilock\<close> reads. Let \<^verbatim>\<open>iupdate\<close> write an in-memory inode, and let any unlocked entry
  of the table be recycled for the same inode number, as \<^verbatim>\<open>iget\<close> does it: \<^verbatim>\<open>ilock\<close> of that entry then finds
  type, device numbers, link count, size and block addresses as they were, whatever the buffer cache
  has evicted. No other on-disk inode has changed, nor any other block.
\<close>

theorem inode_update_lock_roundtrip:
  fixes s :: "'z fs_scheme"
  assumes "log_inv {} s" "x = itable s ! ip" "i_dev x = ROOTDEV" "length (i_addrs x) = NDIRECT + 1" "i_type x \<noteq> 0"
    and "jp < length (itable s)" "\<not> slocked (i_lock (itable s ! jp))"
  shows "endsR log_msgs
    (\<lambda>s'. (itable s' ! jp)\<lparr>i_ref := i_ref x, i_lock := i_lock x, i_valid := i_valid x\<rparr> = x \<and> i_valid (itable s' ! jp) \<and>
      (\<forall>n i. n \<noteq> i_inum x \<longrightarrow> i < 64 \<longrightarrow> blk s' (IBLOCK n s) (dinode_off n + i) = blk s (IBLOCK n s) (dinode_off n + i)) \<and>
      (\<forall>b. b \<noteq> IBLOCK (i_inum x) s \<longrightarrow> blk s' b = blk s b))
    (bindR (iupdate ip s) (\<lambda>s. ilock jp (upd_inode jp (\<lambda>y. y\<lparr>i_dev := i_dev x, i_inum := i_inum x, i_ref := 1, i_valid := False\<rparr>) s)))"
proof (rule endsR_bindI [OF iupdate_ok [OF assms(1)]], goal_cases)
  case 1
  then show ?case using assms(2,3) by simp
next
  case (2 t)
  let ?B = "IBLOCK (i_inum x) s" and ?o = "dinode_off (i_inum x)"
  have t: "log_inv {} t" "log_frame s t" "blk t = (blk s)(?B := dinode_put x ?o (blk s ?B))" using 2(2) assms(2) by simp_all
  note f = log_frame_fs [OF t(2)]
  define u where "u = upd_inode jp (\<lambda>y. y\<lparr>i_dev := i_dev x, i_inum := i_inum x, i_ref := 1, i_valid := False\<rparr>) t"
  define y where "y = (itable s ! jp)\<lparr>i_dev := i_dev x, i_inum := i_inum x, i_ref := 1, i_valid := False\<rparr>"
  have u: "log_inv {} u" "itable u = (itable s)[jp := y]" "blk u = blk t" "IBLOCK (i_inum y) u = ?B"
    using t(1) f by (simp_all add: u_def log_inv_itable itable_upd_inode y_def IBLOCK_def)
  define d where "d = dinode_get (blk u (IBLOCK (i_inum y) u)) (dinode_off (i_inum y)) y"
  have d: "d = y\<lparr>i_type := i_type x, i_major := i_major x, i_minor := i_minor x, i_nlink := i_nlink x, i_size := i_size x, i_addrs := i_addrs x\<rparr>"
    unfolding d_def u(4) u(3) t(3) by (simp add: dinode_get_put [OF assms(4)] y_def)
  have L: "endsR {''bget: no buffers''} (\<lambda>s'. log_inv {} s' \<and> blk s' = blk u \<and>
      (\<exists>lk. itable s' = (itable u)[jp := d\<lparr>i_lock := lk, i_valid := True\<rparr>])) (ilock jp u)"
    by (rule ilock_reads [OF u(1) _ _ _ _ _ _ d_def]) (use assms u(2) d in \<open>simp_all add: y_def\<close>)
  have other: "blk t (IBLOCK n s) (dinode_off n + i) = blk s (IBLOCK n s) (dinode_off n + i)" if "n \<noteq> i_inum x" "i < 64" for n i
    using dinode_place [of n s "i_inum x"] that by (auto simp: t(3) dinode_put_outside)
  show ?case unfolding u_def [symmetric]
  proof (rule endsR_mono [OF L], goal_cases)
    case (2 s')
    then obtain lk where s': "itable s' ! jp = d\<lparr>i_lock := lk, i_valid := True\<rparr>" "blk s' = blk t" using u assms(6) by auto
    then show ?case using other by (simp add: t(3) d y_def)
  qed simp
qed

theorem inode_update_lock_roundtrip_witness:
  "endsR log_msgs (\<lambda>s'. i_size (itable s' ! 0) = 32 \<and> i_addrs (itable s' ! 0) = 46 # replicate 12 0 \<and> blk s' 46 = blk dir_example 46)
    (bindR (iupdate 0 dir_example) (\<lambda>s. ilock 0 (upd_inode 0 (\<lambda>y. y\<lparr>i_dev := ROOTDEV, i_inum := 1, i_ref := 1, i_valid := False\<rparr>) s)))"
proof -
  have x: "root_inode = itable dir_example ! 0" by (simp add: dir_example_ok)
  have r: "i_dev root_inode = ROOTDEV" "i_inum root_inode = 1" "length (i_addrs root_inode) = NDIRECT + 1" "i_type root_inode \<noteq> 0"
    by (simp_all add: root_inode_def fs_consts T_DIR_def)
  have j: "0 < length (itable dir_example)" "\<not> slocked (i_lock (itable dir_example ! 0))"
    by (simp_all add: dir_example_ok root_inode_def initsleeplock_def)
  have B: "IBLOCK 1 dir_example = 32" by (simp add: IBLOCK_def dir_example_def binit_def binit_loop_fs fs_power_def fs_consts)
  have e: "i_size y = i_size root_inode" "i_addrs y = i_addrs root_inode"
    if "y\<lparr>i_ref := a, i_lock := b, i_valid := c\<rparr> = root_inode" for y a b c
    using that by (metis inode.select_convs inode.surjective inode.update_convs)+
  have R: "i_size root_inode = 32" "i_addrs root_inode = 46 # replicate 12 0" by (simp_all add: root_inode_def)
  show ?thesis
  proof (rule endsR_mono [OF inode_update_lock_roundtrip [OF dir_example_ok(1) x r(1,3,4) j, unfolded r(1,2) B]], goal_cases)
    case (2 s')
    then show ?case using e [OF conjunct1 [OF 2(2)]] R by simp
  qed simp
qed

end
