(* ===== verification/Spec2Isabelle.thy ===== *)
theory Spec2Isabelle
  imports KString Kalloc VmCopy Pipe Printf Sched FsRead Sh FileInv ExitWait FsInode
begin

text \<open>
  A verification library for the xv6 kernel of this repository (\<^verbatim>\<open>src/kernel\<close>).
  Plan, in order: string routines and physical memory (\<open>CMemory\<close>, \<open>KString\<close>, \<open>Riscv\<close>,
  \<open>Kalloc\<close>); ring buffers (pipe, uart, console); locks and processes; the buffer cache, the
  log and the file system; virtual memory; system calls; user programs.
\<close>

end
